(* ===== verification/Prelude.thy ===== *)
theory Prelude
  imports Main "HOL-Library.Word" "HOL-Library.AList" "HOL-Library.Multiset"
begin

text \<open>
  Shared vocabulary of the development.

  \<^item> Names for the machine integers of the Go sources (\<open>u8\<close> \dots \<open>u64\<close>), for bytes and
    for file descriptors (a Go \<open>int\<close>, negative when a syscall failed).
  \<^item> \<open>slice\<close>: Go's \<open>b[i:j]\<close> for \<open>i \<le> j\<close>; \<open>write_at\<close>: the kernel (or \<open>copy\<close>) storing bytes
    into a buffer from a given index on.
  \<^item> \<open>conn_table\<close>: the interface the engines use of a Go \<open>map[uint64]*conn\<close> (look up, store,
    delete, len), with the counting lemmas every accounting argument needs proved once, and
    its interpretation on association lists, the representation used by the models.
  \<^item> \<open>reachable\<close> and the locale \<open>inductive_invariant\<close>: invariants of transition systems.
\<close>

section \<open>Machine integers, bytes, file descriptors\<close>

type_synonym u8 = "8 word"
type_synonym u16 = "16 word"
type_synonym u32 = "32 word"
type_synonym u64 = "64 word"
type_synonym bytes = "u8 list"
type_synonym fd = int

named_theorems go_simps \<open>unfolding of small Go helpers (slices, tables, posts)\<close>

section \<open>Slices\<close>

definition slice :: "'a list \<Rightarrow> nat \<Rightarrow> nat \<Rightarrow> 'a list" where
  "slice xs i j = take (j - i) (drop i xs)"

definition write_at :: "nat \<Rightarrow> 'a list \<Rightarrow> 'a list \<Rightarrow> 'a list" where
  "write_at off ys xs = take off xs @ ys @ drop (off + length ys) xs"

lemma length_slice [simp]: "length (slice xs i j) = min (length xs - i) (j - i)"
  by (simp add: slice_def min.commute)

lemma slice_0 [simp]: "slice xs 0 n = take n xs"
  by (simp add: slice_def)

lemma slice_empty [simp]: "j \<le> i \<Longrightarrow> slice xs i j = []"
  by (simp add: slice_def)

lemma slice_eq_Nil_iff: "slice xs i j = [] \<longleftrightarrow> length xs \<le> i \<or> j \<le> i"
  by (auto simp: slice_def)

lemma take_slice: "take n (slice xs i j) = slice xs i (min j (i + n))"
proof -
  have "min n (j - i) = min j (i + n) - i" by arith
  then show ?thesis by (simp add: slice_def)
qed

lemma take_append_slice: "i \<le> j \<Longrightarrow> take i xs @ slice xs i j = take j xs"
  by (metis le_add_diff_inverse slice_def take_add)

lemma slice_append: "i \<le> j \<Longrightarrow> j \<le> k \<Longrightarrow> slice xs i j @ slice xs j k = slice xs i k"
proof -
  assume ij: "i \<le> j" and jk: "j \<le> k"
  have "slice xs i k = take ((j - i) + (k - j)) (drop i xs)"
    using ij jk by (simp add: slice_def)
  also have "\<dots> = take (j - i) (drop i xs) @ take (k - j) (drop (j - i) (drop i xs))"
    by (rule take_add)
  finally show ?thesis using ij by (simp add: slice_def)
qed

lemma slice_eq_drop_take: "slice xs i j = drop i (take j xs)"
  by (simp add: slice_def drop_take)

lemma take_slice_append:
  "n \<le> j - i \<Longrightarrow> take n (slice xs i j) @ slice xs (i + n) j = slice xs i j"
  by (metis add.commute add_diff_cancel_left' append_take_drop_id diff_diff_left drop_drop
      drop_take slice_def)

lemma length_write_at [simp]:
  "off + length ys \<le> length xs \<Longrightarrow> length (write_at off ys xs) = length xs"
  by (simp add: write_at_def)

lemma take_write_at:
  "off + length ys \<le> length xs \<Longrightarrow> take (off + length ys) (write_at off ys xs) = take off xs @ ys"
  by (simp add: write_at_def)

lemma write_at_Nil [simp]: "write_at off [] xs = xs"
  by (simp add: write_at_def)

lemma write_at_0_take: "length ys \<le> length xs \<Longrightarrow> take (length ys) (write_at 0 ys xs) = ys"
  by (simp add: write_at_def)

text \<open>A list without its \<open>i\<close>-th element: an outstanding entry that completes, a job that is taken.\<close>

definition drop_nth :: "nat \<Rightarrow> 'a list \<Rightarrow> 'a list" where
  "drop_nth i xs = take i xs @ drop (Suc i) xs"

lemma mset_drop_nth: "i < length xs \<Longrightarrow> mset xs = add_mset (xs ! i) (mset (drop_nth i xs))"
  by (metis drop_nth_def id_take_nth_drop mset.simps(2) mset_append union_mset_add_mset_right)

lemma set_drop_nth: "set (drop_nth i xs) \<subseteq> set xs"
  by (auto simp: drop_nth_def dest: in_set_takeD in_set_dropD)

section \<open>Association lists as Go maps\<close>

text \<open>
  The interface of \<open>map[uint64]*conn\<close>: \<open>lookup\<close> is \<open>m[id]\<close>, \<open>store\<close> is \<open>m[id] = c\<close>, \<open>remove\<close> is
  \<open>delete(m, id)\<close>, \<open>size\<close> is \<open>len(m)\<close>; \<open>wf\<close> is the representation invariant.
\<close>

locale conn_table =
  fixes lookup :: "'t \<Rightarrow> 'k \<Rightarrow> 'c option"
    and store :: "'k \<Rightarrow> 'c \<Rightarrow> 't \<Rightarrow> 't"
    and remove :: "'k \<Rightarrow> 't \<Rightarrow> 't"
    and tsize :: "'t \<Rightarrow> nat"
    and wf :: "'t \<Rightarrow> bool"
  assumes lookup_store: "lookup (store k c t) = (lookup t)(k := Some c)"
    and lookup_remove: "lookup (remove k t) = (lookup t)(k := None)"
    and wf_store: "wf t \<Longrightarrow> wf (store k c t)"
    and wf_remove: "wf t \<Longrightarrow> wf (remove k t)"
    and finite_dom: "finite (dom (lookup t))"
    and size_dom: "wf t \<Longrightarrow> tsize t = card (dom (lookup t))"
begin

definition total :: "('c \<Rightarrow> 'b::comm_monoid_add) \<Rightarrow> 't \<Rightarrow> 'b" where
  "total f t = (\<Sum>k\<in>dom (lookup t). f (the (lookup t k)))"

lemma dom_store: "dom (lookup (store k c t)) = insert k (dom (lookup t))"
  by (simp add: lookup_store)

lemma dom_remove: "dom (lookup (remove k t)) = dom (lookup t) - {k}"
  by (auto simp: lookup_remove)

lemma size_store_new: "wf t \<Longrightarrow> lookup t k = None \<Longrightarrow> tsize (store k c t) = Suc (tsize t)"
  by (simp add: size_dom wf_store dom_store finite_dom card_insert_disjoint domIff)

lemma size_store_old: "wf t \<Longrightarrow> lookup t k = Some c0 \<Longrightarrow> tsize (store k c t) = tsize t"
  by (simp add: size_dom wf_store dom_store insert_absorb domI)

lemma size_remove: "wf t \<Longrightarrow> lookup t k = Some c \<Longrightarrow> Suc (tsize (remove k t)) = tsize t"
proof -
  assume wf: "wf t" and k: "lookup t k = Some c"
  have "Suc (card (dom (lookup t) - {k})) = card (dom (lookup t))"
    by (rule card.remove [OF finite_dom, symmetric]) (use k in blast)
  with wf show ?thesis by (simp add: size_dom wf_remove dom_remove)
qed

lemma total_split:
  "lookup t k = Some c \<Longrightarrow>
   total f t = f c + (\<Sum>j\<in>dom (lookup t) - {k}. f (the (lookup t j)))"
  by (simp add: total_def sum.remove [OF finite_dom domI])

lemma total_store_old:
  "lookup t k = Some c0 \<Longrightarrow> total f (store k c t) + f c0 = total f t + f c"
proof -
  assume k: "lookup t k = Some c0"
  have rest: "(\<Sum>j\<in>dom (lookup (store k c t)) - {k}. f (the (lookup (store k c t) j)))
      = (\<Sum>j\<in>dom (lookup t) - {k}. f (the (lookup t j)))"
    by (rule sum.cong) (auto simp: lookup_store)
  have "total f (store k c t) = f c + (\<Sum>j\<in>dom (lookup t) - {k}. f (the (lookup t j)))"
    using total_split [of "store k c t" k c f] rest by (simp add: lookup_store)
  with total_split [OF k, of f] show ?thesis by (simp add: add_ac)
qed

lemma total_store_new: "lookup t k = None \<Longrightarrow> total f (store k c t) = total f t + f c"
proof -
  assume k: "lookup t k = None"
  have rest: "(\<Sum>j\<in>dom (lookup (store k c t)) - {k}. f (the (lookup (store k c t) j)))
      = total f t"
    unfolding total_def using k by (intro sum.cong) (auto simp: lookup_store domIff)
  show ?thesis
    using total_split [of "store k c t" k c f] rest by (simp add: lookup_store add.commute)
qed

lemma total_remove: "lookup t k = Some c \<Longrightarrow> total f (remove k t) + f c = total f t"
proof -
  assume k: "lookup t k = Some c"
  have "total f (remove k t) = (\<Sum>j\<in>dom (lookup t) - {k}. f (the (lookup t j)))"
    unfolding total_def by (rule sum.cong) (auto simp: lookup_remove dom_remove)
  with total_split [OF k, of f] show ?thesis by (simp add: add.commute)
qed

end

text \<open>The representation used by the models: an association list with distinct keys.\<close>

definition keys_distinct :: "('k \<times> 'c) list \<Rightarrow> bool" where
  "keys_distinct t \<longleftrightarrow> distinct (map fst t)"

definition tally :: "('c \<Rightarrow> 'b::comm_monoid_add) \<Rightarrow> ('k \<times> 'c) list \<Rightarrow> 'b" where
  "tally f t = sum_list (map (\<lambda>kc. f (snd kc)) t)"

interpretation ctab: conn_table map_of AList.update AList.delete length keys_distinct
proof
  fix k :: 'k and c :: 'c and t :: "('k \<times> 'c) list"
  show "map_of (AList.update k c t) = (map_of t)(k := Some c)"
    by (rule update_conv')
  show "map_of (AList.delete k t) = (map_of t)(k := None)"
    by (rule delete_conv')
  show "keys_distinct t \<Longrightarrow> keys_distinct (AList.update k c t)"
    by (simp add: keys_distinct_def distinct_update)
  show "keys_distinct t \<Longrightarrow> keys_distinct (AList.delete k t)"
    by (simp add: keys_distinct_def distinct_delete)
  show "finite (dom (map_of t))"
    by (rule finite_dom_map_of)
  assume "keys_distinct t"
  then show "length t = card (dom (map_of t))"
    by (metis dom_map_of_conv_image_fst distinct_card keys_distinct_def length_map list.set_map)
qed

lemma tally_total: "keys_distinct t \<Longrightarrow> tally f t = ctab.total f t"
proof (induction t)
  case Nil
  then show ?case by (simp add: tally_def ctab.total_def)
next
  case (Cons kc t)
  obtain k c where kc: "kc = (k, c)" by fastforce
  from Cons.prems have k: "k \<notin> fst ` set t" and t: "keys_distinct t"
    by (auto simp: keys_distinct_def kc)
  have dom: "dom (map_of (kc # t)) = insert k (dom (map_of t))" by (simp add: kc)
  have kd: "k \<notin> dom (map_of t)" using k by (simp add: dom_map_of_conv_image_fst)
  have "ctab.total f (kc # t) = f c + (\<Sum>j\<in>dom (map_of t). f (the (map_of (kc # t) j)))"
    unfolding ctab.total_def dom using kd by (simp add: kc finite_dom_map_of)
  also have "(\<Sum>j\<in>dom (map_of t). f (the (map_of (kc # t) j))) = ctab.total f t"
    unfolding ctab.total_def using kd by (intro sum.cong) (auto simp: kc)
  finally show ?case using Cons.IH [OF t] by (simp add: tally_def kc)
qed

lemma tally_store_old:
  "keys_distinct t \<Longrightarrow> map_of t k = Some c0 \<Longrightarrow>
   tally f (AList.update k c t) + f c0 = tally f t + f c"
  by (simp add: tally_total ctab.wf_store ctab.total_store_old)

lemma tally_store_new:
  "keys_distinct t \<Longrightarrow> map_of t k = None \<Longrightarrow> tally f (AList.update k c t) = tally f t + f c"
  by (simp add: tally_total ctab.wf_store ctab.total_store_new)

lemma tally_remove:
  "keys_distinct t \<Longrightarrow> map_of t k = Some c \<Longrightarrow> tally f (AList.delete k t) + f c = tally f t"
  by (simp add: tally_total ctab.wf_remove ctab.total_remove)

section \<open>Transition systems and their invariants\<close>

inductive reachable :: "('s \<Rightarrow> bool) \<Rightarrow> ('s \<Rightarrow> 'e \<Rightarrow> 's \<Rightarrow> bool) \<Rightarrow> 's \<Rightarrow> bool"
  for start :: "'s \<Rightarrow> bool" and trans :: "'s \<Rightarrow> 'e \<Rightarrow> 's \<Rightarrow> bool" where
  reach_start: "start s \<Longrightarrow> reachable start trans s"
| reach_step: "reachable start trans s \<Longrightarrow> trans s e s' \<Longrightarrow> reachable start trans s'"

locale inductive_invariant =
  fixes start :: "'s \<Rightarrow> bool"
    and trans :: "'s \<Rightarrow> 'e \<Rightarrow> 's \<Rightarrow> bool"
    and inv :: "'s \<Rightarrow> bool"
  assumes start_inv: "start s \<Longrightarrow> inv s"
    and trans_inv: "inv s \<Longrightarrow> trans s e s' \<Longrightarrow> inv s'"
begin

lemma reachable_inv: "reachable start trans s \<Longrightarrow> inv s"
  by (induction rule: reachable.induct) (auto intro: start_inv trans_inv)

end

end
