(* ===== verification/Engine_Api.thy ===== *)
theory Engine_Api
  imports Prelude
begin

text \<open>
  The public surface of the engine, \<open>flashrelay/flashrelay.go\<close>: what a hook returns
  (\<open>Decision\<close>), the configuration and its defaults, the validation in \<open>New\<close>, the counters and
  the snapshot \<open>Stat\<close>.

  Go \<open>int\<close> fields are \<open>int\<close>; \<open>RingSize\<close>, a Go \<open>uint\<close>, is a \<open>nat\<close>; the counters are atomic
  \<open>uint64\<close>s, so they are 64-bit words and wrap. \<open>IdleTimeout\<close> is a \<open>time.Duration\<close>, an integer
  number of nanoseconds. \<open>runtime.NumCPU()\<close> is the argument \<open>ncpu\<close> of \<open>defaults\<close>.
\<close>

section \<open>Decisions\<close>

record decision =
  UpstreamFD :: fd
  Reply :: bytes
  Reject :: bool
  More :: bool
  Consumed :: int

text \<open>The clamping of \<open>Consumed\<close> to the accumulated request length, as a Go integer.\<close>

definition clamp_consumed :: "int \<Rightarrow> nat \<Rightarrow> nat" where
  "clamp_consumed k n =
    (let i = k;
         i = (if i < 0 then 0 else i);
         i = (if i > int n then int n else i)
     in nat i)"

lemma clamp_consumed_le: "clamp_consumed k n \<le> n"
  by (auto simp: clamp_consumed_def Let_def)

lemma clamp_consumed_id: "0 \<le> k \<Longrightarrow> k \<le> int n \<Longrightarrow> clamp_consumed k n = nat k"
  by (simp add: clamp_consumed_def)

lemma clamp_consumed_neg: "k \<le> 0 \<Longrightarrow> clamp_consumed k n = 0"
  by (simp add: clamp_consumed_def)

section \<open>Configuration\<close>

record config =
  Addr :: string
  Port :: int
  Workers :: int
  Pin :: bool
  StartCore :: int
  InitialReqLen :: int
  MaxReqLen :: int
  BufSize :: int
  MaxConns :: int
  AcceptBatch :: int
  IdleTimeout :: int
  HookWorkers :: int
  RingSize :: nat

definition defaults :: "int \<Rightarrow> config \<Rightarrow> config" where
  "defaults ncpu c =
    (let c = (if Workers c \<le> 0 then c\<lparr>Workers := ncpu\<rparr> else c);
         c = (if InitialReqLen c \<le> 0 then c\<lparr>InitialReqLen := 64\<rparr> else c);
         c = (if MaxReqLen c \<le> 0 then c\<lparr>MaxReqLen := 8192\<rparr> else c);
         c = (if MaxReqLen c < InitialReqLen c then c\<lparr>MaxReqLen := InitialReqLen c\<rparr> else c);
         c = (if BufSize c \<le> 0 then c\<lparr>BufSize := 16384\<rparr> else c);
         c = (if MaxConns c \<le> 0 then c\<lparr>MaxConns := 50000\<rparr> else c);
         c = (if AcceptBatch c \<le> 0 then c\<lparr>AcceptBatch := 64\<rparr> else c);
         c = (if HookWorkers c \<le> 0 then c\<lparr>HookWorkers := 256\<rparr> else c);
         c = (if RingSize c = 0 then c\<lparr>RingSize := 4096\<rparr> else c)
     in c)"

text \<open>What every component relies on after \<open>defaults\<close>.\<close>

definition config_ok :: "config \<Rightarrow> bool" where
  "config_ok c \<longleftrightarrow>
     0 < Workers c \<and> 0 < InitialReqLen c \<and> InitialReqLen c \<le> MaxReqLen c \<and> 0 < BufSize c \<and>
     0 < MaxConns c \<and> 0 < AcceptBatch c \<and> 0 < HookWorkers c \<and> 0 < RingSize c"

text \<open>Conditional updates field by field, so that \<open>defaults\<close> is one record update.\<close>

lemma config_if_update:
  "(if b then c\<lparr>Workers := i\<rparr> else c) = c\<lparr>Workers := if b then i else Workers c\<rparr>"
  "(if b then c\<lparr>InitialReqLen := i\<rparr> else c) = c\<lparr>InitialReqLen := if b then i else InitialReqLen c\<rparr>"
  "(if b then c\<lparr>MaxReqLen := i\<rparr> else c) = c\<lparr>MaxReqLen := if b then i else MaxReqLen c\<rparr>"
  "(if b then c\<lparr>BufSize := i\<rparr> else c) = c\<lparr>BufSize := if b then i else BufSize c\<rparr>"
  "(if b then c\<lparr>MaxConns := i\<rparr> else c) = c\<lparr>MaxConns := if b then i else MaxConns c\<rparr>"
  "(if b then c\<lparr>AcceptBatch := i\<rparr> else c) = c\<lparr>AcceptBatch := if b then i else AcceptBatch c\<rparr>"
  "(if b then c\<lparr>HookWorkers := i\<rparr> else c) = c\<lparr>HookWorkers := if b then i else HookWorkers c\<rparr>"
  "(if b then c\<lparr>RingSize := n\<rparr> else c) = c\<lparr>RingSize := if b then n else RingSize c\<rparr>"
  by simp_all

lemma defaults_fields:
  "Addr (defaults ncpu c) = Addr c"
  "Port (defaults ncpu c) = Port c"
  "Workers (defaults ncpu c) = (if Workers c \<le> 0 then ncpu else Workers c)"
  "Pin (defaults ncpu c) = Pin c"
  "StartCore (defaults ncpu c) = StartCore c"
  "InitialReqLen (defaults ncpu c) = (if InitialReqLen c \<le> 0 then 64 else InitialReqLen c)"
  "MaxReqLen (defaults ncpu c) =
     max (if MaxReqLen c \<le> 0 then 8192 else MaxReqLen c) (InitialReqLen (defaults ncpu c))"
  "BufSize (defaults ncpu c) = (if BufSize c \<le> 0 then 16384 else BufSize c)"
  "MaxConns (defaults ncpu c) = (if MaxConns c \<le> 0 then 50000 else MaxConns c)"
  "AcceptBatch (defaults ncpu c) = (if AcceptBatch c \<le> 0 then 64 else AcceptBatch c)"
  "IdleTimeout (defaults ncpu c) = IdleTimeout c"
  "HookWorkers (defaults ncpu c) = (if HookWorkers c \<le> 0 then 256 else HookWorkers c)"
  "RingSize (defaults ncpu c) = (if RingSize c = 0 then 4096 else RingSize c)"
  unfolding defaults_def Let_def config_if_update by (simp_all add: max_def)

lemma config_ok_defaults: "0 < ncpu \<Longrightarrow> config_ok (defaults ncpu c)"
  by (auto simp: config_ok_def defaults_fields)

text \<open>Every test of \<open>defaults\<close> is false on a configuration that is already complete.\<close>

lemma defaults_config_ok: "config_ok c \<Longrightarrow> defaults ncpu c = c"
  by (simp add: defaults_def config_ok_def Let_def)

lemma defaults_idem: "0 < ncpu \<Longrightarrow> defaults ncpu (defaults ncpu c) = defaults ncpu c"
  by (rule defaults_config_ok) (rule config_ok_defaults)

section \<open>Counters and Stat\<close>

record counters =
  accepted :: u64
  completed :: u64
  rejected :: u64
  shed :: u64
  idleClosed :: u64
  errors :: u64
  bytesC2U :: u64
  bytesU2C :: u64
  live :: u64
  cqOverflow :: u64

definition zero_counters :: counters where
  "zero_counters = \<lparr>accepted = 0, completed = 0, rejected = 0, shed = 0, idleClosed = 0, errors = 0,
     bytesC2U = 0, bytesU2C = 0, live = 0, cqOverflow = 0\<rparr>"

record stats =
  Accepted :: u64
  Completed :: u64
  Rejected :: u64
  Shed :: u64
  IdleClosed :: u64
  Errors :: u64
  BytesC2U :: u64
  BytesU2C :: u64
  LiveConns :: u64
  CQOverflow :: u64

definition Stat :: "counters \<Rightarrow> stats" where
  "Stat c = \<lparr>Accepted = accepted c, Completed = completed c, Rejected = rejected c, Shed = shed c,
     IdleClosed = idleClosed c, Errors = errors c, BytesC2U = bytesC2U c, BytesU2C = bytesU2C c,
     LiveConns = live c, CQOverflow = cqOverflow c\<rparr>"

section \<open>The server and its constructor\<close>

datatype new_error = NilHook | InvalidPort int

text \<open>
  The fields of \<open>Server\<close> but for the wait group: the configuration, the hook (a Go function value,
  \<open>None\<close> when nil), the shared counters and the stop flag.
\<close>

record 'h server =
  cfg :: config
  hook :: 'h
  cnt :: counters
  stop :: bool

definition New :: "int \<Rightarrow> config \<Rightarrow> 'h option \<Rightarrow> new_error + 'h server" where
  "New ncpu c h =
    (case h of
       None \<Rightarrow> Inl NilHook
     | Some f \<Rightarrow>
         if Port c \<le> 0 then Inl (InvalidPort (Port c))
         else Inr \<lparr>cfg = defaults ncpu c, hook = f, cnt = zero_counters, stop = False\<rparr>)"

definition Stop :: "'h server \<Rightarrow> 'h server" where
  "Stop s = s\<lparr>stop := True\<rparr>"

lemma New_config_ok: "0 < ncpu \<Longrightarrow> New ncpu c h = Inr s \<Longrightarrow> config_ok (cfg s)"
  by (auto simp: New_def config_ok_defaults split: option.splits if_splits)

end
