(* ===== verification/Bridge.thy ===== *)
theory Bridge
  imports Engine_Api
begin

text \<open>
  The wake-up bridge between the hook goroutines and the ring worker (\<open>type bridge\<close> in
  \<open>flashrelay/worker.go\<close>, and its twin in \<open>research/gate/cmd/relay-uring/main.go\<close>): results are
  appended to \<open>ready\<close> under the mutex, and the eventfd is written only when no wake-up is
  outstanding. This theory holds the two operations as the worker sees them; the theory
  \<open>Bridge_Concurrency\<close> splits them into their atomic steps.
\<close>

text \<open>
  \<open>ready\<close> and \<open>notified\<close> are the fields of the struct; \<open>wakes\<close> is the counter of the kernel's
  eventfd object behind the field \<open>efd\<close>: a write adds to it, a completed read resets it.
\<close>

record 'r bridge =
  ready :: "'r list"
  notified :: u32
  wakes :: nat

definition new_bridge :: "'r bridge" where
  "new_bridge = \<lparr>ready = [], notified = 0, wakes = 0\<rparr>"

definition push :: "'r \<Rightarrow> 'r bridge \<Rightarrow> 'r bridge" where
  "push r b =
    (let b = b\<lparr>ready := ready b @ [r]\<rparr>;
         old = notified b;
         b = b\<lparr>notified := 1\<rparr>
     in if old = 0 then b\<lparr>wakes := wakes b + 1\<rparr> else b)"

definition drain :: "'r bridge \<Rightarrow> 'r list \<times> 'r bridge" where
  "drain b = (let r = ready b in (r, b\<lparr>ready := []\<rparr>))"

lemma push_simps [simp]:
  "ready (push r b) = ready b @ [r]"
  "notified (push r b) = 1"
  by (simp_all add: push_def Let_def)

lemma drain_simps [simp]:
  "fst (drain b) = ready b"
  "ready (snd (drain b)) = []"
  "notified (snd (drain b)) = notified b"
  "wakes (snd (drain b)) = wakes b"
  by (simp_all add: drain_def)

text \<open>What holds between two steps: nothing waits unless a wake-up is outstanding.\<close>

definition bridge_ok :: "'r bridge \<Rightarrow> bool" where
  "bridge_ok b \<longleftrightarrow> (if notified b = 0 then ready b = [] else 0 < wakes b)"

lemma bridge_ok_push: "bridge_ok b \<Longrightarrow> bridge_ok (push r b)"
  by (simp add: bridge_ok_def push_def Let_def)

end
