(* ===== verification/Worker.thy ===== *)
theory Worker
  imports Bridge
begin

text \<open>
  The per-core ring engine, \<open>flashrelay/worker.go\<close>, handler by handler.

  The state \<open>worker\<close> holds the local variables of \<open>runWorker\<close>: the connection map, the accept
  bookkeeping, the tick counter, this worker's share of the counters, the bridge, the submission
  entries posted and not yet completed (\<open>sq\<close>, in the order they were posted), the hook jobs handed
  to the pool, and the direct system calls made so far. A handler is a function from the completion
  to the new state; \<open>None\<close> is a Go run-time panic (the address of an empty slice, or a slice out of
  range), so the absence of panics is a theorem and not an assumption.

  A \<open>*conn\<close> is the value stored in the map under its id. Where the code assigns to fields of \<open>cc\<close>,
  the definitions update the local value and store it back with \<open>putc\<close>.
\<close>

section \<open>Operations and user data\<close>

datatype op =
    OpAccept | OpEventfd | OpRecvReq | OpReplyClient | OpReplyMore | OpSendUp | OpRejectSend
  | OpC2URecv | OpC2USend | OpU2CRecv | OpU2CSend | OpClose | OpTimeout

fun opcode :: "op \<Rightarrow> u8" where
  "opcode OpAccept = 1"
| "opcode OpEventfd = 2"
| "opcode OpRecvReq = 3"
| "opcode OpReplyClient = 4"
| "opcode OpReplyMore = 5"
| "opcode OpSendUp = 6"
| "opcode OpRejectSend = 7"
| "opcode OpC2URecv = 8"
| "opcode OpC2USend = 9"
| "opcode OpU2CRecv = 10"
| "opcode OpU2CSend = 11"
| "opcode OpClose = 12"
| "opcode OpTimeout = 13"

unbundle bit_operations_syntax

definition ud :: "u64 \<Rightarrow> u8 \<Rightarrow> u64" where
  "ud i o' = push_bit 8 i OR ucast o'"

definition unpack :: "u64 \<Rightarrow> u64 \<times> u8" where
  "unpack u = (drop_bit 8 u, ucast (u AND 0xff))"

section \<open>Connections, jobs, results\<close>

record conn =
  conn_id :: nat
  clientFD :: fd
  upstreamFD :: fd
  reqBuf :: bytes
  reqN :: nat
  initSent :: nat
  replyBuf :: bytes
  replyOff :: nat
  replyEnd :: nat
  closing :: bool
  closesLeft :: int
  relayStarted :: bool
  counted :: bool
  lastTick :: nat
  c2uBuf :: bytes
  u2cBuf :: bytes
  c2uOff :: nat
  c2uEnd :: nat
  u2cOff :: nat
  u2cEnd :: nat
  clientReadDone :: bool
  upstreamReadDone :: bool

definition new_conn :: "nat \<Rightarrow> fd \<Rightarrow> nat \<Rightarrow> nat \<Rightarrow> conn" where
  "new_conn i f n t = \<lparr>conn_id = i, clientFD = f, upstreamFD = 0, reqBuf = replicate n 0, reqN = 0,
     initSent = 0, replyBuf = [], replyOff = 0, replyEnd = 0, closing = False, closesLeft = 0,
     relayStarted = False, counted = False, lastTick = t, c2uBuf = [], u2cBuf = [], c2uOff = 0,
     c2uEnd = 0, u2cOff = 0, u2cEnd = 0, clientReadDone = False, upstreamReadDone = False\<rparr>"

record job =
  job_id :: nat
  job_clientFD :: fd
  job_req :: bytes

record hookResult =
  res_id :: nat
  dec :: decision

section \<open>Submission entries\<close>

text \<open>
  A posted submission entry: the request, and the user data as the pair that \<open>ud\<close> packs (the
  packing itself is \<open>ud\<close>/\<open>unpack\<close> above). A receive names the connection buffer it fills, with
  offset and length; a send carries the bytes of the slice it was given, which no handler
  changes while the send is outstanding.
\<close>

datatype bufref = ReqBuf | C2UBuf | U2CBuf

datatype request =
    Accept fd
  | Read fd
  | Recv fd bufref nat nat
  | Send fd bytes
  | Close fd
  | Timeout

record sqe =
  sqe_req :: request
  sqe_id :: nat
  sqe_op :: op

text \<open>
  The preparation helpers take the address of the first byte of the slice they are given, which
  panics on an empty slice; slicing itself panics out of range.
\<close>

definition prep_recv :: "fd \<Rightarrow> bufref \<Rightarrow> nat \<Rightarrow> nat \<Rightarrow> nat \<Rightarrow> op \<Rightarrow> sqe option" where
  "prep_recv f b i j cid o' =
    (if i < j then Some \<lparr>sqe_req = Recv f b i (j - i), sqe_id = cid, sqe_op = o'\<rparr> else None)"

definition prep_send :: "fd \<Rightarrow> bytes \<Rightarrow> nat \<Rightarrow> nat \<Rightarrow> nat \<Rightarrow> op \<Rightarrow> sqe option" where
  "prep_send f buf i j cid o' =
    (if i < j \<and> j \<le> length buf
     then Some \<lparr>sqe_req = Send f (slice buf i j), sqe_id = cid, sqe_op = o'\<rparr> else None)"

definition prep_close :: "fd \<Rightarrow> nat \<Rightarrow> sqe" where
  "prep_close f cid = \<lparr>sqe_req = Close f, sqe_id = cid, sqe_op = OpClose\<rparr>"

section \<open>The worker state\<close>

datatype syscall = SysClose fd | SysShutdown fd

record worker =
  conns :: "(nat \<times> conn) list"
  nextID :: nat
  tick :: nat
  acceptInflight :: int
  counts :: counters
  br :: "hookResult bridge"
  sq :: "sqe list"
  jobs :: "job list"
  syscalls :: "syscall list"
  lastOverflow :: u32
  warnedOverflow :: bool
  ln_FD :: fd
  efd :: fd
  exited :: bool

definition post :: "sqe \<Rightarrow> worker \<Rightarrow> worker" where
  "post q s = s\<lparr>sq := sq s @ [q]\<rparr>"

definition putc :: "conn \<Rightarrow> worker \<Rightarrow> worker" where
  "putc cc s = s\<lparr>conns := AList.update (conn_id cc) cc (conns s)\<rparr>"

definition sys :: "syscall \<Rightarrow> worker \<Rightarrow> worker" where
  "sys c s = s\<lparr>syscalls := syscalls s @ [c]\<rparr>"

definition count :: "(counters \<Rightarrow> counters) \<Rightarrow> worker \<Rightarrow> worker" where
  "count f s = s\<lparr>counts := f (counts s)\<rparr>"

definition idle_ticks :: "config \<Rightarrow> nat" where
  "idle_ticks c =
    (if IdleTimeout c > 0
     then (let t = nat (IdleTimeout c div 100000000) in if t = 0 then 1 else t)
     else 0)"

section \<open>The closures of the worker\<close>

definition closeConn :: "conn \<Rightarrow> worker \<Rightarrow> worker" where
  "closeConn cc s =
    (if closing cc then putc cc s
     else
       let cc = cc\<lparr>closing := True\<rparr>;
           s = count (\<lambda>c. c\<lparr>live := live c + NOT 0\<rparr>) s;
           cc = cc\<lparr>closesLeft := 0\<rparr>;
           (cc, s) = (if clientFD cc > 0
                      then (cc\<lparr>closesLeft := closesLeft cc + 1\<rparr>, post (prep_close (clientFD cc) (conn_id cc)) s)
                      else (cc, s));
           (cc, s) = (if upstreamFD cc > 0
                      then (cc\<lparr>closesLeft := closesLeft cc + 1\<rparr>, post (prep_close (upstreamFD cc) (conn_id cc)) s)
                      else (cc, s));
           s = putc cc s
       in if closesLeft cc = 0 then s\<lparr>conns := AList.delete (conn_id cc) (conns s)\<rparr> else s)"

definition startDuplex :: "config \<Rightarrow> conn \<Rightarrow> worker \<Rightarrow> worker option" where
  "startDuplex c cc s =
    (let cc = cc\<lparr>relayStarted := True\<rparr>;
         cc = cc\<lparr>reqBuf := [], replyBuf := []\<rparr>;
         cc = cc\<lparr>c2uBuf := replicate (nat (BufSize c)) 0\<rparr>;
         cc = cc\<lparr>u2cBuf := replicate (nat (BufSize c)) 0\<rparr>;
         s = putc cc s
     in case prep_recv (clientFD cc) C2UBuf 0 (length (c2uBuf cc)) (conn_id cc) OpC2URecv of
          None \<Rightarrow> None
        | Some q \<Rightarrow>
            (let s = post q s
             in map_option (\<lambda>q'. post q' s)
                  (prep_recv (upstreamFD cc) U2CBuf 0 (length (u2cBuf cc)) (conn_id cc) OpU2CRecv)))"

definition fail :: "conn \<Rightarrow> worker \<Rightarrow> worker" where
  "fail cc s =
    (if \<not> counted cc
     then closeConn (cc\<lparr>counted := True\<rparr>) (count (\<lambda>c. c\<lparr>errors := errors c + 1\<rparr>) s)
     else closeConn cc s)"

definition postRecvReq :: "conn \<Rightarrow> worker \<Rightarrow> worker option" where
  "postRecvReq cc s =
    map_option (\<lambda>q. post q (putc cc s))
      (prep_recv (clientFD cc) ReqBuf (reqN cc) (length (reqBuf cc)) (conn_id cc) OpRecvReq)"

text \<open>\<open>None\<close> is the result \<open>false\<close>: the cap is hit.\<close>

definition growReq :: "config \<Rightarrow> conn \<Rightarrow> conn option" where
  "growReq c cc =
    (if reqN cc < length (reqBuf cc) then Some cc
     else if int (length (reqBuf cc)) \<ge> MaxReqLen c then None
     else
       let n = int (length (reqBuf cc)) * 2;
           n = (if n > MaxReqLen c then MaxReqLen c else n);
           nb = replicate (nat n) 0;
           nb = write_at 0 (take (reqN cc) (reqBuf cc)) nb
       in Some (cc\<lparr>reqBuf := nb\<rparr>))"

definition forwardInit :: "config \<Rightarrow> conn \<Rightarrow> worker \<Rightarrow> worker option" where
  "forwardInit c cc s =
    (if initSent cc \<ge> reqN cc then startDuplex c cc s
     else map_option (\<lambda>q. post q (putc cc s))
            (prep_send (upstreamFD cc) (reqBuf cc) (initSent cc) (reqN cc) (conn_id cc) OpSendUp))"

definition postAccept :: "worker \<Rightarrow> worker" where
  "postAccept s =
    (let s = post \<lparr>sqe_req = Accept (ln_FD s), sqe_id = 0, sqe_op = OpAccept\<rparr> s
     in s\<lparr>acceptInflight := acceptInflight s + 1\<rparr>)"

definition postEventfd :: "worker \<Rightarrow> worker" where
  "postEventfd s = post \<lparr>sqe_req = Read (efd s), sqe_id = 0, sqe_op = OpEventfd\<rparr> s"

definition postTimeout :: "worker \<Rightarrow> worker" where
  "postTimeout s = post \<lparr>sqe_req = Timeout, sqe_id = 0, sqe_op = OpTimeout\<rparr> s"

text \<open>Sending the reply of a decision, from its first byte: \<open>cc.replyBuf, cc.replyOff, cc.replyEnd = \<dots>\<close>.\<close>

definition send_reply :: "conn \<Rightarrow> bytes \<Rightarrow> op \<Rightarrow> worker \<Rightarrow> worker option" where
  "send_reply cc rep o' s =
    (let cc = cc\<lparr>replyBuf := rep, replyOff := 0, replyEnd := length rep\<rparr>
     in map_option (\<lambda>q. post q (putc cc s))
          (prep_send (clientFD cc) (replyBuf cc) 0 (length (replyBuf cc)) (conn_id cc) o'))"

section \<open>Completion handlers\<close>

text \<open>\<open>cc := conns[cid]; if cc == nil || cc.closing { break }\<close>\<close>

definition with_conn :: "nat \<Rightarrow> worker \<Rightarrow> (conn \<Rightarrow> worker option) \<Rightarrow> worker option" where
  "with_conn cid s f =
    (case map_of (conns s) cid of
       None \<Rightarrow> Some s
     | Some cc \<Rightarrow> if closing cc then Some s else f cc)"

definition on_accept :: "config \<Rightarrow> int \<Rightarrow> worker \<Rightarrow> worker option" where
  "on_accept c res s =
    (let s = s\<lparr>acceptInflight := acceptInflight s - 1\<rparr>
     in if res < 0 then Some (count (\<lambda>n. n\<lparr>errors := errors n + 1\<rparr>) s)
     else
       let s = count (\<lambda>n. n\<lparr>accepted := accepted n + 1\<rparr>) s
       in if int (length (conns s)) \<ge> MaxConns c
       then Some (post (prep_close res 0) (count (\<lambda>n. n\<lparr>shed := shed n + 1\<rparr>) s))
       else
         let s = s\<lparr>nextID := nextID s + 1\<rparr>;
             cc = new_conn (nextID s) res (nat (InitialReqLen c)) (tick s);
             s = putc cc s;
             s = count (\<lambda>n. n\<lparr>live := live n + 1\<rparr>) s
         in map_option (\<lambda>q. post q s)
              (prep_recv (clientFD cc) ReqBuf 0 (length (reqBuf cc)) (conn_id cc) OpRecvReq))"

definition on_recvReq :: "nat \<Rightarrow> int \<Rightarrow> worker \<Rightarrow> worker option" where
  "on_recvReq cid res s = with_conn cid s (\<lambda>cc.
    if res \<le> 0 then Some (fail cc s)
    else
      let cc = cc\<lparr>reqN := reqN cc + nat res\<rparr>;
          cc = cc\<lparr>lastTick := tick s\<rparr>;
          s = putc cc s
      in if reqN cc \<le> length (reqBuf cc)
         then Some (s\<lparr>jobs := jobs s @ [\<lparr>job_id = conn_id cc, job_clientFD = clientFD cc,
                                          job_req = take (reqN cc) (reqBuf cc)\<rparr>]\<rparr>)
         else None)"

text \<open>One iteration of the loop over the drained hook results.\<close>

definition handle_result :: "config \<Rightarrow> hookResult \<Rightarrow> worker \<Rightarrow> worker option" where
  "handle_result c r s =
    (let d = dec r;
         drop_fd = (\<lambda>s. if UpstreamFD d > 0 then sys (SysClose (UpstreamFD d)) s else s)
     in case map_of (conns s) (res_id r) of
       None \<Rightarrow> Some (drop_fd s)
     | Some cc \<Rightarrow>
       if closing cc then Some (drop_fd s)
       else
         let cc = cc\<lparr>lastTick := tick s\<rparr>
         in if Reject d then
              let s = drop_fd s;
                  s = count (\<lambda>n. n\<lparr>rejected := rejected n + 1\<rparr>) s;
                  cc = cc\<lparr>counted := True\<rparr>
              in if length (Reply d) > 0 then send_reply cc (Reply d) OpRejectSend s
                 else Some (closeConn cc s)
            else if More d then
              let s = drop_fd s
              in case growReq c cc of
                   None \<Rightarrow> Some (fail cc s)
                 | Some cc \<Rightarrow>
                     if length (Reply d) > 0 then send_reply cc (Reply d) OpReplyMore s
                     else postRecvReq cc s
            else
              let cc = cc\<lparr>upstreamFD := UpstreamFD d\<rparr>;
                  cc = cc\<lparr>initSent := clamp_consumed (Consumed d) (reqN cc)\<rparr>
              in if length (Reply d) > 0 then send_reply cc (Reply d) OpReplyClient s
                 else forwardInit c cc s)"

fun handle_results :: "config \<Rightarrow> hookResult list \<Rightarrow> worker \<Rightarrow> worker option" where
  "handle_results c [] s = Some s"
| "handle_results c (r # rs) s =
    (case handle_result c r s of None \<Rightarrow> None | Some s \<Rightarrow> handle_results c rs s)"

definition on_eventfd :: "config \<Rightarrow> worker \<Rightarrow> worker option" where
  "on_eventfd c s =
    (let s = postEventfd s;
         s = s\<lparr>br := (br s)\<lparr>notified := 0\<rparr>\<rparr>;
         (rs, b) = drain (br s)
     in handle_results c rs (s\<lparr>br := b\<rparr>))"

text \<open>The three reply sends: the remainder of a partial send is posted again.\<close>

definition resend_reply :: "conn \<Rightarrow> op \<Rightarrow> worker \<Rightarrow> worker option" where
  "resend_reply cc o' s =
    map_option (\<lambda>q. post q (putc cc s))
      (prep_send (clientFD cc) (replyBuf cc) (replyOff cc) (replyEnd cc) (conn_id cc) o')"

definition on_replyClient :: "config \<Rightarrow> nat \<Rightarrow> int \<Rightarrow> worker \<Rightarrow> worker option" where
  "on_replyClient c cid res s = with_conn cid s (\<lambda>cc.
    if res \<le> 0 then Some (fail cc s)
    else
      let cc = cc\<lparr>replyOff := replyOff cc + nat res\<rparr>
      in if replyOff cc < replyEnd cc then resend_reply cc OpReplyClient s
         else forwardInit c cc s)"

definition on_replyMore :: "nat \<Rightarrow> int \<Rightarrow> worker \<Rightarrow> worker option" where
  "on_replyMore cid res s = with_conn cid s (\<lambda>cc.
    if res \<le> 0 then Some (fail cc s)
    else
      let cc = cc\<lparr>replyOff := replyOff cc + nat res\<rparr>
      in if replyOff cc < replyEnd cc then resend_reply cc OpReplyMore s
         else postRecvReq cc s)"

definition on_rejectSend :: "nat \<Rightarrow> int \<Rightarrow> worker \<Rightarrow> worker option" where
  "on_rejectSend cid res s = with_conn cid s (\<lambda>cc.
    if res \<le> 0 then Some (closeConn cc s)
    else
      let cc = cc\<lparr>replyOff := replyOff cc + nat res\<rparr>
      in if replyOff cc < replyEnd cc then resend_reply cc OpRejectSend s
         else Some (closeConn cc s))"

definition on_sendUp :: "config \<Rightarrow> nat \<Rightarrow> int \<Rightarrow> worker \<Rightarrow> worker option" where
  "on_sendUp c cid res s = with_conn cid s (\<lambda>cc.
    if res \<le> 0 then Some (fail cc s)
    else
      let cc = cc\<lparr>initSent := initSent cc + nat res\<rparr>;
          s = count (\<lambda>n. n\<lparr>bytesC2U := bytesC2U n + word_of_int res\<rparr>) s
      in if initSent cc < reqN cc
         then map_option (\<lambda>q. post q (putc cc s))
                (prep_send (upstreamFD cc) (reqBuf cc) (initSent cc) (reqN cc) (conn_id cc) OpSendUp)
         else startDuplex c cc s)"

definition on_c2uRecv :: "nat \<Rightarrow> int \<Rightarrow> worker \<Rightarrow> worker option" where
  "on_c2uRecv cid res s = with_conn cid s (\<lambda>cc.
    if res < 0 then Some (fail cc s)
    else if res = 0 then
      let s = sys (SysShutdown (upstreamFD cc)) s;
          cc = cc\<lparr>clientReadDone := True\<rparr>
      in Some (if upstreamReadDone cc then closeConn cc s else putc cc s)
    else
      let cc = cc\<lparr>lastTick := tick s\<rparr>;
          s = count (\<lambda>n. n\<lparr>bytesC2U := bytesC2U n + word_of_int res\<rparr>) s;
          cc = cc\<lparr>c2uOff := 0, c2uEnd := nat res\<rparr>
      in map_option (\<lambda>q. post q (putc cc s))
           (prep_send (upstreamFD cc) (c2uBuf cc) (c2uOff cc) (c2uEnd cc) (conn_id cc) OpC2USend))"

definition on_c2uSend :: "nat \<Rightarrow> int \<Rightarrow> worker \<Rightarrow> worker option" where
  "on_c2uSend cid res s = with_conn cid s (\<lambda>cc.
    if res \<le> 0 then Some (fail cc s)
    else
      let cc = cc\<lparr>c2uOff := c2uOff cc + nat res\<rparr>
      in if c2uOff cc < c2uEnd cc
         then map_option (\<lambda>q. post q (putc cc s))
                (prep_send (upstreamFD cc) (c2uBuf cc) (c2uOff cc) (c2uEnd cc) (conn_id cc) OpC2USend)
         else if \<not> clientReadDone cc
         then map_option (\<lambda>q. post q (putc cc s))
                (prep_recv (clientFD cc) C2UBuf 0 (length (c2uBuf cc)) (conn_id cc) OpC2URecv)
         else Some (putc cc s))"

definition on_u2cRecv :: "nat \<Rightarrow> int \<Rightarrow> worker \<Rightarrow> worker option" where
  "on_u2cRecv cid res s = with_conn cid s (\<lambda>cc.
    if res < 0 then Some (fail cc s)
    else if res = 0 then
      let s = sys (SysShutdown (clientFD cc)) s;
          cc = cc\<lparr>upstreamReadDone := True\<rparr>
      in Some (if clientReadDone cc then closeConn cc s else putc cc s)
    else
      let cc = cc\<lparr>lastTick := tick s\<rparr>;
          s = count (\<lambda>n. n\<lparr>bytesU2C := bytesU2C n + word_of_int res\<rparr>) s;
          cc = cc\<lparr>u2cOff := 0, u2cEnd := nat res\<rparr>
      in map_option (\<lambda>q. post q (putc cc s))
           (prep_send (clientFD cc) (u2cBuf cc) (u2cOff cc) (u2cEnd cc) (conn_id cc) OpU2CSend))"

definition on_u2cSend :: "nat \<Rightarrow> int \<Rightarrow> worker \<Rightarrow> worker option" where
  "on_u2cSend cid res s = with_conn cid s (\<lambda>cc.
    if res \<le> 0 then Some (fail cc s)
    else
      let cc = cc\<lparr>u2cOff := u2cOff cc + nat res\<rparr>
      in if u2cOff cc < u2cEnd cc
         then map_option (\<lambda>q. post q (putc cc s))
                (prep_send (clientFD cc) (u2cBuf cc) (u2cOff cc) (u2cEnd cc) (conn_id cc) OpU2CSend)
         else if \<not> upstreamReadDone cc
         then map_option (\<lambda>q. post q (putc cc s))
                (prep_recv (upstreamFD cc) U2CBuf 0 (length (u2cBuf cc)) (conn_id cc) OpU2CRecv)
         else Some (putc cc s))"

definition on_close :: "nat \<Rightarrow> worker \<Rightarrow> worker option" where
  "on_close cid s =
    (case map_of (conns s) cid of
       None \<Rightarrow> Some s
     | Some cc \<Rightarrow>
         let cc = cc\<lparr>closesLeft := closesLeft cc - 1\<rparr>;
             s = putc cc s
         in if closesLeft cc \<le> 0 then
              let s = (if \<not> counted cc \<and> relayStarted cc
                       then count (\<lambda>n. n\<lparr>completed := completed n + 1\<rparr>) s else s)
              in Some (s\<lparr>conns := AList.delete cid (conns s)\<rparr>)
            else Some s)"

text \<open>
  The idle sweep ranges over the map; Go leaves the order open, so the order is an argument (a
  listing of the keys). A key whose entry is gone when it is reached is skipped, as Go's \<open>range\<close>
  does for entries deleted during the iteration.
\<close>

definition idle_expired :: "config \<Rightarrow> worker \<Rightarrow> conn \<Rightarrow> bool" where
  "idle_expired c s cc \<longleftrightarrow> \<not> closing cc \<and> tick s - lastTick cc > idle_ticks c"

definition sweep_one :: "config \<Rightarrow> nat \<Rightarrow> worker \<Rightarrow> worker" where
  "sweep_one c cid s =
    (case map_of (conns s) cid of
       None \<Rightarrow> s
     | Some cc \<Rightarrow>
         if idle_expired c s cc then
           let s = count (\<lambda>n. n\<lparr>idleClosed := idleClosed n + 1\<rparr>) s;
               cc = cc\<lparr>counted := True\<rparr>
           in closeConn cc s
         else s)"

fun sweep :: "config \<Rightarrow> nat list \<Rightarrow> worker \<Rightarrow> worker" where
  "sweep c [] s = s"
| "sweep c (i # is) s = sweep c is (sweep_one c i s)"

definition on_timeout :: "config \<Rightarrow> nat list \<Rightarrow> worker \<Rightarrow> worker option" where
  "on_timeout c order s =
    (let s = postTimeout s;
         s = s\<lparr>tick := tick s + 1\<rparr>
     in Some (if idle_ticks c > 0 \<and> tick s mod 10 = 0 then sweep c order s else s))"

definition handle_cqe :: "config \<Rightarrow> op \<Rightarrow> nat \<Rightarrow> int \<Rightarrow> nat list \<Rightarrow> worker \<Rightarrow> worker option" where
  "handle_cqe c o' cid res order s =
    (case o' of
       OpAccept \<Rightarrow> on_accept c res s
     | OpRecvReq \<Rightarrow> on_recvReq cid res s
     | OpEventfd \<Rightarrow> on_eventfd c s
     | OpReplyClient \<Rightarrow> on_replyClient c cid res s
     | OpReplyMore \<Rightarrow> on_replyMore cid res s
     | OpRejectSend \<Rightarrow> on_rejectSend cid res s
     | OpSendUp \<Rightarrow> on_sendUp c cid res s
     | OpC2URecv \<Rightarrow> on_c2uRecv cid res s
     | OpC2USend \<Rightarrow> on_c2uSend cid res s
     | OpU2CRecv \<Rightarrow> on_u2cRecv cid res s
     | OpU2CSend \<Rightarrow> on_u2cSend cid res s
     | OpClose \<Rightarrow> on_close cid s
     | OpTimeout \<Rightarrow> on_timeout c order s)"

section \<open>The end of a batch\<close>

definition note_overflow :: "u32 \<Rightarrow> worker \<Rightarrow> worker" where
  "note_overflow ov s =
    (if ov \<noteq> lastOverflow s then
       let s = count (\<lambda>n. n\<lparr>cqOverflow := cqOverflow n + ucast (ov - lastOverflow s)\<rparr>) s;
           s = s\<lparr>warnedOverflow := True\<rparr>
       in s\<lparr>lastOverflow := ov\<rparr>
     else s)"

function topUp :: "config \<Rightarrow> worker \<Rightarrow> worker" where
  "topUp c s =
    (if acceptInflight s < AcceptBatch c \<and> int (length (conns s)) + acceptInflight s < MaxConns c
     then topUp c (postAccept s) else s)"
  by pat_completeness auto
termination
  by (relation "measure (\<lambda>(c, s). nat (AcceptBatch c - acceptInflight s))")
     (auto simp: postAccept_def post_def Let_def)

declare topUp.simps [simp del]

text \<open>After the completions of a batch: watch for overflow, then return, drain on, or accept.\<close>

definition batch_end :: "config \<Rightarrow> u32 \<Rightarrow> bool \<Rightarrow> worker \<Rightarrow> worker" where
  "batch_end c ov stopped s =
    (let s = note_overflow ov s
     in if stopped then (if length (conns s) = 0 then s\<lparr>exited := True\<rparr> else s)
        else topUp c s)"

text \<open>The state at the head of the event loop.\<close>

definition start_worker :: "fd \<Rightarrow> fd \<Rightarrow> worker" where
  "start_worker ln e =
    (let s = \<lparr>conns = [], nextID = 0, tick = 0, acceptInflight = 0, counts = zero_counters,
              br = new_bridge, sq = [], jobs = [], syscalls = [], lastOverflow = 0,
              warnedOverflow = False, ln_FD = ln, efd = e, exited = False\<rparr>
     in postTimeout (postEventfd s))"

end
