(* ===== verification/Engine_System.thy ===== *)
theory Engine_System
  imports Worker
begin

text \<open>
  The worker together with its environment. The environment completes any outstanding submission
  entry (in any order, with any result the kernel may give), lets any running hook return any
  decision, and ends a batch at any point; the worker reacts with the handlers of theory \<open>Worker\<close>.
  Completions are therefore interleaved more freely than by the ring, whose batches are one of
  the schedules (\<open>loop_iteration\<close> below is the loop body of \<open>runWorker\<close>).

  The state carries the set of open file descriptors of the process, as the kernel sees it, and a
  log of everything that happened; the byte streams of each connection (\<open>streams\<close>) are read off
  the log, so that end-to-end statements do not trust the worker's own bookkeeping.
\<close>

section \<open>Events\<close>

datatype event =
    Complete nat int bytes "nat list"
  | HookDone nat decision
  | BatchEnd u32 bool

text \<open>
  \<open>Complete i res data order\<close>: the \<open>i\<close>-th outstanding entry completes with \<open>res\<close>, having stored
  \<open>data\<close>; \<open>order\<close> is the order in which a sweep would range over the map. \<open>HookDone j d\<close>: the hook
  run of the \<open>j\<close>-th running job returns \<open>d\<close>. \<open>BatchEnd ov stopped\<close>: the end of the loop body, with
  the overflow count and the stop flag it reads.
\<close>

datatype entry =
    LComplete sqe int bytes
  | LHook nat decision

record system =
  wk :: worker
  open_fds :: "fd set"
  log :: "entry list"

section \<open>What the kernel and the hooks may do\<close>

text \<open>
  The documented behaviour of the kernel: an accepted descriptor is a new one; a receive stores
  at most as many bytes as it was given room for and returns their number, 0 at end of stream or
  a negative error; a send takes at most the bytes it was given; a read of the eventfd completes
  only after a write.
\<close>

fun completion_ok :: "system \<Rightarrow> request \<Rightarrow> int \<Rightarrow> bytes \<Rightarrow> bool" where
  "completion_ok S (Accept f) res data \<longleftrightarrow> data = [] \<and> (0 \<le> res \<longrightarrow> res \<notin> open_fds S)"
| "completion_ok S (Read f) res data \<longleftrightarrow> data = [] \<and> 0 < wakes (br (wk S))"
| "completion_ok S (Recv f b off n) res data \<longleftrightarrow> length data = nat res \<and> res \<le> int n"
| "completion_ok S (Send f bs) res data \<longleftrightarrow> data = [] \<and> res \<le> int (length bs)"
| "completion_ok S (Close f) res data \<longleftrightarrow> data = []"
| "completion_ok S Timeout res data \<longleftrightarrow> data = []"

text \<open>A hook returns a descriptor it has just opened, or none (a value that is not positive).\<close>

definition decision_ok :: "system \<Rightarrow> decision \<Rightarrow> bool" where
  "decision_ok S d \<longleftrightarrow> (0 < UpstreamFD d \<longrightarrow> UpstreamFD d \<notin> open_fds S)"

fun event_ok :: "system \<Rightarrow> event \<Rightarrow> bool" where
  "event_ok S (Complete i res data order) \<longleftrightarrow>
     \<not> exited (wk S) \<and> i < length (sq (wk S)) \<and>
     completion_ok S (sqe_req (sq (wk S) ! i)) res data \<and>
     distinct order \<and> set order = fst ` set (conns (wk S))"
| "event_ok S (HookDone j d) \<longleftrightarrow> j < length (jobs (wk S)) \<and> decision_ok S d"
| "event_ok S (BatchEnd ov stopped) \<longleftrightarrow> \<not> exited (wk S)"

section \<open>Steps\<close>

fun fill :: "bufref \<Rightarrow> nat \<Rightarrow> bytes \<Rightarrow> conn \<Rightarrow> conn" where
  "fill ReqBuf off data cc = cc\<lparr>reqBuf := write_at off data (reqBuf cc)\<rparr>"
| "fill C2UBuf off data cc = cc\<lparr>c2uBuf := write_at off data (c2uBuf cc)\<rparr>"
| "fill U2CBuf off data cc = cc\<lparr>u2cBuf := write_at off data (u2cBuf cc)\<rparr>"

text \<open>What the kernel has done when an entry completes: stored the received bytes, or reset the eventfd.\<close>

definition kernel_effect :: "sqe \<Rightarrow> bytes \<Rightarrow> worker \<Rightarrow> worker" where
  "kernel_effect q data s =
    (case sqe_req q of
       Recv f b off n \<Rightarrow>
         (case map_of (conns s) (sqe_id q) of
            None \<Rightarrow> s
          | Some cc \<Rightarrow> s\<lparr>conns := AList.update (sqe_id q) (fill b off data cc) (conns s)\<rparr>)
     | Read f \<Rightarrow> s\<lparr>br := (br s)\<lparr>wakes := 0\<rparr>\<rparr>
     | _ \<Rightarrow> s)"

fun closed_by :: "syscall list \<Rightarrow> fd set" where
  "closed_by [] = {}"
| "closed_by (SysClose f # cs) = insert f (closed_by cs)"
| "closed_by (SysShutdown f # cs) = closed_by cs"

fun opened_by :: "request \<Rightarrow> int \<Rightarrow> fd set" where
  "opened_by (Accept f) res = (if 0 \<le> res then {res} else {})"
| "opened_by _ res = {}"

fun released_by :: "request \<Rightarrow> fd set" where
  "released_by (Close f) = {f}"
| "released_by _ = {}"

fun sys_step :: "config \<Rightarrow> system \<Rightarrow> event \<Rightarrow> system option" where
  "sys_step c S (Complete i res data order) =
    (let s = wk S; q = sq s ! i;
         s0 = kernel_effect q data (s\<lparr>sq := drop_nth i (sq s)\<rparr>)
     in map_option
          (\<lambda>s'. \<lparr>wk = s',
             open_fds = open_fds S \<union> opened_by (sqe_req q) res - released_by (sqe_req q)
                        - closed_by (drop (length (syscalls s)) (syscalls s')),
             log = log S @ [LComplete q res data]\<rparr>)
          (handle_cqe c (sqe_op q) (sqe_id q) res order s0))"
| "sys_step c S (HookDone j d) =
    (let s = wk S; jb = jobs s ! j
     in Some \<lparr>wk = s\<lparr>jobs := drop_nth j (jobs s),
                      br := push \<lparr>res_id = job_id jb, dec = d\<rparr> (br s)\<rparr>,
              open_fds = open_fds S \<union> (if 0 < UpstreamFD d then {UpstreamFD d} else {}),
              log = log S @ [LHook (job_id jb) d]\<rparr>)"
| "sys_step c S (BatchEnd ov stopped) = Some (S\<lparr>wk := batch_end c ov stopped (wk S)\<rparr>)"

definition boot :: "fd \<Rightarrow> fd \<Rightarrow> fd set \<Rightarrow> system" where
  "boot ln e fds = \<lparr>wk = start_worker ln e, open_fds = fds, log = []\<rparr>"

text \<open>The process starts with its standard streams, the listener and the eventfd open.\<close>

definition booted :: "fd set \<Rightarrow> system \<Rightarrow> bool" where
  "booted base S \<longleftrightarrow> (\<exists>ln e. {0, 1, 2, ln, e} \<subseteq> base \<and> S = boot ln e base)"

definition sys_trans :: "config \<Rightarrow> system \<Rightarrow> event \<Rightarrow> system \<Rightarrow> bool" where
  "sys_trans c S e S' \<longleftrightarrow> event_ok S e \<and> sys_step c S e = Some S'"

abbreviation engine_reachable :: "config \<Rightarrow> fd set \<Rightarrow> system \<Rightarrow> bool" where
  "engine_reachable c base \<equiv> reachable (booted base) (sys_trans c)"

text \<open>Running a list of events, each one allowed where it occurs: how concrete runs are built.\<close>

fun sys_run :: "config \<Rightarrow> system \<Rightarrow> event list \<Rightarrow> system option" where
  "sys_run c S [] = Some S"
| "sys_run c S (e # es) =
    (if event_ok S e then (case sys_step c S e of None \<Rightarrow> None | Some S' \<Rightarrow> sys_run c S' es) else None)"

lemma sys_run_reachable:
  "engine_reachable c base S \<Longrightarrow> sys_run c S es = Some S' \<Longrightarrow> engine_reachable c base S'"
proof (induction es arbitrary: S)
  case Nil
  then show ?case by simp
next
  case (Cons e es)
  then obtain S1 where "sys_trans c S e S1" and "sys_run c S1 es = Some S'"
    by (auto simp: sys_trans_def split: if_splits option.splits)
  with Cons show ?case by (blast intro: reach_step)
qed

section \<open>Byte streams of a connection\<close>

text \<open>
  Read off the log: the bytes received from and sent to each side of connection \<open>i\<close>, and the
  decisions its hook runs returned, in order.
\<close>

record streams =
  from_client :: bytes
  to_up :: bytes
  from_up :: bytes
  to_client :: bytes
  decs :: "decision list"

definition no_streams :: streams where
  "no_streams = \<lparr>from_client = [], to_up = [], from_up = [], to_client = [], decs = []\<rparr>"

fun sent_bytes :: "request \<Rightarrow> int \<Rightarrow> bytes" where
  "sent_bytes (Send f bs) res = take (nat res) bs"
| "sent_bytes _ res = []"

definition on_entry :: "sqe \<Rightarrow> int \<Rightarrow> bytes \<Rightarrow> streams \<Rightarrow> streams" where
  "on_entry q res data g =
    (let sent = sent_bytes (sqe_req q) res in
     case sqe_op q of
       OpRecvReq \<Rightarrow> g\<lparr>from_client := from_client g @ data\<rparr>
     | OpC2URecv \<Rightarrow> g\<lparr>from_client := from_client g @ data\<rparr>
     | OpSendUp \<Rightarrow> g\<lparr>to_up := to_up g @ sent\<rparr>
     | OpC2USend \<Rightarrow> g\<lparr>to_up := to_up g @ sent\<rparr>
     | OpU2CRecv \<Rightarrow> g\<lparr>from_up := from_up g @ data\<rparr>
     | OpU2CSend \<Rightarrow> g\<lparr>to_client := to_client g @ sent\<rparr>
     | OpReplyClient \<Rightarrow> g\<lparr>to_client := to_client g @ sent\<rparr>
     | OpReplyMore \<Rightarrow> g\<lparr>to_client := to_client g @ sent\<rparr>
     | OpRejectSend \<Rightarrow> g\<lparr>to_client := to_client g @ sent\<rparr>
     | _ \<Rightarrow> g)"

fun log_entry :: "entry \<Rightarrow> (nat \<Rightarrow> streams) \<Rightarrow> nat \<Rightarrow> streams" where
  "log_entry (LComplete q res data) H = H(sqe_id q := on_entry q res data (H (sqe_id q)))"
| "log_entry (LHook i d) H = H(i := (H i)\<lparr>decs := decs (H i) @ [d]\<rparr>)"

definition streams_of :: "entry list \<Rightarrow> nat \<Rightarrow> streams" where
  "streams_of es = fold log_entry es (\<lambda>_. no_streams)"

lemma streams_of_Nil [simp]: "streams_of [] = (\<lambda>_. no_streams)"
  by (simp add: streams_of_def)

lemma streams_of_snoc [simp]: "streams_of (es @ [e]) = log_entry e (streams_of es)"
  by (simp add: streams_of_def)

section \<open>One pass of the event loop\<close>

text \<open>
  The loop body of \<open>runWorker\<close> for a batch of completions, given as the entries that complete
  (by position in \<open>sq\<close>), their results and data: handle each in order, then the end of the batch.
\<close>

definition loop_iteration ::
  "config \<Rightarrow> system \<Rightarrow> (nat \<times> int \<times> bytes \<times> nat list) list \<Rightarrow> u32 \<Rightarrow> bool \<Rightarrow> system option" where
  "loop_iteration c S cqes ov stopped =
    sys_run c S (map (\<lambda>(i, res, data, order). Complete i res data order) cqes @ [BatchEnd ov stopped])"

end
