(* ===== verification/Engine_Phases.thy ===== *)
theory Engine_Phases
  imports Engine_System
begin

text \<open>
  The life of a connection as a set of phases, and the invariant that every connection of the map
  is in one of them. A phase says which activity is outstanding for the connection (one entry in
  the ring, one hook run, or one hook result; one entry per direction while relaying) and how the
  buffers relate to the byte streams of the log. A connection that is closing waits for its
  outstanding closes only.
\<close>

section \<open>The activities outstanding for a connection\<close>

definition ops_of :: "nat \<Rightarrow> worker \<Rightarrow> sqe multiset" where
  "ops_of i s = filter_mset (\<lambda>q. sqe_id q = i \<and> sqe_op q \<noteq> OpClose) (mset (sq s))"

definition closes_of :: "nat \<Rightarrow> worker \<Rightarrow> sqe multiset" where
  "closes_of i s = filter_mset (\<lambda>q. sqe_id q = i \<and> sqe_op q = OpClose) (mset (sq s))"

definition jobs_of :: "nat \<Rightarrow> worker \<Rightarrow> job multiset" where
  "jobs_of i s = filter_mset (\<lambda>j. job_id j = i) (mset (jobs s))"

text \<open>\<open>R\<close> holds the results drained from the bridge and not yet handled.\<close>

definition results_of :: "nat \<Rightarrow> hookResult list \<Rightarrow> worker \<Rightarrow> hookResult multiset" where
  "results_of i R s = filter_mset (\<lambda>r. res_id r = i) (mset R + mset (ready (br s)))"

section \<open>Projections of the primitive updates\<close>

lemma post_sel [simp]:
  "conns (post q s) = conns s" "nextID (post q s) = nextID s" "tick (post q s) = tick s"
  "acceptInflight (post q s) = acceptInflight s" "counts (post q s) = counts s" "br (post q s) = br s"
  "sq (post q s) = sq s @ [q]" "jobs (post q s) = jobs s" "syscalls (post q s) = syscalls s"
  "lastOverflow (post q s) = lastOverflow s" "ln_FD (post q s) = ln_FD s" "efd (post q s) = efd s"
  "exited (post q s) = exited s"
  by (simp_all add: post_def)

lemma putc_sel [simp]:
  "conns (putc cc s) = AList.update (conn_id cc) cc (conns s)" "nextID (putc cc s) = nextID s"
  "tick (putc cc s) = tick s" "acceptInflight (putc cc s) = acceptInflight s"
  "counts (putc cc s) = counts s" "br (putc cc s) = br s" "sq (putc cc s) = sq s"
  "jobs (putc cc s) = jobs s" "syscalls (putc cc s) = syscalls s"
  "lastOverflow (putc cc s) = lastOverflow s" "ln_FD (putc cc s) = ln_FD s" "efd (putc cc s) = efd s"
  "exited (putc cc s) = exited s"
  by (simp_all add: putc_def)

lemma count_sel [simp]:
  "conns (count f s) = conns s" "nextID (count f s) = nextID s" "tick (count f s) = tick s"
  "acceptInflight (count f s) = acceptInflight s" "counts (count f s) = f (counts s)"
  "br (count f s) = br s" "sq (count f s) = sq s" "jobs (count f s) = jobs s"
  "syscalls (count f s) = syscalls s" "lastOverflow (count f s) = lastOverflow s"
  "ln_FD (count f s) = ln_FD s" "efd (count f s) = efd s" "exited (count f s) = exited s"
  by (simp_all add: count_def)

lemma sys_sel [simp]:
  "conns (sys x s) = conns s" "nextID (sys x s) = nextID s" "tick (sys x s) = tick s"
  "acceptInflight (sys x s) = acceptInflight s" "counts (sys x s) = counts s" "br (sys x s) = br s"
  "sq (sys x s) = sq s" "jobs (sys x s) = jobs s" "syscalls (sys x s) = syscalls s @ [x]"
  "lastOverflow (sys x s) = lastOverflow s" "ln_FD (sys x s) = ln_FD s" "efd (sys x s) = efd s"
  "exited (sys x s) = exited s"
  by (simp_all add: sys_def)

lemma prep_close_sel [simp]:
  "sqe_req (prep_close f i) = Close f" "sqe_id (prep_close f i) = i" "sqe_op (prep_close f i) = OpClose"
  by (simp_all add: prep_close_def)

lemma map_of_update [simp]: "map_of (AList.update k v t) = (map_of t)(k := Some v)"
  by (rule update_conv')

lemma map_of_delete [simp]: "map_of (AList.delete k t) = (map_of t)(k := None)"
  by (rule delete_conv')

lemma keys_distinct_update [simp]: "keys_distinct t \<Longrightarrow> keys_distinct (AList.update k v t)"
  by (rule ctab.wf_store)

lemma keys_distinct_delete [simp]: "keys_distinct t \<Longrightarrow> keys_distinct (AList.delete k t)"
  by (rule ctab.wf_remove)

lemma ops_of_post:
  "ops_of i (post q s) = (if sqe_id q = i \<and> sqe_op q \<noteq> OpClose then add_mset q (ops_of i s) else ops_of i s)"
  by (simp add: ops_of_def)

lemma closes_of_post:
  "closes_of i (post q s) = (if sqe_id q = i \<and> sqe_op q = OpClose then add_mset q (closes_of i s) else closes_of i s)"
  by (simp add: closes_of_def)

text \<open>A view of the worker: everything the invariant of one connection reads of it.\<close>

definition view :: "nat \<Rightarrow> hookResult list \<Rightarrow> worker \<Rightarrow> sqe multiset \<times> sqe multiset \<times> job multiset \<times> hookResult multiset" where
  "view i R s = (ops_of i s, closes_of i s, jobs_of i s, results_of i R s)"

text \<open>The views depend on \<open>sq\<close>, \<open>jobs\<close> and \<open>br\<close> only.\<close>

lemma views_cong:
  "sq s' = sq s \<Longrightarrow> ops_of i s' = ops_of i s"
  "sq s' = sq s \<Longrightarrow> closes_of i s' = closes_of i s"
  "jobs s' = jobs s \<Longrightarrow> jobs_of i s' = jobs_of i s"
  "ready (br s') = ready (br s) \<Longrightarrow> results_of i R s' = results_of i R s"
  by (simp_all add: ops_of_def closes_of_def jobs_of_def results_of_def)

lemma views_simps [simp]:
  "ops_of i (putc cc s) = ops_of i s" "closes_of i (putc cc s) = closes_of i s"
  "jobs_of i (putc cc s) = jobs_of i s" "results_of i R (putc cc s) = results_of i R s"
  "ops_of i (count f s) = ops_of i s" "closes_of i (count f s) = closes_of i s"
  "jobs_of i (count f s) = jobs_of i s" "results_of i R (count f s) = results_of i R s"
  "ops_of i (sys x s) = ops_of i s" "closes_of i (sys x s) = closes_of i s"
  "jobs_of i (sys x s) = jobs_of i s" "results_of i R (sys x s) = results_of i R s"
  "jobs_of i (post q s) = jobs_of i s" "results_of i R (post q s) = results_of i R s"
  "ops_of i (conns_update g s) = ops_of i s" "closes_of i (conns_update g s) = closes_of i s"
  "jobs_of i (conns_update g s) = jobs_of i s" "results_of i R (conns_update g s) = results_of i R s"
  by (rule views_cong; simp)+

section \<open>The entries a connection posts\<close>

definition recv_req :: "conn \<Rightarrow> sqe" where
  "recv_req cc = \<lparr>sqe_req = Recv (clientFD cc) ReqBuf (reqN cc) (length (reqBuf cc) - reqN cc),
     sqe_id = conn_id cc, sqe_op = OpRecvReq\<rparr>"

definition reply_send :: "conn \<Rightarrow> op \<Rightarrow> sqe" where
  "reply_send cc o' = \<lparr>sqe_req = Send (clientFD cc) (slice (replyBuf cc) (replyOff cc) (replyEnd cc)),
     sqe_id = conn_id cc, sqe_op = o'\<rparr>"

definition init_send :: "conn \<Rightarrow> sqe" where
  "init_send cc = \<lparr>sqe_req = Send (upstreamFD cc) (slice (reqBuf cc) (initSent cc) (reqN cc)),
     sqe_id = conn_id cc, sqe_op = OpSendUp\<rparr>"

definition c2u_recv :: "conn \<Rightarrow> sqe" where
  "c2u_recv cc = \<lparr>sqe_req = Recv (clientFD cc) C2UBuf 0 (length (c2uBuf cc)),
     sqe_id = conn_id cc, sqe_op = OpC2URecv\<rparr>"

definition c2u_send :: "conn \<Rightarrow> sqe" where
  "c2u_send cc = \<lparr>sqe_req = Send (upstreamFD cc) (slice (c2uBuf cc) (c2uOff cc) (c2uEnd cc)),
     sqe_id = conn_id cc, sqe_op = OpC2USend\<rparr>"

definition u2c_recv :: "conn \<Rightarrow> sqe" where
  "u2c_recv cc = \<lparr>sqe_req = Recv (upstreamFD cc) U2CBuf 0 (length (u2cBuf cc)),
     sqe_id = conn_id cc, sqe_op = OpU2CRecv\<rparr>"

definition u2c_send :: "conn \<Rightarrow> sqe" where
  "u2c_send cc = \<lparr>sqe_req = Send (clientFD cc) (slice (u2cBuf cc) (u2cOff cc) (u2cEnd cc)),
     sqe_id = conn_id cc, sqe_op = OpU2CSend\<rparr>"

definition the_job :: "conn \<Rightarrow> job" where
  "the_job cc = \<lparr>job_id = conn_id cc, job_clientFD = clientFD cc, job_req = take (reqN cc) (reqBuf cc)\<rparr>"

lemmas entry_defs = recv_req_def reply_send_def init_send_def c2u_recv_def c2u_send_def
  u2c_recv_def u2c_send_def

section \<open>Phases\<close>

definition replies :: "decision list \<Rightarrow> bytes" where
  "replies ds = concat (map Reply ds)"

definition all_more :: "decision list \<Rightarrow> bool" where
  "all_more ds \<longleftrightarrow> (\<forall>d\<in>set ds. More d \<and> \<not> Reject d)"

definition decided_by :: "streams \<Rightarrow> decision \<Rightarrow> bool" where
  "decided_by g d \<longleftrightarrow> (\<exists>ds. decs g = ds @ [d] \<and> all_more ds)"

definition adopts :: "decision \<Rightarrow> bool" where
  "adopts d \<longleftrightarrow> \<not> Reject d \<and> \<not> More d"

definition pre_relay :: "config \<Rightarrow> conn \<Rightarrow> streams \<Rightarrow> bool" where
  "pre_relay c cc g \<longleftrightarrow>
     \<not> relayStarted cc \<and> InitialReqLen c \<le> int (length (reqBuf cc)) \<and>
     int (length (reqBuf cc)) \<le> MaxReqLen c \<and> reqN cc \<le> length (reqBuf cc) \<and>
     from_client g = take (reqN cc) (reqBuf cc) \<and> from_up g = [] \<and>
     \<not> clientReadDone cc \<and> \<not> upstreamReadDone cc"

definition undecided :: "config \<Rightarrow> conn \<Rightarrow> streams \<Rightarrow> bool" where
  "undecided c cc g \<longleftrightarrow>
     pre_relay c cc g \<and> \<not> counted cc \<and> upstreamFD cc = 0 \<and> to_up g = []"

definition adopted :: "config \<Rightarrow> conn \<Rightarrow> streams \<Rightarrow> decision \<Rightarrow> bool" where
  "adopted c cc g d \<longleftrightarrow>
     pre_relay c cc g \<and> \<not> counted cc \<and> decided_by g d \<and> adopts d \<and> upstreamFD cc = UpstreamFD d"

definition reply_pending :: "conn \<Rightarrow> streams \<Rightarrow> bool" where
  "reply_pending cc g \<longleftrightarrow>
     replyOff cc < replyEnd cc \<and> replyEnd cc = length (replyBuf cc) \<and>
     to_client g @ slice (replyBuf cc) (replyOff cc) (replyEnd cc) = replies (decs g)"

text \<open>The two relay directions; the last argument holds the bytes received and not yet sent on.\<close>

inductive c2u_ok :: "conn \<Rightarrow> sqe multiset \<Rightarrow> bytes \<Rightarrow> bool" where
  c2u_done: "clientReadDone cc \<Longrightarrow> c2u_ok cc {#} []"
| c2u_reading: "\<not> clientReadDone cc \<Longrightarrow> c2u_ok cc {#c2u_recv cc#} []"
| c2u_sending: "\<not> clientReadDone cc \<Longrightarrow> c2uOff cc < c2uEnd cc \<Longrightarrow> c2uEnd cc \<le> length (c2uBuf cc) \<Longrightarrow>
    c2u_ok cc {#c2u_send cc#} (slice (c2uBuf cc) (c2uOff cc) (c2uEnd cc))"

inductive u2c_ok :: "conn \<Rightarrow> sqe multiset \<Rightarrow> bytes \<Rightarrow> bool" where
  u2c_done: "upstreamReadDone cc \<Longrightarrow> u2c_ok cc {#} []"
| u2c_reading: "\<not> upstreamReadDone cc \<Longrightarrow> u2c_ok cc {#u2c_recv cc#} []"
| u2c_sending: "\<not> upstreamReadDone cc \<Longrightarrow> u2cOff cc < u2cEnd cc \<Longrightarrow> u2cEnd cc \<le> length (u2cBuf cc) \<Longrightarrow>
    u2c_ok cc {#u2c_send cc#} (slice (u2cBuf cc) (u2cOff cc) (u2cEnd cc))"

text \<open>
  The streams of a relayed connection: what went upstream, followed by \<open>pc\<close>, is everything the
  client sent but the consumed handshake; what went to the client, followed by \<open>pu\<close>, is the
  replies of the decisions and then everything the upstream sent.
\<close>

definition relay_streams :: "conn \<Rightarrow> streams \<Rightarrow> bytes \<Rightarrow> bytes \<Rightarrow> bool" where
  "relay_streams cc g pc pu \<longleftrightarrow>
     (\<exists>d. decided_by g d \<and> adopts d \<and> upstreamFD cc = UpstreamFD d \<and>
        to_up g @ pc = drop (clamp_consumed (Consumed d) (reqN cc)) (from_client g) \<and>
        to_client g @ pu = replies (decs g) @ from_up g \<and> reqN cc \<le> length (from_client g))"

inductive phase_ok ::
  "config \<Rightarrow> conn \<Rightarrow> streams \<Rightarrow> sqe multiset \<Rightarrow> job multiset \<Rightarrow> hookResult multiset \<Rightarrow> bool"
  for c :: config and cc :: conn and g :: streams where
  reading: "undecided c cc g \<Longrightarrow> reqN cc < length (reqBuf cc) \<Longrightarrow> all_more (decs g) \<Longrightarrow>
    to_client g = replies (decs g) \<Longrightarrow> phase_ok c cc g {#recv_req cc#} {#} {#}"
| deciding: "undecided c cc g \<Longrightarrow> 0 < reqN cc \<Longrightarrow> all_more (decs g) \<Longrightarrow> to_client g = replies (decs g) \<Longrightarrow>
    phase_ok c cc g {#} {#the_job cc#} {#}"
| decided: "undecided c cc g \<Longrightarrow> 0 < reqN cc \<Longrightarrow> decs g = ds @ [d] \<Longrightarrow> all_more ds \<Longrightarrow>
    to_client g = replies ds \<Longrightarrow> phase_ok c cc g {#} {#} {#\<lparr>res_id = conn_id cc, dec = d\<rparr>#}"
| replying_more: "undecided c cc g \<Longrightarrow> reqN cc < length (reqBuf cc) \<Longrightarrow> all_more (decs g) \<Longrightarrow>
    reply_pending cc g \<Longrightarrow> phase_ok c cc g {#reply_send cc OpReplyMore#} {#} {#}"
| rejecting: "pre_relay c cc g \<Longrightarrow> counted cc \<Longrightarrow> upstreamFD cc = 0 \<Longrightarrow> to_up g = [] \<Longrightarrow>
    decided_by g d \<Longrightarrow> Reject d \<Longrightarrow> reply_pending cc g \<Longrightarrow>
    phase_ok c cc g {#reply_send cc OpRejectSend#} {#} {#}"
| replying_client: "adopted c cc g d \<Longrightarrow> to_up g = [] \<Longrightarrow>
    initSent cc = clamp_consumed (Consumed d) (reqN cc) \<Longrightarrow> reply_pending cc g \<Longrightarrow>
    phase_ok c cc g {#reply_send cc OpReplyClient#} {#} {#}"
| forwarding: "adopted c cc g d \<Longrightarrow> clamp_consumed (Consumed d) (reqN cc) \<le> initSent cc \<Longrightarrow>
    initSent cc < reqN cc \<Longrightarrow>
    to_up g = slice (reqBuf cc) (clamp_consumed (Consumed d) (reqN cc)) (initSent cc) \<Longrightarrow>
    to_client g = replies (decs g) \<Longrightarrow> phase_ok c cc g {#init_send cc#} {#} {#}"
| relaying: "relayStarted cc \<Longrightarrow> \<not> counted cc \<Longrightarrow> int (length (c2uBuf cc)) = BufSize c \<Longrightarrow>
    int (length (u2cBuf cc)) = BufSize c \<Longrightarrow> \<not> (clientReadDone cc \<and> upstreamReadDone cc) \<Longrightarrow>
    c2u_ok cc C pc \<Longrightarrow> u2c_ok cc U pu \<Longrightarrow> relay_streams cc g pc pu \<Longrightarrow>
    phase_ok c cc g (C + U) {#} {#}"

text \<open>
  A closing connection waits for its closes. If it has not been charged to a bucket yet it will
  count as completed: then nothing else is outstanding and both streams were relayed in full.
\<close>

definition closing_ok ::
  "conn \<Rightarrow> streams \<Rightarrow> sqe multiset \<Rightarrow> sqe multiset \<Rightarrow> job multiset \<Rightarrow> hookResult multiset \<Rightarrow> bool" where
  "closing_ok cc g Q K J R \<longleftrightarrow>
     closesLeft cc = int (size K) \<and> 0 < closesLeft cc \<and>
     (\<not> counted cc \<longrightarrow>
        relayStarted cc \<and> clientReadDone cc \<and> upstreamReadDone cc \<and> Q = {#} \<and> J = {#} \<and> R = {#} \<and>
        relay_streams cc g [] [])"

definition conn_inv :: "config \<Rightarrow> hookResult list \<Rightarrow> (nat \<Rightarrow> streams) \<Rightarrow> worker \<Rightarrow> nat \<Rightarrow> conn \<Rightarrow> bool" where
  "conn_inv c R H s i cc \<longleftrightarrow>
     conn_id cc = i \<and> 0 < i \<and> i \<le> nextID s \<and> lastTick cc \<le> tick s \<and>
     (if closing cc
      then closing_ok cc (H i) (ops_of i s) (closes_of i s) (jobs_of i s) (results_of i R s)
      else closes_of i s = {#} \<and> phase_ok c cc (H i) (ops_of i s) (jobs_of i s) (results_of i R s))"

section \<open>The invariant\<close>

text \<open>Which request an operation carries, and which operations belong to no connection.\<close>

fun sqe_wf :: "sqe \<Rightarrow> bool" where
  "sqe_wf q =
    (case sqe_op q of
       OpAccept \<Rightarrow> sqe_id q = 0 \<and> (\<exists>f. sqe_req q = Accept f)
     | OpEventfd \<Rightarrow> sqe_id q = 0 \<and> (\<exists>f. sqe_req q = Read f)
     | OpTimeout \<Rightarrow> sqe_id q = 0 \<and> sqe_req q = Timeout
     | OpClose \<Rightarrow> (\<exists>f. sqe_req q = Close f)
     | OpRecvReq \<Rightarrow> 0 < sqe_id q \<and> (\<exists>f n k. sqe_req q = Recv f ReqBuf n k)
     | OpC2URecv \<Rightarrow> 0 < sqe_id q \<and> (\<exists>f n k. sqe_req q = Recv f C2UBuf n k)
     | OpU2CRecv \<Rightarrow> 0 < sqe_id q \<and> (\<exists>f n k. sqe_req q = Recv f U2CBuf n k)
     | _ \<Rightarrow> 0 < sqe_id q \<and> (\<exists>f bs. sqe_req q = Send f bs))"

declare sqe_wf.simps [simp del]

definition fresh_from :: "hookResult list \<Rightarrow> (nat \<Rightarrow> streams) \<Rightarrow> worker \<Rightarrow> bool" where
  "fresh_from R H s \<longleftrightarrow>
     (\<forall>i>nextID s. ops_of i s = {#} \<and> closes_of i s = {#} \<and> jobs_of i s = {#} \<and>
        results_of i R s = {#} \<and> H i = no_streams)"

text \<open>
  The invariant of all connections but \<open>i\<close> (the one whose handler is running), \<open>A\<close> being the
  outstanding entries that belong to no connection.
\<close>

definition inv_except ::
  "nat \<Rightarrow> config \<Rightarrow> hookResult list \<Rightarrow> (nat \<Rightarrow> streams) \<Rightarrow> sqe multiset \<Rightarrow> worker \<Rightarrow> bool" where
  "inv_except i c R H A s \<longleftrightarrow>
     keys_distinct (conns s) \<and>
     (\<forall>j cc. j \<noteq> i \<longrightarrow> map_of (conns s) j = Some cc \<longrightarrow> conn_inv c R H s j cc) \<and>
     fresh_from R H s \<and> (\<forall>q\<in>set (sq s). sqe_wf q) \<and> ops_of 0 s = A \<and>
     jobs_of 0 s = {#} \<and> results_of 0 R s = {#} \<and> map_of (conns s) 0 = None"

definition engine_inv :: "config \<Rightarrow> hookResult list \<Rightarrow> (nat \<Rightarrow> streams) \<Rightarrow> sqe multiset \<Rightarrow> worker \<Rightarrow> bool" where
  "engine_inv c R H A s \<longleftrightarrow>
     inv_except 0 c R H A s"

end
