(* ===== verification/Engine_Invariant.thy ===== *)
theory Engine_Invariant
  imports Engine_Phases
begin

text \<open>
  Every handler keeps the invariant of theory \<open>Engine_Phases\<close>, and never panics. Each closure of
  the worker has one lemma: started on a connection with nothing outstanding (its own entry has
  just completed) and the facts of the phase it moves to, it returns, and the invariant holds.
\<close>

section \<open>The invariant with a hole\<close>

lemma conn_inv_cong:
  "ops_of i s' = ops_of i s \<Longrightarrow> closes_of i s' = closes_of i s \<Longrightarrow> jobs_of i s' = jobs_of i s \<Longrightarrow>
   results_of i R' s' = results_of i R s \<Longrightarrow> nextID s \<le> nextID s' \<Longrightarrow> tick s \<le> tick s' \<Longrightarrow>
   H' i = H i \<Longrightarrow> conn_inv c R H s i cc \<Longrightarrow> conn_inv c R' H' s' i cc"
  by (auto simp: conn_inv_def)

lemma inv_conn: "engine_inv c R H A s \<Longrightarrow> map_of (conns s) i = Some cc \<Longrightarrow> conn_inv c R H s i cc"
  by (cases "i = 0") (auto simp: engine_inv_def inv_except_def)

lemma inv_holeI: "engine_inv c R H A s \<Longrightarrow> inv_except i c R H A s"
  using inv_conn [of c R H A s] unfolding engine_inv_def inv_except_def by blast

lemma inv_fill:
  "inv_except i c R H A s \<Longrightarrow> (\<And>cc. map_of (conns s) i = Some cc \<Longrightarrow> conn_inv c R H s i cc) \<Longrightarrow>
   engine_inv c R H A s"
  unfolding engine_inv_def inv_except_def by metis

lemma inv_conn_id: "engine_inv c R H A s \<Longrightarrow> map_of (conns s) i = Some cc \<Longrightarrow> conn_id cc = i \<and> 0 < i \<and> i \<le> nextID s"
  by (drule (1) inv_conn) (simp add: conn_inv_def)

lemma hole_cong:
  assumes "inv_except i c R H A s"
    and "conns s' = conns s" "nextID s' = nextID s" "tick s \<le> tick s'"
    and "sq s' = sq s" "jobs s' = jobs s" "ready (br s') = ready (br s)"
  shows "inv_except i c R H A s'"
proof -
  have v: "ops_of j s' = ops_of j s" "closes_of j s' = closes_of j s" "jobs_of j s' = jobs_of j s"
    "results_of j R s' = results_of j R s" for j
    using assms by (simp_all cong: views_cong add: ops_of_def closes_of_def jobs_of_def results_of_def)
  show ?thesis
    using assms(1-5) v unfolding inv_except_def fresh_from_def
    by (auto intro: conn_inv_cong [where s = s and H = H and R = R])
qed

lemma hole_count [simp]: "inv_except i c R H A s \<Longrightarrow> inv_except i c R H A (count f s)"
  by (erule hole_cong) simp_all

lemma hole_sys [simp]: "inv_except i c R H A s \<Longrightarrow> inv_except i c R H A (sys x s)"
  by (erule hole_cong) simp_all

lemma hole_putc:
  assumes "inv_except i c R H A s" and "conn_id cc = i" and "0 < i"
  shows "inv_except i c R H A (putc cc s)"
  using assms unfolding inv_except_def fresh_from_def
  by (auto intro: conn_inv_cong [where s = s and H = H and R = R])

lemma hole_delete:
  assumes "inv_except i c R H A s" and "0 < i"
  shows "inv_except i c R H A (s\<lparr>conns := AList.delete i (conns s)\<rparr>)"
  using assms unfolding inv_except_def fresh_from_def
  by (auto intro: conn_inv_cong [where s = s and H = H and R = R])

lemma hole_post:
  assumes "inv_except i c R H A s" and "sqe_id q = i" and "0 < i" and "i \<le> nextID s" and "sqe_wf q"
  shows "inv_except i c R H A (post q s)"
  using assms unfolding inv_except_def fresh_from_def
  by (auto simp: ops_of_post closes_of_post intro: conn_inv_cong [where s = s and H = H and R = R])

lemma hole_job:
  assumes "inv_except i c R H A s" and "job_id j = i" and "0 < i" and "i \<le> nextID s"
  shows "inv_except i c R H A (s\<lparr>jobs := jobs s @ [j]\<rparr>)"
proof -
  let ?s = "s\<lparr>jobs := jobs s @ [j]\<rparr>"
  have v: "ops_of k ?s = ops_of k s" "closes_of k ?s = closes_of k s"
    "results_of k R ?s = results_of k R s" for k
    by (simp_all add: ops_of_def closes_of_def results_of_def)
  have j: "jobs_of k ?s = (if k = i then add_mset j (jobs_of k s) else jobs_of k s)" for k
    using assms(2) by (auto simp: jobs_of_def)
  show ?thesis
    using assms unfolding inv_except_def fresh_from_def
    by (auto simp: v j intro: conn_inv_cong [where s = s and H = H and R = R])
qed

section \<open>Closing a connection\<close>

lemma closeConn_inv:
  assumes h: "inv_except i c R H A s" and i: "conn_id cc = i" "0 < i" "i \<le> nextID s"
    and open': "\<not> closing cc" and k: "closes_of i s = {#}" and t: "lastTick cc \<le> tick s"
    and u: "\<not> counted cc \<Longrightarrow> relayStarted cc \<and> clientReadDone cc \<and> upstreamReadDone cc \<and>
       ops_of i s = {#} \<and> jobs_of i s = {#} \<and> results_of i R s = {#} \<and> relay_streams cc (H i) [] []"
  shows "engine_inv c R H A (closeConn cc s)"
proof -
  have rs: "relay_streams (cc\<lparr>closing := x, closesLeft := n\<rparr>) g p p' = relay_streams cc g p p'" for x n g p p'
    by (simp add: relay_streams_def)
  have wf: "sqe_wf (prep_close f i)" for f by (simp add: sqe_wf.simps)
  show ?thesis
    apply (rule inv_fill [of i])
    subgoal
      using h i open' wf
      by (simp add: closeConn_def Let_def hole_post hole_putc hole_delete del: putc_sel)
    subgoal for cc'
      using i open' k t u
      by (auto simp: closeConn_def Let_def conn_inv_def closing_ok_def ops_of_post closes_of_post rs
          split: if_splits)
    done
qed

lemma fail_inv:
  assumes "inv_except i c R H A s" and "conn_id cc = i" "0 < i" "i \<le> nextID s"
    and "\<not> closing cc" and "closes_of i s = {#}" and "lastTick cc \<le> tick s"
  shows "engine_inv c R H A (fail cc s)"
  using assms by (auto simp: fail_def intro!: closeConn_inv)

section \<open>Moving to the next phase\<close>

text \<open>
  \<open>idle_at i R s\<close>: nothing is outstanding for connection \<open>i\<close>. The lemmas below say that each way of
  going on, started there, returns a state in which the invariant holds.
\<close>

definition idle_at :: "nat \<Rightarrow> hookResult list \<Rightarrow> worker \<Rightarrow> bool" where
  "idle_at i R s \<longleftrightarrow> ops_of i s = {#} \<and> closes_of i s = {#} \<and> jobs_of i s = {#} \<and> results_of i R s = {#}"

definition ready_for ::
  "nat \<Rightarrow> config \<Rightarrow> hookResult list \<Rightarrow> (nat \<Rightarrow> streams) \<Rightarrow> sqe multiset \<Rightarrow> conn \<Rightarrow> worker \<Rightarrow> bool" where
  "ready_for i c R H A cc s \<longleftrightarrow>
     inv_except i c R H A s \<and> conn_id cc = i \<and> 0 < i \<and> i \<le> nextID s \<and> \<not> closing cc \<and>
     lastTick cc \<le> tick s \<and> idle_at i R s"

lemma ready_for_simps [simp]:
  "ready_for i c R H A cc s \<Longrightarrow> ready_for i c R H A cc (count f s)"
  "ready_for i c R H A cc s \<Longrightarrow> ready_for i c R H A cc (sys x s)"
  by (simp_all add: ready_for_def idle_at_def)

lemma ready_putc: "ready_for i c R H A cc s \<Longrightarrow> ready_for i c R H A cc (putc cc s)"
  by (simp add: ready_for_def idle_at_def hole_putc)

lemma ready_fail: "ready_for i c R H A cc s \<Longrightarrow> engine_inv c R H A (fail cc s)"
  by (auto simp: ready_for_def idle_at_def intro: fail_inv)

lemma post_phase:
  assumes r: "ready_for i c R H A cc s" and q: "sqe_id q = i" "sqe_op q \<noteq> OpClose" "sqe_wf q"
    and p: "phase_ok c cc (H i) {#q#} {#} {#}"
  shows "engine_inv c R H A (post q (putc cc s))"
proof (rule inv_fill [of i])
  from r show "inv_except i c R H A (post q (putc cc s))"
    using q by (auto simp: ready_for_def hole_putc intro!: hole_post)
  fix cc' assume "map_of (conns (post q (putc cc s))) i = Some cc'"
  with r q p show "conn_inv c R H (post q (putc cc s)) i cc'"
    by (auto simp: ready_for_def idle_at_def conn_inv_def ops_of_post closes_of_post split: if_splits)
qed

lemma postRecvReq_inv:
  assumes "ready_for i c R H A cc s" "undecided c cc (H i)" "reqN cc < length (reqBuf cc)"
    "all_more (decs (H i))" "to_client (H i) = replies (decs (H i))"
  shows "\<exists>s'. postRecvReq cc s = Some s' \<and> engine_inv c R H A s'"
proof -
  have "prep_recv (clientFD cc) ReqBuf (reqN cc) (length (reqBuf cc)) (conn_id cc) OpRecvReq = Some (recv_req cc)"
    using assms(3) by (simp add: prep_recv_def recv_req_def)
  moreover have "engine_inv c R H A (post (recv_req cc) (putc cc s))"
    using assms
    by (intro post_phase [OF assms(1)] phase_ok.reading)
       (auto simp: ready_for_def recv_req_def sqe_wf.simps)
  ultimately show ?thesis by (simp add: postRecvReq_def)
qed

lemma reply_wf: "o' \<in> {OpReplyClient, OpReplyMore, OpRejectSend} \<Longrightarrow> 0 < conn_id cc \<Longrightarrow> sqe_wf (reply_send cc o')"
  by (auto simp: sqe_wf.simps reply_send_def)

lemma resend_reply_inv:
  assumes r: "ready_for i c R H A cc s" and o': "o' \<in> {OpReplyClient, OpReplyMore, OpRejectSend}"
    and b: "replyOff cc < replyEnd cc" "replyEnd cc = length (replyBuf cc)"
    and p: "phase_ok c cc (H i) {#reply_send cc o'#} {#} {#}"
  shows "\<exists>s'. resend_reply cc o' s = Some s' \<and> engine_inv c R H A s'"
proof -
  have "prep_send (clientFD cc) (replyBuf cc) (replyOff cc) (replyEnd cc) (conn_id cc) o' = Some (reply_send cc o')"
    using b by (simp add: prep_send_def reply_send_def)
  moreover have "engine_inv c R H A (post (reply_send cc o') (putc cc s))"
    using r o' by (intro post_phase [OF r _ _ _ p] reply_wf) (auto simp: ready_for_def reply_send_def)
  ultimately show ?thesis by (simp add: resend_reply_def)
qed

lemma send_reply_resend:
  "send_reply cc rep o' s =
   resend_reply (cc\<lparr>replyBuf := rep, replyOff := 0, replyEnd := length rep\<rparr>) o' s"
  by (simp add: send_reply_def resend_reply_def)

lemma startDuplex_inv:
  assumes c: "config_ok c" and r: "ready_for i c R H A cc s" and n: "\<not> counted cc"
    and e: "\<not> clientReadDone cc" "\<not> upstreamReadDone cc" and g: "relay_streams cc (H i) [] []"
  shows "\<exists>s'. startDuplex c cc s = Some s' \<and> engine_inv c R H A s'"
proof -
  define b :: bytes where "b = replicate (nat (BufSize c)) 0"
  define d where "d = cc\<lparr>relayStarted := True, reqBuf := [], replyBuf := [], c2uBuf := b, u2cBuf := b\<rparr>"
  let ?s = "post (u2c_recv d) (post (c2u_recv d) (putc d s))"
  have b: "0 < length b" "int (length b) = BufSize c" using c by (auto simp: b_def config_ok_def)
  have sd: "startDuplex c cc s = Some ?s"
    using b by (simp add: startDuplex_def Let_def prep_recv_def d_def b_def [symmetric] c2u_recv_def u2c_recv_def)
  have i: "conn_id d = i" "0 < i" "i \<le> nextID s" "\<not> closing d" "lastTick d \<le> tick s"
    using r by (auto simp: ready_for_def d_def)
  have wf: "sqe_wf (c2u_recv d)" "sqe_wf (u2c_recv d)"
    using i by (auto simp: sqe_wf.simps c2u_recv_def u2c_recv_def)
  have ids: "sqe_id (c2u_recv d) = i" "sqe_id (u2c_recv d) = i" "sqe_op (c2u_recv d) = OpC2URecv"
    "sqe_op (u2c_recv d) = OpU2CRecv" using i by (auto simp: c2u_recv_def u2c_recv_def)
  have rs: "relay_streams d (H i) [] []"
    using g by (simp add: relay_streams_def d_def)
  have "phase_ok c d (H i) ({#c2u_recv d#} + {#u2c_recv d#}) {#} {#}"
    using rs n e b by (intro phase_ok.relaying) (auto simp: d_def intro: c2u_reading u2c_reading)
  then have ph: "phase_ok c d (H i) {#u2c_recv d, c2u_recv d#} {#} {#}" by (simp add: add_mset_commute)
  have "inv_except i c R H A ?s"
    using r i wf ids by (auto simp: ready_for_def intro!: hole_post hole_putc)
  then have "engine_inv c R H A ?s"
  proof (rule inv_fill)
    fix cc' assume "map_of (conns ?s) i = Some cc'"
    then have "cc' = d" using i by simp
    then show "conn_inv c R H ?s i cc'"
      using r i ph ids
      by (simp add: ready_for_def idle_at_def conn_inv_def ops_of_post closes_of_post)
  qed
  with sd show ?thesis by blast
qed

lemma forwardInit_inv:
  assumes c: "config_ok c" and r: "ready_for i c R H A cc s" and a: "adopted c cc (H i) d"
    and n: "initSent cc = clamp_consumed (Consumed d) (reqN cc)" and up: "to_up (H i) = []"
    and cl: "to_client (H i) = replies (decs (H i))"
  shows "\<exists>s'. forwardInit c cc s = Some s' \<and> engine_inv c R H A s'"
proof (cases "initSent cc \<ge> reqN cc")
  case True
  have "relay_streams cc (H i) [] []"
    using a n up cl True clamp_consumed_le [of "Consumed d" "reqN cc"]
    by (auto simp: relay_streams_def adopted_def pre_relay_def)
  moreover have "\<not> clientReadDone cc" "\<not> upstreamReadDone cc" "\<not> counted cc"
    using a by (auto simp: adopted_def pre_relay_def)
  ultimately show ?thesis
    using startDuplex_inv [OF c r] True by (simp add: forwardInit_def)
next
  case False
  then have "prep_send (upstreamFD cc) (reqBuf cc) (initSent cc) (reqN cc) (conn_id cc) OpSendUp = Some (init_send cc)"
    using a by (auto simp: prep_send_def init_send_def adopted_def pre_relay_def)
  moreover have "phase_ok c cc (H i) {#init_send cc#} {#} {#}"
    using False a n up cl by (intro phase_ok.forwarding [OF a]) auto
  then have "engine_inv c R H A (post (init_send cc) (putc cc s))"
    using r by (intro post_phase [OF r]) (auto simp: init_send_def ready_for_def sqe_wf.simps)
  ultimately show ?thesis using False by (simp add: forwardInit_def)
qed

end
