(* ===== verification/Engine_Preserve.thy ===== *)
theory Engine_Preserve
  imports Engine_Invariant
begin

text \<open>
  The completion handlers keep the invariant and never panic: for each operation, what the phase
  of the connection must have been, and where the handler takes it.
\<close>

section \<open>Which phase an outstanding entry belongs to\<close>

lemma pre_relay_simps [simp]:
  "pre_relay c (cc\<lparr>lastTick := t\<rparr>) g = pre_relay c cc g"
  "pre_relay c (cc\<lparr>replyOff := n\<rparr>) g = pre_relay c cc g"
  "pre_relay c (cc\<lparr>replyEnd := n\<rparr>) g = pre_relay c cc g"
  "pre_relay c (cc\<lparr>replyBuf := b\<rparr>) g = pre_relay c cc g"
  "pre_relay c (cc\<lparr>counted := x\<rparr>) g = pre_relay c cc g"
  "pre_relay c (cc\<lparr>upstreamFD := f\<rparr>) g = pre_relay c cc g"
  "pre_relay c (cc\<lparr>initSent := n\<rparr>) g = pre_relay c cc g"
  "pre_relay c cc (g\<lparr>to_client := b\<rparr>) = pre_relay c cc g"
  "pre_relay c cc (g\<lparr>to_up := b\<rparr>) = pre_relay c cc g"
  "pre_relay c cc (g\<lparr>decs := ds\<rparr>) = pre_relay c cc g"
  by (simp_all add: pre_relay_def)

lemma undecided_simps [simp]:
  "undecided c (cc\<lparr>lastTick := t\<rparr>) g = undecided c cc g"
  "undecided c (cc\<lparr>replyOff := n\<rparr>) g = undecided c cc g"
  "undecided c (cc\<lparr>replyEnd := n\<rparr>) g = undecided c cc g"
  "undecided c (cc\<lparr>replyBuf := b\<rparr>) g = undecided c cc g"
  "undecided c cc (g\<lparr>to_client := b\<rparr>) = undecided c cc g"
  "undecided c cc (g\<lparr>decs := ds\<rparr>) = undecided c cc g"
  by (simp_all add: undecided_def)

lemma decided_by_simps [simp]:
  "decided_by (g\<lparr>to_client := b\<rparr>) d = decided_by g d"
  "decided_by (g\<lparr>to_up := b\<rparr>) d = decided_by g d"
  "decided_by (g\<lparr>from_client := b\<rparr>) d = decided_by g d"
  "decided_by (g\<lparr>from_up := b\<rparr>) d = decided_by g d"
  by (simp_all add: decided_by_def)

lemma adopted_simps [simp]:
  "adopted c (cc\<lparr>lastTick := t\<rparr>) g d = adopted c cc g d"
  "adopted c (cc\<lparr>replyOff := n\<rparr>) g d = adopted c cc g d"
  "adopted c (cc\<lparr>replyEnd := n\<rparr>) g d = adopted c cc g d"
  "adopted c (cc\<lparr>replyBuf := b\<rparr>) g d = adopted c cc g d"
  "adopted c (cc\<lparr>initSent := n\<rparr>) g d = adopted c cc g d"
  "adopted c cc (g\<lparr>to_client := b\<rparr>) d = adopted c cc g d"
  "adopted c cc (g\<lparr>to_up := b\<rparr>) d = adopted c cc g d"
  by (simp_all add: adopted_def)

definition duplex :: "config \<Rightarrow> conn \<Rightarrow> bool" where
  "duplex c cc \<longleftrightarrow> relayStarted cc \<and> \<not> counted cc \<and> int (length (c2uBuf cc)) = BufSize c \<and>
     int (length (u2cBuf cc)) = BufSize c \<and> \<not> (clientReadDone cc \<and> upstreamReadDone cc)"

inductive_simps c2u_ok_iff: "c2u_ok cc Q p"
inductive_simps u2c_ok_iff: "u2c_ok cc Q p"

lemma c2u_op: "c2u_ok cc {#q#} p \<Longrightarrow> sqe_op q = OpC2URecv \<or> sqe_op q = OpC2USend"
  by (auto simp: c2u_ok_iff entry_defs)

lemma u2c_op: "u2c_ok cc {#q#} p \<Longrightarrow> sqe_op q = OpU2CRecv \<or> sqe_op q = OpU2CSend"
  by (auto simp: u2c_ok_iff entry_defs)

lemma c2u_size: "c2u_ok cc Q p \<Longrightarrow> Q = {#} \<or> (\<exists>q. Q = {#q#})"
  by (auto simp: c2u_ok_iff)

lemma u2c_size: "u2c_ok cc Q p \<Longrightarrow> Q = {#} \<or> (\<exists>q. Q = {#q#})"
  by (auto simp: u2c_ok_iff)

text \<open>The entry taken out of the two directions is the whole of one of them.\<close>

lemma relay_split:
  assumes "c2u_ok cc C pc" and "u2c_ok cc U pu" and "C + U = add_mset q Q"
  shows "(C = {#q#} \<and> Q = U \<and> (sqe_op q = OpC2URecv \<or> sqe_op q = OpC2USend)) \<or>
         (U = {#q#} \<and> Q = C \<and> (sqe_op q = OpU2CRecv \<or> sqe_op q = OpU2CSend))"
proof -
  have "(C = {#q#} \<and> Q = U) \<or> (U = {#q#} \<and> Q = C)"
    using c2u_size [OF assms(1)] u2c_size [OF assms(2)] assms(3)
    by (auto simp: add_mset_eq_single add_eq_conv_ex)
  with assms(1,2) show ?thesis by (auto dest: c2u_op u2c_op)
qed

lemma phase_cases_pre:
  assumes "phase_ok c cc g (add_mset q Q) J R"
    and "sqe_op q \<notin> {OpC2URecv, OpC2USend, OpU2CRecv, OpU2CSend}"
  obtains
    (reading) "q = recv_req cc" "Q = {#}" "J = {#}" "R = {#}" "undecided c cc g"
      "reqN cc < length (reqBuf cc)" "all_more (decs g)" "to_client g = replies (decs g)"
  | (replying_more) "q = reply_send cc OpReplyMore" "Q = {#}" "J = {#}" "R = {#}" "undecided c cc g"
      "reqN cc < length (reqBuf cc)" "all_more (decs g)" "reply_pending cc g"
  | (rejecting) d where "q = reply_send cc OpRejectSend" "Q = {#}" "J = {#}" "R = {#}" "pre_relay c cc g"
      "counted cc" "upstreamFD cc = 0" "to_up g = []" "decided_by g d" "Reject d" "reply_pending cc g"
  | (replying_client) d where "q = reply_send cc OpReplyClient" "Q = {#}" "J = {#}" "R = {#}"
      "adopted c cc g d" "to_up g = []" "initSent cc = clamp_consumed (Consumed d) (reqN cc)"
      "reply_pending cc g"
  | (forwarding) d where "q = init_send cc" "Q = {#}" "J = {#}" "R = {#}" "adopted c cc g d"
      "clamp_consumed (Consumed d) (reqN cc) \<le> initSent cc" "initSent cc < reqN cc"
      "to_up g = slice (reqBuf cc) (clamp_consumed (Consumed d) (reqN cc)) (initSent cc)"
      "to_client g = replies (decs g)"
  using assms(1)
proof cases
  case (relaying C pc U pu)
  then show ?thesis using relay_split [of cc C pc U pu q Q] assms(2) by auto
qed (auto intro: that)

text \<open>The phase is determined by the operation that completes.\<close>

lemma phase_recvReq:
  assumes "phase_ok c cc g (add_mset q Q) J R" and "sqe_op q = OpRecvReq"
  shows "q = recv_req cc \<and> Q = {#} \<and> J = {#} \<and> R = {#} \<and> undecided c cc g \<and>
    reqN cc < length (reqBuf cc) \<and> all_more (decs g) \<and> to_client g = replies (decs g)"
  using assms by (auto elim!: phase_cases_pre simp: reply_send_def init_send_def)

lemma phase_replyMore:
  assumes "phase_ok c cc g (add_mset q Q) J R" and "sqe_op q = OpReplyMore"
  shows "q = reply_send cc OpReplyMore \<and> Q = {#} \<and> J = {#} \<and> R = {#} \<and> undecided c cc g \<and>
    reqN cc < length (reqBuf cc) \<and> all_more (decs g) \<and> reply_pending cc g"
  using assms by (auto elim!: phase_cases_pre simp: reply_send_def recv_req_def init_send_def)

lemma phase_rejectSend:
  assumes "phase_ok c cc g (add_mset q Q) J R" and "sqe_op q = OpRejectSend"
  shows "\<exists>d. q = reply_send cc OpRejectSend \<and> Q = {#} \<and> J = {#} \<and> R = {#} \<and> pre_relay c cc g \<and>
    counted cc \<and> upstreamFD cc = 0 \<and> to_up g = [] \<and> decided_by g d \<and> Reject d \<and> reply_pending cc g"
  using assms by (auto elim!: phase_cases_pre simp: reply_send_def recv_req_def init_send_def)

lemma phase_replyClient:
  assumes "phase_ok c cc g (add_mset q Q) J R" and "sqe_op q = OpReplyClient"
  shows "\<exists>d. q = reply_send cc OpReplyClient \<and> Q = {#} \<and> J = {#} \<and> R = {#} \<and> adopted c cc g d \<and>
    to_up g = [] \<and> initSent cc = clamp_consumed (Consumed d) (reqN cc) \<and> reply_pending cc g"
  using assms by (auto elim!: phase_cases_pre simp: reply_send_def recv_req_def init_send_def)

lemma phase_sendUp:
  assumes "phase_ok c cc g (add_mset q Q) J R" and "sqe_op q = OpSendUp"
  shows "\<exists>d. q = init_send cc \<and> Q = {#} \<and> J = {#} \<and> R = {#} \<and> adopted c cc g d \<and>
    clamp_consumed (Consumed d) (reqN cc) \<le> initSent cc \<and> initSent cc < reqN cc \<and>
    to_up g = slice (reqBuf cc) (clamp_consumed (Consumed d) (reqN cc)) (initSent cc) \<and>
    to_client g = replies (decs g)"
  using assms by (auto elim!: phase_cases_pre simp: reply_send_def recv_req_def)

lemma phase_cases_relay:
  assumes "phase_ok c cc g (add_mset q Q) J R"
    and "sqe_op q \<in> {OpC2URecv, OpC2USend, OpU2CRecv, OpU2CSend}"
  obtains
    (up) pc pu where "J = {#}" "R = {#}" "duplex c cc" "c2u_ok cc {#q#} pc" "u2c_ok cc Q pu"
      "relay_streams cc g pc pu" "sqe_op q = OpC2URecv \<or> sqe_op q = OpC2USend"
  | (down) pc pu where "J = {#}" "R = {#}" "duplex c cc" "c2u_ok cc Q pc" "u2c_ok cc {#q#} pu"
      "relay_streams cc g pc pu" "sqe_op q = OpU2CRecv \<or> sqe_op q = OpU2CSend"
  using assms(1)
proof cases
  case (relaying C pc U pu)
  then show ?thesis
    using relay_split [of cc C pc U pu q Q] that by (auto simp: duplex_def)
qed (use assms(2) in \<open>auto simp: recv_req_def reply_send_def init_send_def\<close>)

lemma phase_c2uRecv:
  assumes "phase_ok c cc g (add_mset q Q) J R" and "sqe_op q = OpC2URecv"
  shows "\<exists>pu. q = c2u_recv cc \<and> J = {#} \<and> R = {#} \<and> duplex c cc \<and> \<not> clientReadDone cc \<and>
    u2c_ok cc Q pu \<and> relay_streams cc g [] pu"
  using assms by (auto elim!: phase_cases_relay simp: c2u_ok_iff [of cc "{#q#}"] c2u_send_def)

lemma phase_c2uSend:
  assumes "phase_ok c cc g (add_mset q Q) J R" and "sqe_op q = OpC2USend"
  shows "\<exists>pu. q = c2u_send cc \<and> J = {#} \<and> R = {#} \<and> duplex c cc \<and> \<not> clientReadDone cc \<and>
    c2uOff cc < c2uEnd cc \<and> c2uEnd cc \<le> length (c2uBuf cc) \<and> u2c_ok cc Q pu \<and>
    relay_streams cc g (slice (c2uBuf cc) (c2uOff cc) (c2uEnd cc)) pu"
  using assms by (auto elim!: phase_cases_relay simp: c2u_ok_iff [of cc "{#q#}"] c2u_recv_def)

lemma phase_u2cRecv:
  assumes "phase_ok c cc g (add_mset q Q) J R" and "sqe_op q = OpU2CRecv"
  shows "\<exists>pc. q = u2c_recv cc \<and> J = {#} \<and> R = {#} \<and> duplex c cc \<and> \<not> upstreamReadDone cc \<and>
    c2u_ok cc Q pc \<and> relay_streams cc g pc []"
  using assms by (auto elim!: phase_cases_relay simp: u2c_ok_iff [of cc "{#q#}"] u2c_send_def)

lemma phase_u2cSend:
  assumes "phase_ok c cc g (add_mset q Q) J R" and "sqe_op q = OpU2CSend"
  shows "\<exists>pc. q = u2c_send cc \<and> J = {#} \<and> R = {#} \<and> duplex c cc \<and> \<not> upstreamReadDone cc \<and>
    u2cOff cc < u2cEnd cc \<and> u2cEnd cc \<le> length (u2cBuf cc) \<and> c2u_ok cc Q pc \<and>
    relay_streams cc g pc (slice (u2cBuf cc) (u2cOff cc) (u2cEnd cc))"
  using assms by (auto elim!: phase_cases_relay simp: u2c_ok_iff [of cc "{#q#}"] u2c_recv_def)

end
