(* ===== verification/Engine_Handlers.thy ===== *)
theory Engine_Handlers
  imports Engine_Preserve
begin

text \<open>
  From the phase a completing entry belongs to, to the invariant after its handler: one lemma per
  operation on connections, each stating also that the handler returns (no panic).
\<close>

section \<open>A connection with entries outstanding in the other direction only\<close>

definition relay_for ::
  "nat \<Rightarrow> config \<Rightarrow> hookResult list \<Rightarrow> (nat \<Rightarrow> streams) \<Rightarrow> sqe multiset \<Rightarrow> sqe multiset \<Rightarrow> conn \<Rightarrow> worker \<Rightarrow> bool" where
  "relay_for i c R H A Q cc s \<longleftrightarrow>
     inv_except i c R H A s \<and> conn_id cc = i \<and> 0 < i \<and> i \<le> nextID s \<and> \<not> closing cc \<and>
     lastTick cc \<le> tick s \<and> ops_of i s = Q \<and> closes_of i s = {#} \<and> jobs_of i s = {#} \<and>
     results_of i R s = {#}"

lemma relay_ready: "relay_for i c R H A {#} cc s \<longleftrightarrow> ready_for i c R H A cc s"
  by (auto simp: relay_for_def ready_for_def idle_at_def)

lemma relay_for_simps [simp]:
  "relay_for i c R H A Q cc s \<Longrightarrow> relay_for i c R H A Q cc (count f s)"
  "relay_for i c R H A Q cc s \<Longrightarrow> relay_for i c R H A Q cc (sys x s)"
  by (simp_all add: relay_for_def)

lemma relay_for_conn:
  "relay_for i c R H A Q cc s \<Longrightarrow> conn_id cc' = conn_id cc \<Longrightarrow> closing cc' = closing cc \<Longrightarrow>
   lastTick cc' \<le> tick s \<Longrightarrow> relay_for i c R H A Q cc' s"
  by (simp add: relay_for_def)

lemma relay_fail: "relay_for i c R H A Q cc s \<Longrightarrow> engine_inv c R H A (fail cc s)"
  by (auto simp: relay_for_def intro: fail_inv)

lemma relay_post:
  assumes r: "relay_for i c R H A Q cc s" and q: "sqe_id q = i" "sqe_op q \<noteq> OpClose" "sqe_wf q"
    and p: "phase_ok c cc (H i) (add_mset q Q) {#} {#}"
  shows "engine_inv c R H A (post q (putc cc s))"
proof (rule inv_fill [of i])
  from r show "inv_except i c R H A (post q (putc cc s))"
    using q by (auto simp: relay_for_def hole_putc intro!: hole_post)
  fix cc' assume "map_of (conns (post q (putc cc s))) i = Some cc'"
  with r q p show "conn_inv c R H (post q (putc cc s)) i cc'"
    by (auto simp: relay_for_def conn_inv_def ops_of_post closes_of_post split: if_splits)
qed

lemma relay_putc:
  assumes r: "relay_for i c R H A Q cc s" and p: "phase_ok c cc (H i) Q {#} {#}"
  shows "engine_inv c R H A (putc cc s)"
proof (rule inv_fill [of i])
  from r show "inv_except i c R H A (putc cc s)" by (auto simp: relay_for_def hole_putc)
  fix cc' assume "map_of (conns (putc cc s)) i = Some cc'"
  with r p show "conn_inv c R H (putc cc s) i cc'"
    by (auto simp: relay_for_def conn_inv_def split: if_splits)
qed

section \<open>Fields a direction does not read\<close>

lemma c2u_ok_simps [simp]:
  "c2u_ok (cc\<lparr>u2cBuf := b\<rparr>) Q p = c2u_ok cc Q p"
  "c2u_ok (cc\<lparr>u2cOff := n\<rparr>) Q p = c2u_ok cc Q p"
  "c2u_ok (cc\<lparr>u2cEnd := n\<rparr>) Q p = c2u_ok cc Q p"
  "c2u_ok (cc\<lparr>lastTick := n\<rparr>) Q p = c2u_ok cc Q p"
  "c2u_ok (cc\<lparr>upstreamReadDone := x\<rparr>) Q p = c2u_ok cc Q p"
  by (simp_all add: c2u_ok_iff c2u_recv_def c2u_send_def)

lemma u2c_ok_simps [simp]:
  "u2c_ok (cc\<lparr>c2uBuf := b\<rparr>) Q p = u2c_ok cc Q p"
  "u2c_ok (cc\<lparr>c2uOff := n\<rparr>) Q p = u2c_ok cc Q p"
  "u2c_ok (cc\<lparr>c2uEnd := n\<rparr>) Q p = u2c_ok cc Q p"
  "u2c_ok (cc\<lparr>lastTick := n\<rparr>) Q p = u2c_ok cc Q p"
  "u2c_ok (cc\<lparr>clientReadDone := x\<rparr>) Q p = u2c_ok cc Q p"
  by (simp_all add: u2c_ok_iff u2c_recv_def u2c_send_def)

lemma relay_streams_simps [simp]:
  "relay_streams (cc\<lparr>c2uBuf := b\<rparr>) g p p' = relay_streams cc g p p'"
  "relay_streams (cc\<lparr>c2uOff := n\<rparr>) g p p' = relay_streams cc g p p'"
  "relay_streams (cc\<lparr>c2uEnd := n\<rparr>) g p p' = relay_streams cc g p p'"
  "relay_streams (cc\<lparr>u2cBuf := b\<rparr>) g p p' = relay_streams cc g p p'"
  "relay_streams (cc\<lparr>u2cOff := n\<rparr>) g p p' = relay_streams cc g p p'"
  "relay_streams (cc\<lparr>u2cEnd := n\<rparr>) g p p' = relay_streams cc g p p'"
  "relay_streams (cc\<lparr>lastTick := n\<rparr>) g p p' = relay_streams cc g p p'"
  "relay_streams (cc\<lparr>clientReadDone := x\<rparr>) g p p' = relay_streams cc g p p'"
  "relay_streams (cc\<lparr>upstreamReadDone := x\<rparr>) g p p' = relay_streams cc g p p'"
  "relay_streams (cc\<lparr>initSent := n\<rparr>) g p p' = relay_streams cc g p p'"
  by (simp_all add: relay_streams_def)

lemma relaying_up:
  assumes "duplex c cc" "c2u_ok cc {#q#} pc" "u2c_ok cc Q pu" "relay_streams cc g pc pu"
  shows "phase_ok c cc g (add_mset q Q) {#} {#}"
proof -
  have "phase_ok c cc g ({#q#} + Q) {#} {#}"
    by (rule phase_ok.relaying) (use assms in \<open>auto simp: duplex_def\<close>)
  then show ?thesis by simp
qed

lemma relaying_down:
  assumes "duplex c cc" "c2u_ok cc Q pc" "u2c_ok cc {#q#} pu" "relay_streams cc g pc pu"
  shows "phase_ok c cc g (add_mset q Q) {#} {#}"
proof -
  have "phase_ok c cc g (Q + {#q#}) {#} {#}"
    by (rule phase_ok.relaying) (use assms in \<open>auto simp: duplex_def\<close>)
  then show ?thesis by simp
qed

lemma relaying_half:
  assumes "duplex c cc" "c2u_ok cc C pc" "u2c_ok cc U pu" "relay_streams cc g pc pu" "C + U = Q"
  shows "phase_ok c cc g Q {#} {#}"
  using assms by (auto simp: duplex_def intro: phase_ok.relaying)

section \<open>The request phases\<close>

lemma with_conn_live: "map_of (conns s) i = Some cc \<Longrightarrow> \<not> closing cc \<Longrightarrow> with_conn i s f = f cc"
  by (simp add: with_conn_def)

lemma on_recvReq_ok:
  assumes r: "relay_for i c R H A {#} cc s" and m: "map_of (conns s) i = Some cc"
    and p: "0 < res \<Longrightarrow> undecided c (cc\<lparr>reqN := reqN cc + nat res\<rparr>) (H i)"
    and g: "all_more (decs (H i))" "to_client (H i) = replies (decs (H i))"
  shows "\<exists>s'. on_recvReq i res s = Some s' \<and> engine_inv c R H A s'"
proof (cases "res \<le> 0")
  case True
  then show ?thesis using r m relay_fail [OF r] by (simp add: on_recvReq_def with_conn_live relay_for_def)
next
  case False
  define d where "d = cc\<lparr>reqN := reqN cc + nat res, lastTick := tick s\<rparr>"
  let ?s = "(putc d s)\<lparr>jobs := jobs s @ [the_job d]\<rparr>"
  have u: "undecided c d (H i)" using p False by (simp add: d_def)
  then have le: "reqN d \<le> length (reqBuf d)" by (simp add: undecided_def pre_relay_def)
  have i: "conn_id d = i" "0 < i" "i \<le> nextID s" "\<not> closing d" "lastTick d \<le> tick s"
    using r by (auto simp: relay_for_def d_def)
  have eq: "on_recvReq i res s = Some ?s"
    using m False i le by (simp add: on_recvReq_def with_conn_live Let_def d_def the_job_def)
  have h: "inv_except i c R H A ?s"
    using hole_job [of i c R H A "putc d s" "the_job d"] r i
    by (simp add: relay_for_def hole_putc the_job_def)
  have ph: "phase_ok c d (H i) {#} {#the_job d#} {#}"
    using u g False by (intro phase_ok.deciding) (auto simp: d_def)
  have "engine_inv c R H A ?s"
    using h
  proof (rule inv_fill)
    fix cc' assume "map_of (conns ?s) i = Some cc'"
    then have "cc' = d" using i by simp
    moreover have "ops_of i ?s = ops_of i s" "closes_of i ?s = closes_of i s"
      "results_of i R ?s = results_of i R s"
      by (simp_all add: ops_of_def closes_of_def results_of_def)
    moreover have "jobs_of i ?s = {#the_job d#}"
      using r i by (simp add: relay_for_def jobs_of_def the_job_def)
    ultimately show "conn_inv c R H ?s i cc'"
      using r i ph by (simp add: relay_for_def conn_inv_def)
  qed
  with eq show ?thesis by blast
qed

lemma reply_pending_step:
  assumes "to_client g' = to_client g @ take n (slice (replyBuf cc) (replyOff cc) (replyEnd cc))"
    and "decs g' = decs g" and "reply_pending cc g" and "replyOff cc + n < replyEnd cc"
  shows "reply_pending (cc\<lparr>replyOff := replyOff cc + n\<rparr>) g'"
  using assms take_slice_append [of n "replyEnd cc" "replyOff cc" "replyBuf cc"]
  by (auto simp: reply_pending_def)

lemma reply_pending_end:
  assumes "to_client g' = to_client g @ take n (slice (replyBuf cc) (replyOff cc) (replyEnd cc))"
    and "decs g' = decs g" and "reply_pending cc g" and "\<not> replyOff cc + n < replyEnd cc"
  shows "to_client g' = replies (decs g')"
  using assms by (auto simp: reply_pending_def)

lemma on_replyMore_ok:
  assumes r: "relay_for i c R H A {#} cc s" and m: "map_of (conns s) i = Some cc"
    and p: "undecided c cc (H i)" "reqN cc < length (reqBuf cc)" "all_more (decs (H i))"
    and n: "0 < res \<Longrightarrow> replyOff cc + nat res < replyEnd cc \<Longrightarrow>
       reply_pending (cc\<lparr>replyOff := replyOff cc + nat res\<rparr>) (H i)"
    and e: "0 < res \<Longrightarrow> \<not> replyOff cc + nat res < replyEnd cc \<Longrightarrow> to_client (H i) = replies (decs (H i))"
  shows "\<exists>s'. on_replyMore i res s = Some s' \<and> engine_inv c R H A s'"
proof -
  let ?d = "cc\<lparr>replyOff := replyOff cc + nat res\<rparr>"
  have rd: "ready_for i c R H A ?d s" using r by (simp add: relay_ready ready_for_def)
  have live: "with_conn i s f = f cc" for f using r m by (simp add: with_conn_live relay_for_def)
  consider "res \<le> 0" | "0 < res" "replyOff ?d < replyEnd ?d" | "0 < res" "\<not> replyOff ?d < replyEnd ?d" by linarith
  then show ?thesis
  proof cases
    case 1
    then show ?thesis using relay_fail [OF r] by (simp add: on_replyMore_def live)
  next
    case 2
    have "phase_ok c ?d (H i) {#reply_send ?d OpReplyMore#} {#} {#}"
      using p 2 n by (intro phase_ok.replying_more) auto
    moreover have "replyEnd ?d = length (replyBuf ?d)" using n 2 by (auto simp: reply_pending_def)
    ultimately have "\<exists>s'. resend_reply ?d OpReplyMore s = Some s' \<and> engine_inv c R H A s'"
      using 2 by (intro resend_reply_inv [OF rd]) auto
    then show ?thesis using 2 by (simp add: on_replyMore_def live)
  next
    case 3
    have "\<exists>s'. postRecvReq ?d s = Some s' \<and> engine_inv c R H A s'"
      using p 3 e by (intro postRecvReq_inv [OF rd]) auto
    then show ?thesis using 3 by (simp add: on_replyMore_def live)
  qed
qed

lemma ready_close:
  "ready_for i c R H A cc s \<Longrightarrow> counted cc \<Longrightarrow> engine_inv c R H A (closeConn cc s)"
  by (auto simp: ready_for_def idle_at_def intro: closeConn_inv)

lemma on_rejectSend_ok:
  assumes r: "relay_for i c R H A {#} cc s" and m: "map_of (conns s) i = Some cc"
    and p: "pre_relay c cc (H i)" "counted cc" "upstreamFD cc = 0" "to_up (H i) = []"
      "decided_by (H i) d" "Reject d"
    and n: "0 < res \<Longrightarrow> replyOff cc + nat res < replyEnd cc \<Longrightarrow>
       reply_pending (cc\<lparr>replyOff := replyOff cc + nat res\<rparr>) (H i)"
  shows "\<exists>s'. on_rejectSend i res s = Some s' \<and> engine_inv c R H A s'"
proof -
  let ?d = "cc\<lparr>replyOff := replyOff cc + nat res\<rparr>"
  have rd: "ready_for i c R H A ?d s" "ready_for i c R H A cc s" using r by (simp_all add: relay_ready ready_for_def)
  have live: "with_conn i s f = f cc" for f using r m by (simp add: with_conn_live relay_for_def)
  have close: "engine_inv c R H A (closeConn cc s)" "engine_inv c R H A (closeConn ?d s)"
    using ready_close [OF rd(2)] ready_close [OF rd(1)] p by simp_all
  show ?thesis
  proof (cases "0 < res \<and> replyOff ?d < replyEnd ?d")
    case True
    have "phase_ok c ?d (H i) {#reply_send ?d OpRejectSend#} {#} {#}"
      using p True n by (intro phase_ok.rejecting) auto
    moreover have "replyEnd ?d = length (replyBuf ?d)" using n True by (auto simp: reply_pending_def)
    ultimately have "\<exists>s'. resend_reply ?d OpRejectSend s = Some s' \<and> engine_inv c R H A s'"
      using True by (intro resend_reply_inv [OF rd(1)]) auto
    then show ?thesis using True by (simp add: on_rejectSend_def live)
  next
    case False
    then show ?thesis using close by (auto simp: on_rejectSend_def live Let_def)
  qed
qed

lemma on_replyClient_ok:
  assumes c: "config_ok c" and r: "relay_for i c R H A {#} cc s" and m: "map_of (conns s) i = Some cc"
    and p: "adopted c cc (H i) d" "to_up (H i) = []" "initSent cc = clamp_consumed (Consumed d) (reqN cc)"
    and n: "0 < res \<Longrightarrow> replyOff cc + nat res < replyEnd cc \<Longrightarrow>
       reply_pending (cc\<lparr>replyOff := replyOff cc + nat res\<rparr>) (H i)"
    and e: "0 < res \<Longrightarrow> \<not> replyOff cc + nat res < replyEnd cc \<Longrightarrow> to_client (H i) = replies (decs (H i))"
  shows "\<exists>s'. on_replyClient c i res s = Some s' \<and> engine_inv c R H A s'"
proof -
  let ?d = "cc\<lparr>replyOff := replyOff cc + nat res\<rparr>"
  have rd: "ready_for i c R H A ?d s" using r by (simp add: relay_ready ready_for_def)
  have live: "with_conn i s f = f cc" for f using r m by (simp add: with_conn_live relay_for_def)
  consider "res \<le> 0" | "0 < res" "replyOff ?d < replyEnd ?d" | "0 < res" "\<not> replyOff ?d < replyEnd ?d" by linarith
  then show ?thesis
  proof cases
    case 1
    then show ?thesis using relay_fail [OF r] by (simp add: on_replyClient_def live)
  next
    case 2
    have "phase_ok c ?d (H i) {#reply_send ?d OpReplyClient#} {#} {#}"
      using p 2 n by (intro phase_ok.replying_client [where d = d]) auto
    moreover have "replyEnd ?d = length (replyBuf ?d)" using n 2 by (auto simp: reply_pending_def)
    ultimately have "\<exists>s'. resend_reply ?d OpReplyClient s = Some s' \<and> engine_inv c R H A s'"
      using 2 by (intro resend_reply_inv [OF rd]) auto
    then show ?thesis using 2 by (simp add: on_replyClient_def live)
  next
    case 3
    have "\<exists>s'. forwardInit c ?d s = Some s' \<and> engine_inv c R H A s'"
      using p 3 e by (intro forwardInit_inv [OF c rd, where d = d]) auto
    then show ?thesis using 3 by (simp add: on_replyClient_def live)
  qed
qed

lemma on_sendUp_ok:
  assumes c: "config_ok c" and r: "relay_for i c R H A {#} cc s" and m: "map_of (conns s) i = Some cc"
    and p: "adopted c cc (H i) d" "clamp_consumed (Consumed d) (reqN cc) \<le> initSent cc"
      "to_client (H i) = replies (decs (H i))"
    and b: "0 < res \<Longrightarrow> initSent cc + nat res \<le> reqN cc"
    and u: "0 < res \<Longrightarrow> to_up (H i) =
       slice (reqBuf cc) (clamp_consumed (Consumed d) (reqN cc)) (initSent cc + nat res)"
  shows "\<exists>s'. on_sendUp c i res s = Some s' \<and> engine_inv c R H A s'"
proof -
  let ?d = "cc\<lparr>initSent := initSent cc + nat res\<rparr>"
  let ?s = "count (\<lambda>n. n\<lparr>bytesC2U := bytesC2U n + word_of_int res\<rparr>) s"
  have rd: "ready_for i c R H A ?d ?s" using r by (simp add: relay_ready ready_for_def idle_at_def)
  have live: "with_conn i s f = f cc" for f using r m by (simp add: with_conn_live relay_for_def)
  consider "res \<le> 0" | "0 < res" "initSent ?d < reqN ?d" | "0 < res" "\<not> initSent ?d < reqN ?d" by linarith
  then show ?thesis
  proof cases
    case 1
    then show ?thesis using relay_fail [OF r] by (simp add: on_sendUp_def live)
  next
    case 2
    have "prep_send (upstreamFD ?d) (reqBuf ?d) (initSent ?d) (reqN ?d) (conn_id ?d) OpSendUp = Some (init_send ?d)"
      using 2 p(1) by (auto simp: prep_send_def init_send_def adopted_def pre_relay_def)
    moreover have "phase_ok c ?d (H i) {#init_send ?d#} {#} {#}"
      using 2 p u by (intro phase_ok.forwarding [where d = d]) auto
    then have "engine_inv c R H A (post (init_send ?d) (putc ?d ?s))"
      using r by (intro post_phase [OF rd]) (auto simp: init_send_def relay_for_def sqe_wf.simps)
    ultimately show ?thesis using 2 by (simp add: on_sendUp_def live Let_def)
  next
    case 3
    have "relay_streams ?d (H i) [] []"
      using p u 3 b by (auto simp: relay_streams_def adopted_def pre_relay_def slice_eq_drop_take)
    then have "\<exists>s'. startDuplex c ?d ?s = Some s' \<and> engine_inv c R H A s'"
      using p by (intro startDuplex_inv [OF c rd]) (auto simp: adopted_def pre_relay_def)
    then show ?thesis using 3 by (simp add: on_sendUp_def live Let_def)
  qed
qed

end
