(* ===== verification/Engine_Relay.thy ===== *)
theory Engine_Relay
  imports Engine_Handlers
begin

text \<open>
  The relay phase (both directions), the final closes, the hook results, accepts and the idle sweep:
  the rest of the handlers keep the invariant.
\<close>

section \<open>The two relay directions\<close>

lemma on_c2uRecv_ok:
  assumes r: "relay_for i c R H A U cc s" and m: "map_of (conns s) i = Some cc"
    and d: "duplex c cc" "\<not> clientReadDone cc" and u: "u2c_ok cc U pu"
    and n: "nat res \<le> length (c2uBuf cc)"
    and g: "0 \<le> res \<Longrightarrow> relay_streams cc (H i) (take (nat res) (c2uBuf cc)) pu"
  shows "\<exists>s'. on_c2uRecv i res s = Some s' \<and> engine_inv c R H A s'"
proof -
  have live: "with_conn i s f = f cc" for f using r m by (simp add: with_conn_live relay_for_def)
  consider "res < 0" | "res = 0" | "0 < res" by linarith
  then show ?thesis
  proof cases
    case 1
    then show ?thesis using relay_fail [OF r] by (simp add: on_c2uRecv_def live)
  next
    case 2
    let ?d = "cc\<lparr>clientReadDone := True\<rparr>" and ?s = "sys (SysShutdown (upstreamFD cc)) s"
    have rd: "relay_for i c R H A U ?d ?s" using r by (simp add: relay_for_def)
    have "engine_inv c R H A (if upstreamReadDone ?d then closeConn ?d ?s else putc ?d ?s)"
    proof (cases "upstreamReadDone cc")
      case True
      then have "U = {#} \<and> pu = []" using u by (auto simp: u2c_ok_iff)
      moreover have "engine_inv c R H A (closeConn ?d ?s)"
        using rd d(1) True g 2 calculation
        by (intro closeConn_inv [where i = i]) (auto simp: relay_for_def duplex_def)
      ultimately show ?thesis using True by simp
    next
      case False
      have "phase_ok c ?d (H i) U {#} {#}"
        using False d u g 2
        by (intro relaying_half [of c ?d "{#}" "[]" U pu]) (auto simp: duplex_def intro: c2u_done)
      then show ?thesis using False relay_putc [OF rd] by simp
    qed
    then show ?thesis using 2 by (simp add: on_c2uRecv_def live Let_def)
  next
    case 3
    let ?s = "count (\<lambda>n. n\<lparr>bytesC2U := bytesC2U n + word_of_int res\<rparr>) s"
    define e where "e = cc\<lparr>lastTick := tick s, c2uOff := 0, c2uEnd := nat res\<rparr>"
    have rd: "relay_for i c R H A U e ?s" using r by (simp add: relay_for_def e_def)
    have "prep_send (upstreamFD e) (c2uBuf e) (c2uOff e) (c2uEnd e) (conn_id e) OpC2USend = Some (c2u_send e)"
      using n 3 by (simp add: e_def prep_send_def c2u_send_def)
    moreover have "phase_ok c e (H i) (add_mset (c2u_send e) U) {#} {#}"
    proof (rule relaying_up)
      show "duplex c e" "u2c_ok e U pu" using d u by (simp_all add: e_def duplex_def)
      show "c2u_ok e {#c2u_send e#} (slice (c2uBuf e) (c2uOff e) (c2uEnd e))"
        using d n 3 by (intro c2u_sending) (simp_all add: e_def)
      show "relay_streams e (H i) (slice (c2uBuf e) (c2uOff e) (c2uEnd e)) pu"
        using g 3 by (simp add: e_def)
    qed
    then have "engine_inv c R H A (post (c2u_send e) (putc e ?s))"
      using rd by (intro relay_post [OF rd]) (auto simp: c2u_send_def relay_for_def sqe_wf.simps)
    ultimately show ?thesis using 3 by (simp add: on_c2uRecv_def live Let_def e_def)
  qed
qed

lemma on_u2cRecv_ok:
  assumes r: "relay_for i c R H A C cc s" and m: "map_of (conns s) i = Some cc"
    and d: "duplex c cc" "\<not> upstreamReadDone cc" and u: "c2u_ok cc C pc"
    and n: "nat res \<le> length (u2cBuf cc)"
    and g: "0 \<le> res \<Longrightarrow> relay_streams cc (H i) pc (take (nat res) (u2cBuf cc))"
  shows "\<exists>s'. on_u2cRecv i res s = Some s' \<and> engine_inv c R H A s'"
proof -
  have live: "with_conn i s f = f cc" for f using r m by (simp add: with_conn_live relay_for_def)
  consider "res < 0" | "res = 0" | "0 < res" by linarith
  then show ?thesis
  proof cases
    case 1
    then show ?thesis using relay_fail [OF r] by (simp add: on_u2cRecv_def live)
  next
    case 2
    let ?d = "cc\<lparr>upstreamReadDone := True\<rparr>" and ?s = "sys (SysShutdown (clientFD cc)) s"
    have rd: "relay_for i c R H A C ?d ?s" using r by (simp add: relay_for_def)
    have "engine_inv c R H A (if clientReadDone ?d then closeConn ?d ?s else putc ?d ?s)"
    proof (cases "clientReadDone cc")
      case True
      then have "C = {#} \<and> pc = []" using u by (auto simp: c2u_ok_iff)
      moreover have "engine_inv c R H A (closeConn ?d ?s)"
        using rd d(1) True g 2 calculation
        by (intro closeConn_inv [where i = i]) (auto simp: relay_for_def duplex_def)
      ultimately show ?thesis using True by simp
    next
      case False
      have "phase_ok c ?d (H i) C {#} {#}"
        using False d u g 2
        by (intro relaying_half [of c ?d C pc "{#}" "[]"]) (auto simp: duplex_def intro: u2c_done)
      then show ?thesis using False relay_putc [OF rd] by simp
    qed
    then show ?thesis using 2 by (simp add: on_u2cRecv_def live Let_def)
  next
    case 3
    let ?s = "count (\<lambda>n. n\<lparr>bytesU2C := bytesU2C n + word_of_int res\<rparr>) s"
    define e where "e = cc\<lparr>lastTick := tick s, u2cOff := 0, u2cEnd := nat res\<rparr>"
    have rd: "relay_for i c R H A C e ?s" using r by (simp add: relay_for_def e_def)
    have "prep_send (clientFD e) (u2cBuf e) (u2cOff e) (u2cEnd e) (conn_id e) OpU2CSend = Some (u2c_send e)"
      using n 3 by (simp add: e_def prep_send_def u2c_send_def)
    moreover have "phase_ok c e (H i) (add_mset (u2c_send e) C) {#} {#}"
    proof (rule relaying_down)
      show "duplex c e" "c2u_ok e C pc" using d u by (simp_all add: e_def duplex_def)
      show "u2c_ok e {#u2c_send e#} (slice (u2cBuf e) (u2cOff e) (u2cEnd e))"
        using d n 3 by (intro u2c_sending) (simp_all add: e_def)
      show "relay_streams e (H i) pc (slice (u2cBuf e) (u2cOff e) (u2cEnd e))"
        using g 3 by (simp add: e_def)
    qed
    then have "engine_inv c R H A (post (u2c_send e) (putc e ?s))"
      using rd by (intro relay_post [OF rd]) (auto simp: u2c_send_def relay_for_def sqe_wf.simps)
    ultimately show ?thesis using 3 by (simp add: on_u2cRecv_def live Let_def e_def)
  qed
qed

lemma on_c2uSend_ok:
  assumes c: "config_ok c" and r: "relay_for i c R H A U cc s" and m: "map_of (conns s) i = Some cc"
    and d: "duplex c cc" "\<not> clientReadDone cc" and u: "u2c_ok cc U pu" and n: "c2uEnd cc \<le> length (c2uBuf cc)"
    and g: "0 < res \<Longrightarrow> relay_streams cc (H i) (slice (c2uBuf cc) (c2uOff cc + nat res) (c2uEnd cc)) pu"
  shows "\<exists>s'. on_c2uSend i res s = Some s' \<and> engine_inv c R H A s'"
proof -
  let ?d = "cc\<lparr>c2uOff := c2uOff cc + nat res\<rparr>"
  have rd: "relay_for i c R H A U ?d s" using r by (simp add: relay_for_def)
  have live: "with_conn i s f = f cc" for f using r m by (simp add: with_conn_live relay_for_def)
  have dd: "duplex c ?d" "u2c_ok ?d U pu" using d u by (simp_all add: duplex_def)
  have i: "conn_id cc = i" "0 < i" using r by (simp_all add: relay_for_def)
  consider "res \<le> 0" | "0 < res" "c2uOff ?d < c2uEnd ?d" | "0 < res" "\<not> c2uOff ?d < c2uEnd ?d" by linarith
  then show ?thesis
  proof cases
    case 1
    then show ?thesis using relay_fail [OF r] by (simp add: on_c2uSend_def live)
  next
    case 2
    have "c2u_ok ?d {#c2u_send ?d#} (slice (c2uBuf ?d) (c2uOff ?d) (c2uEnd ?d))"
      using d n 2 by (intro c2u_sending) simp_all
    then have "phase_ok c ?d (H i) (add_mset (c2u_send ?d) U) {#} {#}"
      using g 2 by (intro relaying_up [OF dd(1) _ dd(2)]) auto
    then have "engine_inv c R H A (post (c2u_send ?d) (putc ?d s))"
      using i by (intro relay_post [OF rd]) (auto simp: c2u_send_def sqe_wf.simps)
    moreover have "prep_send (upstreamFD ?d) (c2uBuf ?d) (c2uOff ?d) (c2uEnd ?d) (conn_id ?d) OpC2USend
        = Some (c2u_send ?d)"
      using 2 n by (simp add: prep_send_def c2u_send_def)
    ultimately show ?thesis using 2 by (simp add: on_c2uSend_def live Let_def)
  next
    case 3
    have "c2u_ok ?d {#c2u_recv ?d#} []" using d by (intro c2u_reading) simp
    then have "phase_ok c ?d (H i) (add_mset (c2u_recv ?d) U) {#} {#}"
      using g 3 by (intro relaying_up [OF dd(1) _ dd(2)]) auto
    then have "engine_inv c R H A (post (c2u_recv ?d) (putc ?d s))"
      using i by (intro relay_post [OF rd]) (auto simp: c2u_recv_def sqe_wf.simps)
    moreover have "prep_recv (clientFD ?d) C2UBuf 0 (length (c2uBuf ?d)) (conn_id ?d) OpC2URecv
        = Some (c2u_recv ?d)"
      using c d(1) by (auto simp: prep_recv_def c2u_recv_def duplex_def config_ok_def)
    ultimately show ?thesis using 3 d by (simp add: on_c2uSend_def live Let_def)
  qed
qed

lemma on_u2cSend_ok:
  assumes c: "config_ok c" and r: "relay_for i c R H A C cc s" and m: "map_of (conns s) i = Some cc"
    and d: "duplex c cc" "\<not> upstreamReadDone cc" and u: "c2u_ok cc C pc" and n: "u2cEnd cc \<le> length (u2cBuf cc)"
    and g: "0 < res \<Longrightarrow> relay_streams cc (H i) pc (slice (u2cBuf cc) (u2cOff cc + nat res) (u2cEnd cc))"
  shows "\<exists>s'. on_u2cSend i res s = Some s' \<and> engine_inv c R H A s'"
proof -
  let ?d = "cc\<lparr>u2cOff := u2cOff cc + nat res\<rparr>"
  have rd: "relay_for i c R H A C ?d s" using r by (simp add: relay_for_def)
  have live: "with_conn i s f = f cc" for f using r m by (simp add: with_conn_live relay_for_def)
  have dd: "duplex c ?d" "c2u_ok ?d C pc" using d u by (simp_all add: duplex_def)
  have i: "conn_id cc = i" "0 < i" using r by (simp_all add: relay_for_def)
  consider "res \<le> 0" | "0 < res" "u2cOff ?d < u2cEnd ?d" | "0 < res" "\<not> u2cOff ?d < u2cEnd ?d" by linarith
  then show ?thesis
  proof cases
    case 1
    then show ?thesis using relay_fail [OF r] by (simp add: on_u2cSend_def live)
  next
    case 2
    have "u2c_ok ?d {#u2c_send ?d#} (slice (u2cBuf ?d) (u2cOff ?d) (u2cEnd ?d))"
      using d n 2 by (intro u2c_sending) simp_all
    then have "phase_ok c ?d (H i) (add_mset (u2c_send ?d) C) {#} {#}"
      using g 2 by (intro relaying_down [OF dd]) auto
    then have "engine_inv c R H A (post (u2c_send ?d) (putc ?d s))"
      using i by (intro relay_post [OF rd]) (auto simp: u2c_send_def sqe_wf.simps)
    moreover have "prep_send (clientFD ?d) (u2cBuf ?d) (u2cOff ?d) (u2cEnd ?d) (conn_id ?d) OpU2CSend
        = Some (u2c_send ?d)"
      using 2 n by (simp add: prep_send_def u2c_send_def)
    ultimately show ?thesis using 2 by (simp add: on_u2cSend_def live Let_def)
  next
    case 3
    have "u2c_ok ?d {#u2c_recv ?d#} []" using d by (intro u2c_reading) simp
    then have "phase_ok c ?d (H i) (add_mset (u2c_recv ?d) C) {#} {#}"
      using g 3 by (intro relaying_down [OF dd]) auto
    then have "engine_inv c R H A (post (u2c_recv ?d) (putc ?d s))"
      using i by (intro relay_post [OF rd]) (auto simp: u2c_recv_def sqe_wf.simps)
    moreover have "prep_recv (upstreamFD ?d) U2CBuf 0 (length (u2cBuf ?d)) (conn_id ?d) OpU2CRecv
        = Some (u2c_recv ?d)"
      using c d(1) by (auto simp: prep_recv_def u2c_recv_def duplex_def config_ok_def)
    ultimately show ?thesis using 3 d by (simp add: on_u2cSend_def live Let_def)
  qed
qed

section \<open>Hook results\<close>

lemma drop_result:
  assumes "engine_inv c (r # R) H A s"
  shows "inv_except (res_id r) c R H A s" and "0 < res_id r" and "res_id r \<le> nextID s"
    and "results_of (res_id r) (r # R) s = add_mset r (results_of (res_id r) R s)"
proof -
  have res: "results_of j (r # R) s = (if res_id r = j then add_mset r (results_of j R s) else results_of j R s)" for j
    by (simp add: results_of_def)
  show "results_of (res_id r) (r # R) s = add_mset r (results_of (res_id r) R s)" by (simp add: res)
  show 0: "0 < res_id r"
    using assms res [of 0] by (auto simp: engine_inv_def inv_except_def split: if_splits)
  show "res_id r \<le> nextID s"
    using assms res [of "res_id r"] by (auto simp: engine_inv_def inv_except_def fresh_from_def not_less)
  have "inv_except (res_id r) c (r # R) H A s" by (rule inv_holeI [OF assms])
  then show "inv_except (res_id r) c R H A s"
    using 0 unfolding inv_except_def fresh_from_def
    by (auto simp: res split: if_splits intro: conn_inv_cong [where s = s and H = H and R = "r # R"])
qed

lemma growReq_ok:
  assumes g: "growReq c cc = Some d" and c: "config_ok c" and u: "undecided c cc g'"
  shows "undecided c d g' \<and> reqN d < length (reqBuf d) \<and> conn_id d = conn_id cc \<and> closing d = closing cc \<and>
    lastTick d = lastTick cc"
proof (cases "reqN cc < length (reqBuf cc)")
  case True
  then show ?thesis using g u by (simp add: growReq_def)
next
  case False
  define n where "n = nat (if int (length (reqBuf cc)) * 2 > MaxReqLen c then MaxReqLen c else int (length (reqBuf cc)) * 2)"
  have full: "reqN cc = length (reqBuf cc)" and len: "0 < length (reqBuf cc)" "int (length (reqBuf cc)) < MaxReqLen c"
    using False g u c by (auto simp: growReq_def undecided_def pre_relay_def config_ok_def split: if_splits)
  have n: "length (reqBuf cc) < n" "int n \<le> MaxReqLen c"
    using len by (auto simp: n_def zless_nat_eq_int_zless simp flip: length_greater_0_conv)
  have d: "d = cc\<lparr>reqBuf := write_at 0 (reqBuf cc) (replicate n 0)\<rparr>"
    using False g len full by (auto simp: growReq_def n_def Let_def split: if_splits)
  have l: "length (write_at 0 (reqBuf cc) (replicate n 0)) = n" using n by simp
  have t: "take (length (reqBuf cc)) (write_at 0 (reqBuf cc) (replicate n 0)) = reqBuf cc"
    using n by (intro write_at_0_take) simp
  show ?thesis using u n full l t by (simp add: d undecided_def pre_relay_def)
qed

lemma phase_decided:
  assumes "phase_ok c cc g Q J (add_mset r R)"
  shows "\<exists>ds. Q = {#} \<and> J = {#} \<and> R = {#} \<and> undecided c cc g \<and> 0 < reqN cc \<and> decs g = ds @ [dec r] \<and>
    all_more ds \<and> to_client g = replies ds"
  using assms by cases auto

lemma replies_snoc: "replies (ds @ [d]) = replies ds @ Reply d"
  by (simp add: replies_def)

lemma reply_pending_new:
  assumes "decs g = ds @ [d]" "to_client g = replies ds" "0 < length (Reply d)"
  shows "reply_pending (cc\<lparr>replyBuf := Reply d, replyOff := 0, replyEnd := length (Reply d)\<rparr>) g"
  using assms by (simp add: reply_pending_def replies_snoc)

text \<open>The three ways a decision is acted on, for a connection whose hook has just decided.\<close>

lemma act_reject:
  assumes r: "ready_for i c R H A cc s" and u: "undecided c cc (H i)"
    and g: "decs (H i) = ds @ [d]" "all_more ds" "to_client (H i) = replies ds" "Reject d"
  shows "\<exists>s'. (if length (Reply d) > 0 then send_reply (cc\<lparr>counted := True\<rparr>) (Reply d) OpRejectSend s
      else Some (closeConn (cc\<lparr>counted := True\<rparr>) s)) = Some s' \<and> engine_inv c R H A s'"
proof (cases "length (Reply d) > 0")
  case True
  let ?e = "cc\<lparr>counted := True, replyBuf := Reply d, replyOff := 0, replyEnd := length (Reply d)\<rparr>"
  have rd: "ready_for i c R H A ?e s" using r by (simp add: ready_for_def)
  have "phase_ok c ?e (H i) {#reply_send ?e OpRejectSend#} {#} {#}"
    using u g reply_pending_new [OF g(1,3) True, of "cc\<lparr>counted := True\<rparr>"]
    by (intro phase_ok.rejecting [where d = d]) (auto simp: undecided_def decided_by_def)
  then have "\<exists>s'. resend_reply ?e OpRejectSend s = Some s' \<and> engine_inv c R H A s'"
    using True by (intro resend_reply_inv [OF rd]) auto
  then show ?thesis using True by (simp add: send_reply_resend)
next
  case False
  have "engine_inv c R H A (closeConn (cc\<lparr>counted := True\<rparr>) s)"
    using r by (intro ready_close) (auto simp: ready_for_def)
  then show ?thesis using False by simp
qed

lemma act_more:
  assumes c: "config_ok c" and r: "ready_for i c R H A cc s" and u: "undecided c cc (H i)"
    and g: "decs (H i) = ds @ [d]" "all_more ds" "to_client (H i) = replies ds" "\<not> Reject d" "More d"
  shows "\<exists>s'. (case growReq c cc of None \<Rightarrow> Some (fail cc s)
      | Some cc \<Rightarrow> if length (Reply d) > 0 then send_reply cc (Reply d) OpReplyMore s else postRecvReq cc s)
      = Some s' \<and> engine_inv c R H A s'"
proof (cases "growReq c cc")
  case None
  then show ?thesis using ready_fail [OF r] by simp
next
  case (Some e)
  note e = growReq_ok [OF Some c u]
  have am: "all_more (decs (H i))" using g by (simp add: all_more_def)
  have re: "ready_for i c R H A e s" using r e by (simp add: ready_for_def)
  show ?thesis
  proof (cases "length (Reply d) > 0")
    case True
    let ?f = "e\<lparr>replyBuf := Reply d, replyOff := 0, replyEnd := length (Reply d)\<rparr>"
    have rf: "ready_for i c R H A ?f s" using re by (simp add: ready_for_def)
    have "phase_ok c ?f (H i) {#reply_send ?f OpReplyMore#} {#} {#}"
      using e am reply_pending_new [OF g(1,3) True, of e] by (intro phase_ok.replying_more) auto
    then have "\<exists>s'. resend_reply ?f OpReplyMore s = Some s' \<and> engine_inv c R H A s'"
      using True by (intro resend_reply_inv [OF rf]) auto
    then show ?thesis using True Some by (simp add: send_reply_resend)
  next
    case False
    have "\<exists>s'. postRecvReq e s = Some s' \<and> engine_inv c R H A s'"
      using e am g False by (intro postRecvReq_inv [OF re]) (auto simp: replies_snoc)
    then show ?thesis using False Some by simp
  qed
qed

lemma act_adopt:
  assumes c: "config_ok c" and r: "ready_for i c R H A cc s" and u: "undecided c cc (H i)"
    and g: "decs (H i) = ds @ [d]" "all_more ds" "to_client (H i) = replies ds" "\<not> Reject d" "\<not> More d"
  defines "e \<equiv> cc\<lparr>upstreamFD := UpstreamFD d, initSent := clamp_consumed (Consumed d) (reqN cc)\<rparr>"
  shows "\<exists>s'. (if length (Reply d) > 0 then send_reply e (Reply d) OpReplyClient s else forwardInit c e s)
      = Some s' \<and> engine_inv c R H A s'"
proof -
  have re: "ready_for i c R H A e s" using r by (simp add: ready_for_def e_def)
  have ad: "adopted c e (H i) d"
    using u g by (auto simp: e_def adopted_def undecided_def decided_by_def adopts_def)
  have up: "to_up (H i) = []" using u by (simp add: undecided_def)
  show ?thesis
  proof (cases "length (Reply d) > 0")
    case True
    let ?f = "e\<lparr>replyBuf := Reply d, replyOff := 0, replyEnd := length (Reply d)\<rparr>"
    have rf: "ready_for i c R H A ?f s" using re by (simp add: ready_for_def)
    have "phase_ok c ?f (H i) {#reply_send ?f OpReplyClient#} {#} {#}"
      using ad up reply_pending_new [OF g(1,3) True, of e]
      by (intro phase_ok.replying_client [where d = d]) (auto simp: e_def)
    then have "\<exists>s'. resend_reply ?f OpReplyClient s = Some s' \<and> engine_inv c R H A s'"
      using True by (intro resend_reply_inv [OF rf]) auto
    then show ?thesis using True by (simp add: send_reply_resend)
  next
    case False
    have "\<exists>s'. forwardInit c e s = Some s' \<and> engine_inv c R H A s'"
      using False g up by (intro forwardInit_inv [OF c re ad]) (auto simp: e_def replies_snoc)
    then show ?thesis using False by simp
  qed
qed

lemma handle_result_ok:
  assumes c: "config_ok c" and v: "engine_inv c (r # R) H A s"
  shows "\<exists>s'. handle_result c r s = Some s' \<and> engine_inv c R H A s'"
proof -
  let ?i = "res_id r" and ?d = "dec r"
  let ?s = "if UpstreamFD ?d > 0 then sys (SysClose (UpstreamFD ?d)) s else s"
  note dr = drop_result [OF v]
  have hs: "inv_except ?i c R H A ?s" using dr(1) by simp
  show ?thesis
  proof (cases "map_of (conns s) ?i")
    case None
    have "engine_inv c R H A ?s" using hs by (rule inv_fill) (use None in auto)
    then show ?thesis using None by (auto simp: handle_result_def Let_def)
  next
    case (Some cc)
    note ci = inv_conn [OF v Some]
    show ?thesis
    proof (cases "closing cc")
      case True
      have "conn_inv c R H ?s ?i cc"
        using ci True dr(4) by (auto simp: conn_inv_def closing_ok_def)
      then have "engine_inv c R H A ?s" using Some by (intro inv_fill [OF hs]) auto
      then show ?thesis using Some True by (auto simp: handle_result_def Let_def)
    next
      case False
      then have ph: "phase_ok c cc (H ?i) (ops_of ?i s) (jobs_of ?i s) (add_mset r (results_of ?i R s))"
        and cid: "conn_id cc = ?i" "closes_of ?i s = {#}"
        using ci dr(4) by (auto simp: conn_inv_def)
      from phase_decided [OF ph] obtain ds where
        p: "ops_of ?i s = {#}" "jobs_of ?i s = {#}" "results_of ?i R s = {#}" "undecided c cc (H ?i)"
          "decs (H ?i) = ds @ [?d]" "all_more ds" "to_client (H ?i) = replies ds" by blast
      let ?cc = "cc\<lparr>lastTick := tick s\<rparr>"
      have rd: "ready_for ?i c R H A ?cc s"
        using dr cid p False by (simp add: ready_for_def idle_at_def)
      have rd': "ready_for ?i c R H A ?cc ?s" using rd by simp
      have rdc: "ready_for ?i c R H A ?cc (count f ?s)" for f using rd' by simp
      have u: "undecided c ?cc (H ?i)" using p by simp
      show ?thesis
      proof (cases "Reject ?d")
        case True
        show ?thesis
          using act_reject [OF rdc u p(5-7) True, of "\<lambda>n. n\<lparr>rejected := rejected n + 1\<rparr>"] Some False True
          by (simp add: handle_result_def Let_def)
      next
        case nr: False
        show ?thesis
        proof (cases "More ?d")
          case True
          show ?thesis
            using act_more [OF c rd' u p(5-7) nr True] Some False nr True
            by (simp add: handle_result_def Let_def)
        next
          case nm: False
          show ?thesis
            using act_adopt [OF c rd u p(5-7) nr nm] Some False nr nm
            by (cases "Reply ?d = []") (simp_all add: handle_result_def Let_def)
        qed
      qed
    qed
  qed
qed

lemma handle_results_ok:
  "config_ok c \<Longrightarrow> engine_inv c R H A s \<Longrightarrow> \<exists>s'. handle_results c R s = Some s' \<and> engine_inv c [] H A s'"
proof (induction R arbitrary: s)
  case Nil
  then show ?case by simp
next
  case (Cons r R)
  from handle_result_ok [OF Cons.prems] obtain s1 where
    "handle_result c r s = Some s1" "engine_inv c R H A s1" by blast
  with Cons.IH [OF Cons.prems(1)] show ?case by simp
qed

section \<open>Idle sweep\<close>

lemma sweep_one_inv:
  assumes v: "engine_inv c R H A s"
  shows "engine_inv c R H A (sweep_one c i s)"
proof (cases "\<exists>cc. map_of (conns s) i = Some cc \<and> idle_expired c s cc")
  case True
  then obtain cc where m: "map_of (conns s) i = Some cc" and e: "idle_expired c s cc" by blast
  let ?s = "count (\<lambda>n. n\<lparr>idleClosed := idleClosed n + 1\<rparr>) s"
  have "engine_inv c R H A (closeConn (cc\<lparr>counted := True\<rparr>) ?s)"
    using inv_conn [OF v m] e inv_holeI [OF v, of i]
    by (intro closeConn_inv [where i = i]) (auto simp: conn_inv_def idle_expired_def)
  then show ?thesis using m e by (simp add: sweep_one_def Let_def)
next
  case False
  then show ?thesis using v by (auto simp: sweep_one_def split: option.splits)
qed

lemma sweep_inv: "engine_inv c R H A s \<Longrightarrow> engine_inv c R H A (sweep c is s)"
  by (induction "is" arbitrary: s) (auto intro: sweep_one_inv)

end
