(* ===== verification/Engine_Safety.thy ===== *)
theory Engine_Safety
  imports Engine_Relay
begin

text \<open>
  The invariant of every reachable state of the engine: the lemmas on handlers are put together to
  one statement per kind of event, then to the invariant of the transition system. A step allowed
  by the environment always has a successor: no handler panics.
\<close>

section \<open>Taking an entry out of the ring\<close>

lemma take_views:
  assumes "i < length (sq s)"
  defines "q \<equiv> sq s ! i" and "s1 \<equiv> s\<lparr>sq := drop_nth i (sq s)\<rparr>"
  shows "ops_of j s = (if sqe_id q = j \<and> sqe_op q \<noteq> OpClose then add_mset q (ops_of j s1) else ops_of j s1)"
    and "closes_of j s = (if sqe_id q = j \<and> sqe_op q = OpClose then add_mset q (closes_of j s1) else closes_of j s1)"
    and "jobs_of j s1 = jobs_of j s" and "results_of j R s1 = results_of j R s"
  using mset_drop_nth [OF assms(1)]
  by (auto simp: q_def s1_def ops_of_def closes_of_def jobs_of_def results_of_def)

lemma take_hole:
  assumes v: "engine_inv c R H A s" and i: "i < length (sq s)"
  defines "q \<equiv> sq s ! i" and "s1 \<equiv> s\<lparr>sq := drop_nth i (sq s)\<rparr>"
  assumes z: "sqe_id q = 0 \<Longrightarrow> sqe_op q = OpClose" and H': "\<And>j. j \<noteq> sqe_id q \<Longrightarrow> H' j = H j"
  shows "inv_except (sqe_id q) c R H' A s1" and "sqe_id q \<le> nextID s"
proof -
  note tv = take_views [OF i, folded q_def s1_def]
  show le: "sqe_id q \<le> nextID s"
  proof (rule ccontr)
    assume "\<not> sqe_id q \<le> nextID s"
    then have "ops_of (sqe_id q) s = {#}" "closes_of (sqe_id q) s = {#}"
      using v by (auto simp: engine_inv_def inv_except_def fresh_from_def)
    then show False using tv(1,2) [of "sqe_id q"] by (auto split: if_splits)
  qed
  have "inv_except (sqe_id q) c R H A s" by (rule inv_holeI [OF v])
  moreover have "ops_of 0 s1 = ops_of 0 s" using tv(1) [of 0] z by (auto split: if_splits)
  moreover have "ops_of j s1 = ops_of j s" "closes_of j s1 = closes_of j s" if "j \<noteq> sqe_id q" for j
    using tv(1,2) [of j] that by auto
  ultimately show "inv_except (sqe_id q) c R H' A s1"
    using le H' tv(3,4) set_drop_nth [of i "sq s"] unfolding inv_except_def fresh_from_def
    by (auto simp: s1_def intro: conn_inv_cong [where s = s and H = H and R = R])
qed

lemma take_ring:
  assumes v: "engine_inv c R H A s" and i: "i < length (sq s)"
  defines "q \<equiv> sq s ! i" and "s1 \<equiv> s\<lparr>sq := drop_nth i (sq s)\<rparr>"
  assumes z: "sqe_id q = 0" "sqe_op q \<noteq> OpClose"
  shows "\<exists>A'. A = add_mset q A' \<and> engine_inv c R H A' s1"
proof -
  note tv = take_views [OF i, folded q_def s1_def]
  have "A = add_mset q (ops_of 0 s1)"
    using v tv(1) [of 0] z by (auto simp: engine_inv_def inv_except_def)
  moreover have "ops_of j s1 = ops_of j s" "closes_of j s1 = closes_of j s" if "0 < j" for j
    using tv(1,2) [of j] that z by auto
  then have "engine_inv c R H (ops_of 0 s1) s1"
    using v tv(3,4) set_drop_nth [of i "sq s"] unfolding engine_inv_def inv_except_def fresh_from_def
    by (auto simp: s1_def intro: conn_inv_cong [where s = s and H = H and R = R])
  ultimately show ?thesis by blast
qed

lemma hole_update:
  assumes "inv_except i c R H A s" and "0 < i"
  shows "inv_except i c R H A (s\<lparr>conns := AList.update i cc (conns s)\<rparr>)"
  using assms unfolding inv_except_def fresh_from_def
  by (auto intro: conn_inv_cong [where s = s and H = H and R = R])

section \<open>Completions of connection entries\<close>

definition conn_op :: "op \<Rightarrow> bool" where
  "conn_op o' \<longleftrightarrow> o' \<notin> {OpAccept, OpEventfd, OpTimeout, OpClose}"

definition filled :: "sqe \<Rightarrow> bytes \<Rightarrow> conn \<Rightarrow> conn" where
  "filled q data cc = (case sqe_req q of Recv f b off n \<Rightarrow> fill b off data cc | _ \<Rightarrow> cc)"

lemma fill_sel [simp]:
  "conn_id (fill b off data cc) = conn_id cc" "closing (fill b off data cc) = closing cc"
  "lastTick (fill b off data cc) = lastTick cc" "counted (fill b off data cc) = counted cc"
  "closesLeft (fill b off data cc) = closesLeft cc"
  "relayStarted (fill b off data cc) = relayStarted cc"
  by (cases b; simp)+

lemma fill_client [simp]: "clientFD (fill b off data cc) = clientFD cc" "upstreamFD (fill b off data cc) = upstreamFD cc"
  by (cases b; simp)+

lemma filled_sel [simp]:
  "conn_id (filled q data cc) = conn_id cc" "closing (filled q data cc) = closing cc"
  "lastTick (filled q data cc) = lastTick cc" "counted (filled q data cc) = counted cc"
  "closesLeft (filled q data cc) = closesLeft cc"
  "relayStarted (filled q data cc) = relayStarted cc"
  by (simp_all add: filled_def split: request.splits)

lemma kernel_effect_conn:
  assumes "conn_op (sqe_op q)" and "sqe_wf q"
  shows "kernel_effect q data s =
    (case sqe_req q of
       Recv f b off n \<Rightarrow>
         (case map_of (conns s) (sqe_id q) of
            None \<Rightarrow> s
          | Some cc \<Rightarrow> s\<lparr>conns := AList.update (sqe_id q) (fill b off data cc) (conns s)\<rparr>)
     | _ \<Rightarrow> s)"
  using assms by (auto simp: kernel_effect_def conn_op_def sqe_wf.simps split: op.splits)

lemma kernel_effect_sel:
  assumes "conn_op (sqe_op q)" and "sqe_wf q"
  shows "nextID (kernel_effect q data s) = nextID s" "tick (kernel_effect q data s) = tick s"
    "ops_of j (kernel_effect q data s) = ops_of j s" "closes_of j (kernel_effect q data s) = closes_of j s"
    "jobs_of j (kernel_effect q data s) = jobs_of j s"
    "results_of j R (kernel_effect q data s) = results_of j R s"
    "map_of (conns (kernel_effect q data s)) (sqe_id q)
       = map_option (filled q data) (map_of (conns s) (sqe_id q))"
  unfolding kernel_effect_conn [OF assms] filled_def
  by (auto split: request.splits option.splits
      simp: ops_of_def closes_of_def jobs_of_def results_of_def option.map_ident)

lemma kernel_effect_hole:
  assumes "conn_op (sqe_op q)" and "sqe_wf q" and "inv_except (sqe_id q) c R H A s" and "0 < sqe_id q"
  shows "inv_except (sqe_id q) c R H A (kernel_effect q data s)"
  unfolding kernel_effect_conn [OF assms(1,2)] using assms(3,4)
  by (auto split: request.splits option.splits intro: hole_update)

lemma handle_conn_op_none:
  assumes "conn_op o'" and "map_of (conns s) i = None \<or> (\<exists>cc. map_of (conns s) i = Some cc \<and> closing cc)"
  shows "handle_cqe c o' i res order s = Some s"
  using assms
  by (auto simp: handle_cqe_def conn_op_def with_conn_def on_recvReq_def on_replyClient_def on_replyMore_def
      on_rejectSend_def on_sendUp_def on_c2uRecv_def on_c2uSend_def on_u2cRecv_def on_u2cSend_def
      split: op.splits)

text \<open>The log entry of a completion changes the streams of its connection only.\<close>

lemma log_entry_other: "j \<noteq> sqe_id q \<Longrightarrow> log_entry (LComplete q res data) H j = H j"
  by simp

lemma sqe_wf_nth: "engine_inv c R H A s \<Longrightarrow> i < length (sq s) \<Longrightarrow> sqe_wf (sq s ! i)"
  by (auto simp: engine_inv_def inv_except_def)

lemma reply_pending_eq:
  "reply_pending cc g \<Longrightarrow>
   to_client g @ slice (replyBuf cc) (replyOff cc) (replyEnd cc) = replies (decs g)"
  unfolding reply_pending_def by blast

text \<open>Received bytes join the stream and are pending.\<close>

lemma relay_streams_c2u:
  assumes "relay_streams cc g [] pu"
  shows "relay_streams cc (g\<lparr>from_client := from_client g @ data\<rparr>) data pu"
proof -
  from assms obtain d where "decided_by g d" "adopts d" "upstreamFD cc = UpstreamFD d"
    "to_up g = drop (clamp_consumed (Consumed d) (reqN cc)) (from_client g)"
    "to_client g @ pu = replies (decs g) @ from_up g" "reqN cc \<le> length (from_client g)"
    by (auto simp: relay_streams_def)
  moreover have "clamp_consumed (Consumed d) (reqN cc) \<le> length (from_client g)"
    using calculation(6) clamp_consumed_le [of "Consumed d" "reqN cc"] by linarith
  ultimately show ?thesis unfolding relay_streams_def by (intro exI [of _ d]) simp
qed

lemma relay_streams_u2c:
  "relay_streams cc g pc [] \<Longrightarrow> relay_streams cc (g\<lparr>from_up := from_up g @ data\<rparr>) pc data"
  by (auto simp: relay_streams_def)

text \<open>Sent bytes leave the pending part.\<close>

lemma relay_streams_sent:
  assumes "relay_streams cc g pc pu"
  shows "sent @ rest = pc \<Longrightarrow> relay_streams cc (g\<lparr>to_up := to_up g @ sent\<rparr>) rest pu"
    and "sent @ rest = pu \<Longrightarrow> relay_streams cc (g\<lparr>to_client := to_client g @ sent\<rparr>) pc rest"
  using assms by (auto simp: relay_streams_def)

text \<open>
  An entry \<open>q\<close> of a live connection \<open>i\<close> has completed: \<open>cc\<close> is the connection as it was, \<open>Q\<close> what else
  is outstanding for it, \<open>s\<close> the state the handler starts from, with the received bytes stored.
\<close>

definition live_at ::
  "nat \<Rightarrow> config \<Rightarrow> system \<Rightarrow> (nat \<Rightarrow> streams) \<Rightarrow> (nat \<Rightarrow> streams) \<Rightarrow> hookResult list \<Rightarrow> sqe multiset \<Rightarrow>
   sqe \<Rightarrow> sqe multiset \<Rightarrow> job multiset \<Rightarrow> hookResult multiset \<Rightarrow> conn \<Rightarrow> int \<Rightarrow> bytes \<Rightarrow> worker \<Rightarrow> bool" where
  "live_at i c S H H' R A q Q J Rs cc res data s \<longleftrightarrow>
     config_ok c \<and> phase_ok c cc (H i) (add_mset q Q) J Rs \<and> sqe_wf q \<and> sqe_id q = i \<and> conn_id cc = i \<and>
     completion_ok S (sqe_req q) res data \<and> H' = log_entry (LComplete q res data) H \<and>
     (J = {#} \<longrightarrow> Rs = {#} \<longrightarrow> relay_for i c R H' A Q (filled q data cc) s) \<and>
     map_of (conns s) i = Some (filled q data cc)"

lemma live_atD:
  assumes "live_at i c S H H' R A q Q J Rs cc res data s"
  shows "config_ok c" "phase_ok c cc (H i) (add_mset q Q) J Rs" "sqe_wf q" "sqe_id q = i" "conn_id cc = i"
    "completion_ok S (sqe_req q) res data" "H' i = on_entry q res data (H i)"
    "J = {#} \<Longrightarrow> Rs = {#} \<Longrightarrow> relay_for i c R H' A Q (filled q data cc) s"
    "map_of (conns s) i = Some (filled q data cc)"
  using assms by (auto simp: live_at_def)

lemma live_recvReq:
  assumes l: "live_at i c S H H' R A q Q J Rs cc res data s" and o': "sqe_op q = OpRecvReq"
  shows "\<exists>s'. handle_cqe c (sqe_op q) i res order s = Some s' \<and> engine_inv c R H' A s'"
proof -
  note la = live_atD [OF l]
  have h: "handle_cqe c (sqe_op q) i res order s = on_recvReq i res s" by (simp add: handle_cqe_def o')
  note p = phase_recvReq [OF la(2) o']
  let ?d = "cc\<lparr>reqBuf := write_at (reqN cc) data (reqBuf cc)\<rparr>"
  have f: "filled q data cc = ?d" using p by (simp add: filled_def recv_req_def)
  have len: "length data = nat res" "reqN cc + nat res \<le> length (reqBuf cc)"
    using la(6) p by (auto simp: recv_req_def)
  have g: "H' i = (H i)\<lparr>from_client := from_client (H i) @ data\<rparr>"
    using la(7) o' by (simp add: on_entry_def)
  have "undecided c (?d\<lparr>reqN := reqN ?d + nat res\<rparr>) (H' i)"
    using p len g take_write_at [of "reqN cc" data "reqBuf cc"]
    by (auto simp: undecided_def pre_relay_def)
  moreover have "relay_for i c R H' A {#} ?d s" using la(8) p f by simp
  moreover have "map_of (conns s) i = Some ?d" using la(9) f by simp
  ultimately show ?thesis unfolding h
    using p g by (intro on_recvReq_ok) auto
qed

lemma live_replyMore:
  assumes l: "live_at i c S H H' R A q Q J Rs cc res data s" and o': "sqe_op q = OpReplyMore"
  shows "\<exists>s'. handle_cqe c (sqe_op q) i res order s = Some s' \<and> engine_inv c R H' A s'"
proof -
  note la = live_atD [OF l]
  have h: "handle_cqe c (sqe_op q) i res order s = on_replyMore i res s" by (simp add: handle_cqe_def o')
  note p = phase_replyMore [OF la(2) o']
  have f: "filled q data cc = cc" using p by (simp add: filled_def reply_send_def)
  have g: "H' i = (H i)\<lparr>to_client := to_client (H i) @ take (nat res) (slice (replyBuf cc) (replyOff cc) (replyEnd cc))\<rparr>"
    using la(7) p o' by (simp add: on_entry_def reply_send_def)
  show ?thesis unfolding h
    using p g la(8,9) f
    by (intro on_replyMore_ok [where cc = cc]) (auto simp: g intro: reply_pending_step [where g = "H i"] reply_pending_eq)
qed

lemma live_rejectSend:
  assumes l: "live_at i c S H H' R A q Q J Rs cc res data s" and o': "sqe_op q = OpRejectSend"
  shows "\<exists>s'. handle_cqe c (sqe_op q) i res order s = Some s' \<and> engine_inv c R H' A s'"
proof -
  note la = live_atD [OF l]
  have h: "handle_cqe c (sqe_op q) i res order s = on_rejectSend i res s" by (simp add: handle_cqe_def o')
  from phase_rejectSend [OF la(2) o'] obtain d where
    p: "q = reply_send cc OpRejectSend" "Q = {#}" "J = {#}" "Rs = {#}" "pre_relay c cc (H i)" "counted cc"
      "upstreamFD cc = 0" "to_up (H i) = []" "decided_by (H i) d" "Reject d" "reply_pending cc (H i)" by blast
  have f: "filled q data cc = cc" using p by (simp add: filled_def reply_send_def)
  have g: "H' i = (H i)\<lparr>to_client := to_client (H i) @ take (nat res) (slice (replyBuf cc) (replyOff cc) (replyEnd cc))\<rparr>"
    using la(7) p o' by (simp add: on_entry_def reply_send_def)
  show ?thesis unfolding h
    using p g la(8,9) f
    by (intro on_rejectSend_ok [where d = d and cc = cc]) (auto simp: g intro: reply_pending_step [where g = "H i"])
qed

lemma live_replyClient:
  assumes l: "live_at i c S H H' R A q Q J Rs cc res data s" and o': "sqe_op q = OpReplyClient"
  shows "\<exists>s'. handle_cqe c (sqe_op q) i res order s = Some s' \<and> engine_inv c R H' A s'"
proof -
  note la = live_atD [OF l]
  have h: "handle_cqe c (sqe_op q) i res order s = on_replyClient c i res s" by (simp add: handle_cqe_def o')
  from phase_replyClient [OF la(2) o'] obtain d where
    p: "q = reply_send cc OpReplyClient" "Q = {#}" "J = {#}" "Rs = {#}" "adopted c cc (H i) d"
      "to_up (H i) = []" "initSent cc = clamp_consumed (Consumed d) (reqN cc)" "reply_pending cc (H i)" by blast
  have f: "filled q data cc = cc" using p by (simp add: filled_def reply_send_def)
  have g: "H' i = (H i)\<lparr>to_client := to_client (H i) @ take (nat res) (slice (replyBuf cc) (replyOff cc) (replyEnd cc))\<rparr>"
    using la(7) p o' by (simp add: on_entry_def reply_send_def)
  show ?thesis unfolding h
    using p g la(8,9) f la(1)
    by (intro on_replyClient_ok [where d = d and cc = cc]) (auto simp: g intro: reply_pending_step [where g = "H i"] reply_pending_eq)
qed

lemma live_sendUp:
  assumes l: "live_at i c S H H' R A q Q J Rs cc res data s" and o': "sqe_op q = OpSendUp"
  shows "\<exists>s'. handle_cqe c (sqe_op q) i res order s = Some s' \<and> engine_inv c R H' A s'"
proof -
  note la = live_atD [OF l]
  have h: "handle_cqe c (sqe_op q) i res order s = on_sendUp c i res s" by (simp add: handle_cqe_def o')
  from phase_sendUp [OF la(2) o'] obtain d where
    p: "q = init_send cc" "Q = {#}" "J = {#}" "Rs = {#}" "adopted c cc (H i) d"
      "clamp_consumed (Consumed d) (reqN cc) \<le> initSent cc" "initSent cc < reqN cc"
      "to_up (H i) = slice (reqBuf cc) (clamp_consumed (Consumed d) (reqN cc)) (initSent cc)"
      "to_client (H i) = replies (decs (H i))" by blast
  have f: "filled q data cc = cc" using p by (simp add: filled_def init_send_def)
  have b: "initSent cc + nat res \<le> reqN cc" if "0 < res"
    using la(6) p that by (auto simp: init_send_def)
  have g: "H' i = (H i)\<lparr>to_up := to_up (H i) @ take (nat res) (slice (reqBuf cc) (initSent cc) (reqN cc))\<rparr>"
    using la(7) p o' by (simp add: on_entry_def init_send_def)
  have u: "to_up (H' i) = slice (reqBuf cc) (clamp_consumed (Consumed d) (reqN cc)) (initSent cc + nat res)"
    if "0 < res"
    using g p b [OF that] by (simp add: take_slice slice_append min_def)
  show ?thesis unfolding h
    using p g la(8,9) f la(1) b u
    by (intro on_sendUp_ok [where d = d and cc = cc]) (auto simp: g)
qed

lemma live_c2URecv:
  assumes l: "live_at i c S H H' R A q Q J Rs cc res data s" and o': "sqe_op q = OpC2URecv"
  shows "\<exists>s'. handle_cqe c (sqe_op q) i res order s = Some s' \<and> engine_inv c R H' A s'"
proof -
  note la = live_atD [OF l]
  have h: "handle_cqe c (sqe_op q) i res order s = on_c2uRecv i res s" by (simp add: handle_cqe_def o')
  from phase_c2uRecv [OF la(2) o'] obtain pu where
    p: "q = c2u_recv cc" "J = {#}" "Rs = {#}" "duplex c cc" "\<not> clientReadDone cc" "u2c_ok cc Q pu"
      "relay_streams cc (H i) [] pu" by blast
  let ?d = "cc\<lparr>c2uBuf := write_at 0 data (c2uBuf cc)\<rparr>"
  have f: "filled q data cc = ?d" using p by (simp add: filled_def c2u_recv_def)
  have len: "length data = nat res" "nat res \<le> length (c2uBuf cc)"
    using la(6) p by (auto simp: c2u_recv_def)
  have t: "take (nat res) (c2uBuf ?d) = data"
    using write_at_0_take [of data "c2uBuf cc"] len by simp
  have g: "H' i = (H i)\<lparr>from_client := from_client (H i) @ data\<rparr>"
    using la(7) o' by (simp add: on_entry_def)
  have "relay_streams ?d (H' i) (take (nat res) (c2uBuf ?d)) pu"
    unfolding t g using relay_streams_c2u [OF p(7)] by simp
  moreover have "duplex c ?d" using p len by (simp add: duplex_def)
  ultimately show ?thesis unfolding h
    using p la(8,9) f len on_c2uRecv_ok [of i c R H' A Q ?d s pu res]
    by (auto simp: f)
qed

lemma live_c2USend:
  assumes l: "live_at i c S H H' R A q Q J Rs cc res data s" and o': "sqe_op q = OpC2USend"
  shows "\<exists>s'. handle_cqe c (sqe_op q) i res order s = Some s' \<and> engine_inv c R H' A s'"
proof -
  note la = live_atD [OF l]
  have h: "handle_cqe c (sqe_op q) i res order s = on_c2uSend i res s" by (simp add: handle_cqe_def o')
  from phase_c2uSend [OF la(2) o'] obtain pu where
    p: "q = c2u_send cc" "J = {#}" "Rs = {#}" "duplex c cc" "\<not> clientReadDone cc"
      "c2uOff cc < c2uEnd cc" "c2uEnd cc \<le> length (c2uBuf cc)" "u2c_ok cc Q pu"
      "relay_streams cc (H i) (slice (c2uBuf cc) (c2uOff cc) (c2uEnd cc)) pu" by blast
  have f: "filled q data cc = cc" using p by (simp add: filled_def c2u_send_def)
  have b: "nat res \<le> c2uEnd cc - c2uOff cc" using la(6) p by (auto simp: c2u_send_def)
  have g: "H' i = (H i)\<lparr>to_up := to_up (H i) @ take (nat res) (slice (c2uBuf cc) (c2uOff cc) (c2uEnd cc))\<rparr>"
    using la(7) p o' by (simp add: on_entry_def c2u_send_def)
  have "relay_streams cc (H' i) (slice (c2uBuf cc) (c2uOff cc + nat res) (c2uEnd cc)) pu"
    unfolding g by (rule relay_streams_sent(1) [OF p(9) take_slice_append [OF b]])
  then show ?thesis unfolding h
    using p la(8,9) f la(1) on_c2uSend_ok [of c i R H' A Q cc s pu res]
    by (auto simp: f)
qed

lemma live_u2CRecv:
  assumes l: "live_at i c S H H' R A q Q J Rs cc res data s" and o': "sqe_op q = OpU2CRecv"
  shows "\<exists>s'. handle_cqe c (sqe_op q) i res order s = Some s' \<and> engine_inv c R H' A s'"
proof -
  note la = live_atD [OF l]
  have h: "handle_cqe c (sqe_op q) i res order s = on_u2cRecv i res s" by (simp add: handle_cqe_def o')
  from phase_u2cRecv [OF la(2) o'] obtain pc where
    p: "q = u2c_recv cc" "J = {#}" "Rs = {#}" "duplex c cc" "\<not> upstreamReadDone cc" "c2u_ok cc Q pc"
      "relay_streams cc (H i) pc []" by blast
  let ?d = "cc\<lparr>u2cBuf := write_at 0 data (u2cBuf cc)\<rparr>"
  have f: "filled q data cc = ?d" using p by (simp add: filled_def u2c_recv_def)
  have len: "length data = nat res" "nat res \<le> length (u2cBuf cc)"
    using la(6) p by (auto simp: u2c_recv_def)
  have t: "take (nat res) (u2cBuf ?d) = data"
    using write_at_0_take [of data "u2cBuf cc"] len by simp
  have g: "H' i = (H i)\<lparr>from_up := from_up (H i) @ data\<rparr>"
    using la(7) o' by (simp add: on_entry_def)
  have "relay_streams ?d (H' i) pc (take (nat res) (u2cBuf ?d))"
    unfolding t g using relay_streams_u2c [OF p(7)] by simp
  moreover have "duplex c ?d" using p len by (simp add: duplex_def)
  ultimately show ?thesis unfolding h
    using p la(8,9) f len on_u2cRecv_ok [of i c R H' A Q ?d s pc res]
    by (auto simp: f)
qed

lemma live_u2CSend:
  assumes l: "live_at i c S H H' R A q Q J Rs cc res data s" and o': "sqe_op q = OpU2CSend"
  shows "\<exists>s'. handle_cqe c (sqe_op q) i res order s = Some s' \<and> engine_inv c R H' A s'"
proof -
  note la = live_atD [OF l]
  have h: "handle_cqe c (sqe_op q) i res order s = on_u2cSend i res s" by (simp add: handle_cqe_def o')
  from phase_u2cSend [OF la(2) o'] obtain pc where
    p: "q = u2c_send cc" "J = {#}" "Rs = {#}" "duplex c cc" "\<not> upstreamReadDone cc"
      "u2cOff cc < u2cEnd cc" "u2cEnd cc \<le> length (u2cBuf cc)" "c2u_ok cc Q pc"
      "relay_streams cc (H i) pc (slice (u2cBuf cc) (u2cOff cc) (u2cEnd cc))" by blast
  have f: "filled q data cc = cc" using p by (simp add: filled_def u2c_send_def)
  have b: "nat res \<le> u2cEnd cc - u2cOff cc" using la(6) p by (auto simp: u2c_send_def)
  have g: "H' i = (H i)\<lparr>to_client := to_client (H i) @ take (nat res) (slice (u2cBuf cc) (u2cOff cc) (u2cEnd cc))\<rparr>"
    using la(7) p o' by (simp add: on_entry_def u2c_send_def)
  have "relay_streams cc (H' i) pc (slice (u2cBuf cc) (u2cOff cc + nat res) (u2cEnd cc))"
    unfolding g by (rule relay_streams_sent(2) [OF p(9) take_slice_append [OF b]])
  then show ?thesis unfolding h
    using p la(8,9) f la(1) on_u2cSend_ok [of c i R H' A Q cc s pc res]
    by (auto simp: f)
qed

lemmas live_handlers = live_recvReq live_replyMore live_rejectSend live_replyClient live_sendUp
  live_c2URecv live_c2USend live_u2CRecv live_u2CSend

lemma live_handler_ok:
  assumes "live_at i c S H H' R A q Q J Rs cc res data s" and "conn_op (sqe_op q)"
  shows "\<exists>s'. handle_cqe c (sqe_op q) i res order s = Some s' \<and> engine_inv c R H' A s'"
  using live_handlers [OF assms(1), of order] assms(2)
  by (cases "sqe_op q") (simp_all add: conn_op_def)

lemma complete_conn_ok:
  assumes c: "config_ok c" and v: "engine_inv c [] H A s" and i: "i < length (sq s)"
  defines "q \<equiv> sq s ! i"
  defines "s1 \<equiv> s\<lparr>sq := drop_nth i (sq s)\<rparr>"
  assumes co: "conn_op (sqe_op q)" and k: "completion_ok S (sqe_req q) res data"
  shows "\<exists>s'. handle_cqe c (sqe_op q) (sqe_id q) res order (kernel_effect q data s1) = Some s' \<and>
    engine_inv c [] (log_entry (LComplete q res data) H) A s'"
proof -
  let ?i = "sqe_id q" and ?H = "log_entry (LComplete q res data) H"
  have wf: "sqe_wf q" unfolding q_def by (rule sqe_wf_nth [OF v i])
  have i0: "0 < ?i" and no: "sqe_op q \<noteq> OpClose" using wf co by (auto simp: sqe_wf.simps conn_op_def split: op.splits)
  note th = take_hole [OF v i, folded q_def s1_def, where H' = ?H]
  note tv = take_views [OF i, folded q_def s1_def]
  let ?s0 = "kernel_effect q data s1"
  have hole: "inv_except ?i c [] ?H A ?s0"
    by (rule kernel_effect_hole [OF co wf th(1) i0]) (use i0 no in auto)
  have le: "?i \<le> nextID s1" using th(2) i0 no by (simp add: s1_def)
  note ke = kernel_effect_sel [OF co wf, where data = data and s = s1]
  have m1: "map_of (conns s1) ?i = map_of (conns s) ?i" by (simp add: s1_def)
  show ?thesis
  proof (cases "map_of (conns s) ?i")
    case None
    have "engine_inv c [] ?H A ?s0" using hole by (rule inv_fill) (simp add: ke(7) m1 None)
    then show ?thesis using None ke(7) m1 co by (simp add: handle_conn_op_none)
  next
    case (Some cc)
    note ci = inv_conn [OF v Some]
    have m0: "map_of (conns ?s0) ?i = Some (filled q data cc)" by (simp add: ke(7) m1 Some)
    show ?thesis
    proof (cases "closing cc")
      case True
      have "conn_inv c [] ?H ?s0 ?i (filled q data cc)"
        using ci True tv ke no by (auto simp: conn_inv_def closing_ok_def s1_def)
      then have "engine_inv c [] ?H A ?s0" using m0 by (intro inv_fill [OF hole]) simp
      then show ?thesis using m0 True co by (simp add: handle_conn_op_none)
    next
      case False
      have "live_at ?i c S H ?H [] A q (ops_of ?i ?s0) (jobs_of ?i s1) (results_of ?i [] s1) cc res data ?s0"
        using c ci False wf tv ke no k le hole i0 m0
        by (auto simp: live_at_def conn_inv_def relay_for_def s1_def)
      then show ?thesis by (rule live_handler_ok [OF _ co])
    qed
  qed
qed

section \<open>Closes, accepts, wake-ups and timeouts\<close>

lemma complete_close_ok:
  assumes v: "engine_inv c [] H A s" and i: "i < length (sq s)"
  defines "q \<equiv> sq s ! i"
  defines "s1 \<equiv> s\<lparr>sq := drop_nth i (sq s)\<rparr>"
  assumes o': "sqe_op q = OpClose"
  shows "\<exists>s'. on_close (sqe_id q) s1 = Some s' \<and> engine_inv c [] H A s'"
proof -
  let ?i = "sqe_id q"
  note th = take_hole [OF v i, folded q_def s1_def, of H, OF o' refl]
  note tv = take_views [OF i, folded q_def s1_def]
  show ?thesis
  proof (cases "map_of (conns s) ?i")
    case None
    have "engine_inv c [] H A s1" using th(1) by (rule inv_fill) (simp add: s1_def None)
    then show ?thesis using None by (simp add: on_close_def s1_def)
  next
    case (Some cc)
    note ci = inv_conn [OF v Some]
    let ?d = "cc\<lparr>closesLeft := closesLeft cc - 1\<rparr>"
    have cl: "closing cc" using ci tv(2) [of ?i] o' by (auto simp: conn_inv_def split: if_splits)
    have id: "conn_id ?d = ?i" "0 < ?i" using ci by (auto simp: conn_inv_def)
    have h: "inv_except ?i c [] H A (putc ?d s1)" by (rule hole_putc [OF th(1) id])
    have rs: "relay_streams ?d g p p' = relay_streams cc g p p'" for g p p' by (simp add: relay_streams_def)
    show ?thesis
    proof (cases "closesLeft ?d \<le> 0")
      case True
      let ?s = "if \<not> counted ?d \<and> relayStarted ?d
        then count (\<lambda>n. n\<lparr>completed := completed n + 1\<rparr>) (putc ?d s1) else putc ?d s1"
      have "inv_except ?i c [] H A ?s" using h by simp
      then have "inv_except ?i c [] H A (?s\<lparr>conns := AList.delete ?i (conns ?s)\<rparr>)"
        using id(2) by (rule hole_delete)
      then have "engine_inv c [] H A (?s\<lparr>conns := AList.delete ?i (conns ?s)\<rparr>)"
        by (rule inv_fill) simp
      moreover have "on_close ?i s1 = Some (?s\<lparr>conns := AList.delete ?i (conns ?s)\<rparr>)"
        using Some True by (simp add: on_close_def s1_def Let_def)
      ultimately show ?thesis by blast
    next
      case False
      have "conn_inv c [] H (putc ?d s1) ?i ?d"
        using ci cl tv o' False rs by (auto simp: conn_inv_def closing_ok_def s1_def nonempty_has_size)
      then have "engine_inv c [] H A (putc ?d s1)" using id by (intro inv_fill [OF h]) simp
      then show ?thesis using Some False by (simp add: on_close_def s1_def Let_def)
    qed
  qed
qed

lemma inv_post0:
  assumes "engine_inv c R H A s" and "sqe_id q = 0" "sqe_op q \<noteq> OpClose" "sqe_wf q"
  shows "engine_inv c R H (add_mset q A) (post q s)"
  using assms unfolding engine_inv_def inv_except_def fresh_from_def
  by (auto simp: ops_of_post closes_of_post intro: conn_inv_cong [where s = s and H = H and R = R])

lemma inv_post_close0:
  assumes "engine_inv c R H A s"
  shows "engine_inv c R H A (post (prep_close f 0) s)"
  using assms unfolding engine_inv_def inv_except_def fresh_from_def
  by (auto simp: ops_of_post closes_of_post sqe_wf.simps intro: conn_inv_cong [where s = s and H = H and R = R])

lemma inv_state_cong:
  assumes "engine_inv c R H A s"
    and "conns s' = conns s" "nextID s' = nextID s" "tick s \<le> tick s'"
    and "sq s' = sq s" "jobs s' = jobs s" "ready (br s') = ready (br s)"
  shows "engine_inv c R H A s'"
  using assms unfolding engine_inv_def by (rule hole_cong)

lemma on_accept_ok:
  assumes c: "config_ok c" and v: "engine_inv c [] H A s"
  shows "\<exists>s'. on_accept c res s = Some s' \<and> engine_inv c [] H A s'"
proof -
  let ?s1 = "s\<lparr>acceptInflight := acceptInflight s - 1\<rparr>"
  let ?s2 = "count (\<lambda>n. n\<lparr>accepted := accepted n + 1\<rparr>) ?s1"
  let ?n = "nextID s + 1"
  define cc where "cc = new_conn ?n res (nat (InitialReqLen c)) (tick s)"
  let ?s3 = "count (\<lambda>n. n\<lparr>live := live n + 1\<rparr>) (?s2\<lparr>nextID := ?n\<rparr>)"
  have v1: "engine_inv c [] H A (count f ?s1)" for f by (rule inv_state_cong [OF v]) simp_all
  have v2: "engine_inv c [] H A (post (prep_close res 0) (count f ?s2))" for f
    by (intro inv_post_close0 inv_state_cong [OF v]) simp_all
  have fr: "ops_of ?n s = {#}" "closes_of ?n s = {#}" "jobs_of ?n s = {#}" "results_of ?n [] s = {#}" "H ?n = no_streams"
    using v by (auto simp: engine_inv_def inv_except_def fresh_from_def)
  have vw: "ops_of j ?s3 = ops_of j s" "closes_of j ?s3 = closes_of j s" "jobs_of j ?s3 = jobs_of j s"
    "results_of j [] ?s3 = results_of j [] s" for j
    by (simp_all add: ops_of_def closes_of_def jobs_of_def results_of_def)
  have len: "0 < length (reqBuf cc)" using c by (simp add: cc_def new_conn_def config_ok_def)
  have q: "prep_recv (clientFD cc) ReqBuf 0 (length (reqBuf cc)) (conn_id cc) OpRecvReq = Some (recv_req cc)"
    using len by (simp add: prep_recv_def recv_req_def cc_def new_conn_def)
  have h: "inv_except ?n c [] H A ?s3"
    using inv_holeI [OF v, of ?n] vw unfolding inv_except_def fresh_from_def
    by (auto intro: conn_inv_cong [where s = s and H = H and R = "[]"])
  have rd: "ready_for ?n c [] H A cc ?s3"
    using h fr vw by (simp add: ready_for_def idle_at_def cc_def new_conn_def)
  have "phase_ok c cc (H ?n) {#recv_req cc#} {#} {#}"
    using fr(5) c by (intro phase_ok.reading)
      (auto simp: cc_def new_conn_def undecided_def pre_relay_def no_streams_def all_more_def replies_def config_ok_def)
  then have "engine_inv c [] H A (post (recv_req cc) (putc cc ?s3))"
    by (intro post_phase [OF rd]) (auto simp: recv_req_def cc_def new_conn_def sqe_wf.simps)
  moreover have "post (recv_req cc) (putc cc ?s3) =
      post (recv_req cc) (count (\<lambda>n. n\<lparr>live := live n + 1\<rparr>) (putc cc (?s2\<lparr>nextID := ?n\<rparr>)))"
    by (simp add: putc_def count_def post_def)
  ultimately have v3: "engine_inv c [] H A
      (post (recv_req cc) (count (\<lambda>n. n\<lparr>live := live n + 1\<rparr>) (putc cc (?s2\<lparr>nextID := ?n\<rparr>))))" by simp
  show ?thesis
    using v1 v2 v3 q by (auto simp: on_accept_def Let_def cc_def)
qed

text \<open>The wake-up: the read is armed again, the flag cleared, the results taken over.\<close>

lemma drained_inv:
  assumes v: "engine_inv c [] H A s"
  shows "engine_inv c (ready (br s)) H (add_mset \<lparr>sqe_req = Read (efd s), sqe_id = 0, sqe_op = OpEventfd\<rparr> A)
    ((postEventfd s)\<lparr>br := (br s)\<lparr>notified := 0, ready := []\<rparr>\<rparr>)"
proof -
  let ?q = "\<lparr>sqe_req = Read (efd s), sqe_id = 0, sqe_op = OpEventfd\<rparr>"
  let ?s = "(postEventfd s)\<lparr>br := (br s)\<lparr>notified := 0, ready := []\<rparr>\<rparr>"
  have "engine_inv c [] H (add_mset ?q A) (post ?q s)"
    by (rule inv_post0 [OF v]) (simp_all add: sqe_wf.simps)
  moreover have "ops_of j ?s = ops_of j (post ?q s)" "closes_of j ?s = closes_of j (post ?q s)"
    "jobs_of j ?s = jobs_of j (post ?q s)" "results_of j (ready (br s)) ?s = results_of j [] (post ?q s)" for j
    by (simp_all add: ops_of_def closes_of_def jobs_of_def results_of_def postEventfd_def)
  ultimately show ?thesis
    unfolding engine_inv_def inv_except_def fresh_from_def
    by (auto simp: postEventfd_def intro: conn_inv_cong [where s = "post ?q s" and H = H and R = "[]"])
qed

lemma on_eventfd_ok:
  assumes c: "config_ok c" and v: "engine_inv c [] H A s"
  shows "\<exists>s'. on_eventfd c s = Some s' \<and>
    engine_inv c [] H (add_mset \<lparr>sqe_req = Read (efd s), sqe_id = 0, sqe_op = OpEventfd\<rparr> A) s'"
  using handle_results_ok [OF c drained_inv [OF v]]
  by (simp add: on_eventfd_def drain_def Let_def postEventfd_def)

lemma on_timeout_ok:
  assumes v: "engine_inv c [] H A s"
  shows "\<exists>s'. on_timeout c order s = Some s' \<and>
    engine_inv c [] H (add_mset \<lparr>sqe_req = Timeout, sqe_id = 0, sqe_op = OpTimeout\<rparr> A) s'"
proof -
  let ?q = "\<lparr>sqe_req = Timeout, sqe_id = 0, sqe_op = OpTimeout\<rparr>"
  have "engine_inv c [] H (add_mset ?q A) (post ?q s)"
    by (rule inv_post0 [OF v]) (simp_all add: sqe_wf.simps)
  then have "engine_inv c [] H (add_mset ?q A) ((postTimeout s)\<lparr>tick := tick s + 1\<rparr>)"
    by (rule inv_state_cong) (simp_all add: postTimeout_def)
  then show ?thesis
    by (simp add: on_timeout_def Let_def sweep_inv postTimeout_def)
qed

end
