(* ===== verification/Engine_Frame.thy ===== *)
theory Engine_Frame
  imports Engine_Phases
begin

text \<open>
  What no handler but the accept path touches: the descriptors of the listener and the eventfd, the
  accept bookkeeping, the overflow bookkeeping, and the client end of every connection. \<open>frame s s'\<close>
  says so of a transition; it also says that no connection appears.
\<close>

definition keyed :: "worker \<Rightarrow> bool" where
  "keyed s \<longleftrightarrow> (\<forall>j cc. map_of (conns s) j = Some cc \<longrightarrow> conn_id cc = j)"

text \<open>An entry that closes a descriptor closes a positive one.\<close>

definition close_pos :: "sqe \<Rightarrow> bool" where
  "close_pos q \<longleftrightarrow> (\<forall>f. sqe_req q = Close f \<longrightarrow> 0 < f)"

lemma close_pos_simps [simp]:
  "close_pos \<lparr>sqe_req = Accept f, sqe_id = i, sqe_op = o'\<rparr>"
  "close_pos \<lparr>sqe_req = Read f, sqe_id = i, sqe_op = o'\<rparr>"
  "close_pos \<lparr>sqe_req = Recv f b n k, sqe_id = i, sqe_op = o'\<rparr>"
  "close_pos \<lparr>sqe_req = Send f bs, sqe_id = i, sqe_op = o'\<rparr>"
  "close_pos \<lparr>sqe_req = Timeout, sqe_id = i, sqe_op = o'\<rparr>"
  "close_pos (prep_close f i) \<longleftrightarrow> 0 < f"
  by (auto simp: close_pos_def prep_close_def)

lemma prep_close_pos [simp]:
  "prep_recv f b i j k o' = Some q \<Longrightarrow> close_pos q" "prep_send f bs i j k o' = Some q \<Longrightarrow> close_pos q"
  by (auto simp: prep_recv_def prep_send_def split: if_splits)

definition sys_grow :: "syscall list \<Rightarrow> syscall list \<Rightarrow> bool" where
  "sys_grow cs cs' \<longleftrightarrow> (\<exists>xs. cs' = cs @ xs \<and> (\<forall>f. SysClose f \<in> set xs \<longrightarrow> 0 < f))"

definition ring_grow :: "sqe list \<Rightarrow> sqe list \<Rightarrow> bool" where
  "ring_grow qs qs' \<longleftrightarrow> (\<forall>q\<in>set qs'. q \<in> set qs \<or> close_pos q)"

definition table_shrink :: "(nat \<rightharpoonup> conn) \<Rightarrow> (nat \<rightharpoonup> conn) \<Rightarrow> bool" where
  "table_shrink t t' \<longleftrightarrow> (\<forall>j cc'. t' j = Some cc' \<longrightarrow>
     (\<exists>cc. t j = Some cc \<and> conn_id cc' = conn_id cc \<and> clientFD cc' = clientFD cc))"

definition same_globals :: "worker \<Rightarrow> worker \<Rightarrow> bool" where
  "same_globals s s' \<longleftrightarrow>
     ln_FD s' = ln_FD s \<and> efd s' = efd s \<and> br s' = br s \<and> acceptInflight s' = acceptInflight s \<and>
     exited s' = exited s \<and> lastOverflow s' = lastOverflow s \<and> nextID s' = nextID s \<and>
     accepted (counts s') = accepted (counts s) \<and> shed (counts s') = shed (counts s) \<and>
     cqOverflow (counts s') = cqOverflow (counts s)"

definition frame :: "worker \<Rightarrow> worker \<Rightarrow> bool" where
  "frame s s' \<longleftrightarrow> same_globals s s' \<and> sys_grow (syscalls s) (syscalls s') \<and> ring_grow (sq s) (sq s') \<and>
     table_shrink (map_of (conns s)) (map_of (conns s'))"

lemma grow_refl [simp]: "sys_grow cs cs" "ring_grow qs qs" "table_shrink t t" "same_globals s s"
  by (simp_all add: sys_grow_def ring_grow_def table_shrink_def same_globals_def)

lemma grow_snoc [simp]:
  "sys_grow cs (cs @ [x]) \<longleftrightarrow> (\<forall>f. x = SysClose f \<longrightarrow> 0 < f)" "close_pos q \<Longrightarrow> ring_grow qs (qs @ [q])"
  "table_shrink t (t(i := None))"
  by (auto simp: sys_grow_def ring_grow_def table_shrink_def)

lemma frame_refl [simp]: "frame s s"
  by (simp add: frame_def)

lemma sys_grow_trans: "sys_grow a b \<Longrightarrow> sys_grow b c \<Longrightarrow> sys_grow a c"
  unfolding sys_grow_def by auto

lemma ring_grow_trans: "ring_grow a b \<Longrightarrow> ring_grow b c \<Longrightarrow> ring_grow a c"
  unfolding ring_grow_def by blast

lemma table_shrink_trans: "table_shrink a b \<Longrightarrow> table_shrink b c \<Longrightarrow> table_shrink a c"
  unfolding table_shrink_def by metis

lemma frame_trans [trans]: "frame s s' \<Longrightarrow> frame s' s'' \<Longrightarrow> frame s s''"
  unfolding frame_def by (auto simp: same_globals_def elim: sys_grow_trans ring_grow_trans table_shrink_trans)

lemma frame_keyed: "frame s s' \<Longrightarrow> keyed s \<Longrightarrow> keyed s'"
  unfolding frame_def keyed_def table_shrink_def by metis

lemma frame_dom: "frame s s' \<Longrightarrow> dom (map_of (conns s')) \<subseteq> dom (map_of (conns s))"
  unfolding frame_def table_shrink_def by fast

lemma frame_length:
  "frame s s' \<Longrightarrow> keys_distinct (conns s) \<Longrightarrow> keys_distinct (conns s') \<Longrightarrow> length (conns s') \<le> length (conns s)"
  using frame_dom [of s s'] by (simp add: ctab.size_dom card_mono ctab.finite_dom)

text \<open>A local copy of a connection, as a handler holds it: the fields the frame speaks of are unchanged.\<close>

definition copy_of :: "conn \<Rightarrow> worker \<Rightarrow> bool" where
  "copy_of cc s \<longleftrightarrow> (\<exists>cc0. map_of (conns s) (conn_id cc) = Some cc0 \<and> conn_id cc0 = conn_id cc \<and> clientFD cc0 = clientFD cc)"

lemma copy_ofI: "keyed s \<Longrightarrow> map_of (conns s) i = Some cc0 \<Longrightarrow> conn_id cc = i \<Longrightarrow> clientFD cc = clientFD cc0 \<Longrightarrow> copy_of cc s"
  by (auto simp: copy_of_def keyed_def)

lemma keyedD: "keyed s \<Longrightarrow> map_of (conns s) i = Some cc \<Longrightarrow> conn_id cc = i"
  by (simp add: keyed_def)

section \<open>Primitives\<close>

lemma frame_simps:
  "frame s (post q s) \<longleftrightarrow> ring_grow (sq s) (sq s @ [q])"
  "frame s (sys x s) \<longleftrightarrow> (\<forall>f. x = SysClose f \<longrightarrow> 0 < f)"
  by (simp_all add: frame_def same_globals_def)

lemma frame_post: "close_pos q \<Longrightarrow> frame s (post q s)"
  by (simp add: frame_simps)

lemma frame_shutdown: "frame s (sys (SysShutdown f) s)"
  by (simp add: frame_simps)

lemma frame_putc: "copy_of cc s \<Longrightarrow> frame s (putc cc s)"
  by (auto simp: frame_def same_globals_def table_shrink_def copy_of_def)

lemma frame_count:
  "(\<And>n. accepted (f n) = accepted n) \<Longrightarrow> (\<And>n. shed (f n) = shed n) \<Longrightarrow> (\<And>n. cqOverflow (f n) = cqOverflow n) \<Longrightarrow>
   frame s (count f s)"
  by (simp add: frame_def same_globals_def)

lemma frame_delete: "frame s (s\<lparr>conns := AList.delete i (conns s)\<rparr>)"
  by (simp add: frame_def same_globals_def)

lemma frame_jobs: "frame s (s\<lparr>jobs := js\<rparr>)"
  by (simp add: frame_def same_globals_def)

lemma copy_of_cong [simp]:
  "copy_of cc (post q s) = copy_of cc s" "copy_of cc (sys x s) = copy_of cc s" "copy_of cc (count f s) = copy_of cc s"
  by (simp_all add: copy_of_def)

lemma copy_of_putc [simp]: "copy_of cc (putc cc s)"
  by (simp add: copy_of_def)

text \<open>What a close posts: the client end, then the upstream end when there is one.\<close>

lemma frame_closeConn:
  assumes c: "copy_of cc s"
  shows "frame s (closeConn cc s)"
proof -
  let ?s0 = "count (\<lambda>n. n\<lparr>live := live n + NOT 0\<rparr>) s"
  define s1 where "s1 = (if clientFD cc > 0 then post (prep_close (clientFD cc) (conn_id cc)) ?s0 else ?s0)"
  define s2 where "s2 = (if upstreamFD cc > 0 then post (prep_close (upstreamFD cc) (conn_id cc)) s1 else s1)"
  have "frame s ?s0" by (rule frame_count) simp_all
  also have "frame ?s0 s1" by (simp add: s1_def frame_post)
  also have "frame s1 s2" by (simp add: s2_def frame_post)
  finally have f2: "frame s s2" .
  have cs: "copy_of cc' s2" if "conn_id cc' = conn_id cc" "clientFD cc' = clientFD cc" for cc'
    using c that by (auto simp: copy_of_def s1_def s2_def)
  define d where "d = cc\<lparr>closing := True, closesLeft := (if clientFD cc > 0 then 1 else 0) + (if upstreamFD cc > 0 then 1 else 0)\<rparr>"
  have d: "conn_id d = conn_id cc" "clientFD d = clientFD cc" by (simp_all add: d_def)
  have eq: "closeConn cc s = putc cc s \<or> closeConn cc s = putc d s2 \<or>
      closeConn cc s = (putc d s2)\<lparr>conns := AList.delete (conn_id d) (conns (putc d s2))\<rparr>"
    by (cases "closing cc"; cases "clientFD cc > 0"; cases "upstreamFD cc > 0") (simp_all add: closeConn_def Let_def s1_def s2_def d_def)
  have "frame s2 (putc d s2)" by (rule frame_putc) (rule cs [OF d])
  with f2 have "frame s (putc d s2)" by (rule frame_trans)
  with eq show ?thesis using frame_putc [OF c] frame_delete frame_trans by metis
qed

lemma frame_fail: "copy_of cc s \<Longrightarrow> frame s (fail cc s)"
  unfolding fail_def
  by (auto simp: copy_of_def intro!: frame_closeConn frame_trans [OF frame_count frame_closeConn])

lemma copy_of_sel:
  "copy_of cc s \<Longrightarrow> conn_id cc' = conn_id cc \<Longrightarrow> clientFD cc' = clientFD cc \<Longrightarrow> copy_of cc' s"
  by (auto simp: copy_of_def)

lemma frame_put_post:
  "map_option (\<lambda>q. post q (putc cc s)) p = Some s' \<Longrightarrow> copy_of cc s \<Longrightarrow> (\<And>q. p = Some q \<Longrightarrow> close_pos q) \<Longrightarrow>
   frame s s'"
  by (auto intro: frame_trans [OF frame_putc frame_post])

lemma frame_postRecvReq: "postRecvReq cc s = Some s' \<Longrightarrow> copy_of cc s \<Longrightarrow> frame s s'"
  unfolding postRecvReq_def by (erule (1) frame_put_post) (rule prep_close_pos)

lemma frame_resend_reply: "resend_reply cc o' s = Some s' \<Longrightarrow> copy_of cc s \<Longrightarrow> frame s s'"
  unfolding resend_reply_def by (erule (1) frame_put_post) (rule prep_close_pos)

lemma frame_send_reply: "send_reply cc rep o' s = Some s' \<Longrightarrow> copy_of cc s \<Longrightarrow> frame s s'"
  unfolding send_reply_def Let_def by (erule frame_put_post) (auto elim: copy_of_sel)

lemma frame_startDuplex: "startDuplex c cc s = Some s' \<Longrightarrow> copy_of cc s \<Longrightarrow> frame s s'"
  unfolding startDuplex_def Let_def
  by (auto split: option.splits intro!: frame_trans [OF frame_putc frame_trans [OF frame_post frame_post]] elim: copy_of_sel)

lemma frame_forwardInit: "forwardInit c cc s = Some s' \<Longrightarrow> copy_of cc s \<Longrightarrow> frame s s'"
  unfolding forwardInit_def by (auto split: if_splits intro: frame_startDuplex frame_put_post)

section \<open>Handlers\<close>

lemma with_conn_cases:
  assumes "with_conn i s h = Some s'" and "keyed s"
  obtains "s' = s" | cc where "map_of (conns s) i = Some cc" "\<not> closing cc" "conn_id cc = i" "copy_of cc s" "h cc = Some s'"
  using assms copy_ofI [OF assms(2)]
  by (auto simp: with_conn_def keyed_def split: option.splits if_splits)

lemma with_conn_frame:
  assumes "with_conn i s h = Some s'" and "keyed s"
    and "\<And>cc. copy_of cc s \<Longrightarrow> h cc = Some s' \<Longrightarrow> frame s s'"
  shows "frame s s'"
  using assms by (elim with_conn_cases) auto

lemma frame_on_recvReq: "on_recvReq i res s = Some s' \<Longrightarrow> keyed s \<Longrightarrow> frame s s'"
  unfolding on_recvReq_def
  by (erule with_conn_frame, assumption)
     (auto simp: Let_def split: if_splits intro!: frame_fail frame_trans [OF frame_putc frame_jobs] elim: copy_of_sel)

text \<open>\<open>drop_fd\<close>: the descriptor of a decision that is not adopted is closed at once.\<close>

definition drop_fd :: "decision \<Rightarrow> worker \<Rightarrow> worker" where
  "drop_fd d s = (if UpstreamFD d > 0 then sys (SysClose (UpstreamFD d)) s else s)"

lemma handle_result_gone:
  "map_of (conns s) (res_id r) = None \<or> (\<exists>cc. map_of (conns s) (res_id r) = Some cc \<and> closing cc) \<Longrightarrow>
   handle_result c r s = Some (drop_fd (dec r) s)"
  by (auto simp: handle_result_def drop_fd_def Let_def)

lemma handle_result_live:
  assumes "map_of (conns s) (res_id r) = Some cc0" "\<not> closing cc0"
  defines "d \<equiv> dec r" and "cc \<equiv> cc0\<lparr>lastTick := tick s\<rparr>"
  shows "handle_result c r s =
    (if Reject d then
       let s1 = count (\<lambda>n. n\<lparr>rejected := rejected n + 1\<rparr>) (drop_fd d s)
       in if Reply d \<noteq> [] then send_reply (cc\<lparr>counted := True\<rparr>) (Reply d) OpRejectSend s1
          else Some (closeConn (cc\<lparr>counted := True\<rparr>) s1)
     else if More d then
       (case growReq c cc of
          None \<Rightarrow> Some (fail cc (drop_fd d s))
        | Some cc1 \<Rightarrow> if Reply d \<noteq> [] then send_reply cc1 (Reply d) OpReplyMore (drop_fd d s)
                     else postRecvReq cc1 (drop_fd d s))
     else
       let cc1 = cc\<lparr>upstreamFD := UpstreamFD d, initSent := clamp_consumed (Consumed d) (reqN cc)\<rparr>
       in if Reply d \<noteq> [] then send_reply cc1 (Reply d) OpReplyClient s else forwardInit c cc1 s)"
  using assms(1,2) unfolding handle_result_def drop_fd_def Let_def d_def cc_def
  by (simp cong: option.case_cong)

lemma frame_drop_fd: "frame s (drop_fd d s)"
  by (simp add: drop_fd_def frame_simps)

lemma copy_of_drop_fd [simp]: "copy_of cc (drop_fd d s) = copy_of cc s"
  by (simp add: drop_fd_def)

lemma growReq_copy: "growReq c cc = Some cc' \<Longrightarrow> copy_of cc s \<Longrightarrow> copy_of cc' s"
  by (auto simp: growReq_def Let_def copy_of_def split: if_splits)

lemma frame_handle_result:
  assumes h: "handle_result c r s = Some s'" and k: "keyed s"
  shows "frame s s'"
proof (cases "\<exists>cc. map_of (conns s) (res_id r) = Some cc \<and> \<not> closing cc")
  case False
  then show ?thesis using h handle_result_gone [of s r c] frame_drop_fd
    by (cases "map_of (conns s) (res_id r)") auto
next
  case True
  then obtain cc where Some: "map_of (conns s) (res_id r) = Some cc" "\<not> closing cc" by blast
  let ?d = "dec r" and ?cc = "cc\<lparr>lastTick := tick s\<rparr>"
  have cp: "copy_of cc' s" if "conn_id cc' = conn_id cc" "clientFD cc' = clientFD cc" for cc'
    using that by (intro copy_ofI [OF k Some(1)]) (simp_all add: keyedD [OF k Some(1)])
  have rj: "frame s (count (\<lambda>n. n\<lparr>rejected := rejected n + 1\<rparr>) (drop_fd ?d s))"
    by (rule frame_trans [OF frame_drop_fd frame_count]) simp_all
  note lv = h [unfolded handle_result_live [OF Some]]
  consider (r) "Reject ?d" | (m) "\<not> Reject ?d" "More ?d" | (u) "\<not> Reject ?d" "\<not> More ?d" by blast
  then show ?thesis
  proof cases
    case r
    let ?cr = "?cc\<lparr>counted := True\<rparr>" and ?s1 = "count (\<lambda>n. n\<lparr>rejected := rejected n + 1\<rparr>) (drop_fd ?d s)"
    have "copy_of ?cr ?s1" using cp by simp
    moreover have "send_reply ?cr (Reply ?d) OpRejectSend ?s1 = Some s' \<or> s' = closeConn ?cr ?s1"
      using lv r by (simp add: Let_def split: if_splits)
    ultimately have "frame ?s1 s'" by (auto intro: frame_send_reply frame_closeConn)
    then show ?thesis by (rule frame_trans [OF rj])
  next
    case m
    show ?thesis
    proof (cases "growReq c ?cc")
      case None
      then show ?thesis using lv m cp [of ?cc] frame_trans [OF frame_drop_fd frame_fail, of ?cc ?d s] by simp
    next
      case (Some cc1)
      have "copy_of cc1 s" by (rule growReq_copy [OF Some]) (simp add: cp)
      then have c1: "copy_of cc1 (drop_fd ?d s)" by simp
      have "send_reply cc1 (Reply ?d) OpReplyMore (drop_fd ?d s) = Some s' \<or> postRecvReq cc1 (drop_fd ?d s) = Some s'"
        using lv m Some by (simp split: if_splits)
      then have "frame (drop_fd ?d s) s'" using c1 by (auto intro: frame_send_reply frame_postRecvReq)
      then show ?thesis by (rule frame_trans [OF frame_drop_fd])
    qed
  next
    case u
    then show ?thesis using lv cp
      by (simp add: Let_def split: if_splits) (erule frame_send_reply frame_forwardInit; simp)+
  qed
qed

lemma frame_handle_results: "handle_results c rs s = Some s' \<Longrightarrow> keyed s \<Longrightarrow> frame s s'"
proof (induction rs arbitrary: s)
  case Nil
  then show ?case by simp
next
  case (Cons r rs)
  then obtain s1 where "handle_result c r s = Some s1" "handle_results c rs s1 = Some s'"
    by (auto split: option.splits)
  with Cons show ?case by (meson frame_handle_result frame_keyed frame_trans)
qed

text \<open>The wake-up drains the bridge; from there on it is a frame as well.\<close>

definition drained :: "worker \<Rightarrow> worker" where
  "drained s = (postEventfd s)\<lparr>br := (br s)\<lparr>notified := 0, ready := []\<rparr>\<rparr>"

lemma drained_sel [simp]:
  "conns (drained s) = conns s" "nextID (drained s) = nextID s" "tick (drained s) = tick s"
  "acceptInflight (drained s) = acceptInflight s" "counts (drained s) = counts s"
  "br (drained s) = (br s)\<lparr>notified := 0, ready := []\<rparr>"
  "sq (drained s) = sq s @ [\<lparr>sqe_req = Read (efd s), sqe_id = 0, sqe_op = OpEventfd\<rparr>]"
  "jobs (drained s) = jobs s" "syscalls (drained s) = syscalls s" "ln_FD (drained s) = ln_FD s"
  "efd (drained s) = efd s" "exited (drained s) = exited s" "lastOverflow (drained s) = lastOverflow s"
  by (simp_all add: drained_def postEventfd_def)

lemma on_eventfd_eq: "on_eventfd c s = handle_results c (ready (br s)) (drained s)"
  by (simp add: on_eventfd_def Let_def drain_def drained_def postEventfd_def)

lemma frame_on_eventfd:
  assumes "on_eventfd c s = Some s'" and "keyed s"
  shows "frame (drained s) s'"
  using assms by (intro frame_handle_results) (auto simp: on_eventfd_eq keyed_def)

lemma copy_of_update:
  "copy_of cc s \<Longrightarrow> copy_of (cc\<lparr>reqN := n\<rparr>) s" "copy_of cc s \<Longrightarrow> copy_of (cc\<lparr>replyOff := n\<rparr>) s"
  "copy_of cc s \<Longrightarrow> copy_of (cc\<lparr>initSent := n\<rparr>) s" "copy_of cc s \<Longrightarrow> copy_of (cc\<lparr>lastTick := n\<rparr>) s"
  "copy_of cc s \<Longrightarrow> copy_of (cc\<lparr>c2uOff := n\<rparr>) s" "copy_of cc s \<Longrightarrow> copy_of (cc\<lparr>c2uEnd := n\<rparr>) s"
  "copy_of cc s \<Longrightarrow> copy_of (cc\<lparr>u2cOff := n\<rparr>) s" "copy_of cc s \<Longrightarrow> copy_of (cc\<lparr>u2cEnd := n\<rparr>) s"
  "copy_of cc s \<Longrightarrow> copy_of (cc\<lparr>clientReadDone := b\<rparr>) s" "copy_of cc s \<Longrightarrow> copy_of (cc\<lparr>upstreamReadDone := b\<rparr>) s"
  "copy_of cc s \<Longrightarrow> copy_of (cc\<lparr>counted := b\<rparr>) s" "copy_of cc s \<Longrightarrow> copy_of (cc\<lparr>closesLeft := l\<rparr>) s"
  by (auto elim: copy_of_sel)

lemma frame_bytes:
  "frame s (count (\<lambda>n. n\<lparr>bytesC2U := bytesC2U n + w\<rparr>) s)" "frame s (count (\<lambda>n. n\<lparr>bytesU2C := bytesU2C n + w\<rparr>) s)"
  "frame s (count (\<lambda>n. n\<lparr>completed := completed n + 1\<rparr>) s)" "frame s (count (\<lambda>n. n\<lparr>idleClosed := idleClosed n + 1\<rparr>) s)"
  by (rule frame_count; simp)+

lemma frame_chains:
  "copy_of cc s \<Longrightarrow> close_pos z \<Longrightarrow> frame s (post z (putc cc s))"
  "copy_of cc s \<Longrightarrow> close_pos z \<Longrightarrow> frame s (post z (putc cc (count (\<lambda>n. n\<lparr>bytesC2U := bytesC2U n + w\<rparr>) s)))"
  "copy_of cc s \<Longrightarrow> close_pos z \<Longrightarrow> frame s (post z (putc cc (count (\<lambda>n. n\<lparr>bytesU2C := bytesU2C n + w\<rparr>) s)))"
  "startDuplex c cc (count (\<lambda>n. n\<lparr>bytesC2U := bytesC2U n + w\<rparr>) s) = Some s' \<Longrightarrow> copy_of cc s \<Longrightarrow> frame s s'"
  "copy_of cc s \<Longrightarrow> frame s (closeConn cc (sys (SysShutdown f) s))"
  "copy_of cc s \<Longrightarrow> frame s (putc cc (sys (SysShutdown f) s))"
  "copy_of cc s \<Longrightarrow> frame s (closeConn cc (count (\<lambda>n. n\<lparr>idleClosed := idleClosed n + 1\<rparr>) s))"
  by (auto intro: frame_trans [OF frame_putc frame_post] frame_trans [OF frame_bytes(1) frame_startDuplex]
      frame_trans [OF frame_bytes(1) frame_trans [OF frame_putc frame_post]]
      frame_trans [OF frame_bytes(2) frame_trans [OF frame_putc frame_post]]
      frame_trans [OF frame_shutdown frame_closeConn] frame_trans [OF frame_shutdown frame_putc]
      frame_trans [OF frame_bytes(4) frame_closeConn])

lemmas frame_pieces = frame_fail frame_closeConn frame_putc frame_chains
  frame_postRecvReq frame_resend_reply frame_forwardInit frame_startDuplex copy_of_update

lemma frame_reply_handlers:
  "on_replyClient c i res s = Some s' \<Longrightarrow> keyed s \<Longrightarrow> frame s s'"
  "on_replyMore i res s = Some s' \<Longrightarrow> keyed s \<Longrightarrow> frame s s'"
  "on_rejectSend i res s = Some s' \<Longrightarrow> keyed s \<Longrightarrow> frame s s'"
  "on_sendUp c i res s = Some s' \<Longrightarrow> keyed s \<Longrightarrow> frame s s'"
  unfolding on_replyClient_def on_replyMore_def on_rejectSend_def on_sendUp_def Let_def
  by (erule (1) with_conn_frame;
      auto split: if_splits intro: frame_pieces prep_close_pos)+

lemma frame_relay_handlers:
  "on_c2uRecv i res s = Some s' \<Longrightarrow> keyed s \<Longrightarrow> frame s s'"
  "on_c2uSend i res s = Some s' \<Longrightarrow> keyed s \<Longrightarrow> frame s s'"
  "on_u2cRecv i res s = Some s' \<Longrightarrow> keyed s \<Longrightarrow> frame s s'"
  "on_u2cSend i res s = Some s' \<Longrightarrow> keyed s \<Longrightarrow> frame s s'"
  unfolding on_c2uRecv_def on_c2uSend_def on_u2cRecv_def on_u2cSend_def Let_def
  by (erule (1) with_conn_frame;
      auto split: if_splits intro: frame_pieces prep_close_pos)+

lemma frame_on_close: "on_close i s = Some s' \<Longrightarrow> keyed s \<Longrightarrow> frame s s'"
proof (cases "map_of (conns s) i")
  case (Some cc)
  assume h: "on_close i s = Some s'" and k: "keyed s"
  let ?d = "cc\<lparr>closesLeft := closesLeft cc - 1\<rparr>"
  have "copy_of ?d s" by (rule copy_ofI [OF k Some]) (simp_all add: keyedD [OF k Some])
  then have "frame s (putc ?d s)" by (rule frame_putc)
  moreover from this have "frame s (count (\<lambda>n. n\<lparr>completed := completed n + 1\<rparr>) (putc ?d s))"
    by (rule frame_trans) (rule frame_bytes)
  ultimately show "frame s s'" using h Some
    by (auto simp: on_close_def Let_def simp del: count_sel putc_sel split: if_splits intro: frame_trans [OF _ frame_delete])
qed (simp add: on_close_def)

lemma frame_sweep_one: "keyed s \<Longrightarrow> frame s (sweep_one c i s)"
  by (auto simp: sweep_one_def Let_def copy_ofI keyedD split: option.split intro!: frame_chains(7))

lemma frame_sweep: "keyed s \<Longrightarrow> frame s (sweep c is s)"
  by (induction c "is" s rule: sweep.induct) (auto intro: frame_trans frame_sweep_one frame_keyed)

lemma frame_on_timeout: "on_timeout c order s = Some s' \<Longrightarrow> keyed s \<Longrightarrow> frame s s'"
proof -
  assume h: "on_timeout c order s = Some s'" and k: "keyed s"
  let ?s = "(postTimeout s)\<lparr>tick := tick s + 1\<rparr>"
  have f: "frame s ?s" by (auto simp: postTimeout_def frame_def same_globals_def)
  have "s' = ?s \<or> s' = sweep c order ?s"
    using h by (auto simp: on_timeout_def Let_def postTimeout_def)
  then show "frame s s'" using f k frame_sweep frame_keyed frame_trans by metis
qed

lemma frame_handle_cqe:
  assumes "handle_cqe c o' i res order s = Some s'" and "keyed s" and "o' \<noteq> OpAccept" "o' \<noteq> OpEventfd"
  shows "frame s s'"
  using assms
  by (cases o')
     (simp_all add: handle_cqe_def frame_on_recvReq frame_reply_handlers frame_relay_handlers
        frame_on_close frame_on_timeout)

end
