(* ===== verification/Engine_Ledger.thy ===== *)
theory Engine_Ledger
  imports Engine_Safety Engine_Frame
begin

text \<open>
  Quantities the engine conserves. Several promises of the engine have the same form: every
  connection, every outstanding close, every pending hook result and the counters together are
  worth a fixed amount, which only the environment changes. The locale \<open>ledger\<close> states what the
  worth of each part has to satisfy and proves once, handler by handler, that the worker conserves
  the total. It is interpreted three times, in theory \<open>Engine_Accounting\<close>: for the open file
  descriptors, for the gauge of live connections, and for the partition of the accepted
  connections into the terminal counters.
\<close>

text \<open>The facts on the connection table that the handlers rely on.\<close>

definition table_ok :: "worker \<Rightarrow> bool" where
  "table_ok s \<longleftrightarrow> keys_distinct (conns s) \<and> keyed s \<and> (\<forall>j cc. map_of (conns s) j = Some cc \<longrightarrow> 0 < clientFD cc)"

lemma table_ok_cong: "conns s' = conns s \<Longrightarrow> table_ok s' = table_ok s"
  by (simp add: table_ok_def keyed_def)

lemma table_ok_simps [simp]:
  "table_ok (post q s) = table_ok s" "table_ok (count f s) = table_ok s" "table_ok (sys x s) = table_ok s"
  by (rule table_ok_cong; simp)+

lemma table_ok_frame: "table_ok s \<Longrightarrow> frame s s' \<Longrightarrow> keys_distinct (conns s') \<Longrightarrow> table_ok s'"
  using frame_keyed [of s s'] unfolding table_ok_def frame_def table_shrink_def by (metis (no_types, lifting))

text \<open>How often a sweep charges a connection that is already charged to a counter.\<close>

fun recharges :: "config \<Rightarrow> nat list \<Rightarrow> worker \<Rightarrow> nat" where
  "recharges c [] s = 0"
| "recharges c (i # is) s =
    (case map_of (conns s) i of
       None \<Rightarrow> 0
     | Some cc \<Rightarrow> if idle_expired c s cc \<and> counted cc then 1 else 0) + recharges c is (sweep_one c i s)"

lemma keys_distinct_closeConn: "keys_distinct (conns s) \<Longrightarrow> keys_distinct (conns (closeConn cc s))"
  by (simp add: closeConn_def Let_def)

lemma sweep_one_table_ok: "table_ok s \<Longrightarrow> table_ok (sweep_one c i s)"
  by (rule table_ok_frame [OF _ frame_sweep_one])
     (auto simp: table_ok_def sweep_one_def Let_def keys_distinct_closeConn split: option.split)

locale ledger =
  fixes F :: "bool \<Rightarrow> bool \<Rightarrow> fd \<Rightarrow> fd \<Rightarrow> 'b::cancel_comm_monoid_add"
    and G :: "fd \<Rightarrow> 'b"
    and M :: "counters \<Rightarrow> 'b"
    and fee :: 'b
  assumes close: "F False k f u + M n =
      F True k f u + (if f > 0 then G f else 0) + (if u > 0 then G u else 0) + M (n\<lparr>live := live n + NOT 0\<rparr>)"
    and open_live: "F True k f 0 + (if f > 0 then G f else 0) + M n = F False k f 0 + M (n\<lparr>live := live n + 1\<rparr>)"
    and charge: "F x False f u = F x True f u + fee"
    and adopt: "F False k f u = F False k f 0 + (if u > 0 then G u else 0)"
    and gone: "F True True f u = 0"
    and M_accepted: "M (n\<lparr>accepted := accepted n + 1\<rparr>) + fee = M n"
    and M_charged: "M (n\<lparr>errors := errors n + 1\<rparr>) = M n + fee"
      "M (n\<lparr>rejected := rejected n + 1\<rparr>) = M n + fee" "M (n\<lparr>shed := shed n + 1\<rparr>) = M n + fee"
      "M (n\<lparr>idleClosed := idleClosed n + 1\<rparr>) = M n + fee" "M (n\<lparr>completed := completed n + 1\<rparr>) = M n + fee"
    and M_other: "M (n\<lparr>bytesC2U := w\<rparr>) = M n" "M (n\<lparr>bytesU2C := w\<rparr>) = M n" "M (n\<lparr>cqOverflow := w\<rparr>) = M n"
begin

definition fd_worth :: "fd \<Rightarrow> 'b" where
  "fd_worth f = (if f > 0 then G f else 0)"

definition conn_worth :: "conn \<Rightarrow> 'b" where
  "conn_worth cc = F (closing cc) (counted cc) (clientFD cc) (upstreamFD cc)"

definition sqe_worth :: "sqe \<Rightarrow> 'b" where
  "sqe_worth q = (case sqe_req q of Close f \<Rightarrow> fd_worth f | _ \<Rightarrow> 0)"

fun sys_worth :: "syscall \<Rightarrow> 'b" where
  "sys_worth (SysClose f) = fd_worth f"
| "sys_worth (SysShutdown f) = 0"

definition results_worth :: "hookResult list \<Rightarrow> 'b" where
  "results_worth rs = sum_list (map (\<lambda>r. fd_worth (UpstreamFD (dec r))) rs)"

definition worth :: "hookResult list \<Rightarrow> worker \<Rightarrow> 'b" where
  "worth R s = tally conn_worth (conns s) + sum_list (map sqe_worth (sq s)) +
     results_worth (R @ ready (br s)) + sum_list (map sys_worth (syscalls s)) + M (counts s)"

section \<open>Primitives\<close>

lemma fd_worth_simps: "0 < f \<Longrightarrow> fd_worth f = G f" "f \<le> 0 \<Longrightarrow> fd_worth f = 0"
  by (simp_all add: fd_worth_def)

lemma sqe_worth_simps [simp]:
  "sqe_worth \<lparr>sqe_req = Accept f, sqe_id = i, sqe_op = o'\<rparr> = 0"
  "sqe_worth \<lparr>sqe_req = Read f, sqe_id = i, sqe_op = o'\<rparr> = 0"
  "sqe_worth \<lparr>sqe_req = Recv f b n k, sqe_id = i, sqe_op = o'\<rparr> = 0"
  "sqe_worth \<lparr>sqe_req = Send f bs, sqe_id = i, sqe_op = o'\<rparr> = 0"
  "sqe_worth \<lparr>sqe_req = Timeout, sqe_id = i, sqe_op = o'\<rparr> = 0"
  "sqe_worth (prep_close f i) = fd_worth f"
  by (simp_all add: sqe_worth_def)

lemma prep_worth [simp]:
  "prep_recv f b i j k o' = Some q \<Longrightarrow> sqe_worth q = 0" "prep_send f bs i j k o' = Some q \<Longrightarrow> sqe_worth q = 0"
  by (auto simp: prep_recv_def prep_send_def split: if_splits)

lemma worth_post [simp]: "worth R (post q s) = worth R s + sqe_worth q"
  by (simp add: worth_def ac_simps)

lemma worth_sys [simp]: "worth R (sys x s) = worth R s + sys_worth x"
  by (simp add: worth_def ac_simps)

lemma worth_count: "worth R (count f s) + M (counts s) = worth R s + M (f (counts s))"
  by (simp add: worth_def ac_simps)

text \<open>Everything but the table.\<close>

definition rest_worth :: "hookResult list \<Rightarrow> worker \<Rightarrow> 'b" where
  "rest_worth R s = sum_list (map sqe_worth (sq s)) + results_worth (R @ ready (br s)) +
     sum_list (map sys_worth (syscalls s)) + M (counts s)"

lemma worth_split: "worth R s = tally conn_worth (conns s) + rest_worth R s"
  by (simp add: worth_def rest_worth_def add.assoc)

lemma rest_worth_simps [simp]:
  "rest_worth R (putc cc s) = rest_worth R s" "rest_worth R (s\<lparr>conns := t\<rparr>) = rest_worth R s"
  by (simp_all add: rest_worth_def)

lemma swap_worth:
  fixes a b r x y :: 'b
  assumes "a + x = b + y" shows "a + r + x = b + r + y"
proof -
  have "a + r + x = (a + x) + r" by (simp add: ac_simps)
  also have "\<dots> = b + r + y" by (simp add: assms ac_simps)
  finally show ?thesis .
qed

lemma worth_putc:
  "keys_distinct (conns s) \<Longrightarrow> map_of (conns s) (conn_id cc) = Some cc0 \<Longrightarrow>
   worth R (putc cc s) + conn_worth cc0 = worth R s + conn_worth cc"
  unfolding worth_split by (simp add: swap_worth [OF tally_store_old])

lemma worth_putc_same:
  "keys_distinct (conns s) \<Longrightarrow> map_of (conns s) (conn_id cc) = Some cc0 \<Longrightarrow> conn_worth cc = conn_worth cc0 \<Longrightarrow>
   worth R (putc cc s) = worth R s"
  using worth_putc [of s cc cc0 R] by simp

lemma worth_putc_new:
  "keys_distinct (conns s) \<Longrightarrow> map_of (conns s) (conn_id cc) = None \<Longrightarrow>
   worth R (putc cc s) = worth R s + conn_worth cc"
  unfolding worth_split by (simp add: tally_store_new ac_simps)

lemma worth_delete:
  "keys_distinct (conns s) \<Longrightarrow> map_of (conns s) i = Some cc \<Longrightarrow>
   worth R (s\<lparr>conns := AList.delete i (conns s)\<rparr>) + conn_worth cc = worth R s"
  unfolding worth_split using tally_remove [of "conns s" i cc conn_worth]
  by (simp add: add.assoc add.commute [of _ "conn_worth cc"] flip: add.assoc)

lemma worth_charges:
  "worth R (count (\<lambda>n. n\<lparr>errors := errors n + 1\<rparr>) s) = worth R s + fee"
  "worth R (count (\<lambda>n. n\<lparr>rejected := rejected n + 1\<rparr>) s) = worth R s + fee"
  "worth R (count (\<lambda>n. n\<lparr>shed := shed n + 1\<rparr>) s) = worth R s + fee"
  "worth R (count (\<lambda>n. n\<lparr>idleClosed := idleClosed n + 1\<rparr>) s) = worth R s + fee"
  "worth R (count (\<lambda>n. n\<lparr>completed := completed n + 1\<rparr>) s) = worth R s + fee"
  "worth R (count (\<lambda>n. n\<lparr>accepted := accepted n + 1\<rparr>) s) + fee = worth R s"
  "worth R (count (\<lambda>n. n\<lparr>bytesC2U := bytesC2U n + w\<rparr>) s) = worth R s"
  "worth R (count (\<lambda>n. n\<lparr>bytesU2C := bytesU2C n + w\<rparr>) s) = worth R s"
  "worth R (count (\<lambda>n. n\<lparr>cqOverflow := cqOverflow n + w\<rparr>) s) = worth R s"
  by (simp_all add: worth_def M_charged M_accepted M_other add.assoc)

lemma worth_drop_fd: "worth R (drop_fd (dec r) s) = worth (r # R) s"
  by (simp add: drop_fd_def) (simp add: worth_def results_worth_def fd_worth_def ac_simps)

lemma worth_jobs: "worth R (s\<lparr>jobs := js\<rparr>) = worth R s"
  by (simp add: worth_def)

end

section \<open>Closing and failing\<close>

text \<open>
  \<open>held cc0 cc s\<close>: a handler holds the copy \<open>cc\<close> of the open connection \<open>cc0\<close> of the table.
\<close>

definition held :: "conn \<Rightarrow> conn \<Rightarrow> worker \<Rightarrow> bool" where
  "held cc0 cc s \<longleftrightarrow> table_ok s \<and> map_of (conns s) (conn_id cc) = Some cc0 \<and>
     \<not> closing cc \<and> clientFD cc = clientFD cc0"

lemma held_simps [simp]:
  "held cc0 cc (post q s) = held cc0 cc s" "held cc0 cc (count f s) = held cc0 cc s" "held cc0 cc (sys x s) = held cc0 cc s"
  by (simp_all add: held_def)

lemma held_drop_fd [simp]: "held cc0 cc (drop_fd d s) = held cc0 cc s"
  by (simp add: drop_fd_def)

lemma heldD:
  "held cc0 cc s \<Longrightarrow> keys_distinct (conns s) \<and> map_of (conns s) (conn_id cc) = Some cc0 \<and> \<not> closing cc \<and> 0 < clientFD cc"
  by (auto simp: held_def table_ok_def)

lemma held_same:
  "table_ok s \<Longrightarrow> map_of (conns s) i = Some cc0 \<Longrightarrow> \<not> closing cc0 \<Longrightarrow> conn_id cc = conn_id cc0 \<Longrightarrow>
   closing cc = closing cc0 \<Longrightarrow> clientFD cc = clientFD cc0 \<Longrightarrow> held cc0 cc s"
  by (auto simp: held_def table_ok_def keyed_def)

lemma closeConn_eq:
  fixes s :: worker
  assumes "\<not> closing cc" and "0 < clientFD cc"
  defines "u \<equiv> upstreamFD cc"
  defines "k \<equiv> (if u > 0 then 2 else 1)"
  defines "s1 \<equiv> post (prep_close (clientFD cc) (conn_id cc)) (count (\<lambda>n. n\<lparr>live := live n + NOT 0\<rparr>) s)"
  shows "closeConn cc s =
    putc (cc\<lparr>closing := True, closesLeft := k\<rparr>) (if u > 0 then post (prep_close u (conn_id cc)) s1 else s1)"
  using assms by (simp add: closeConn_def Let_def)

context ledger
begin

lemma worth_putc_held:
  "held cc0 cc s \<Longrightarrow> conn_worth cc = conn_worth cc0 \<Longrightarrow> worth R (putc cc s) = worth R s"
  using heldD by (blast intro: worth_putc_same)

lemma worth_closeConn:
  assumes h: "held cc0 cc s"
  shows "worth R (closeConn cc s) + conn_worth cc0 = worth R s + conn_worth cc"
proof -
  let ?k = "counted cc" and ?f = "clientFD cc" and ?u = "upstreamFD cc"
  let ?sl = "count (\<lambda>n. n\<lparr>live := live n + NOT 0\<rparr>) s"
  define s2 where "s2 = (if ?u > 0 then post (prep_close ?u (conn_id cc)) (post (prep_close ?f (conn_id cc)) ?sl)
                         else post (prep_close ?f (conn_id cc)) ?sl)"
  define d where "d = cc\<lparr>closing := True, closesLeft := if ?u > 0 then 2 else 1\<rparr>"
  note hd = heldD [OF h]
  have eq: "closeConn cc s = putc d s2"
    using closeConn_eq [of cc s] hd by (simp add: s2_def d_def)
  have wd: "conn_worth d = F True ?k ?f ?u" and wc: "conn_worth cc = F False ?k ?f ?u"
    using hd by (simp_all add: conn_worth_def d_def)
  have m: "map_of (conns s2) (conn_id d) = Some cc0" "keys_distinct (conns s2)"
    using hd by (simp_all add: s2_def d_def)
  have "worth R (putc d s2) + conn_worth cc0 = worth R s2 + conn_worth d"
    by (rule worth_putc [OF m(2,1)])
  also have "worth R s2 = worth R ?sl + fd_worth ?f + fd_worth ?u"
    by (simp add: s2_def fd_worth_def)
  finally have 1: "worth R (closeConn cc s) + conn_worth cc0 + M (counts s) =
      (worth R ?sl + M (counts s)) + fd_worth ?f + fd_worth ?u + conn_worth d"
    by (simp add: eq ac_simps)
  note cl = close [of ?k ?f ?u "counts s", folded fd_worth_def wd wc]
  have "(worth R ?sl + M (counts s)) + fd_worth ?f + fd_worth ?u + conn_worth d =
      worth R s + (conn_worth d + fd_worth ?f + fd_worth ?u + M (counts s\<lparr>live := live (counts s) + NOT 0\<rparr>))"
    unfolding worth_count by (simp only: add_ac)
  also have "\<dots> = worth R s + conn_worth cc + M (counts s)" unfolding cl [symmetric] by (simp only: add_ac)
  finally have "(worth R ?sl + M (counts s)) + fd_worth ?f + fd_worth ?u + conn_worth d =
      worth R s + conn_worth cc + M (counts s)" .
  with 1 show ?thesis by simp
qed

lemma worth_closeConn_held:
  "held cc0 cc s \<Longrightarrow> conn_worth cc = conn_worth cc0 \<Longrightarrow> worth R (closeConn cc s) = worth R s"
  using worth_closeConn by fastforce

lemma conn_worth_charged: "\<not> counted cc \<Longrightarrow> conn_worth cc = conn_worth (cc\<lparr>counted := True\<rparr>) + fee"
  using charge by (simp add: conn_worth_def)

lemma worth_close_charged:
  assumes h: "held cc0 cc s" and w: "conn_worth cc = conn_worth cc0" and k: "\<not> counted cc"
    and s1: "worth R s1 = worth R s + fee" "conns s1 = conns s"
  shows "worth R (closeConn (cc\<lparr>counted := True\<rparr>) s1) = worth R s"
proof -
  have "held cc0 (cc\<lparr>counted := True\<rparr>) s1"
    using h s1(2) table_ok_cong [OF s1(2)] by (simp add: held_def)
  from worth_closeConn [OF this, of R]
  have "worth R (closeConn (cc\<lparr>counted := True\<rparr>) s1) + conn_worth cc0 = worth R s + conn_worth cc0"
    using conn_worth_charged [OF k] by (simp add: w [symmetric] s1(1) ac_simps)
  then show ?thesis by simp
qed

lemma worth_fail:
  assumes "held cc0 cc s" and "conn_worth cc = conn_worth cc0"
  shows "worth R (fail cc s) = worth R s"
  using assms by (auto simp: fail_def worth_charges worth_closeConn_held intro!: worth_close_charged)

lemma worth_put_post:
  assumes "map_option (\<lambda>q. post q (putc cc s)) p = Some s'" and "\<And>q. p = Some q \<Longrightarrow> sqe_worth q = 0"
    and "held cc0 cc s" and "conn_worth cc = conn_worth cc0"
  shows "worth R s' = worth R s"
  using assms worth_putc_held by auto

lemma worth_postRecvReq:
  "postRecvReq cc s = Some s' \<Longrightarrow> held cc0 cc s \<Longrightarrow> conn_worth cc = conn_worth cc0 \<Longrightarrow> worth R s' = worth R s"
  unfolding postRecvReq_def by (erule worth_put_post) simp_all

lemma worth_resend_reply:
  "resend_reply cc o' s = Some s' \<Longrightarrow> held cc0 cc s \<Longrightarrow> conn_worth cc = conn_worth cc0 \<Longrightarrow> worth R s' = worth R s"
  unfolding resend_reply_def by (erule worth_put_post) simp_all

text \<open>The buffers of a connection are worth nothing.\<close>

lemma conn_worth_buffers [simp]:
  "conn_worth (cc\<lparr>reqBuf := b\<rparr>) = conn_worth cc" "conn_worth (cc\<lparr>reqN := n\<rparr>) = conn_worth cc"
  "conn_worth (cc\<lparr>initSent := n\<rparr>) = conn_worth cc" "conn_worth (cc\<lparr>replyBuf := b\<rparr>) = conn_worth cc"
  "conn_worth (cc\<lparr>replyOff := n\<rparr>) = conn_worth cc" "conn_worth (cc\<lparr>replyEnd := n\<rparr>) = conn_worth cc"
  "conn_worth (cc\<lparr>lastTick := n\<rparr>) = conn_worth cc" "conn_worth (cc\<lparr>relayStarted := x\<rparr>) = conn_worth cc"
  "conn_worth (cc\<lparr>c2uBuf := b\<rparr>) = conn_worth cc" "conn_worth (cc\<lparr>u2cBuf := b\<rparr>) = conn_worth cc"
  "conn_worth (cc\<lparr>c2uOff := n\<rparr>) = conn_worth cc" "conn_worth (cc\<lparr>c2uEnd := n\<rparr>) = conn_worth cc"
  "conn_worth (cc\<lparr>u2cOff := n\<rparr>) = conn_worth cc" "conn_worth (cc\<lparr>u2cEnd := n\<rparr>) = conn_worth cc"
  "conn_worth (cc\<lparr>clientReadDone := x\<rparr>) = conn_worth cc" "conn_worth (cc\<lparr>upstreamReadDone := x\<rparr>) = conn_worth cc"
  "conn_worth (cc\<lparr>closesLeft := l\<rparr>) = conn_worth cc"
  by (simp_all add: conn_worth_def)

lemma worth_put_post_held:
  assumes "map_option (\<lambda>q. post q (putc cc s)) p = Some s'" and "\<And>q. p = Some q \<Longrightarrow> sqe_worth q = 0"
    and "held cc0 cc s"
  shows "worth R s' + conn_worth cc0 = worth R s + conn_worth cc"
  using assms worth_putc [of s cc cc0 R] heldD [OF assms(3)] by auto

lemma worth_startDuplex_held:
  assumes s': "startDuplex c cc s = Some s'" and h: "held cc0 cc s"
  shows "worth R s' + conn_worth cc0 = worth R s + conn_worth cc"
proof -
  let ?d = "cc\<lparr>relayStarted := True, reqBuf := [], replyBuf := [],
    c2uBuf := replicate (nat (BufSize c)) 0, u2cBuf := replicate (nat (BufSize c)) 0\<rparr>"
  have "worth R (putc ?d s) + conn_worth cc0 = worth R s + conn_worth cc"
    using worth_putc [of s ?d cc0 R] heldD [OF h] by simp
  moreover from s' obtain q q' where
    "prep_recv (clientFD cc) C2UBuf 0 (nat (BufSize c)) (conn_id cc) OpC2URecv = Some q"
    "prep_recv (upstreamFD cc) U2CBuf 0 (nat (BufSize c)) (conn_id cc) OpU2CRecv = Some q'"
    "s' = post q' (post q (putc ?d s))"
    by (auto simp: startDuplex_def Let_def split: option.splits)
  ultimately show ?thesis using prep_worth(1) by simp
qed

lemma worth_forwardInit_held:
  assumes s': "forwardInit c cc s = Some s'" and h: "held cc0 cc s"
  shows "worth R s' + conn_worth cc0 = worth R s + conn_worth cc"
proof (cases "initSent cc \<ge> reqN cc")
  case True
  then show ?thesis using s' worth_startDuplex_held [OF _ h] by (simp add: forwardInit_def)
next
  case False
  then show ?thesis using s' by (intro worth_put_post_held [OF _ _ h]) (auto simp: forwardInit_def)
qed

lemma worth_startDuplex:
  "startDuplex c cc s = Some s' \<Longrightarrow> held cc0 cc s \<Longrightarrow> conn_worth cc = conn_worth cc0 \<Longrightarrow> worth R s' = worth R s"
  using worth_startDuplex_held [of c cc s s' cc0 R] by simp

lemma worth_forwardInit:
  "forwardInit c cc s = Some s' \<Longrightarrow> held cc0 cc s \<Longrightarrow> conn_worth cc = conn_worth cc0 \<Longrightarrow> worth R s' = worth R s"
  using worth_forwardInit_held [of c cc s s' cc0 R] by simp

lemma worth_send_reply:
  assumes s': "send_reply cc rep o' s = Some s'" and h: "held cc0 cc s"
  shows "worth R s' + conn_worth cc0 = worth R s + conn_worth cc"
proof -
  let ?d = "cc\<lparr>replyBuf := rep, replyOff := 0, replyEnd := length rep\<rparr>"
  from s' obtain q where "prep_send (clientFD cc) rep 0 (length rep) (conn_id cc) o' = Some q" "s' = post q (putc ?d s)"
    by (auto simp: send_reply_def Let_def)
  moreover from this(1) have "sqe_worth q = 0" by (rule prep_worth(2))
  ultimately show ?thesis using worth_putc [of s ?d cc0 R] heldD [OF h] by simp
qed

end

section \<open>Handlers\<close>

lemma with_conn_held:
  assumes "with_conn i s h = Some s'" and "table_ok s"
  obtains "s' = s" | cc where "map_of (conns s) i = Some cc" "\<not> closing cc" "conn_id cc = i" "h cc = Some s'"
  using assms by (auto simp: with_conn_def table_ok_def keyed_def split: option.splits if_splits)

context ledger
begin

lemma worth_with_conn:
  assumes "with_conn i s h = Some s'" and t: "table_ok s"
    and "\<And>cc. (\<And>cc'. conn_id cc' = conn_id cc \<Longrightarrow> closing cc' = closing cc \<Longrightarrow> clientFD cc' = clientFD cc \<Longrightarrow>
        held cc cc' s) \<Longrightarrow> h cc = Some s' \<Longrightarrow> worth R s' = worth R s"
  shows "worth R s' = worth R s"
  using assms(1) t
proof (cases rule: with_conn_held)
  case 1
  then show ?thesis by simp
next
  case (2 cc)
  show ?thesis by (rule assms(3) [OF held_same [OF t 2(1,2)] 2(4)])
qed

lemma worth_bytes_then:
  "worth R s' = worth R (count (\<lambda>n. n\<lparr>bytesC2U := bytesC2U n + w\<rparr>) s) \<Longrightarrow> worth R s' = worth R s"
  "worth R s' = worth R (count (\<lambda>n. n\<lparr>bytesU2C := bytesU2C n + w\<rparr>) s) \<Longrightarrow> worth R s' = worth R s"
  by (simp_all add: worth_charges)

lemma worth_on_recvReq:
  assumes "on_recvReq i res s = Some s'" and "table_ok s"
  shows "worth R s' = worth R s"
proof (rule worth_with_conn [OF assms(1) [unfolded on_recvReq_def] assms(2)], goal_cases)
  case (1 cc)
  let ?d = "cc\<lparr>reqN := reqN cc + nat res, lastTick := tick s\<rparr>"
  have "worth R (fail cc s) = worth R s" using 1(1) by (intro worth_fail) auto
  moreover have "worth R (putc ?d s) = worth R s" using 1(1) by (intro worth_putc_held) auto
  ultimately show ?case using 1(2) by (auto simp: Let_def worth_jobs split: if_splits)
qed

lemma worth_on_replyClient:
  assumes "on_replyClient c i res s = Some s'" and "table_ok s"
  shows "worth R s' = worth R s"
proof (rule worth_with_conn [OF assms(1) [unfolded on_replyClient_def] assms(2)], goal_cases)
  case (1 cc)
  let ?d = "cc\<lparr>replyOff := replyOff cc + nat res\<rparr>"
  have h: "held cc cc s" "held cc ?d s" and w: "conn_worth ?d = conn_worth cc" using 1(1) by simp_all
  show ?case using 1(2) worth_fail [OF h(1)] worth_resend_reply [OF _ h(2) w] worth_forwardInit [OF _ h(2) w]
    by (auto simp: Let_def split: if_splits)
qed

lemma worth_on_replyMore:
  assumes "on_replyMore i res s = Some s'" and "table_ok s"
  shows "worth R s' = worth R s"
proof (rule worth_with_conn [OF assms(1) [unfolded on_replyMore_def] assms(2)], goal_cases)
  case (1 cc)
  let ?d = "cc\<lparr>replyOff := replyOff cc + nat res\<rparr>"
  have h: "held cc cc s" "held cc ?d s" and w: "conn_worth ?d = conn_worth cc" using 1(1) by simp_all
  show ?case using 1(2) worth_fail [OF h(1)] worth_resend_reply [OF _ h(2) w] worth_postRecvReq [OF _ h(2) w]
    by (auto simp: Let_def split: if_splits)
qed

lemma worth_on_rejectSend:
  assumes "on_rejectSend i res s = Some s'" and "table_ok s"
  shows "worth R s' = worth R s"
proof (rule worth_with_conn [OF assms(1) [unfolded on_rejectSend_def] assms(2)], goal_cases)
  case (1 cc)
  let ?d = "cc\<lparr>replyOff := replyOff cc + nat res\<rparr>"
  have h: "held cc cc s" "held cc ?d s" and w: "conn_worth ?d = conn_worth cc" using 1(1) by simp_all
  show ?case using 1(2) worth_closeConn_held [OF h(1)] worth_closeConn_held [OF h(2) w] worth_resend_reply [OF _ h(2) w]
    by (auto simp: Let_def split: if_splits)
qed

lemma worth_on_sendUp:
  assumes "on_sendUp c i res s = Some s'" and "table_ok s"
  shows "worth R s' = worth R s"
proof (rule worth_with_conn [OF assms(1) [unfolded on_sendUp_def] assms(2)], goal_cases)
  case (1 cc)
  let ?d = "cc\<lparr>initSent := initSent cc + nat res\<rparr>"
  let ?s = "count (\<lambda>n. n\<lparr>bytesC2U := bytesC2U n + word_of_int res\<rparr>) s"
  have h: "held cc cc s" "held cc ?d ?s" and w: "conn_worth ?d = conn_worth cc" using 1(1) by simp_all
  show ?case using 1(2) worth_fail [OF h(1)] worth_bytes_then(1) [OF worth_startDuplex [OF _ h(2) w]]
      worth_bytes_then(1) [OF worth_put_post [OF _ prep_worth(2) h(2) w]]
    by (auto simp: Let_def split: if_splits)
qed

text \<open>The four relay handlers: a local copy \<open>d\<close> is stored, closed or failed.\<close>

lemma worth_shutdown_then:
  assumes "held cc0 d s" and "conn_worth d = conn_worth cc0"
  shows "worth R (closeConn d (sys (SysShutdown f) s)) = worth R s" "worth R (putc d (sys (SysShutdown f) s)) = worth R s"
  using assms by (simp_all add: worth_closeConn_held [of cc0] worth_putc_held [of cc0])

lemma worth_on_c2uRecv:
  assumes "on_c2uRecv i res s = Some s'" and "table_ok s"
  shows "worth R s' = worth R s"
proof (rule worth_with_conn [OF assms(1) [unfolded on_c2uRecv_def] assms(2)], goal_cases)
  case (1 cc)
  let ?e = "cc\<lparr>clientReadDone := True\<rparr>" and ?d = "cc\<lparr>lastTick := tick s, c2uOff := 0, c2uEnd := nat res\<rparr>"
  let ?s = "count (\<lambda>n. n\<lparr>bytesC2U := bytesC2U n + word_of_int res\<rparr>) s"
  have h: "held cc cc s" "held cc ?e s" "held cc ?d ?s" using 1(1) by simp_all
  show ?case using 1(2) worth_fail [OF h(1)] worth_shutdown_then [OF h(2)]
      worth_bytes_then(1) [OF worth_put_post [OF _ prep_worth(2) h(3)]]
    by (auto simp: Let_def split: if_splits)
qed

lemma worth_on_u2cRecv:
  assumes "on_u2cRecv i res s = Some s'" and "table_ok s"
  shows "worth R s' = worth R s"
proof (rule worth_with_conn [OF assms(1) [unfolded on_u2cRecv_def] assms(2)], goal_cases)
  case (1 cc)
  let ?e = "cc\<lparr>upstreamReadDone := True\<rparr>" and ?d = "cc\<lparr>lastTick := tick s, u2cOff := 0, u2cEnd := nat res\<rparr>"
  let ?s = "count (\<lambda>n. n\<lparr>bytesU2C := bytesU2C n + word_of_int res\<rparr>) s"
  have h: "held cc cc s" "held cc ?e s" "held cc ?d ?s" using 1(1) by simp_all
  show ?case using 1(2) worth_fail [OF h(1)] worth_shutdown_then [OF h(2)]
      worth_bytes_then(2) [OF worth_put_post [OF _ prep_worth(2) h(3)]]
    by (auto simp: Let_def split: if_splits)
qed

lemma worth_on_c2uSend:
  assumes "on_c2uSend i res s = Some s'" and "table_ok s"
  shows "worth R s' = worth R s"
proof (rule worth_with_conn [OF assms(1) [unfolded on_c2uSend_def] assms(2)], goal_cases)
  case (1 cc)
  let ?d = "cc\<lparr>c2uOff := c2uOff cc + nat res\<rparr>"
  have h: "held cc cc s" "held cc ?d s" and w: "conn_worth ?d = conn_worth cc" using 1(1) by simp_all
  show ?case using 1(2) worth_fail [OF h(1)] worth_putc_held [OF h(2) w]
      worth_put_post [OF _ prep_worth(1) h(2) w] worth_put_post [OF _ prep_worth(2) h(2) w]
    by (auto simp: Let_def split: if_splits)
qed

lemma worth_on_u2cSend:
  assumes "on_u2cSend i res s = Some s'" and "table_ok s"
  shows "worth R s' = worth R s"
proof (rule worth_with_conn [OF assms(1) [unfolded on_u2cSend_def] assms(2)], goal_cases)
  case (1 cc)
  let ?d = "cc\<lparr>u2cOff := u2cOff cc + nat res\<rparr>"
  have h: "held cc cc s" "held cc ?d s" and w: "conn_worth ?d = conn_worth cc" using 1(1) by simp_all
  show ?case using 1(2) worth_fail [OF h(1)] worth_putc_held [OF h(2) w]
      worth_put_post [OF _ prep_worth(1) h(2) w] worth_put_post [OF _ prep_worth(2) h(2) w]
    by (auto simp: Let_def split: if_splits)
qed

lemmas worth_conn_handlers = worth_on_recvReq worth_on_replyClient worth_on_replyMore worth_on_rejectSend
  worth_on_sendUp worth_on_c2uRecv worth_on_c2uSend worth_on_u2cRecv worth_on_u2cSend

lemma worth_conn_op:
  "handle_cqe c o' i res order s = Some s' \<Longrightarrow> conn_op o' \<Longrightarrow> table_ok s \<Longrightarrow> worth R s' = worth R s"
  by (cases o') (auto simp: handle_cqe_def conn_op_def intro: worth_conn_handlers)

end

section \<open>Closes, accepts, hook results, sweeps\<close>

lemma closing_facts:
  assumes "engine_inv c R H A s" and "map_of (conns s) i = Some cc" and "closing cc"
  shows "conn_id cc = i" "\<not> counted cc \<Longrightarrow> relayStarted cc"
  using inv_conn [OF assms(1,2)] assms(3) by (auto simp: conn_inv_def closing_ok_def)

text \<open>A live connection with a hook result waits for its decision: uncharged, with no upstream yet.\<close>

lemma result_undecided:
  assumes v: "engine_inv c (r # R) H A s" and "map_of (conns s) (res_id r) = Some cc" and "\<not> closing cc"
  shows "\<not> counted cc" "upstreamFD cc = 0" "relayStarted cc = False"
proof -
  let ?i = "res_id r"
  have "phase_ok c cc (H ?i) (ops_of ?i s) (jobs_of ?i s) (results_of ?i (r # R) s)"
    using inv_conn [OF assms(1,2)] assms(3) by (simp add: conn_inv_def)
  moreover have "results_of ?i (r # R) s \<noteq> {#}" by (simp add: results_of_def)
  ultimately have "undecided c cc (H ?i)" by (cases rule: phase_ok.cases) auto
  then show "\<not> counted cc" "upstreamFD cc = 0" "relayStarted cc = False"
    by (auto simp: undecided_def pre_relay_def)
qed

lemma inv_table_ok:
  "engine_inv c R H A s \<Longrightarrow> (\<forall>j cc. map_of (conns s) j = Some cc \<longrightarrow> 0 < clientFD cc) \<Longrightarrow> table_ok s"
  using inv_conn(1) [of c R H A s] unfolding table_ok_def keyed_def
  by (metis conn_inv_def engine_inv_def inv_except_def)

context ledger
begin

lemma worth_on_close:
  assumes h: "on_close i s = Some s'" and t: "table_ok s"
    and cl: "\<And>cc. map_of (conns s) i = Some cc \<Longrightarrow> closing cc \<and> (\<not> counted cc \<longrightarrow> relayStarted cc)"
  shows "worth R s' = worth R s"
proof (cases "map_of (conns s) i")
  case None
  then show ?thesis using h by (simp add: on_close_def)
next
  case (Some cc)
  let ?d = "cc\<lparr>closesLeft := closesLeft cc - 1\<rparr>"
  let ?k = "\<not> counted cc \<and> relayStarted cc"
  define s1 where "s1 = (if ?k then count (\<lambda>n. n\<lparr>completed := completed n + 1\<rparr>) (putc ?d s) else putc ?d s)"
  have kd: "keys_distinct (conns s)" "conn_id cc = i" using t Some by (auto simp: table_ok_def keyed_def)
  have p: "worth R (putc ?d s) = worth R s" by (rule worth_putc_same [OF kd(1)]) (simp_all add: kd Some)
  have m: "map_of (conns s1) i = Some ?d" "keys_distinct (conns s1)" using kd by (simp_all add: s1_def)
  have w: "conn_worth ?d = (if ?k then fee else 0)"
    using cl [OF Some] gone charge [of True "clientFD cc" "upstreamFD cc"] by (auto simp: conn_worth_def)
  have "worth R (s1\<lparr>conns := AList.delete i (conns s1)\<rparr>) + conn_worth ?d = worth R s1"
    by (rule worth_delete [OF m(2,1)])
  moreover have "worth R s1 = worth R s + (if ?k then fee else 0)" by (simp add: s1_def worth_charges p)
  ultimately have "worth R (s1\<lparr>conns := AList.delete i (conns s1)\<rparr>) = worth R s"
    unfolding w by (metis add_right_cancel)
  moreover have "s' = putc ?d s \<or> s' = s1\<lparr>conns := AList.delete i (conns s1)\<rparr>"
    using h Some by (auto simp: on_close_def Let_def s1_def simp del: putc_sel count_sel split: if_splits)
  ultimately show ?thesis using p by metis
qed

lemma worth_handle_result_gone:
  "handle_result c r s = Some s' \<Longrightarrow>
   map_of (conns s) (res_id r) = None \<or> (\<exists>cc. map_of (conns s) (res_id r) = Some cc \<and> closing cc) \<Longrightarrow>
   worth R s' = worth (r # R) s"
  using handle_result_gone [of s r c] worth_drop_fd [of R r s] by simp

lemma worth_adopt:
  assumes "held cc0 cc s" and "\<not> closing cc0" and "upstreamFD cc = 0" and "conn_worth cc = conn_worth cc0"
  shows "worth R s + conn_worth (cc\<lparr>upstreamFD := UpstreamFD (dec r), initSent := n\<rparr>) = worth (r # R) s + conn_worth cc0"
proof -
  have "conn_worth (cc\<lparr>upstreamFD := UpstreamFD (dec r), initSent := n\<rparr>) = conn_worth cc + fd_worth (UpstreamFD (dec r))"
    using adopt [of "counted cc" "clientFD cc" "UpstreamFD (dec r)"] heldD [OF assms(1)] assms(3)
    by (simp add: conn_worth_def fd_worth_def)
  moreover have "worth (r # R) s = worth R s + fd_worth (UpstreamFD (dec r))"
    by (simp add: worth_def results_worth_def ac_simps)
  ultimately show ?thesis by (simp add: assms(4) ac_simps)
qed

lemma worth_growReq: "growReq c cc = Some cc' \<Longrightarrow> conn_worth cc' = conn_worth cc \<and> (held cc0 cc s \<longrightarrow> held cc0 cc' s)"
  by (auto simp: growReq_def Let_def held_def split: if_splits)

lemma worth_handle_result:
  assumes h: "handle_result c r s = Some s'" and t: "table_ok s" and v: "engine_inv c (r # R) H A s"
  shows "worth R s' = worth (r # R) s"
proof (cases "\<exists>cc. map_of (conns s) (res_id r) = Some cc \<and> \<not> closing cc")
  case False
  then show ?thesis using h by (intro worth_handle_result_gone) auto
next
  case True
  then obtain cc where m: "map_of (conns s) (res_id r) = Some cc" and cl: "\<not> closing cc" by blast
  note u = result_undecided [OF v m cl]
  let ?d = "dec r" and ?cc = "cc\<lparr>lastTick := tick s\<rparr>"
  let ?s0 = "drop_fd ?d s"
  have hl: "held cc ?cc s" by (rule held_same [OF t m cl]) simp_all
  have d0: "worth R ?s0 = worth (r # R) s" by (rule worth_drop_fd)
  note lv = h [unfolded handle_result_live [OF m cl]]
  consider (rej) "Reject ?d" | (more) "\<not> Reject ?d" "More ?d" | (up) "\<not> Reject ?d" "\<not> More ?d" by blast
  then show ?thesis
  proof cases
    case rej
    let ?s1 = "count (\<lambda>n. n\<lparr>rejected := rejected n + 1\<rparr>) ?s0" and ?k = "?cc\<lparr>counted := True\<rparr>"
    have e1: "worth R ?s1 = worth (r # R) s + fee" by (simp add: worth_charges d0)
    have e2: "conn_worth cc = conn_worth ?k + fee" using conn_worth_charged [of ?cc] u(1) by simp
    have "held cc ?k ?s1" using hl by (simp add: held_def table_ok_def keyed_def drop_fd_def)
    moreover have "worth R ?s1 + conn_worth ?k = worth (r # R) s + conn_worth cc"
      unfolding e1 e2 by (simp only: add_ac)
    moreover have "send_reply ?k (Reply ?d) OpRejectSend ?s1 = Some s' \<or> s' = closeConn ?k ?s1"
      using lv rej by (simp add: Let_def split: if_splits)
    ultimately have "worth R s' + conn_worth cc = worth (r # R) s + conn_worth cc"
      using worth_send_reply worth_closeConn by fastforce
    then show ?thesis by simp
  next
    case more
    show ?thesis
    proof (cases "growReq c ?cc")
      case None
      then show ?thesis using lv more worth_fail [of cc ?cc ?s0 R] hl d0 by simp
    next
      case (Some c1)
      have g: "conn_worth c1 = conn_worth cc" "held cc c1 ?s0" using worth_growReq [OF Some, of cc s] hl by simp_all
      have "send_reply c1 (Reply ?d) OpReplyMore ?s0 = Some s' \<or> postRecvReq c1 ?s0 = Some s'"
        using lv more Some by (simp split: if_splits)
      then have "worth R s' + conn_worth cc = worth R ?s0 + conn_worth cc"
        using worth_send_reply [OF _ g(2)] worth_postRecvReq [OF _ g(2)] g(1) by fastforce
      then show ?thesis by (simp add: d0)
    qed
  next
    case up
    define c1 where "c1 = ?cc\<lparr>upstreamFD := UpstreamFD ?d, initSent := clamp_consumed (Consumed ?d) (reqN ?cc)\<rparr>"
    have a: "worth R s + conn_worth c1 = worth (r # R) s + conn_worth cc"
      unfolding c1_def using worth_adopt [OF hl cl] u(2) by simp
    have hc: "held cc c1 s" using hl by (simp add: held_def c1_def)
    have "send_reply c1 (Reply ?d) OpReplyClient s = Some s' \<or> forwardInit c c1 s = Some s'"
      using lv up by (simp add: Let_def c1_def split: if_splits)
    then have "worth R s' + conn_worth cc = worth R s + conn_worth c1"
      using worth_send_reply [OF _ hc] worth_forwardInit_held [OF _ hc] by blast
    then show ?thesis by (simp add: a)
  qed
qed

lemma worth_handle_results:
  assumes "config_ok c"
  shows "handle_results c R s = Some s' \<Longrightarrow> table_ok s \<Longrightarrow> engine_inv c R H A s \<Longrightarrow> worth [] s' = worth R s"
proof (induction R arbitrary: s)
  case Nil
  then show ?case by simp
next
  case (Cons r R)
  obtain s1 where s1: "handle_result c r s = Some s1" "handle_results c R s1 = Some s'"
    using Cons.prems(1) by (auto split: option.splits)
  have v1: "engine_inv c R H A s1" using handle_result_ok [OF assms Cons.prems(3)] s1(1) by auto
  have "table_ok s1"
    using table_ok_frame [OF Cons.prems(2) frame_handle_result [OF s1(1)]] Cons.prems(2) v1
    by (simp add: table_ok_def engine_inv_def inv_except_def)
  then show ?case using Cons.IH [OF s1(2) _ v1] worth_handle_result [OF s1(1) Cons.prems(2,3)] by simp
qed

lemma worth_drained: "worth (ready (br s)) (drained s) = worth [] s"
  by (simp add: worth_def)

lemma worth_on_eventfd:
  assumes c: "config_ok c" and h: "on_eventfd c s = Some s'" and t: "table_ok s" and v: "engine_inv c [] H A s"
  shows "worth [] s' = worth [] s"
proof -
  have t': "table_ok (drained s)" using t by (simp add: table_ok_def keyed_def)
  have "worth [] s' = worth (ready (br s)) (drained s)"
    by (rule worth_handle_results [OF c h [unfolded on_eventfd_eq] t' drained_inv [OF v, folded drained_def]])
  then show ?thesis by (simp only: worth_drained)
qed

lemma worth_accept:
  assumes h: "on_accept c res s = Some s'" and v: "engine_inv c [] H A s" and nn: "0 \<le> res"
  shows "worth R s' = worth R s + fd_worth res"
proof -
  let ?s1 = "count (\<lambda>n. n\<lparr>accepted := accepted n + 1\<rparr>) (s\<lparr>acceptInflight := acceptInflight s - 1\<rparr>)"
  have w1: "worth R ?s1 + fee = worth R s" by (simp only: worth_charges) (simp add: worth_def)
  show ?thesis
  proof (cases "int (length (conns s)) \<ge> MaxConns c")
    case True
    then have "s' = post (prep_close res 0) (count (\<lambda>n. n\<lparr>shed := shed n + 1\<rparr>) ?s1)"
      using h nn by (simp add: on_accept_def Let_def)
    then show ?thesis using w1 by (simp add: worth_charges)
  next
    case False
    let ?n = "nextID s + 1"
    define cc where "cc = new_conn ?n res (nat (InitialReqLen c)) (tick s)"
    define s2 where "s2 = putc cc (?s1\<lparr>nextID := ?n\<rparr>)"
    have new: "map_of (conns s) ?n = None" using inv_conn_id [OF v, of ?n] by (cases "map_of (conns s) ?n") auto
    have kd: "keys_distinct (conns s)" using v by (simp add: engine_inv_def inv_except_def)
    have "worth R s2 = worth R (?s1\<lparr>nextID := ?n\<rparr>) + conn_worth cc"
      unfolding s2_def by (rule worth_putc_new) (simp_all add: cc_def new_conn_def new kd del: One_nat_def add_Suc_right)
    also have "worth R (?s1\<lparr>nextID := ?n\<rparr>) = worth R ?s1" by (simp add: worth_def)
    finally have w2: "worth R s2 = worth R ?s1 + F False False res 0" by (simp add: cc_def new_conn_def conn_worth_def)
    have w3: "worth R (count (\<lambda>n. n\<lparr>live := live n + 1\<rparr>) s2) + M (counts s2) =
        worth R s2 + M (counts s2\<lparr>live := live (counts s2) + 1\<rparr>)" by (rule worth_count)
    have "F True False res 0 = fee" using charge [of True res 0] gone by simp
    with open_live [of False res "counts s2"]
    have f: "F False False res 0 + M (counts s2\<lparr>live := live (counts s2) + 1\<rparr>) = fee + fd_worth res + M (counts s2)"
      by (simp add: fd_worth_def)
    have "worth R (count (\<lambda>n. n\<lparr>live := live n + 1\<rparr>) s2) + M (counts s2) =
        worth R ?s1 + (F False False res 0 + M (counts s2\<lparr>live := live (counts s2) + 1\<rparr>))"
      unfolding w3 w2 by (simp only: add_ac)
    also have "\<dots> = (worth R ?s1 + fee) + fd_worth res + M (counts s2)" unfolding f by (simp only: add_ac)
    finally have w4: "worth R (count (\<lambda>n. n\<lparr>live := live n + 1\<rparr>) s2) = worth R s + fd_worth res"
      unfolding w1 by simp
    obtain q where "prep_recv res ReqBuf 0 (length (reqBuf cc)) ?n OpRecvReq = Some q"
      "s' = post q (count (\<lambda>n. n\<lparr>live := live n + 1\<rparr>) s2)"
      using h nn False by (auto simp: on_accept_def Let_def s2_def cc_def new_conn_def)
    moreover from this(1) have "sqe_worth q = 0" by (rule prep_worth(1))
    ultimately show ?thesis using w4 by simp
  qed
qed

lemma worth_accept_failed:
  "on_accept c res s = Some s' \<Longrightarrow> res < 0 \<Longrightarrow> worth R s' = worth R s + fee"
  by (auto simp: on_accept_def Let_def worth_charges simp del: count_sel) (simp add: worth_def)

definition fees :: "nat \<Rightarrow> 'b" where
  "fees n = sum_list (replicate n fee)"

lemma fees_simps [simp]: "fees 0 = 0" "fees (Suc n) = fee + fees n" "fees (m + n) = fees m + fees n"
  by (simp_all add: fees_def replicate_add)

lemma worth_sweep_one:
  assumes t: "table_ok s"
  shows "worth R (sweep_one c i s) = worth R s + fees (case map_of (conns s) i of None \<Rightarrow> 0
    | Some cc \<Rightarrow> if idle_expired c s cc \<and> counted cc then 1 else 0)"
proof (cases "\<exists>cc. map_of (conns s) i = Some cc \<and> idle_expired c s cc")
  case False
  then show ?thesis by (auto simp: sweep_one_def split: option.split)
next
  case True
  then obtain cc where m: "map_of (conns s) i = Some cc" and x: "idle_expired c s cc" by blast
  let ?s = "count (\<lambda>n. n\<lparr>idleClosed := idleClosed n + 1\<rparr>) s"
  have h: "held cc cc s" using x by (intro held_same [OF t m]) (simp_all add: idle_expired_def)
  have eq: "sweep_one c i s = closeConn (cc\<lparr>counted := True\<rparr>) ?s" by (simp add: sweep_one_def m x)
  show ?thesis
  proof (cases "counted cc")
    case False
    then show ?thesis unfolding eq using m x
      by (simp add: worth_close_charged [OF h refl False] worth_charges)
  next
    case True
    then have same: "cc\<lparr>counted := True\<rparr> = cc" by simp
    moreover have "worth R (closeConn cc ?s) = worth R ?s"
      by (rule worth_closeConn_held [of cc]) (simp_all add: h)
    ultimately show ?thesis unfolding eq same using m x True by (simp add: worth_charges)
  qed
qed

lemma worth_sweep: "table_ok s \<Longrightarrow> worth R (sweep c is s) = worth R s + fees (recharges c is s)"
proof (induction c "is" s rule: sweep.induct)
  case (2 c i "is" s)
  have "table_ok (sweep_one c i s)" by (rule sweep_one_table_ok [OF 2(2)])
  with 2(1) worth_sweep_one [OF 2(2), of R c i] show ?case by (simp add: add.assoc)
qed simp

end

end
