(* ===== verification/Engine_Reach.thy ===== *)
theory Engine_Reach
  imports Engine_Ledger
begin

text \<open>
  The invariant of every reachable state of the engine, and that a step allowed by the environment
  always has a successor.
\<close>

section \<open>The entries that belong to no connection\<close>

definition accept_entry :: "worker \<Rightarrow> sqe" where
  "accept_entry s = \<lparr>sqe_req = Accept (ln_FD s), sqe_id = 0, sqe_op = OpAccept\<rparr>"

definition eventfd_entry :: "worker \<Rightarrow> sqe" where
  "eventfd_entry s = \<lparr>sqe_req = Read (efd s), sqe_id = 0, sqe_op = OpEventfd\<rparr>"

definition timeout_entry :: sqe where
  "timeout_entry = \<lparr>sqe_req = Timeout, sqe_id = 0, sqe_op = OpTimeout\<rparr>"

definition ring_entries :: "worker \<Rightarrow> sqe multiset" where
  "ring_entries s =
     replicate_mset (nat (acceptInflight s)) (accept_entry s) + {#eventfd_entry s#} + {#timeout_entry#}"

lemma ring_entries_frame: "frame s s' \<Longrightarrow> ring_entries s' = ring_entries s"
  by (simp add: frame_def same_globals_def ring_entries_def accept_entry_def eventfd_entry_def)

lemma ring_entry_cases:
  assumes "q \<in># ring_entries s"
  shows "q = accept_entry s \<and> 0 < acceptInflight s \<or> q = eventfd_entry s \<or> q = timeout_entry"
  using assms by (auto simp: ring_entries_def split: if_splits)

section \<open>Hook results and the end of a batch\<close>

lemma hook_done_ok:
  fixes d :: decision
  assumes v: "engine_inv c [] H A s" and j: "j < length (jobs s)"
  defines "i \<equiv> job_id (jobs s ! j)"
  defines "s' \<equiv> s\<lparr>jobs := drop_nth j (jobs s), br := push \<lparr>res_id = i, dec = d\<rparr> (br s)\<rparr>"
  shows "engine_inv c [] (log_entry (LHook i d) H) A s'"
proof -
  let ?H = "log_entry (LHook i d) H" and ?r = "\<lparr>res_id = i, dec = d\<rparr>"
  have jv: "jobs_of k s = (if i = k then add_mset (jobs s ! j) (jobs_of k s') else jobs_of k s')" for k
    using mset_drop_nth [OF j] by (auto simp: jobs_of_def s'_def i_def)
  have rv: "results_of k [] s' = (if i = k then add_mset ?r (results_of k [] s) else results_of k [] s)" for k
    by (simp add: results_of_def s'_def)
  have ov: "ops_of k s' = ops_of k s" "closes_of k s' = closes_of k s" for k
    by (simp_all add: ops_of_def closes_of_def s'_def)
  have i0: "0 < i" using v jv [of 0] by (cases "i = 0") (auto simp: engine_inv_def inv_except_def)
  have le: "i \<le> nextID s"
  proof (rule ccontr)
    assume "\<not> i \<le> nextID s"
    then have "jobs_of i s = {#}" using v by (auto simp: engine_inv_def inv_except_def fresh_from_def)
    then show False using jv [of i] by simp
  qed
  have hole: "inv_except i c [] ?H A s'"
    using inv_holeI [OF v, of i] jv rv ov i0 le unfolding inv_except_def fresh_from_def
    by (auto simp: s'_def intro: conn_inv_cong [where s = s and H = H and R = "[]"])
  show ?thesis
  proof (rule inv_fill [OF hole])
    fix cc assume "map_of (conns s') i = Some cc"
    then have m: "map_of (conns s) i = Some cc" by (simp add: s'_def)
    note ci = inv_conn [OF v m]
    show "conn_inv c [] ?H s' i cc"
    proof (cases "closing cc")
      case True
      then show ?thesis using ci jv [of i] rv [of i] ov [of i]
        by (auto simp: conn_inv_def closing_ok_def s'_def)
    next
      case False
      then have p: "phase_ok c cc (H i) (ops_of i s) (add_mset (jobs s ! j) (jobs_of i s')) (results_of i [] s)"
        using ci jv [of i] by (simp add: conn_inv_def)
      then have "phase_ok c cc (?H i) (ops_of i s') (jobs_of i s') (results_of i [] s')"
      proof (cases rule: phase_ok.cases)
        case deciding
        then have "phase_ok c cc (?H i) {#} {#} {#\<lparr>res_id = conn_id cc, dec = d\<rparr>#}"
          by (intro phase_ok.decided [where ds = "decs (H i)"]) (auto simp: undecided_def pre_relay_def)
        then show ?thesis using deciding ov rv [of i] ci by (simp add: conn_inv_def)
      qed simp_all
      then show ?thesis using ci False ov by (simp add: conn_inv_def s'_def)
    qed
  qed
qed

lemma post_accept_ok:
  assumes v: "engine_inv c R H (ring_entries s) s" and "0 \<le> acceptInflight s"
  shows "engine_inv c R H (ring_entries (postAccept s)) (postAccept s)"
proof -
  have "engine_inv c R H (add_mset (accept_entry s) (ring_entries s)) (post (accept_entry s) s)"
    by (rule inv_post0 [OF v]) (simp_all add: accept_entry_def sqe_wf.simps)
  moreover have "add_mset (accept_entry s) (ring_entries s) = ring_entries (postAccept s)"
    using assms(2) by (simp add: ring_entries_def postAccept_def accept_entry_def eventfd_entry_def Let_def
        nat_add_distrib)
  ultimately have "engine_inv c R H (ring_entries (postAccept s)) (post (accept_entry s) s)" by simp
  then show ?thesis
    by (rule inv_state_cong) (simp_all add: postAccept_def accept_entry_def Let_def)
qed

section \<open>The invariant of the worker\<close>

definition globals_ok :: "config \<Rightarrow> worker \<Rightarrow> bool" where
  "globals_ok c s \<longleftrightarrow>
     0 \<le> acceptInflight s \<and> acceptInflight s \<le> AcceptBatch c \<and>
     int (length (conns s)) + acceptInflight s \<le> MaxConns c \<and> bridge_ok (br s) \<and> shed (counts s) = 0 \<and>
     (\<forall>j cc. map_of (conns s) j = Some cc \<longrightarrow> 0 < clientFD cc) \<and> (\<forall>q\<in>set (sq s). close_pos q)"

definition engine_ok :: "config \<Rightarrow> (nat \<Rightarrow> streams) \<Rightarrow> worker \<Rightarrow> bool" where
  "engine_ok c H s \<longleftrightarrow> engine_inv c [] H (ring_entries s) s \<and> globals_ok c s"

lemma inv_keys: "engine_inv c R H A s \<Longrightarrow> keys_distinct (conns s)"
  by (simp add: engine_inv_def inv_except_def)

lemma globals_frame:
  assumes "frame s s'" and "keys_distinct (conns s)" "keys_distinct (conns s')" and "globals_ok c s"
  shows "globals_ok c s'"
  using assms frame_length [OF assms(1-3)]
  by (auto simp: globals_ok_def frame_def same_globals_def table_shrink_def ring_grow_def) metis+

lemma engine_ok_frame:
  "engine_ok c H s \<Longrightarrow> frame s s' \<Longrightarrow> engine_inv c [] H' (ring_entries s) s' \<Longrightarrow> engine_ok c H' s'"
  unfolding engine_ok_def using globals_frame inv_keys ring_entries_frame by metis

lemma engine_ok_table: "engine_ok c H s \<Longrightarrow> table_ok s"
  unfolding engine_ok_def globals_ok_def by (blast intro: inv_table_ok)

lemma table_ok_keyed: "table_ok s \<Longrightarrow> keyed s"
  by (simp add: table_ok_def)

section \<open>Completions\<close>

text \<open>Taking an entry of a connection, a close or a timeout out of the ring changes no global.\<close>

lemma frame_take:
  assumes "\<forall>f. sqe_req q \<noteq> Read f"
  shows "frame s (kernel_effect q data (s\<lparr>sq := drop_nth i (sq s)\<rparr>))"
proof -
  have "ring_grow (sq s) (drop_nth i (sq s))" using set_drop_nth [of i "sq s"] by (auto simp: ring_grow_def)
  then show ?thesis using assms
    by (auto simp: kernel_effect_def frame_def same_globals_def table_shrink_def split: request.splits option.splits)
qed

lemma complete_ok_conn:
  assumes c: "config_ok c" and v: "engine_ok c H s" and i: "i < length (sq s)"
  defines "q \<equiv> sq s ! i"
  assumes co: "conn_op (sqe_op q)" and k: "completion_ok S (sqe_req q) res data"
  shows "\<exists>s'. handle_cqe c (sqe_op q) (sqe_id q) res order (kernel_effect q data (s\<lparr>sq := drop_nth i (sq s)\<rparr>)) = Some s' \<and>
    engine_ok c (log_entry (LComplete q res data) H) s'"
proof -
  let ?s0 = "kernel_effect q data (s\<lparr>sq := drop_nth i (sq s)\<rparr>)"
  have ei: "engine_inv c [] H (ring_entries s) s" using v by (simp add: engine_ok_def)
  from complete_conn_ok [OF c ei i, folded q_def, OF co k] obtain s' where
    s': "handle_cqe c (sqe_op q) (sqe_id q) res order ?s0 = Some s'"
      "engine_inv c [] (log_entry (LComplete q res data) H) (ring_entries s) s'" by blast
  have nr: "\<forall>f. sqe_req q \<noteq> Read f"
    using sqe_wf_nth [OF ei i, folded q_def] co by (auto simp: sqe_wf.simps conn_op_def split: op.splits)
  have f0: "frame s ?s0" by (rule frame_take [OF nr])
  have "keyed ?s0" by (rule frame_keyed [OF f0 table_ok_keyed [OF engine_ok_table [OF v]]])
  from frame_trans [OF f0 frame_handle_cqe [OF s'(1) this]] co
  have "frame s s'" by (auto simp: conn_op_def)
  from engine_ok_frame [OF v this s'(2)] s'(1) show ?thesis by blast
qed

lemma log_entry_same: "sqe_op q \<in> {OpAccept, OpEventfd, OpTimeout, OpClose} \<Longrightarrow> log_entry (LComplete q res data) H = H"
  by (auto simp: on_entry_def Let_def)

lemma complete_ok_close:
  assumes v: "engine_ok c H s" and i: "i < length (sq s)"
  defines "q \<equiv> sq s ! i"
  assumes o': "sqe_op q = OpClose"
  shows "\<exists>s'. on_close (sqe_id q) (s\<lparr>sq := drop_nth i (sq s)\<rparr>) = Some s' \<and> engine_ok c H s'"
proof -
  let ?s0 = "s\<lparr>sq := drop_nth i (sq s)\<rparr>"
  have ei: "engine_inv c [] H (ring_entries s) s" using v by (simp add: engine_ok_def)
  from complete_close_ok [OF ei i, folded q_def, OF o'] obtain s' where
    s': "on_close (sqe_id q) ?s0 = Some s'" "engine_inv c [] H (ring_entries s) s'" by blast
  have "frame s ?s0" using frame_take [of timeout_entry s "[]" i] by (simp add: kernel_effect_def timeout_entry_def)
  moreover from this have "keyed ?s0" by (rule frame_keyed [OF _ table_ok_keyed [OF engine_ok_table [OF v]]])
  ultimately have "frame s s'" using frame_on_close [OF s'(1)] frame_trans by blast
  from engine_ok_frame [OF v this s'(2)] s'(1) show ?thesis by blast
qed

text \<open>Taking one of the entries of the ring itself.\<close>

lemma take_ring_ok:
  assumes v: "engine_ok c H s" and i: "i < length (sq s)"
  defines "q \<equiv> sq s ! i"
  assumes z: "sqe_id q = 0" "sqe_op q \<noteq> OpClose"
  obtains A where "ring_entries s = add_mset q A" "engine_inv c [] H A (s\<lparr>sq := drop_nth i (sq s)\<rparr>)"
  using take_ring [of c "[]" H "ring_entries s" s i] v i z by (auto simp: engine_ok_def q_def)

lemma complete_ok_timeout:
  assumes v: "engine_ok c H s" and i: "i < length (sq s)"
  defines "q \<equiv> sq s ! i"
  assumes o': "sqe_op q = OpTimeout" "sqe_id q = 0"
  shows "\<exists>s'. on_timeout c order (s\<lparr>sq := drop_nth i (sq s)\<rparr>) = Some s' \<and> engine_ok c H s'"
proof -
  let ?s0 = "s\<lparr>sq := drop_nth i (sq s)\<rparr>"
  obtain A where A: "ring_entries s = add_mset q A" "engine_inv c [] H A ?s0"
    using take_ring_ok [OF v i] o' by (auto simp: q_def)
  have "q = timeout_entry"
    using ring_entry_cases [of q s] A(1) o'(1) by (auto simp: accept_entry_def eventfd_entry_def)
  then obtain s' where s': "on_timeout c order ?s0 = Some s'" "engine_inv c [] H (ring_entries s) s'"
    using on_timeout_ok [OF A(2)] A(1) by (auto simp: timeout_entry_def)
  have "frame s ?s0" using frame_take [of timeout_entry s "[]" i] by (simp add: kernel_effect_def timeout_entry_def)
  moreover from this have "keyed ?s0" by (rule frame_keyed [OF _ table_ok_keyed [OF engine_ok_table [OF v]]])
  ultimately have "frame s s'" using frame_on_timeout [OF s'(1)] frame_trans by blast
  from engine_ok_frame [OF v this s'(2)] s'(1) show ?thesis by blast
qed

lemma complete_ok_eventfd:
  assumes c: "config_ok c" and v: "engine_ok c H s" and i: "i < length (sq s)"
  defines "q \<equiv> sq s ! i"
  assumes o': "sqe_op q = OpEventfd" "sqe_id q = 0"
  defines "s0 \<equiv> s\<lparr>sq := drop_nth i (sq s), br := (br s)\<lparr>wakes := 0\<rparr>\<rparr>"
  shows "\<exists>s'. on_eventfd c s0 = Some s' \<and> engine_ok c H s'"
proof -
  obtain A where A: "ring_entries s = add_mset q A" "engine_inv c [] H A (s\<lparr>sq := drop_nth i (sq s)\<rparr>)"
    using take_ring_ok [OF v i] o' by (auto simp: q_def)
  have "q = eventfd_entry s"
    using ring_entry_cases [of q s] A(1) o'(1) by (auto simp: accept_entry_def timeout_entry_def)
  moreover have "engine_inv c [] H A s0" by (rule inv_state_cong [OF A(2)]) (simp_all add: s0_def)
  ultimately obtain s' where s': "on_eventfd c s0 = Some s'" "engine_inv c [] H (ring_entries s) s'"
    using on_eventfd_ok [OF c, of H A s0] A(1) by (auto simp: eventfd_entry_def s0_def)
  have "keyed s0" using engine_ok_table [OF v] by (simp add: s0_def table_ok_def keyed_def)
  from frame_on_eventfd [OF s'(1) this] have f: "frame (drained s0) s'" .
  have "globals_ok c (drained s0)"
    using v set_drop_nth [of i "sq s"] by (auto simp: engine_ok_def globals_ok_def s0_def bridge_ok_def)
  moreover have "keys_distinct (conns (drained s0))" using v by (auto simp: s0_def engine_ok_def intro: inv_keys)
  ultimately have "globals_ok c s'" using globals_frame [OF f] inv_keys [OF s'(2)] by blast
  moreover have "ring_entries s' = ring_entries s"
    using ring_entries_frame [OF f] by (simp add: ring_entries_def accept_entry_def eventfd_entry_def s0_def)
  ultimately show ?thesis using s' by (simp add: engine_ok_def)
qed

lemma on_accept_globals:
  assumes "on_accept c res s = Some s'" and "0 < acceptInflight s" and "0 < res \<or> res < 0" and "globals_ok c s"
    and "keys_distinct (conns s)" "map_of (conns s) (nextID s + 1) = None"
  shows "globals_ok c s'" "ring_entries s = add_mset (accept_entry s) (ring_entries s')"
proof -
  have r: "ring_entries s = add_mset (accept_entry s) (ring_entries s'')"
    if "acceptInflight s'' = acceptInflight s - 1" "ln_FD s'' = ln_FD s" "efd s'' = efd s" for s''
  proof -
    have "nat (acceptInflight s) = Suc (nat (acceptInflight s - 1))" using assms(2) by simp
    then show ?thesis using that by (simp add: ring_entries_def accept_entry_def eventfd_entry_def)
  qed
  have full: "\<not> MaxConns c \<le> int (length (conns s))" using assms(2,4) by (auto simp: globals_ok_def)
  have len: "length (AList.update (nextID s + 1) cc (conns s)) = Suc (length (conns s))" for cc
    by (rule ctab.size_store_new [OF assms(5,6)])
  show "globals_ok c s'" "ring_entries s = add_mset (accept_entry s) (ring_entries s')"
    using assms(1,2,3,4) full len
    by (auto simp: on_accept_def Let_def globals_ok_def new_conn_def prep_close_pos split: if_splits intro!: r)
qed

lemma complete_ok_accept:
  assumes c: "config_ok c" and v: "engine_ok c H s" and i: "i < length (sq s)"
  defines "q \<equiv> sq s ! i"
  assumes o': "sqe_op q = OpAccept" "sqe_id q = 0" and res: "0 < res \<or> res < 0"
  shows "\<exists>s'. on_accept c res (s\<lparr>sq := drop_nth i (sq s)\<rparr>) = Some s' \<and> engine_ok c H s'"
proof -
  let ?s0 = "s\<lparr>sq := drop_nth i (sq s)\<rparr>"
  obtain A where A: "ring_entries s = add_mset q A" "engine_inv c [] H A ?s0"
    using take_ring_ok [OF v i] o' by (auto simp: q_def)
  have q: "q = accept_entry s" "0 < acceptInflight s"
    using ring_entry_cases [of q s] A(1) o'(1) by (auto simp: timeout_entry_def eventfd_entry_def)
  obtain s' where s': "on_accept c res ?s0 = Some s'" "engine_inv c [] H A s'"
    using on_accept_ok [OF c A(2)] by blast
  have g: "globals_ok c ?s0"
    using v set_drop_nth [of i "sq s"] by (auto simp: engine_ok_def globals_ok_def)
  have "map_of (conns ?s0) (nextID ?s0 + 1) = None"
    using inv_conn_id [OF A(2), of "nextID ?s0 + 1"] by (cases "map_of (conns ?s0) (nextID ?s0 + 1)") auto
  note ag = on_accept_globals [OF s'(1) _ res g inv_keys [OF A(2)] this]
  have "ring_entries ?s0 = ring_entries s" "accept_entry ?s0 = accept_entry s"
    by (simp_all add: ring_entries_def accept_entry_def eventfd_entry_def)
  with ag A(1) q have "A = ring_entries s'" by simp
  then show ?thesis using s' ag(1) q(2) by (simp add: engine_ok_def)
qed

section \<open>The end of a batch\<close>

lemma topUp_induct:
  assumes "P s"
    and "\<And>s. P s \<Longrightarrow> acceptInflight s < AcceptBatch c \<Longrightarrow>
      int (length (conns s)) + acceptInflight s < MaxConns c \<Longrightarrow> P (postAccept s)"
  shows "P (topUp c s)"
  using assms
proof (induction c s rule: topUp.induct)
  case (1 c s)
  then show ?case by (subst topUp.simps) simp
qed

lemma postAccept_sel [simp]:
  "conns (postAccept s) = conns s" "nextID (postAccept s) = nextID s" "tick (postAccept s) = tick s"
  "acceptInflight (postAccept s) = acceptInflight s + 1" "counts (postAccept s) = counts s"
  "br (postAccept s) = br s" "sq (postAccept s) = sq s @ [accept_entry s]" "jobs (postAccept s) = jobs s"
  "syscalls (postAccept s) = syscalls s" "ln_FD (postAccept s) = ln_FD s" "efd (postAccept s) = efd s"
  "exited (postAccept s) = exited s" "lastOverflow (postAccept s) = lastOverflow s"
  by (simp_all add: postAccept_def Let_def accept_entry_def)

lemma topUp_sel [simp]:
  "conns (topUp c s) = conns s" "nextID (topUp c s) = nextID s" "tick (topUp c s) = tick s"
  "counts (topUp c s) = counts s" "br (topUp c s) = br s" "jobs (topUp c s) = jobs s"
  "syscalls (topUp c s) = syscalls s" "ln_FD (topUp c s) = ln_FD s" "efd (topUp c s) = efd s"
  "exited (topUp c s) = exited s" "lastOverflow (topUp c s) = lastOverflow s"
  by (rule topUp_induct; simp)+

text \<open>After the top-up no further accept fits: the batch is full or the connection limit is reached.\<close>

lemma topUp_full:
  "acceptInflight (topUp c s) \<ge> AcceptBatch c \<or> int (length (conns s)) + acceptInflight (topUp c s) \<ge> MaxConns c"
proof (induction c s rule: topUp.induct)
  case (1 c s)
  then show ?case by (subst (1 2) topUp.simps) auto
qed

lemma topUp_ok: "engine_ok c H s \<Longrightarrow> engine_ok c H (topUp c s)"
proof (erule topUp_induct)
  fix s assume v: "engine_ok c H s" and g: "acceptInflight s < AcceptBatch c"
    "int (length (conns s)) + acceptInflight s < MaxConns c"
  then have "engine_inv c [] H (ring_entries (postAccept s)) (postAccept s)"
    by (intro post_accept_ok) (simp_all add: engine_ok_def globals_ok_def)
  then show "engine_ok c H (postAccept s)"
    using v g by (auto simp: engine_ok_def globals_ok_def accept_entry_def)
qed

lemma note_overflow_sel [simp]:
  "conns (note_overflow ov s) = conns s" "nextID (note_overflow ov s) = nextID s" "tick (note_overflow ov s) = tick s"
  "acceptInflight (note_overflow ov s) = acceptInflight s" "br (note_overflow ov s) = br s"
  "sq (note_overflow ov s) = sq s" "jobs (note_overflow ov s) = jobs s"
  "syscalls (note_overflow ov s) = syscalls s" "ln_FD (note_overflow ov s) = ln_FD s"
  "efd (note_overflow ov s) = efd s" "exited (note_overflow ov s) = exited s"
  "lastOverflow (note_overflow ov s) = ov" "shed (counts (note_overflow ov s)) = shed (counts s)"
  by (simp_all add: note_overflow_def Let_def)

lemma engine_ok_cong:
  assumes "engine_ok c H s"
    and "conns s' = conns s" "nextID s' = nextID s" "tick s' = tick s" "sq s' = sq s" "jobs s' = jobs s"
      "br s' = br s" "acceptInflight s' = acceptInflight s" "ln_FD s' = ln_FD s" "efd s' = efd s"
      "shed (counts s') = shed (counts s)"
  shows "engine_ok c H s'"
proof -
  have "ring_entries s' = ring_entries s"
    using assms by (simp add: ring_entries_def accept_entry_def eventfd_entry_def)
  moreover have "engine_inv c [] H (ring_entries s) s'"
    by (rule inv_state_cong [of c "[]" H "ring_entries s" s]) (use assms in \<open>simp_all add: engine_ok_def\<close>)
  ultimately show ?thesis using assms by (simp add: engine_ok_def globals_ok_def)
qed

lemma batch_end_ok:
  assumes "engine_ok c H s"
  shows "engine_ok c H (batch_end c ov stopped s)"
proof -
  have "engine_ok c H (note_overflow ov s)" by (rule engine_ok_cong [OF assms]) simp_all
  then show ?thesis
    by (auto simp: batch_end_def Let_def topUp_ok intro: engine_ok_cong)
qed

lemma start_ok:
  assumes "config_ok c"
  shows "engine_ok c (\<lambda>_. no_streams) (start_worker ln e)"
proof -
  have "ops_of 0 (start_worker ln e) = ring_entries (start_worker ln e)"
    by (simp add: ops_of_def ring_entries_def start_worker_def postTimeout_def postEventfd_def eventfd_entry_def
        timeout_entry_def Let_def)
  moreover have "ops_of j (start_worker ln e) = {#}" if "j > 0" for j
    using that by (simp add: ops_of_def start_worker_def postTimeout_def postEventfd_def Let_def)
  ultimately show ?thesis using assms
    by (auto simp: engine_ok_def engine_inv_def inv_except_def fresh_from_def globals_ok_def config_ok_def
        start_worker_def postTimeout_def postEventfd_def Let_def closes_of_def jobs_of_def results_of_def
        new_bridge_def bridge_ok_def zero_counters_def keys_distinct_def sqe_wf.simps)
qed

section \<open>Events\<close>

text \<open>
  A completion the kernel may give, on a state that satisfies the invariant: the handler returns,
  and the invariant holds again. \<open>{0, 1, 2}\<close> being open, an accepted descriptor is positive.
\<close>

lemma complete_ok:
  assumes c: "config_ok c" and v: "engine_ok c (streams_of (log S)) (wk S)" and o: "0 \<in> open_fds S"
    and e: "event_ok S (Complete i res data order)"
  shows "\<exists>S'. sys_step c S (Complete i res data order) = Some S' \<and> engine_ok c (streams_of (log S')) (wk S')"
proof -
  let ?s = "wk S" and ?q = "sq (wk S) ! i"
  let ?base = "kernel_effect ?q data (?s\<lparr>sq := drop_nth i (sq ?s)\<rparr>)"
  have i: "i < length (sq ?s)" and k: "completion_ok S (sqe_req ?q) res data" using e by simp_all
  have ei: "engine_inv c [] (streams_of (log S)) (ring_entries ?s) ?s" using v by (simp add: engine_ok_def)
  have wf: "sqe_wf ?q" by (rule sqe_wf_nth [OF ei i])
  have "\<exists>s'. handle_cqe c (sqe_op ?q) (sqe_id ?q) res order ?base = Some s' \<and>
      engine_ok c (log_entry (LComplete ?q res data) (streams_of (log S))) s'"
  proof (cases "sqe_op ?q")
    case OpAccept
    then obtain f where "sqe_req ?q = Accept f" "sqe_id ?q = 0" using wf by (auto simp: sqe_wf.simps)
    moreover from this k have "0 < res \<or> res < 0" using o by (cases "res = 0") auto
    ultimately show ?thesis using complete_ok_accept [OF c v i] OpAccept
      by (simp add: handle_cqe_def kernel_effect_def log_entry_same del: log_entry.simps)
  next
    case OpEventfd
    then obtain f where "sqe_req ?q = Read f" "sqe_id ?q = 0" using wf by (auto simp: sqe_wf.simps)
    then show ?thesis using complete_ok_eventfd [OF c v i] OpEventfd
      by (simp add: handle_cqe_def kernel_effect_def log_entry_same del: log_entry.simps)
  next
    case OpTimeout
    then have "sqe_req ?q = Timeout" "sqe_id ?q = 0" using wf by (auto simp: sqe_wf.simps)
    then show ?thesis using complete_ok_timeout [OF v i] OpTimeout
      by (simp add: handle_cqe_def kernel_effect_def log_entry_same del: log_entry.simps)
  next
    case OpClose
    then obtain f where "sqe_req ?q = Close f" using wf by (auto simp: sqe_wf.simps)
    then show ?thesis using complete_ok_close [OF v i] OpClose
      by (simp add: handle_cqe_def kernel_effect_def log_entry_same del: log_entry.simps)
  qed (rule complete_ok_conn [OF c v i _ k], simp add: conn_op_def)+
  then show ?thesis by (auto simp: Let_def)
qed

lemma event_step_ok:
  assumes c: "config_ok c" and v: "engine_ok c (streams_of (log S)) (wk S)" and o: "0 \<in> open_fds S"
    and e: "event_ok S ev"
  shows "\<exists>S'. sys_step c S ev = Some S' \<and> engine_ok c (streams_of (log S')) (wk S')"
proof (cases ev)
  case (Complete i res data order)
  then show ?thesis using complete_ok [OF c v o] e by blast
next
  case (HookDone j d)
  let ?s = "wk S" and ?r = "\<lparr>res_id = job_id (jobs (wk S) ! j), dec = d\<rparr>"
  let ?s' = "?s\<lparr>jobs := drop_nth j (jobs ?s), br := push ?r (br ?s)\<rparr>"
  have "engine_inv c [] (log_entry (LHook (job_id (jobs ?s ! j)) d) (streams_of (log S))) (ring_entries ?s) ?s'"
    using hook_done_ok [of c "streams_of (log S)" "ring_entries ?s" ?s j d] v e HookDone by (simp add: engine_ok_def)
  moreover have "ring_entries ?s' = ring_entries ?s" by (simp add: ring_entries_def accept_entry_def eventfd_entry_def)
  moreover have "globals_ok c ?s'" using v by (simp add: engine_ok_def globals_ok_def bridge_ok_push)
  ultimately show ?thesis using HookDone by (simp add: engine_ok_def Let_def)
next
  case (BatchEnd ov stopped)
  then show ?thesis using batch_end_ok [OF v] by simp
qed

end
