(* ===== verification/Engine_Accounting.thy ===== *)
theory Engine_Accounting
  imports Engine_Reach
begin

text \<open>
  The ledger at the level of events, its three interpretations (open descriptors, live
  connections, terminal counters), and the invariant of every reachable state.
\<close>

section \<open>The ledger over events\<close>

text \<open>
  The charges to a terminal counter that settle no connection: a failed accept counts as an error,
  and a sweep charges connections that were charged before.
\<close>

definition swept :: "config \<Rightarrow> worker \<Rightarrow> bool" where
  "swept c s \<longleftrightarrow> idle_ticks c > 0 \<and> (tick s + 1) mod 10 = 0"

definition misc_charges :: "config \<Rightarrow> op \<Rightarrow> int \<Rightarrow> nat list \<Rightarrow> worker \<Rightarrow> nat" where
  "misc_charges c o' res order s =
    (case o' of
       OpAccept \<Rightarrow> if res < 0 then 1 else 0
     | OpTimeout \<Rightarrow> if swept c s then recharges c order ((postTimeout s)\<lparr>tick := tick s + 1\<rparr>) else 0
     | _ \<Rightarrow> 0)"

context ledger
begin

lemma worth_take:
  assumes i: "i < length (sq s)"
  shows "worth R (s\<lparr>sq := drop_nth i (sq s)\<rparr>) + sqe_worth (sq s ! i) = worth R s"
proof -
  have "sum_mset (image_mset sqe_worth (mset (sq s))) =
      sqe_worth (sq s ! i) + sum_mset (image_mset sqe_worth (mset (drop_nth i (sq s))))"
    by (simp add: mset_drop_nth [OF i])
  then have "sum_list (map sqe_worth (sq s)) = sqe_worth (sq s ! i) + sum_list (map sqe_worth (drop_nth i (sq s)))"
    by (metis mset_map sum_mset_sum_list)
  then show ?thesis by (simp add: worth_def ac_simps)
qed

lemma conn_worth_fill [simp]: "conn_worth (fill b off data cc) = conn_worth cc"
  by (simp add: conn_worth_def)

lemma worth_kernel_effect:
  assumes "keys_distinct (conns s)" and "keyed s"
  shows "worth R (kernel_effect q data s) = worth R s"
proof (cases "\<exists>f b off n cc. sqe_req q = Recv f b off n \<and> map_of (conns s) (sqe_id q) = Some cc")
  case True
  then obtain f b off n cc where q: "sqe_req q = Recv f b off n" and m: "map_of (conns s) (sqe_id q) = Some cc" by blast
  have "conn_id cc = sqe_id q" using assms(2) m by (simp add: keyed_def)
  then have "kernel_effect q data s = putc (fill b off data cc) s"
    by (simp add: kernel_effect_def q m putc_def)
  then show ?thesis using worth_putc_same [of s "fill b off data cc" cc] assms(1) m \<open>conn_id cc = sqe_id q\<close> by simp
next
  case False
  then show ?thesis by (auto simp: kernel_effect_def worth_def split: request.splits option.splits)
qed

lemma worth_on_timeout:
  assumes h: "on_timeout c order s = Some s'" and t: "table_ok s"
  shows "worth R s' = worth R s + fees (misc_charges c OpTimeout res order s)"
proof -
  let ?t = "(postTimeout s)\<lparr>tick := tick s + 1\<rparr>"
  have w: "worth R ?t = worth R s" by (simp add: worth_def postTimeout_def)
  have "table_ok ?t" using t by (simp add: table_ok_def keyed_def postTimeout_def)
  from worth_sweep [OF this, of R c order] w h show ?thesis
    by (auto simp: on_timeout_def Let_def misc_charges_def swept_def postTimeout_def split: if_splits)
qed

text \<open>The law of one completion handler.\<close>

lemma worth_handle_cqe:
  assumes c: "config_ok c" and h: "handle_cqe c o' i res order s = Some s'" and t: "table_ok s"
    and v: "o' \<in> {OpAccept, OpEventfd} \<Longrightarrow> engine_inv c [] H A s"
    and cl: "\<And>cc. o' = OpClose \<Longrightarrow> map_of (conns s) i = Some cc \<Longrightarrow> closing cc \<and> (\<not> counted cc \<longrightarrow> relayStarted cc)"
  shows "worth [] s' = worth [] s + (if o' = OpAccept then fd_worth res else 0) + fees (misc_charges c o' res order s)"
proof (cases "conn_op o'")
  case True
  then show ?thesis using worth_conn_op [OF h True t] by (auto simp: conn_op_def misc_charges_def split: op.splits)
next
  case False
  then consider "o' = OpAccept" | "o' = OpEventfd" | "o' = OpTimeout" | "o' = OpClose" by (auto simp: conn_op_def)
  then show ?thesis
  proof cases
    case 1
    then have ac: "on_accept c res s = Some s'" using h by (simp add: handle_cqe_def)
    show ?thesis
    proof (cases "res < 0")
      case True
      then show ?thesis using worth_accept_failed [OF ac True, of "[]"] 1 by (simp add: misc_charges_def fd_worth_def)
    next
      case False
      then show ?thesis using worth_accept [OF ac v, of "[]"] 1 by (simp add: misc_charges_def)
    qed
  next
    case 2
    then show ?thesis using h worth_on_eventfd [OF c _ t v] by (simp add: handle_cqe_def misc_charges_def)
  next
    case 3
    then show ?thesis using h worth_on_timeout [OF _ t, where res = res] by (simp add: handle_cqe_def)
  next
    case 4
    have "worth [] s' = worth [] s"
      by (rule worth_on_close [OF _ t cl [OF 4]]) (use h 4 in \<open>simp_all add: handle_cqe_def\<close>)
    then show ?thesis using 4 by (simp add: misc_charges_def)
  qed
qed

text \<open>The law of a completion, from the entry in the ring to the state the handler returns.\<close>

lemma worth_complete:
  assumes c: "config_ok c" and v: "engine_ok c H s" and i: "i < length (sq s)"
  defines "q \<equiv> sq s ! i"
  assumes h: "handle_cqe c (sqe_op q) (sqe_id q) res order (kernel_effect q data (s\<lparr>sq := drop_nth i (sq s)\<rparr>)) = Some s'"
  shows "worth [] s' + sqe_worth q = worth [] s + (if sqe_op q = OpAccept then fd_worth res else 0) +
    fees (misc_charges c (sqe_op q) res order (kernel_effect q data (s\<lparr>sq := drop_nth i (sq s)\<rparr>)))"
proof -
  define s1 where "s1 = s\<lparr>sq := drop_nth i (sq s)\<rparr>"
  define k where "k = kernel_effect q data s1"
  have ei: "engine_inv c [] H (ring_entries s) s" using v by (simp add: engine_ok_def)
  have wf: "sqe_wf q" unfolding q_def by (rule sqe_wf_nth [OF ei i])
  have t1: "table_ok s1" using engine_ok_table [OF v] by (simp add: s1_def table_ok_def keyed_def)
  have w0: "worth [] s1 + sqe_worth q = worth [] s" unfolding s1_def q_def by (rule worth_take [OF i])
  have wk: "worth [] k = worth [] s1"
    unfolding k_def by (rule worth_kernel_effect) (use t1 in \<open>simp_all add: table_ok_def\<close>)
  have tk: "table_ok k"
    using t1 by (auto simp: k_def kernel_effect_def table_ok_def keyed_def split: request.splits option.splits)
  have kc: "conns k = conns s" "tick k = tick s" if "\<not> conn_op (sqe_op q)"
    using that wf by (auto simp: k_def kernel_effect_def s1_def sqe_wf.simps conn_op_def split: op.splits)
  have "engine_inv c [] H (ops_of 0 k) k" if "sqe_op q \<in> {OpAccept, OpEventfd}"
  proof -
    have z: "sqe_id q = 0" "sqe_op q \<noteq> OpClose" using that wf by (auto simp: sqe_wf.simps)
    obtain A where "engine_inv c [] H A s1"
      using take_ring_ok [OF v i] z unfolding q_def s1_def by metis
    then have "engine_inv c [] H A k"
      by (rule inv_state_cong) (use that wf in \<open>auto simp: k_def kernel_effect_def sqe_wf.simps\<close>)
    then show ?thesis by (auto simp: engine_inv_def inv_except_def)
  qed
  moreover have "closing cc \<and> (\<not> counted cc \<longrightarrow> relayStarted cc)"
    if "sqe_op q = OpClose" "map_of (conns k) (sqe_id q) = Some cc" for cc
  proof -
    have m: "map_of (conns s) (sqe_id q) = Some cc" using that kc by (simp add: conn_op_def)
    have "closes_of (sqe_id q) s \<noteq> {#}"
      using take_views(2) [OF i, of "sqe_id q"] that(1) by (simp add: q_def)
    then have "closing cc" using inv_conn [OF ei m] by (auto simp: conn_inv_def split: if_splits)
    then show ?thesis using closing_facts(2) [OF ei m] by simp
  qed
  ultimately have "worth [] s' = worth [] k + (if sqe_op q = OpAccept then fd_worth res else 0) +
      fees (misc_charges c (sqe_op q) res order k)"
    using h tk by (intro worth_handle_cqe [OF c]) (simp_all add: k_def s1_def)
  then have e: "worth [] s' = worth [] s1 + (if sqe_op q = OpAccept then fd_worth res else 0) +
      fees (misc_charges c (sqe_op q) res order k)" unfolding wk .
  show ?thesis unfolding s1_def [symmetric] k_def [symmetric] e w0 [symmetric] by (simp only: add_ac)
qed

end

section \<open>The three ledgers\<close>

text \<open>Descriptors: an open connection owns its two ends, an outstanding close and a pending hook result own theirs.\<close>

definition fd_bag :: "fd \<Rightarrow> fd multiset" where
  "fd_bag f = (if f > 0 then {#f#} else {#})"

interpretation fds: ledger "\<lambda>x k f u. if x then {#} else fd_bag f + fd_bag u" "\<lambda>f. {#f#}" "\<lambda>n. {#}" "{#}"
  by unfold_locales (auto simp: fd_bag_def)

text \<open>The gauge: one for every connection that is not closing.\<close>

interpretation gauge: ledger "\<lambda>x k f u. if x then 0 else 1" "\<lambda>f. 0" "\<lambda>n. - live n" "0::u64"
  by unfold_locales auto

text \<open>The partition: one for every connection not yet charged to a terminal counter.\<close>

interpretation part: ledger "\<lambda>x k f u. if k then 0 else 1" "\<lambda>f. 0"
  "\<lambda>n. completed n + rejected n + shed n + idleClosed n + errors n - accepted n" "1::u64"
  by unfold_locales auto

text \<open>Readable forms of what the three ledgers hold.\<close>

definition conn_fds :: "conn \<Rightarrow> fd multiset" where
  "conn_fds cc = (if closing cc then {#} else fd_bag (clientFD cc) + fd_bag (upstreamFD cc))"

definition sqe_fds :: "sqe \<Rightarrow> fd multiset" where
  "sqe_fds q = (case sqe_req q of Close f \<Rightarrow> fd_bag f | _ \<Rightarrow> {#})"

definition owned_fds :: "worker \<Rightarrow> fd multiset" where
  "owned_fds s = tally conn_fds (conns s) + sum_list (map sqe_fds (sq s)) +
     sum_list (map (\<lambda>r. fd_bag (UpstreamFD (dec r))) (ready (br s)))"

definition open_conns :: "worker \<Rightarrow> nat" where
  "open_conns s = length (filter (\<lambda>ic. \<not> closing (snd ic)) (conns s))"

definition uncharged_conns :: "worker \<Rightarrow> nat" where
  "uncharged_conns s = length (filter (\<lambda>ic. \<not> counted (snd ic)) (conns s))"

definition settled :: "counters \<Rightarrow> u64" where
  "settled n = completed n + rejected n + shed n + idleClosed n + errors n"

fun sys_fds :: "syscall \<Rightarrow> fd multiset" where
  "sys_fds (SysClose f) = fd_bag f"
| "sys_fds (SysShutdown f) = {#}"

lemma tally_filter: "tally (\<lambda>cc. if P cc then 0 else 1 :: u64) t = of_nat (length (filter (\<lambda>ic. \<not> P (snd ic)) t))"
  by (induction t) (auto simp: tally_def)

lemma fds_worth:
  "fds.worth [] s = owned_fds s + sum_list (map sys_fds (syscalls s))"
  "fds.sqe_worth = sqe_fds" "fds.fd_worth f = fd_bag f" "fds.fees n = {#}"
proof -
  have f: "fds.fd_worth = fd_bag" by (rule ext) (simp add: fds.fd_worth_def fd_bag_def)
  moreover have q: "fds.sqe_worth = sqe_fds" by (rule ext) (simp add: fds.sqe_worth_def sqe_fds_def f split: request.split)
  moreover have "fds.sys_worth = sys_fds"
  proof
    fix x show "fds.sys_worth x = sys_fds x" by (cases x) (simp_all add: f)
  qed
  moreover have "fds.conn_worth = conn_fds" by (rule ext) (simp add: fds.conn_worth_def conn_fds_def)
  ultimately show "fds.worth [] s = owned_fds s + sum_list (map sys_fds (syscalls s))"
    by (simp add: fds.worth_def owned_fds_def fds.results_worth_def add.assoc)
  show "fds.sqe_worth = sqe_fds" "fds.fd_worth f = fd_bag f" using f q by simp_all
  show "fds.fees n = {#}" by (induction n) simp_all
qed

lemma sum_list_zero: "(\<And>x. x \<in> set xs \<Longrightarrow> f x = (0::'a::comm_monoid_add)) \<Longrightarrow> sum_list (map f xs) = 0"
  by (induction xs) auto

lemma gauge_worth: "gauge.worth [] s = of_nat (open_conns s) - live (counts s)"
proof -
  have f: "gauge.fd_worth = (\<lambda>f. 0)" by (rule ext) (simp add: gauge.fd_worth_def)
  have "gauge.sys_worth x = 0" for x by (cases x) (simp_all add: f)
  moreover have "gauge.sqe_worth q = 0" for q by (simp add: gauge.sqe_worth_def f split: request.split)
  moreover have "gauge.conn_worth = (\<lambda>cc. if closing cc then 0 else 1)" by (rule ext) (simp add: gauge.conn_worth_def)
  ultimately show ?thesis
    by (simp add: gauge.worth_def gauge.results_worth_def f sum_list_zero open_conns_def tally_filter)
qed

lemma part_worth:
  "part.worth [] s = of_nat (uncharged_conns s) + settled (counts s) - accepted (counts s)"
proof -
  have f: "part.fd_worth = (\<lambda>f. 0)" by (rule ext) (simp add: part.fd_worth_def)
  have "part.sys_worth x = 0" for x by (cases x) (simp_all add: f)
  moreover have "part.sqe_worth q = 0" for q by (simp add: part.sqe_worth_def f split: request.split)
  moreover have "part.conn_worth = (\<lambda>cc. if counted cc then 0 else 1)" by (rule ext) (simp add: part.conn_worth_def)
  ultimately show ?thesis
    by (simp add: part.worth_def part.results_worth_def f sum_list_zero uncharged_conns_def tally_filter settled_def)
qed

lemma part_fees: "part.fees n = of_nat n"
  by (induction n) simp_all

section \<open>The invariant of the system\<close>

fun accept_failed :: "entry \<Rightarrow> bool" where
  "accept_failed (LComplete q res data) \<longleftrightarrow> sqe_op q = OpAccept \<and> res < 0"
| "accept_failed (LHook i d) \<longleftrightarrow> False"

definition accept_failures :: "entry list \<Rightarrow> nat" where
  "accept_failures es = length (filter accept_failed es)"

text \<open>
  The descriptors opened since the start and not closed are exactly those owned by a connection, an
  outstanding close or a hook result, each by one of them only.
\<close>

definition fds_ok :: "fd set \<Rightarrow> system \<Rightarrow> bool" where
  "fds_ok base S \<longleftrightarrow>
     base \<subseteq> open_fds S \<and> finite (open_fds S - base) \<and> mset_set (open_fds S - base) = owned_fds (wk S)"

definition counts_ok :: "config \<Rightarrow> system \<Rightarrow> bool" where
  "counts_ok c S \<longleftrightarrow>
     live (counts (wk S)) = of_nat (open_conns (wk S)) \<and>
     (idle_ticks c = 0 \<longrightarrow>
        accepted (counts (wk S)) + of_nat (accept_failures (log S)) =
        settled (counts (wk S)) + of_nat (uncharged_conns (wk S)))"

definition sys_inv :: "config \<Rightarrow> fd set \<Rightarrow> system \<Rightarrow> bool" where
  "sys_inv c base S \<longleftrightarrow>
     {0, 1, 2} \<subseteq> base \<and> engine_ok c (streams_of (log S)) (wk S) \<and> fds_ok base S \<and> counts_ok c S \<and>
     (exited (wk S) \<longrightarrow> conns (wk S) = [])"

lemma counts_ok_worth:
  "counts_ok c S \<longleftrightarrow> gauge.worth [] (wk S) = 0 \<and>
     (idle_ticks c = 0 \<longrightarrow> part.worth [] (wk S) = of_nat (accept_failures (log S)))"
  unfolding counts_ok_def gauge_worth part_worth by (auto simp: algebra_simps)

lemma mset_set_minus: "finite B \<Longrightarrow> mset_set B = N + X \<Longrightarrow> mset_set (B - set_mset X) = N"
proof (rule multiset_eqI)
  fix x assume B: "finite B" "mset_set B = N + X"
  then have "Multiset.count (mset_set B) x = Multiset.count N x + Multiset.count X x" by simp
  then show "Multiset.count (mset_set (B - set_mset X)) x = Multiset.count N x"
    using B(1) by (cases "x \<in> B"; cases "x \<in># X") (auto simp: count_mset_set not_in_iff simp flip: count_greater_zero_iff)
qed

lemma fds_ok_subset: "fds_ok base S \<Longrightarrow> f \<in># owned_fds (wk S) \<Longrightarrow> f \<in> open_fds S - base"
  unfolding fds_ok_def by (metis finite_set_mset_mset_set)

text \<open>Closing owned descriptors, and opening a fresh one.\<close>

lemma fds_close:
  assumes f: "fds_ok base S" and o: "owned_fds (wk S) = owned_fds s' + X"
  shows "fds_ok base \<lparr>wk = s', open_fds = open_fds S - set_mset X, log = l\<rparr>"
proof -
  have fin: "finite (open_fds S - base)" and eq: "mset_set (open_fds S - base) = owned_fds s' + X"
    using f o by (simp_all add: fds_ok_def)
  have "set_mset X \<inter> base = {}" using fds_ok_subset [OF f] o by auto
  moreover have "mset_set (open_fds S - base - set_mset X) = owned_fds s'" by (rule mset_set_minus [OF fin eq])
  moreover have "open_fds S - set_mset X - base = open_fds S - base - set_mset X" by auto
  ultimately show ?thesis using f fin by (auto simp: fds_ok_def)
qed

lemma fds_open:
  assumes f: "fds_ok base S" and r: "0 < r" "r \<notin> open_fds S" and o: "owned_fds s' = owned_fds (wk S) + {#r#}"
  shows "fds_ok base \<lparr>wk = s', open_fds = insert r (open_fds S), log = l\<rparr>"
proof -
  have "r \<notin> base" using f r by (auto simp: fds_ok_def)
  then have e: "insert r (open_fds S) - base = insert r (open_fds S - base)" by auto
  show ?thesis using f r o unfolding fds_ok_def by (auto simp: e)
qed

lemma fds_same:
  "fds_ok base S \<Longrightarrow> owned_fds s' = owned_fds (wk S) \<Longrightarrow> fds_ok base \<lparr>wk = s', open_fds = open_fds S, log = l\<rparr>"
  by (simp add: fds_ok_def)

lemma close_pos_set:
  "close_pos q \<Longrightarrow> set_mset (sqe_fds q) = released_by (sqe_req q)"
  by (cases "sqe_req q") (auto simp: sqe_fds_def fd_bag_def close_pos_def)

lemma closed_by_set:
  "\<forall>f. SysClose f \<in> set xs \<longrightarrow> 0 < f \<Longrightarrow> set_mset (sum_list (map sys_fds xs)) = closed_by xs"
proof (induction xs)
  case (Cons x xs)
  then show ?case by (cases x) (auto simp: fd_bag_def)
qed simp

section \<open>Steps\<close>

text \<open>The worker's own system calls during a completion, and the descriptors they close.\<close>

lemma complete_syscalls:
  assumes v: "engine_ok c H s" and i: "i < length (sq s)"
  defines "q \<equiv> sq s ! i"
  assumes h: "handle_cqe c (sqe_op q) (sqe_id q) res order (kernel_effect q data (s\<lparr>sq := drop_nth i (sq s)\<rparr>)) = Some s'"
  shows "sys_grow (syscalls s) (syscalls s')" "sqe_op q = OpAccept \<Longrightarrow> syscalls s' = syscalls s"
proof -
  let ?k = "kernel_effect q data (s\<lparr>sq := drop_nth i (sq s)\<rparr>)"
  have k: "syscalls ?k = syscalls s" by (simp add: kernel_effect_def split: request.split option.split)
  have kk: "keyed ?k" using engine_ok_table [OF v]
    by (auto simp: kernel_effect_def table_ok_def keyed_def split: request.splits option.splits)
  show a: "syscalls s' = syscalls s" if "sqe_op q = OpAccept"
    using h that k by (auto simp: handle_cqe_def on_accept_def Let_def split: if_splits)
  show "sys_grow (syscalls s) (syscalls s')"
  proof (cases "sqe_op q = OpAccept \<or> sqe_op q = OpEventfd")
    case True
    then show ?thesis using a h k frame_on_eventfd [OF _ kk, of c s'] by (auto simp: handle_cqe_def frame_def)
  next
    case False
    then show ?thesis using frame_handle_cqe [OF h kk] k by (auto simp: frame_def)
  qed
qed

lemma on_accept_exited: "on_accept c res s = Some s' \<Longrightarrow> exited s' = exited s"
  by (auto simp: on_accept_def Let_def split: if_splits)

lemma complete_exited:
  assumes "sys_step c S (Complete i res data order) = Some S'" and e: "event_ok S (Complete i res data order)"
    and v: "engine_ok c H (wk S)"
  shows "\<not> exited (wk S')"
proof -
  let ?s = "wk S" and ?q = "sq (wk S) ! i"
  let ?k = "kernel_effect ?q data (?s\<lparr>sq := drop_nth i (sq ?s)\<rparr>)"
  have h: "handle_cqe c (sqe_op ?q) (sqe_id ?q) res order ?k = Some (wk S')"
    using assms(1) by (auto simp: Let_def)
  have k: "\<not> exited ?k" using e by (simp add: kernel_effect_def split: request.split option.split)
  have kk: "keyed ?k" using engine_ok_table [OF v]
    by (auto simp: kernel_effect_def table_ok_def keyed_def split: request.splits option.splits)
  consider "sqe_op ?q = OpAccept" | "sqe_op ?q = OpEventfd" | "sqe_op ?q \<noteq> OpAccept" "sqe_op ?q \<noteq> OpEventfd" by blast
  then show ?thesis
  proof cases
    case 1
    then show ?thesis using h k on_accept_exited [of c res ?k "wk S'"] by (simp add: handle_cqe_def)
  next
    case 2
    then show ?thesis using h k frame_on_eventfd [OF _ kk, of c "wk S'"]
      by (auto simp: handle_cqe_def frame_def same_globals_def)
  next
    case 3
    then show ?thesis using frame_handle_cqe [OF h kk] k by (simp add: frame_def same_globals_def)
  qed
qed

lemma complete_fds:
  assumes c: "config_ok c" and v: "engine_ok c (streams_of (log S)) (wk S)" and f: "fds_ok base S"
    and z: "{0, 1, 2} \<subseteq> base" and e: "event_ok S (Complete i res data order)"
    and S': "sys_step c S (Complete i res data order) = Some S'"
  shows "fds_ok base S'"
proof -
  let ?s = "wk S" and ?q = "sq (wk S) ! i"
  have i: "i < length (sq ?s)" and k: "completion_ok S (sqe_req ?q) res data" using e by simp_all
  obtain s' where h: "handle_cqe c (sqe_op ?q) (sqe_id ?q) res order
      (kernel_effect ?q data (?s\<lparr>sq := drop_nth i (sq ?s)\<rparr>)) = Some s'" and
    S'_eq: "S' = \<lparr>wk = s', open_fds = open_fds S \<union> opened_by (sqe_req ?q) res - released_by (sqe_req ?q)
       - closed_by (drop (length (syscalls ?s)) (syscalls s')), log = log S @ [LComplete ?q res data]\<rparr>"
    using S' by (auto simp: Let_def)
  note cs = complete_syscalls [OF v i h]
  obtain xs where xs: "syscalls s' = syscalls ?s @ xs" "\<forall>f. SysClose f \<in> set xs \<longrightarrow> 0 < f"
    using cs(1) by (auto simp: sys_grow_def)
  have w: "owned_fds s' + sum_list (map sys_fds xs) + sqe_fds ?q =
      owned_fds ?s + (if sqe_op ?q = OpAccept then fd_bag res else {#})"
    using fds.worth_complete [OF c v i h] by (simp add: fds_worth xs(1) ac_simps)
  have wf: "sqe_wf ?q" using v i by (intro sqe_wf_nth) (auto simp: engine_ok_def)
  show ?thesis
  proof (cases "sqe_op ?q = OpAccept")
    case True
    then obtain g where g: "sqe_req ?q = Accept g" using wf by (auto simp: sqe_wf.simps)
    have "xs = []" using cs(2) True xs(1) by simp
    then have o: "owned_fds s' = owned_fds ?s + fd_bag res" using w True g by (simp add: sqe_fds_def)
    have e: "closed_by (drop (length (syscalls ?s)) (syscalls s')) = {}" using xs \<open>xs = []\<close> by simp
    show ?thesis
    proof (cases "0 \<le> res")
      case True
      then have r: "res \<notin> open_fds S" using k g by simp
      moreover have "0 \<in> open_fds S" using z f by (auto simp: fds_ok_def)
      ultimately have "0 < res" using True by (cases "res = 0") auto
      with fds_open [OF f this r] o e g True show ?thesis by (simp add: S'_eq fd_bag_def)
    next
      case False
      with fds_same [OF f] o e g show ?thesis by (simp add: S'_eq fd_bag_def)
    qed
  next
    case False
    have cp: "close_pos ?q" using v i by (simp add: engine_ok_def globals_ok_def)
    have op: "opened_by (sqe_req ?q) res = {}"
      using wf False by (auto simp: sqe_wf.simps split: op.splits)
    have "owned_fds ?s = owned_fds s' + (sum_list (map sys_fds xs) + sqe_fds ?q)" using w False by (simp add: ac_simps)
    from fds_close [OF f this] have "fds_ok base \<lparr>wk = s',
        open_fds = open_fds S - (closed_by xs \<union> released_by (sqe_req ?q)), log = log S @ [LComplete ?q res data]\<rparr>"
      using close_pos_set [OF cp] closed_by_set [OF xs(2)] by simp
    moreover have "open_fds S - (closed_by xs \<union> released_by (sqe_req ?q)) =
        open_fds S - released_by (sqe_req ?q) - closed_by xs" by auto
    ultimately show ?thesis by (simp add: S'_eq op xs(1))
  qed
qed

lemma complete_counts:
  assumes c: "config_ok c" and v: "engine_ok c (streams_of (log S)) (wk S)" and n: "counts_ok c S"
    and e: "event_ok S (Complete i res data order)" and S': "sys_step c S (Complete i res data order) = Some S'"
  shows "counts_ok c S'"
proof -
  let ?s = "wk S" and ?q = "sq (wk S) ! i"
  have i: "i < length (sq ?s)" using e by simp
  obtain s' where h: "handle_cqe c (sqe_op ?q) (sqe_id ?q) res order
      (kernel_effect ?q data (?s\<lparr>sq := drop_nth i (sq ?s)\<rparr>)) = Some s'" and
    S'_eq: "wk S' = s'" "log S' = log S @ [LComplete ?q res data]"
    using S' by (auto simp: Let_def)
  have "gauge.sqe_worth q = 0" "gauge.fd_worth f = 0" for q f
    by (simp_all add: gauge.sqe_worth_def gauge.fd_worth_def split: request.split)
  moreover have "gauge.fees n = 0" for n by (induction n) simp_all
  ultimately have g: "gauge.worth [] s' = gauge.worth [] ?s" using gauge.worth_complete [OF c v i h] by simp
  have "part.sqe_worth q = 0" "part.fd_worth f = 0" for q f
    by (simp_all add: part.sqe_worth_def part.fd_worth_def split: request.split)
  then have p: "part.worth [] s' = part.worth [] ?s + of_nat (misc_charges c (sqe_op ?q) res order
      (kernel_effect ?q data (?s\<lparr>sq := drop_nth i (sq ?s)\<rparr>)))"
    using part.worth_complete [OF c v i h] by (simp add: part_fees)
  have m: "idle_ticks c = 0 \<Longrightarrow> misc_charges c o' res order k = (if o' = OpAccept \<and> res < 0 then 1 else 0)" for o' k
    by (simp add: misc_charges_def swept_def split: op.split)
  show ?thesis using n m unfolding counts_ok_worth S'_eq g p by (simp add: accept_failures_def)
qed

text \<open>The other two events.\<close>

lemma owned_hook_done:
  "owned_fds (s\<lparr>jobs := js, br := push r (br s)\<rparr>) = owned_fds s + fd_bag (UpstreamFD (dec r))"
  by (simp add: owned_fds_def)

lemma batch_end_worth:
  "owned_fds (batch_end c ov stopped s) = owned_fds s"
  "live (counts (batch_end c ov stopped s)) = live (counts s)"
  "settled (counts (batch_end c ov stopped s)) = settled (counts s)"
  "accepted (counts (batch_end c ov stopped s)) = accepted (counts s)"
  "conns (batch_end c ov stopped s) = conns s"
proof -
  have t: "owned_fds (topUp c s) = owned_fds s" for s
    by (rule topUp_induct) (simp_all add: owned_fds_def sqe_fds_def accept_entry_def)
  show "owned_fds (batch_end c ov stopped s) = owned_fds s"
    by (auto simp: batch_end_def Let_def t) (simp_all add: owned_fds_def)
  show "live (counts (batch_end c ov stopped s)) = live (counts s)"
    "settled (counts (batch_end c ov stopped s)) = settled (counts s)"
    "accepted (counts (batch_end c ov stopped s)) = accepted (counts s)"
    "conns (batch_end c ov stopped s) = conns s"
    by (auto simp: batch_end_def note_overflow_def Let_def settled_def)
qed

lemma sys_inv_step:
  assumes c: "config_ok c" and v: "sys_inv c base S" and e: "event_ok S ev" and S': "sys_step c S ev = Some S'"
  shows "sys_inv c base S'"
proof -
  have z: "{0, 1, 2} \<subseteq> base" and ok: "engine_ok c (streams_of (log S)) (wk S)" and f: "fds_ok base S"
    and n: "counts_ok c S" and x: "exited (wk S) \<Longrightarrow> conns (wk S) = []"
    using v by (auto simp: sys_inv_def)
  have "0 \<in> open_fds S" using z f by (auto simp: fds_ok_def)
  from event_step_ok [OF c ok this e] S' have ok': "engine_ok c (streams_of (log S')) (wk S')" by auto
  have "fds_ok base S' \<and> counts_ok c S' \<and> (exited (wk S') \<longrightarrow> conns (wk S') = [])"
  proof (cases ev)
    case (Complete i res data order)
    have "\<not> exited (wk S')" using S' e complete_exited [OF _ _ ok] Complete by blast
    moreover have "fds_ok base S'" by (rule complete_fds [OF c ok f z e [unfolded Complete] S' [unfolded Complete]])
    moreover have "counts_ok c S'" by (rule complete_counts [OF c ok n e [unfolded Complete] S' [unfolded Complete]])
    ultimately show ?thesis by blast
  next
    case (HookDone j d)
    define w where "w = (wk S)\<lparr>jobs := drop_nth j (jobs (wk S)),
      br := push \<lparr>res_id = job_id (jobs (wk S) ! j), dec = d\<rparr> (br (wk S))\<rparr>"
    have S'_eq: "S' = \<lparr>wk = w, open_fds = open_fds S \<union> (if 0 < UpstreamFD d then {UpstreamFD d} else {}),
        log = log S @ [LHook (job_id (jobs (wk S) ! j)) d]\<rparr>"
      using S' HookDone by (auto simp: Let_def w_def)
    have o: "owned_fds w = owned_fds (wk S) + fd_bag (UpstreamFD d)" by (simp add: w_def owned_hook_done)
    have "fds_ok base S'"
    proof (cases "0 < UpstreamFD d")
      case True
      then show ?thesis using fds_open [OF f True] e HookDone o by (simp add: decision_ok_def fd_bag_def S'_eq)
    next
      case False
      then show ?thesis using fds_same [OF f] o by (simp add: fd_bag_def S'_eq)
    qed
    moreover have "counts_ok c S'" using n
      by (auto simp: counts_ok_def w_def S'_eq open_conns_def uncharged_conns_def accept_failures_def)
    ultimately show ?thesis using x by (auto simp: S'_eq w_def)
  next
    case (BatchEnd ov stopped)
    then have "fds_ok base S'" using f S' by (auto simp: fds_ok_def batch_end_worth)
    moreover have "counts_ok c S'" using n S' BatchEnd
      by (auto simp: counts_ok_def batch_end_worth open_conns_def uncharged_conns_def)
    ultimately show ?thesis using x S' BatchEnd e
      by (auto simp: batch_end_worth) (auto simp: batch_end_def Let_def split: if_splits)
  qed
  with z ok' show ?thesis by (simp add: sys_inv_def)
qed

lemma sys_inv_start:
  assumes "config_ok c" and "booted base S"
  shows "sys_inv c base S"
proof -
  obtain ln e where b: "{0, 1, 2, ln, e} \<subseteq> base" "S = boot ln e base" using assms(2) by (auto simp: booted_def)
  have "owned_fds (start_worker ln e) = {#}"
    by (simp add: owned_fds_def start_worker_def postTimeout_def postEventfd_def Let_def tally_def sqe_fds_def new_bridge_def)
  then show ?thesis using b start_ok [OF assms(1)]
    by (auto simp: sys_inv_def boot_def fds_ok_def counts_ok_def open_conns_def uncharged_conns_def settled_def
        accept_failures_def start_worker_def postTimeout_def postEventfd_def Let_def zero_counters_def)
qed

interpretation engine: inductive_invariant "booted base" "sys_trans c" "\<lambda>S. config_ok c \<longrightarrow> sys_inv c base S" for base c
  by unfold_locales (auto simp: sys_trans_def intro: sys_inv_start sys_inv_step)

lemma reachable_sys_inv: "engine_reachable c base S \<Longrightarrow> config_ok c \<Longrightarrow> sys_inv c base S"
  using engine.reachable_inv by blast

end
