(* ===== verification/Engine_Demo.thy ===== *)
theory Engine_Demo
  imports Engine_Accounting
begin

text \<open>
  Concrete runs of the engine, used to show that the properties of theory \<open>Engine_Properties\<close> are
  about situations that occur. \<open>demo\<close> serves one client from accept to teardown: a two-part request,
  one byte of it consumed by the hook, a partial send, both directions of the relay, both ends of
  stream, the closes. \<open>idle_demo\<close> rejects a client whose reply stalls until the idle sweep.
\<close>

definition demo_cfg :: config where
  "demo_cfg = \<lparr>Addr = ''0.0.0.0'', Port = 1080, Workers = 1, Pin = False, StartCore = 0,
     InitialReqLen = 4, MaxReqLen = 8, BufSize = 4, MaxConns = 2, AcceptBatch = 1, IdleTimeout = 0,
     HookWorkers = 1, RingSize = 8\<rparr>"

definition demo_base :: "fd set" where
  "demo_base = {0, 1, 2, 3, 4}"

definition demo_boot :: system where
  "demo_boot = boot 3 4 demo_base"

definition more_dec :: decision where
  "more_dec = \<lparr>UpstreamFD = 0, Reply = [], Reject = False, More = True, Consumed = 0\<rparr>"

definition relay_dec :: "fd \<Rightarrow> decision" where
  "relay_dec f = \<lparr>UpstreamFD = f, Reply = [7], Reject = False, More = False, Consumed = 1\<rparr>"

definition reject_dec :: decision where
  "reject_dec = \<lparr>UpstreamFD = 0, Reply = [9], Reject = True, More = False, Consumed = 0\<rparr>"

text \<open>Entry 0 of the ring is the eventfd read and entry 1 the timeout until they complete.\<close>

definition demo_events :: "event list" where
  "demo_events =
    [BatchEnd 0 False,                      \<comment> \<open>one accept is posted\<close>
     Complete 2 10 [] [],                   \<comment> \<open>the client, descriptor 10\<close>
     Complete 2 2 [1, 2] [1],               \<comment> \<open>the first part of the request\<close>
     HookDone 0 more_dec,
     Complete 0 8 [] [1],                   \<comment> \<open>the wake-up; the hook wants more\<close>
     Complete 2 1 [3] [1],                  \<comment> \<open>the second part\<close>
     HookDone 0 (relay_dec 11),
     Complete 1 8 [] [1],                   \<comment> \<open>adopted: the reply is sent first\<close>
     Complete 2 1 [] [1],
     Complete 2 1 [] [1],                   \<comment> \<open>forwarding 2 bytes, one accepted\<close>
     Complete 2 1 [] [1],                   \<comment> \<open>the other one: the relay starts\<close>
     Complete 2 2 [4, 5] [1],               \<comment> \<open>client to upstream\<close>
     Complete 2 3 [6, 7, 8] [1],            \<comment> \<open>upstream to client\<close>
     Complete 2 2 [] [1],
     Complete 2 3 [] [1],
     Complete 2 0 [] [1],                   \<comment> \<open>end of stream from the client\<close>
     Complete 2 0 [] [1],                   \<comment> \<open>end of stream from the upstream: closing\<close>
     Complete 2 0 [] [1],
     Complete 2 0 [] [1]]"

definition demo :: "nat \<Rightarrow> system" where
  "demo n = the (sys_run demo_cfg demo_boot (take n demo_events))"

definition idle_cfg :: config where
  "idle_cfg = demo_cfg\<lparr>IdleTimeout := 100000000\<rparr>"

text \<open>A client is rejected, its reply is not taken by the kernel, and ten ticks pass.\<close>

definition idle_events :: "event list" where
  "idle_events =
    [BatchEnd 0 False, Complete 2 10 [] [], Complete 2 2 [1, 2] [1], HookDone 0 reject_dec, Complete 0 8 [] [1]] @
    Complete 0 0 [] [1] # replicate 9 (Complete 2 0 [] [1]) @
    [Complete 3 0 [] [1]]"

text \<open>A client that sends nothing: its receive is outstanding when the sweep closes it.\<close>

definition silent_events :: "event list" where
  "silent_events =
    [BatchEnd 0 False, Complete 2 10 [] [], Complete 1 0 [] [1]] @ replicate 9 (Complete 2 0 [] [1]) @
    [Complete 3 0 [] [1]]"

definition silent_demo :: "nat \<Rightarrow> system" where
  "silent_demo n = the (sys_run idle_cfg demo_boot (take n silent_events))"

definition idle_demo :: "nat \<Rightarrow> system" where
  "idle_demo n = the (sys_run idle_cfg demo_boot (take n idle_events))"

lemma sys_run_take: "sys_run c S es \<noteq> None \<Longrightarrow> sys_run c S (take n es) \<noteq> None"
proof (induction es arbitrary: S n)
  case (Cons e es)
  then show ?case by (cases n) (auto split: if_splits option.splits)
qed simp

lemma run_reachable:
  assumes "sys_run c demo_boot es \<noteq> None"
  shows "engine_reachable c demo_base (the (sys_run c demo_boot (take n es)))"
proof -
  obtain S where "sys_run c demo_boot (take n es) = Some S" using sys_run_take [OF assms] by blast
  moreover have "booted demo_base demo_boot" by (auto simp: booted_def demo_boot_def demo_base_def)
  ultimately show ?thesis using sys_run_reachable [OF reach_start] by fastforce
qed

lemma demo_reachable: "engine_reachable demo_cfg demo_base (demo n)"
  unfolding demo_def by (rule run_reachable) code_simp

lemma idle_reachable: "engine_reachable idle_cfg demo_base (idle_demo n)"
  unfolding idle_demo_def by (rule run_reachable) code_simp

lemma silent_reachable: "engine_reachable idle_cfg demo_base (silent_demo n)"
  unfolding silent_demo_def by (rule run_reachable) code_simp

lemma demo_cfg_ok: "config_ok demo_cfg" "config_ok idle_cfg"
  by code_simp+

end
