(* ===== verification/Engine_Properties.thy ===== *)
theory Engine_Properties
  imports Engine_Demo
begin

text \<open>
  What the engine promises, over every reachable state of the worker and its environment, with
  concrete runs of theory \<open>Engine_Demo\<close> as witnesses.
\<close>

lemma reach_engine_ok:
  "engine_reachable c base S \<Longrightarrow> config_ok c \<Longrightarrow> engine_ok c (streams_of (log S)) (wk S)"
  using reachable_sys_inv by (simp add: sys_inv_def)

lemma reach_inv:
  "engine_reachable c base S \<Longrightarrow> config_ok c \<Longrightarrow>
   engine_inv c [] (streams_of (log S)) (ring_entries (wk S)) (wk S)"
  using reach_engine_ok by (simp add: engine_ok_def)

lemma reach_conn:
  "engine_reachable c base S \<Longrightarrow> config_ok c \<Longrightarrow> map_of (conns (wk S)) i = Some cc \<Longrightarrow>
   conn_inv c [] (streams_of (log S)) (wk S) i cc"
  using reach_inv inv_conn by blast

lemma reach_phase:
  "engine_reachable c base S \<Longrightarrow> config_ok c \<Longrightarrow> map_of (conns (wk S)) i = Some cc \<Longrightarrow> \<not> closing cc \<Longrightarrow>
   phase_ok c cc (streams_of (log S) i) (ops_of i (wk S)) (jobs_of i (wk S)) (results_of i [] (wk S))"
  using reach_conn by (fastforce simp: conn_inv_def)

section \<open>No panics, no stuck connections\<close>

text \<open>
  C1. No handler panics: in every reachable state, every completion the kernel may deliver, every
  hook result and every end of a batch has a successor state. In particular no handler slices a
  buffer out of range or takes the address of an empty slice.
\<close>

theorem engine_no_panic:
  assumes "engine_reachable c base S" and "config_ok c" and "event_ok S ev"
  shows "sys_step c S ev \<noteq> None"
proof -
  have v: "sys_inv c base S" by (rule reachable_sys_inv [OF assms(1,2)])
  then have "0 \<in> open_fds S" by (auto simp: sys_inv_def fds_ok_def)
  with v event_step_ok [OF assms(2) _ _ assms(3)] show ?thesis by (fastforce simp: sys_inv_def)
qed

lemma engine_no_panic_witness: "sys_step demo_cfg (demo 9) (Complete 2 1 [] [1]) \<noteq> None"
  by (rule engine_no_panic [OF demo_reachable demo_cfg_ok(1)]) code_simp

text \<open>
  C16. No connection is stuck: every connection of the table has an entry in the ring, a hook run
  under way, or a hook result in the bridge; and a result in the bridge has an eventfd wake-up
  outstanding with the read armed.
\<close>

theorem engine_not_stuck:
  assumes "engine_reachable c base S" and "config_ok c" and "map_of (conns (wk S)) i = Some cc"
  shows "(\<exists>q\<in>set (sq (wk S)). sqe_id q = i) \<or> (\<exists>j\<in>set (jobs (wk S)). job_id j = i) \<or>
    (\<exists>r\<in>set (ready (br (wk S))). res_id r = i) \<and> 0 < wakes (br (wk S)) \<and> eventfd_entry (wk S) \<in> set (sq (wk S))"
proof -
  let ?s = "wk S"
  have ok: "engine_ok c (streams_of (log S)) ?s" by (rule reach_engine_ok [OF assms(1,2)])
  have "ops_of i ?s \<noteq> {#} \<or> closes_of i ?s \<noteq> {#} \<or> jobs_of i ?s \<noteq> {#} \<or> results_of i [] ?s \<noteq> {#}"
  proof (cases "closing cc")
    case True
    then show ?thesis using reach_conn [OF assms] by (auto simp: conn_inv_def closing_ok_def)
  next
    case False
    from reach_phase [OF assms False] show ?thesis
      by (cases rule: phase_ok.cases) (auto elim!: c2u_ok.cases u2c_ok.cases)
  qed
  then consider "\<exists>q\<in>set (sq ?s). sqe_id q = i" | "\<exists>j\<in>set (jobs ?s). job_id j = i" |
    "\<exists>r\<in>set (ready (br ?s)). res_id r = i"
    by (auto simp: ops_of_def closes_of_def jobs_of_def results_of_def)
  then show ?thesis
  proof cases
    case 3
    then have "0 < wakes (br ?s)" using ok by (auto simp: engine_ok_def globals_ok_def bridge_ok_def split: if_splits)
    moreover have "eventfd_entry ?s \<in># ops_of 0 ?s"
      using ok by (simp add: engine_ok_def engine_inv_def inv_except_def ring_entries_def)
    then have "eventfd_entry ?s \<in> set (sq ?s)" by (simp add: ops_of_def)
    ultimately show ?thesis using 3 by blast
  qed blast+
qed

lemma engine_not_stuck_witness:
  "\<exists>cc. map_of (conns (wk (demo 7))) 1 = Some cc \<and>
    (\<exists>r\<in>set (ready (br (wk (demo 7)))). res_id r = 1) \<and> 0 < wakes (br (wk (demo 7)))"
proof -
  have m: "map_of (conns (wk (demo 7))) 1 = Some (the (map_of (conns (wk (demo 7))) 1))" by code_simp
  have n: "\<not> (\<exists>q\<in>set (sq (wk (demo 7))). sqe_id q = 1)" "\<not> (\<exists>j\<in>set (jobs (wk (demo 7))). job_id j = 1)"
    by code_simp+
  show ?thesis using engine_not_stuck [OF demo_reachable demo_cfg_ok(1) m] m n by blast
qed

section \<open>What is relayed\<close>

text \<open>
  \<open>relays_faithfully\<close>: a decomposition of both directions into what has been passed on and a rest.
\<close>

definition relays_faithfully :: "conn \<Rightarrow> streams \<Rightarrow> bool" where
  "relays_faithfully cc g \<longleftrightarrow>
     (\<exists>rest. replies (decs g) @ from_up g = to_client g @ rest) \<and>
     (to_up g \<noteq> [] \<longrightarrow>
        (\<exists>d rest. decided_by g d \<and> adopts d \<and> upstreamFD cc = UpstreamFD d \<and>
           drop (clamp_consumed (Consumed d) (reqN cc)) (from_client g) = to_up g @ rest))"

lemma replies_append [simp]: "replies (ds @ es) = replies ds @ replies es"
  by (simp add: replies_def)

lemma reply_pending_prefix: "reply_pending cc g \<Longrightarrow> \<exists>rest. replies (decs g) = to_client g @ rest"
  using reply_pending_eq by metis

lemma phase_faithful:
  assumes "phase_ok c cc g Q J R"
  shows "relays_faithfully cc g"
  using assms
proof cases
  case (forwarding d)
  let ?k = "clamp_consumed (Consumed d) (reqN cc)"
  have "drop ?k (from_client g) = slice (reqBuf cc) ?k (reqN cc)"
    using forwarding by (auto simp: adopted_def pre_relay_def slice_def drop_take)
  also have "\<dots> = to_up g @ slice (reqBuf cc) (initSent cc) (reqN cc)"
    using forwarding by (simp add: slice_append)
  finally show ?thesis using forwarding
    unfolding relays_faithfully_def by (auto simp: adopted_def pre_relay_def)
next
  case (relaying C pc U pu)
  then show ?thesis unfolding relays_faithfully_def relay_streams_def by metis
qed (auto simp: relays_faithfully_def undecided_def adopted_def pre_relay_def dest!: reply_pending_prefix)

text \<open>
  C2. Stream integrity: for every open connection, what was sent upstream is a prefix of what the
  client sent minus the handshake bytes the adopting decision consumed (and nothing is sent before
  a decision adopts an upstream), and what was sent to the client is a prefix of the replies of the
  decisions followed by what the upstream sent. No byte is lost, duplicated, reordered or invented.
\<close>

theorem engine_relays_faithfully:
  assumes "engine_reachable c base S" and "config_ok c"
    and "map_of (conns (wk S)) i = Some cc" and "\<not> closing cc"
  shows "relays_faithfully cc (streams_of (log S) i)"
  by (rule phase_faithful [OF reach_phase [OF assms]])

lemma engine_relays_faithfully_witness:
  "\<exists>cc. relays_faithfully cc (streams_of (log (demo 14)) 1) \<and> to_up (streams_of (log (demo 14)) 1) = [2, 3, 4, 5]"
proof -
  have m: "map_of (conns (wk (demo 14))) 1 = Some (the (map_of (conns (wk (demo 14))) 1))" by code_simp
  have "\<not> closing (the (map_of (conns (wk (demo 14))) 1))" by code_simp
  moreover have "to_up (streams_of (log (demo 14)) 1) = [2, 3, 4, 5]" by code_simp
  ultimately show ?thesis using engine_relays_faithfully [OF demo_reachable demo_cfg_ok(1) m] by blast
qed

text \<open>
  A closing connection that has not been charged to another counter reached the relay phase, saw the end of stream
  on both sides, and every byte of both directions was delivered.
\<close>

lemma closing_relayed:
  assumes "engine_reachable c base S" and "config_ok c"
    and "map_of (conns (wk S)) i = Some cc" and "closing cc" and "\<not> counted cc"
  defines "g \<equiv> streams_of (log S) i"
  shows "relayStarted cc \<and> clientReadDone cc \<and> upstreamReadDone cc \<and>
    (\<exists>d. decided_by g d \<and> adopts d \<and>
       to_up g = drop (clamp_consumed (Consumed d) (reqN cc)) (from_client g) \<and>
       to_client g = replies (decs g) @ from_up g)"
  using reach_conn [OF assms(1-3)] assms(4,5)
  by (auto simp: conn_inv_def closing_ok_def relay_streams_def g_def)

text \<open>
  A rejected client never reaches an upstream: while a connection whose last decision is a
  reject is open, nothing was sent upstream, it holds no upstream descriptor, it is charged, and the
  client got the replies of the decisions but for the part still being sent.
\<close>

theorem reject_never_forwards:
  assumes "engine_reachable c base S" and "config_ok c"
    and "map_of (conns (wk S)) i = Some cc" and "\<not> closing cc"
    and "decs (streams_of (log S) i) = ds @ [d]" and "Reject d" and "results_of i [] (wk S) = {#}"
  defines "g \<equiv> streams_of (log S) i"
  shows "to_up g = [] \<and> upstreamFD cc \<le> 0 \<and> counted cc \<and>
    replies (decs g) = to_client g @ slice (replyBuf cc) (replyOff cc) (replyEnd cc)"
  using reach_phase [OF assms(1-4)] assms(5-7) unfolding g_def
  by cases (auto simp: all_more_def adopted_def decided_by_def adopts_def relay_streams_def reply_pending_def)

lemma reject_never_forwards_witness:
  "to_up (streams_of (log (idle_demo 5)) 1) = [] \<and> decs (streams_of (log (idle_demo 5)) 1) = [reject_dec]"
proof -
  have m: "map_of (conns (wk (idle_demo 5))) 1 = Some (the (map_of (conns (wk (idle_demo 5))) 1))" by code_simp
  have c: "\<not> closing (the (map_of (conns (wk (idle_demo 5))) 1))" by code_simp
  have d: "decs (streams_of (log (idle_demo 5)) 1) = [] @ [reject_dec]" by code_simp
  have r: "Reject reject_dec" "results_of 1 [] (wk (idle_demo 5)) = {#}" by code_simp+
  show ?thesis using reject_never_forwards [OF idle_reachable demo_cfg_ok(2) m c d r] d by simp
qed

section \<open>Descriptors\<close>

text \<open>
  C4. Every descriptor opened since the start and not closed has exactly one owner: an open
  connection (as its client or upstream end), an outstanding close entry, or a hook result not yet
  handled. So no descriptor is closed twice or shared, and none is open without an owner.
\<close>

theorem fds_owned_once:
  assumes "engine_reachable c base S" and "config_ok c"
  shows "open_fds S = base \<union> set_mset (owned_fds (wk S)) \<and> base \<inter> set_mset (owned_fds (wk S)) = {} \<and>
    (\<forall>f. Multiset.count (owned_fds (wk S)) f \<le> 1)"
proof -
  have f: "fds_ok base S" using reachable_sys_inv [OF assms] by (simp add: sys_inv_def)
  then have m: "mset_set (open_fds S - base) = owned_fds (wk S)" "finite (open_fds S - base)" "base \<subseteq> open_fds S"
    by (auto simp: fds_ok_def)
  then have s: "set_mset (owned_fds (wk S)) = open_fds S - base" by (metis finite_set_mset_mset_set)
  have "Multiset.count (owned_fds (wk S)) f \<le> 1" for f
    unfolding m(1) [symmetric] by (simp add: count_mset_set')
  with s m(3) show ?thesis by auto
qed

lemma fds_owned_once_witness: "open_fds (demo 12) = demo_base \<union> set_mset (owned_fds (wk (demo 12)))"
  using fds_owned_once [OF demo_reachable demo_cfg_ok(1)] by blast

text \<open>
  C17. At rest nothing leaks: with no connection in the table, no close outstanding and no hook
  result pending, exactly the descriptors of the start are open.
\<close>

theorem no_fd_leak:
  assumes "engine_reachable c base S" and "config_ok c"
    and "conns (wk S) = []" and "\<forall>q\<in>set (sq (wk S)). sqe_op q \<noteq> OpClose" and "ready (br (wk S)) = []"
  shows "open_fds S = base"
proof -
  have wf: "\<forall>q\<in>set (sq (wk S)). sqe_wf q"
    using reach_inv [OF assms(1,2)] by (simp add: engine_inv_def inv_except_def)
  have "sqe_fds q = 0" if "q \<in> set (sq (wk S))" for q
    using bspec [OF wf that] bspec [OF assms(4) that]
    by (auto simp: sqe_fds_def sqe_wf.simps split: op.splits request.splits)
  then have "owned_fds (wk S) = {#}"
    by (simp add: owned_fds_def assms(3,5) tally_def sum_list_zero)
  moreover have "fds_ok base S" using reachable_sys_inv [OF assms(1,2)] by (simp add: sys_inv_def)
  ultimately show ?thesis by (auto simp: fds_ok_def mset_set_empty_iff)
qed

lemma no_fd_leak_witness: "open_fds (demo 19) = demo_base"
proof -
  have "conns (wk (demo 19)) = []" "\<forall>q\<in>set (sq (wk (demo 19))). sqe_op q \<noteq> OpClose" "ready (br (wk (demo 19))) = []"
    by code_simp+
  then show ?thesis by (rule no_fd_leak [OF demo_reachable demo_cfg_ok(1)])
qed

section \<open>Counters\<close>

text \<open>
  C5. The partition of the accepted connections: without an idle timeout, the accepted connections
  together with the failed accepts are, in 64-bit arithmetic, the sum of the terminal counters and
  the number of connections in the table not yet charged to one.
\<close>

theorem stats_partition:
  assumes "engine_reachable c base S" and "config_ok c" and "IdleTimeout c \<le> 0"
  shows "accepted (counts (wk S)) + of_nat (accept_failures (log S)) =
    completed (counts (wk S)) + rejected (counts (wk S)) + shed (counts (wk S)) + idleClosed (counts (wk S)) +
    errors (counts (wk S)) + of_nat (uncharged_conns (wk S))"
  using reachable_sys_inv [OF assms(1,2)] assms(3)
  by (simp add: sys_inv_def counts_ok_def settled_def idle_ticks_def)

lemma stats_partition_witness:
  "accepted (counts (wk (demo 19))) + of_nat (accept_failures (log (demo 19))) =
    completed (counts (wk (demo 19))) + rejected (counts (wk (demo 19))) + shed (counts (wk (demo 19))) +
    idleClosed (counts (wk (demo 19))) + errors (counts (wk (demo 19))) + of_nat (uncharged_conns (wk (demo 19)))"
  by (rule stats_partition [OF demo_reachable demo_cfg_ok(1)]) (simp add: demo_cfg_def)

text \<open>
  C20. With an idle timeout the partition fails: a run after which one connection was accepted and
  the table is empty, yet two terminal charges were made. The sweep charges a connection to
  \<open>idleClosed\<close> whose reject reply is still outstanding, without looking at \<open>counted\<close>.
\<close>

theorem idle_sweep_double_charge:
  "\<exists>S. engine_reachable idle_cfg demo_base S \<and> conns (wk S) = [] \<and> accept_failures (log S) = 0 \<and>
    accepted (counts (wk S)) = 1 \<and> rejected (counts (wk S)) = 1 \<and> idleClosed (counts (wk S)) = 1"
proof (intro exI conjI)
  show "engine_reachable idle_cfg demo_base (idle_demo 16)" by (rule idle_reachable)
  show "conns (wk (idle_demo 16)) = []" "accept_failures (log (idle_demo 16)) = 0"
    "accepted (counts (wk (idle_demo 16))) = 1" "rejected (counts (wk (idle_demo 16))) = 1"
    "idleClosed (counts (wk (idle_demo 16))) = 1" by code_simp+
qed

text \<open>
  The gauge \<open>live\<close> is the number of open connections, in 64-bit arithmetic, in every state.
\<close>

theorem live_gauge:
  assumes "engine_reachable c base S" and "config_ok c"
  shows "live (counts (wk S)) = of_nat (length (filter (\<lambda>(i, cc). \<not> closing cc) (conns (wk S))))"
  using reachable_sys_inv [OF assms] by (simp add: sys_inv_def counts_ok_def open_conns_def case_prod_beta')

lemma live_gauge_witness:
  "live (counts (wk (idle_demo 15))) = of_nat (length (filter (\<lambda>(i, cc). \<not> closing cc) (conns (wk (idle_demo 15)))))"
  by (rule live_gauge [OF idle_reachable demo_cfg_ok(2)])

section \<open>Capacity, accepts, shutdown\<close>

text \<open>
  C19. Capacity: the connections of the table and the accepts in flight together never exceed
  \<open>MaxConns\<close>, nor the accepts in flight the batch; so the shedding branch of the accept handler is
  never taken and the \<open>shed\<close> counter stays 0.
\<close>

theorem capacity_respected:
  assumes "engine_reachable c base S" and "config_ok c"
  shows "0 \<le> acceptInflight (wk S) \<and> acceptInflight (wk S) \<le> AcceptBatch c \<and>
    int (length (conns (wk S))) + acceptInflight (wk S) \<le> MaxConns c \<and> shed (counts (wk S)) = 0"
  using reach_engine_ok [OF assms] by (simp add: engine_ok_def globals_ok_def)

lemma capacity_respected_witness: "int (length (conns (wk (demo 3)))) + acceptInflight (wk (demo 3)) \<le> MaxConns demo_cfg"
  using capacity_respected [OF demo_reachable demo_cfg_ok(1)] by blast

text \<open>
  After a batch that does not see the stop flag, the accepts are topped up as far as the
  batch size and the connection limit allow, and no other entry is posted.
\<close>

theorem accepts_topped_up:
  assumes "engine_reachable c base S" and "config_ok c" and "sys_step c S (BatchEnd ov False) = Some S'"
  shows "(acceptInflight (wk S') = AcceptBatch c \<or> int (length (conns (wk S'))) + acceptInflight (wk S') = MaxConns c) \<and>
    sq (wk S') = sq (wk S) @ replicate (nat (acceptInflight (wk S') - acceptInflight (wk S))) (accept_entry (wk S))"
proof -
  let ?t = "note_overflow ov (wk S)"
  have S': "wk S' = topUp c ?t" using assms(3) by (auto simp: batch_end_def Let_def)
  have ok: "engine_ok c (streams_of (log S)) ?t"
    by (rule engine_ok_cong [OF reach_engine_ok [OF assms(1,2)]]) simp_all
  have "globals_ok c (topUp c ?t)" using topUp_ok [OF ok] by (simp add: engine_ok_def)
  then have full: "acceptInflight (wk S') = AcceptBatch c \<or> int (length (conns (wk S'))) + acceptInflight (wk S') = MaxConns c"
    using topUp_full [of c ?t] by (auto simp: S' globals_ok_def)
  let ?P = "\<lambda>s :: worker. ln_FD s = ln_FD ?t \<and> acceptInflight ?t \<le> acceptInflight s \<and>
      sq s = sq ?t @ replicate (nat (acceptInflight s - acceptInflight ?t)) (accept_entry ?t)"
  have "?P (topUp c ?t)"
  proof (rule topUp_induct)
    fix s :: worker
    assume p: "?P s"
    then have n: "nat (acceptInflight (postAccept s) - acceptInflight ?t) = Suc (nat (acceptInflight s - acceptInflight ?t))"
      by auto
    have "accept_entry s = accept_entry ?t" using p by (simp add: accept_entry_def)
    then show "?P (postAccept s)" using p unfolding n by (simp add: replicate_append_same)
  qed simp
  moreover have "accept_entry ?t = accept_entry (wk S)" by (simp add: accept_entry_def)
  ultimately show ?thesis using full by (simp add: S')
qed

lemma accepts_topped_up_witness: "acceptInflight (wk (demo 1)) = 1 \<or> MaxConns demo_cfg = 0 + acceptInflight (wk (demo 1))"
proof -
  have s: "sys_step demo_cfg (demo 0) (BatchEnd 0 False) = Some (demo 1)" unfolding demo_def by code_simp
  have "AcceptBatch demo_cfg = 1" "length (conns (wk (demo 1))) = 0" by code_simp+
  then show ?thesis using accepts_topped_up [OF demo_reachable demo_cfg_ok(1) s] by auto
qed

section \<open>The idle sweep\<close>

definition idle_closed :: "conn \<Rightarrow> conn" where
  "idle_closed cc = cc\<lparr>counted := True, closing := True, closesLeft := (if 0 < upstreamFD cc then 2 else 1)\<rparr>"

lemma sweep_one_lookup:
  assumes t: "table_ok s"
  shows "map_of (conns (sweep_one c i s)) = (map_of (conns s))(i :=
    (case map_of (conns s) i of None \<Rightarrow> None
     | Some cc \<Rightarrow> Some (if idle_expired c s cc then idle_closed cc else cc)))" and "tick (sweep_one c i s) = tick s"
proof -
  have "map_of (conns (sweep_one c i s)) = (map_of (conns s))(i := Some (idle_closed cc)) \<and> tick (sweep_one c i s) = tick s"
    if m: "map_of (conns s) i = Some cc" and x: "idle_expired c s cc" for cc
  proof -
    have "conn_id cc = i" "0 < clientFD cc" using t m by (auto simp: table_ok_def keyed_def)
    moreover have "\<not> closing cc" using x by (simp add: idle_expired_def)
    ultimately show ?thesis
      using closeConn_eq [of "cc\<lparr>counted := True\<rparr>" "count (\<lambda>n. n\<lparr>idleClosed := idleClosed n + 1\<rparr>) s"] m x
      by (simp add: sweep_one_def idle_closed_def)
  qed
  then show "map_of (conns (sweep_one c i s)) = (map_of (conns s))(i :=
    (case map_of (conns s) i of None \<Rightarrow> None
     | Some cc \<Rightarrow> Some (if idle_expired c s cc then idle_closed cc else cc)))" "tick (sweep_one c i s) = tick s"
    by (auto simp: sweep_one_def fun_upd_idem split: option.split)
qed

lemma sweep_lookup:
  "table_ok s \<Longrightarrow> distinct is \<Longrightarrow> map_of (conns (sweep c is s)) j =
    (case map_of (conns s) j of None \<Rightarrow> None
     | Some cc \<Rightarrow> Some (if j \<in> set is \<and> idle_expired c s cc then idle_closed cc else cc))"
proof (induction c "is" s rule: sweep.induct)
  case (2 c i "is" s)
  let ?s = "sweep_one c i s"
  have IH: "map_of (conns (sweep c is ?s)) j = (case map_of (conns ?s) j of None \<Rightarrow> None
     | Some cc \<Rightarrow> Some (if j \<in> set is \<and> idle_expired c ?s cc then idle_closed cc else cc))"
    by (rule 2(1) [OF sweep_one_table_ok [OF 2(2)]]) (use 2(3) in simp)
  have "idle_expired c ?s cc = idle_expired c s cc" for cc
    by (simp add: idle_expired_def sweep_one_lookup(2) [OF 2(2)])
  then show ?case using 2(3) unfolding sweep.simps IH sweep_one_lookup(1) [OF 2(2)]
    by (auto split: option.split)
qed (simp split: option.split)

text \<open>
  The idle sweep is exact: when the sweep runs, precisely the open connections whose last
  activity is more than the idle limit ago are closed and charged; every other connection keeps
  its state, and none disappears.
\<close>

theorem idle_sweep_exact:
  assumes "engine_reachable c base S" and "config_ok c"
    and "distinct order" and "set order = fst ` set (conns (wk S))"
    and "0 < idle_ticks c" and "(tick (wk S) + 1) mod 10 = 0" and "on_timeout c order (wk S) = Some s'"
  shows "map_of (conns s') j = (case map_of (conns (wk S)) j of None \<Rightarrow> None
    | Some cc \<Rightarrow> Some (if \<not> closing cc \<and> idle_ticks c < tick (wk S) + 1 - lastTick cc then idle_closed cc else cc))"
proof -
  let ?s = "wk S" and ?t = "(postTimeout (wk S))\<lparr>tick := tick (wk S) + 1\<rparr>"
  have t: "table_ok ?t" using engine_ok_table [OF reach_engine_ok [OF assms(1,2)]]
    by (simp add: table_ok_def keyed_def postTimeout_def)
  have "s' = sweep c order ?t" using assms(5-7) by (simp add: on_timeout_def Let_def postTimeout_def)
  then have l: "map_of (conns s') j = (case map_of (conns ?s) j of None \<Rightarrow> None
     | Some cc \<Rightarrow> Some (if j \<in> set order \<and> idle_expired c ?t cc then idle_closed cc else cc))"
    using sweep_lookup [OF t assms(3), of c j] by (simp add: postTimeout_def)
  have "j \<in> set order" if "map_of (conns ?s) j = Some cc" for cc
    using map_of_SomeD [OF that] assms(4) by force
  then show ?thesis unfolding l by (auto simp: idle_expired_def split: option.split)
qed

lemma idle_sweep_exact_witness:
  "map_of (conns (the (on_timeout idle_cfg [1] (wk (silent_demo 11))))) 1 =
    map_option idle_closed (map_of (conns (wk (silent_demo 11))) 1)"
proof -
  have h: "distinct [1::nat]" "set [1] = fst ` set (conns (wk (silent_demo 11)))" "0 < idle_ticks idle_cfg"
    "(tick (wk (silent_demo 11)) + 1) mod 10 = 0"
    "on_timeout idle_cfg [1] (wk (silent_demo 11)) = Some (the (on_timeout idle_cfg [1] (wk (silent_demo 11))))"
    by code_simp+
  have c: "\<not> closing (the (map_of (conns (wk (silent_demo 11))) 1)) \<and>
      idle_ticks idle_cfg < tick (wk (silent_demo 11)) + 1 - lastTick (the (map_of (conns (wk (silent_demo 11))) 1))"
    by code_simp
  have "map_of (conns (wk (silent_demo 11))) 1 \<noteq> None" by code_simp
  then obtain cc where m: "map_of (conns (wk (silent_demo 11))) 1 = Some cc" by blast
  show ?thesis using c unfolding idle_sweep_exact [OF silent_reachable demo_cfg_ok(2) h, of 1] m by simp
qed

text \<open>
  C21. A hazard of closing while a receive is outstanding: a run after which the table is empty, so
  nothing in the worker refers to the connection or its buffer any more, while the ring still holds
  a receive that fills that buffer. (The ring cancels nothing when the descriptor is closed.)
\<close>

theorem receive_outlives_connection:
  "\<exists>S f n k. engine_reachable idle_cfg demo_base S \<and> conns (wk S) = [] \<and>
    (\<exists>q\<in>set (sq (wk S)). sqe_req q = Recv f ReqBuf n k \<and> f \<notin> open_fds S)"
proof (intro exI conjI)
  show "engine_reachable idle_cfg demo_base (silent_demo 13)" by (rule silent_reachable)
  show "conns (wk (silent_demo 13)) = []"
    "\<exists>q\<in>set (sq (wk (silent_demo 13))). sqe_req q = Recv 10 ReqBuf 0 4 \<and> 10 \<notin> open_fds (silent_demo 13)" by code_simp+
qed

section \<open>Request buffers, user data, overflow accounting, configuration\<close>

text \<open>
  Growing the request buffer: it fails exactly when the buffer is full and at the cap; else the
  received bytes are kept, there is room for at least one more, and a full buffer has doubled, up to
  the cap.
\<close>

theorem growReq_correct:
  assumes "reqN cc \<le> length (reqBuf cc)" and "reqBuf cc \<noteq> []" and "int (length (reqBuf cc)) \<le> MaxReqLen c"
  shows "(growReq c cc = None \<longleftrightarrow> reqN cc = length (reqBuf cc) \<and> int (length (reqBuf cc)) = MaxReqLen c) \<and>
    (\<forall>cc'. growReq c cc = Some cc' \<longrightarrow>
       reqN cc' = reqN cc \<and> reqN cc < length (reqBuf cc') \<and>
       take (reqN cc) (reqBuf cc') = take (reqN cc) (reqBuf cc) \<and>
       int (length (reqBuf cc')) =
         (if reqN cc < length (reqBuf cc) then int (length (reqBuf cc))
          else min (2 * int (length (reqBuf cc))) (MaxReqLen c)))"
proof (cases "reqN cc < length (reqBuf cc) \<or> MaxReqLen c \<le> int (length (reqBuf cc))")
  case True
  then show ?thesis using assms by (auto simp: growReq_def)
next
  case False
  let ?n = "min (2 * int (length (reqBuf cc))) (MaxReqLen c)"
  let ?nb = "write_at 0 (take (reqN cc) (reqBuf cc)) (replicate (nat ?n) 0)"
  have full: "reqN cc = length (reqBuf cc)" and pos: "0 < length (reqBuf cc)" using False assms by auto
  have g: "growReq c cc = Some (cc\<lparr>reqBuf := ?nb\<rparr>)" using False by (simp add: growReq_def Let_def min_def not_le mult.commute)
  have "int (length (reqBuf cc)) < ?n" using False pos by simp
  then have room: "length (reqBuf cc) < nat ?n" by linarith
  have "length ?nb = nat ?n" using room by (simp add: write_at_def full)
  moreover have "take (reqN cc) ?nb = take (reqN cc) (reqBuf cc)" by (simp add: write_at_def full)
  ultimately show ?thesis using g room full False pos by auto
qed

lemma growReq_correct_witness:
  "growReq demo_cfg (new_conn 1 10 8 0\<lparr>reqN := 8\<rparr>) = None \<longleftrightarrow> (8 :: int) = MaxReqLen demo_cfg"
proof -
  have h: "reqN (new_conn 1 10 8 0\<lparr>reqN := 8\<rparr>) \<le> length (reqBuf (new_conn 1 10 8 0\<lparr>reqN := 8\<rparr>))"
    "reqBuf (new_conn 1 10 8 0\<lparr>reqN := 8\<rparr>) \<noteq> []"
    "int (length (reqBuf (new_conn 1 10 8 0\<lparr>reqN := 8\<rparr>))) \<le> MaxReqLen demo_cfg" by code_simp+
  show ?thesis using growReq_correct [OF h] by (simp add: new_conn_def)
qed

lemma opcode_inj: "opcode a = opcode b \<Longrightarrow> a = b"
  by (cases a; cases b; simp)

text \<open>
  The user data of an entry names its connection and operation: unpacking gives back what was
  packed, for connection ids below \<open>2 ^ 56\<close>, and the 13 operation codes differ.
\<close>

theorem unpack_ud:
  assumes "unat i < 2 ^ 56"
  shows "unpack (ud i (opcode o')) = (i, opcode o') \<and> (opcode o' = opcode o'' \<longleftrightarrow> o' = o'')"
proof -
  have "drop_bit 8 (push_bit 8 i OR ucast (opcode o')) = i"
  proof (rule bit_word_eqI)
    fix n assume n: "n < LENGTH(64)"
    have hi: "\<not> bit i m" if "56 \<le> m" for m
    proof -
      have "unat i < 2 ^ m" using assms that power_increasing [of 56 m "2::nat"] by linarith
      then have "unat (drop_bit m i) = 0" by (subst unat_drop_bit_eq) (simp add: drop_bit_eq_div)
      then have "drop_bit m i = 0" by (simp add: unat_eq_0)
      then show ?thesis by (simp add: bit_iff_odd_drop_bit)
    qed
    show "bit (drop_bit 8 (push_bit 8 i OR ucast (opcode o'))) n = bit i n"
      using n hi [of n] bit_imp_le_length [of "opcode o'" "8 + n"]
      by (cases "n < 56") (auto simp: bit_drop_bit_eq bit_push_bit_iff bit_or_iff bit_ucast_iff)
  qed
  moreover have m: "(0xff :: u64) = mask 8" by (simp add: mask_eq_exp_minus_1)
  have "ucast ((push_bit 8 i OR ucast (opcode o')) AND 0xff) = opcode o'"
    unfolding m by (rule bit_word_eqI)
      (auto simp: bit_ucast_iff bit_and_iff bit_or_iff bit_push_bit_iff bit_mask_iff)
  ultimately show ?thesis using opcode_inj by (auto simp: unpack_def ud_def)
qed

lemma unpack_ud_witness: "unpack (ud 5 (opcode OpSendUp)) = (5, opcode OpSendUp)"
  using unpack_ud [of 5 OpSendUp OpSendUp] by simp

text \<open>
  Overflow accounting across the wrap of the kernel's 32-bit counter: when the true count went
  from \<open>k\<close> to \<open>k'\<close> since the last sample, by less than \<open>2 ^ 32\<close>, exactly \<open>k' - k\<close> is added.
\<close>

theorem overflow_exact:
  assumes "lastOverflow s = of_nat k" and "k \<le> k'" and "k' - k < 2 ^ 32"
  shows "cqOverflow (counts (note_overflow (of_nat k') s)) = cqOverflow (counts s) + of_nat (k' - k) \<and>
    lastOverflow (note_overflow (of_nat k') s) = of_nat k'"
proof -
  have d: "of_nat k' - of_nat k = (of_nat (k' - k) :: u32)" using assms(2) by (simp add: of_nat_diff)
  have "unat (of_nat (k' - k) :: u32) = k' - k" using assms(3) by (simp add: unat_of_nat)
  then have u: "ucast (of_nat k' - of_nat k :: u32) = (of_nat (k' - k) :: u64)"
    unfolding d by (metis of_nat_unat ucast_eq unsigned_of_nat)
  show ?thesis
  proof (cases "(of_nat k' :: u32) = of_nat k")
    case True
    then have "(of_nat (k' - k) :: u32) = 0" using d by simp
    then have "(of_nat (k' - k) :: u64) = 0" using u d by simp
    then show ?thesis using True assms(1) by (simp add: note_overflow_def)
  next
    case False
    then show ?thesis using assms(1) u by (simp add: note_overflow_def Let_def)
  qed
qed

lemma overflow_exact_witness:
  "cqOverflow (counts (note_overflow (of_nat (2 ^ 32 + 1)) (start_worker 3 4\<lparr>lastOverflow := of_nat (2 ^ 32 - 1)\<rparr>))) = 2"
proof -
  have h: "lastOverflow (start_worker 3 4\<lparr>lastOverflow := of_nat (2 ^ 32 - 1)\<rparr>) = of_nat (2 ^ 32 - 1)" by simp
  show ?thesis using overflow_exact [OF h, of "2 ^ 32 + 1"]
    by (simp add: start_worker_def postTimeout_def postEventfd_def post_def zero_counters_def Let_def)
qed

text \<open>
  \<open>New\<close>: it fails exactly on a nil hook or a port that is not positive, in that order; the
  server it returns has a complete configuration, on which the defaults change nothing any more.
\<close>

theorem New_correct:
  assumes "0 < ncpu"
  shows "New ncpu c h =
      (if h = None then Inl NilHook else if Port c \<le> 0 then Inl (InvalidPort (Port c))
       else Inr \<lparr>cfg = defaults ncpu c, hook = the h, cnt = zero_counters, stop = False\<rparr>) \<and>
    config_ok (defaults ncpu c) \<and> defaults ncpu (defaults ncpu c) = defaults ncpu c \<and>
    (config_ok c \<longrightarrow> defaults ncpu c = c)"
  using assms by (auto simp: New_def config_ok_defaults defaults_idem defaults_config_ok split: option.split)

lemma New_correct_witness: "config_ok (defaults 8 (demo_cfg\<lparr>MaxReqLen := 0, InitialReqLen := 9000\<rparr>))"
  using New_correct [of 8 "demo_cfg\<lparr>MaxReqLen := 0, InitialReqLen := 9000\<rparr>" "Some ()"] by simp

end
