(* ===== verification/Engine_Session.thy ===== *)
theory Engine_Session
  imports Engine_Properties
begin

text \<open>
  An abstract specification of one session of the engine, and that the engine refines it. A session asks until a
  decision adopts an upstream or refuses; what the client sent waits in one queue, what the client is to be
  sent in another. Only the decision and the bytes are visible; buffers, partial sends, entries of the ring,
  the bridge and the other connections are not.
\<close>

section \<open>The specification\<close>

datatype stage = Asking | Adopted | Refused

record session =
  sn_stage :: stage
  sn_up :: bytes
  sn_down :: bytes

datatype visible = FromClient bytes | Decides decision | ToUp bytes | FromUp bytes | ToClient bytes

definition session0 :: session where
  "session0 = \<lparr>sn_stage = Asking, sn_up = [], sn_down = []\<rparr>"

text \<open>
  A decision is taken while asking; its reply is queued for the client; an adopting one consumes bytes of the
  handshake. The upstream is sent, and listened to, only once it is adopted. Both queues are FIFOs.
\<close>

fun session_step :: "visible \<Rightarrow> session \<Rightarrow> session option" where
  "session_step (FromClient bs) s = Some (s\<lparr>sn_up := sn_up s @ bs\<rparr>)"
| "session_step (Decides d) s =
    (if sn_stage s \<noteq> Asking then None
     else
       let s = s\<lparr>sn_down := sn_down s @ Reply d\<rparr>
       in Some (if Reject d then s\<lparr>sn_stage := Refused\<rparr>
                else if More d then s
                else s\<lparr>sn_stage := Adopted, sn_up := drop (clamp_consumed (Consumed d) (length (sn_up s))) (sn_up s)\<rparr>))"
| "session_step (ToUp bs) s =
    (if bs = [] then Some s
     else if sn_stage s = Adopted \<and> take (length bs) (sn_up s) = bs then Some (s\<lparr>sn_up := drop (length bs) (sn_up s)\<rparr>)
     else None)"
| "session_step (FromUp bs) s =
    (if bs = [] then Some s
     else if sn_stage s = Adopted then Some (s\<lparr>sn_down := sn_down s @ bs\<rparr>) else None)"
| "session_step (ToClient bs) s =
    (if take (length bs) (sn_down s) = bs then Some (s\<lparr>sn_down := drop (length bs) (sn_down s)\<rparr>) else None)"

fun session_run :: "visible list \<Rightarrow> session \<Rightarrow> session option" where
  "session_run [] s = Some s"
| "session_run (v # vs) s = (case session_step v s of None \<Rightarrow> None | Some s' \<Rightarrow> session_run vs s')"

lemma session_run_append:
  "session_run (vs @ ws) s = (case session_run vs s of None \<Rightarrow> None | Some s' \<Rightarrow> session_run ws s')"
  by (induction vs arbitrary: s) (auto split: option.splits)

section \<open>What a log shows of one connection\<close>

fun shows_of :: "nat \<Rightarrow> entry \<Rightarrow> visible list" where
  "shows_of i (LHook j d) = (if j = i then [Decides d] else [])"
| "shows_of i (LComplete q res data) =
    (if sqe_id q \<noteq> i then []
     else if sqe_op q \<in> {OpRecvReq, OpC2URecv} then [FromClient data]
     else if sqe_op q \<in> {OpSendUp, OpC2USend} then [ToUp (sent_bytes (sqe_req q) res)]
     else if sqe_op q = OpU2CRecv then [FromUp data]
     else if sqe_op q \<in> {OpU2CSend, OpReplyClient, OpReplyMore, OpRejectSend} then [ToClient (sent_bytes (sqe_req q) res)]
     else [])"

definition session_log :: "nat \<Rightarrow> entry list \<Rightarrow> visible list" where
  "session_log i es = concat (map (shows_of i) es)"

lemma session_log_simps [simp]: "session_log i [] = []" "session_log i (es @ [e]) = session_log i es @ shows_of i e"
  by (simp_all add: session_log_def)

section \<open>The handshake length is fixed once the relay has started\<close>

text \<open>The open connections with the lengths of their requests; a handler closes connections, but opens none.\<close>

definition reqs :: "worker \<Rightarrow> nat \<rightharpoonup> nat" where
  "reqs s j = (case map_of (conns s) j of None \<Rightarrow> None | Some cc \<Rightarrow> if closing cc then None else Some (reqN cc))"

definition known :: "conn \<Rightarrow> worker \<Rightarrow> bool" where
  "known cc s \<longleftrightarrow> \<not> closing cc \<and> reqs s (conn_id cc) = Some (reqN cc)"

lemma reqs_cong: "conns s' = conns s \<Longrightarrow> reqs s' = reqs s"
  by (simp add: reqs_def fun_eq_iff)

lemma reqs_simps [simp]:
  "reqs (post q s) = reqs s" "reqs (count f s) = reqs s" "reqs (sys x s) = reqs s" "reqs (s\<lparr>jobs := js\<rparr>) = reqs s"
  by (auto intro: reqs_cong)

lemma reqs_putc: "reqs (putc cc s) = (reqs s)(conn_id cc := if closing cc then None else Some (reqN cc))"
  by (auto simp: reqs_def putc_def update_conv' fun_eq_iff)

lemma known_simps [simp]:
  "known cc (post q s) = known cc s" "known cc (count f s) = known cc s" "known cc (sys x s) = known cc s"
  by (simp_all add: known_def)

lemma reqs_put [simp]: "known cc s \<Longrightarrow> reqs (putc cc s) = reqs s"
  by (auto simp: reqs_putc known_def fun_eq_iff)

lemma known_sel: "known cc s \<Longrightarrow> conn_id cc' = conn_id cc \<Longrightarrow> reqN cc' = reqN cc \<Longrightarrow> closing cc' = closing cc \<Longrightarrow> known cc' s"
  by (simp add: known_def)

lemma knownI: "map_of (conns s) (conn_id cc) = Some cc \<Longrightarrow> \<not> closing cc \<Longrightarrow> known cc s"
  by (simp add: known_def reqs_def)

lemma reqs_closeConn: "known cc s \<Longrightarrow> reqs (closeConn cc s) \<subseteq>\<^sub>m reqs s"
  by (auto simp: closeConn_def Let_def known_def reqs_def map_le_def delete_conv' update_conv' split: if_splits option.splits)

lemma reqs_fail: "known cc s \<Longrightarrow> reqs (fail cc s) \<subseteq>\<^sub>m reqs s"
  using reqs_closeConn [of "cc\<lparr>counted := True\<rparr>" "count (\<lambda>c. c\<lparr>errors := errors c + 1\<rparr>) s"] reqs_closeConn [of cc s]
  by (auto simp: fail_def known_def)

lemma reqs_map_post: "map_option (\<lambda>q. post q (putc cc s)) p = Some s' \<Longrightarrow> known cc s \<Longrightarrow> reqs s' = reqs s"
  by auto

lemma reqs_startDuplex: "startDuplex c cc s = Some s' \<Longrightarrow> known cc s \<Longrightarrow> reqs s' = reqs s"
  by (auto simp: startDuplex_def Let_def known_def reqs_putc fun_upd_idem split: option.splits)

lemma reqs_posts:
  "postRecvReq cc s = Some s' \<Longrightarrow> known cc s \<Longrightarrow> reqs s' = reqs s"
  "resend_reply cc o' s = Some s' \<Longrightarrow> known cc s \<Longrightarrow> reqs s' = reqs s"
  "send_reply cc rep o' s = Some s' \<Longrightarrow> known cc s \<Longrightarrow> reqs s' = reqs s"
  "forwardInit c cc s = Some s' \<Longrightarrow> known cc s \<Longrightarrow> reqs s' = reqs s"
  by (auto simp: postRecvReq_def resend_reply_def send_reply_def forwardInit_def Let_def known_def reqs_putc fun_upd_idem
      dest: reqs_startDuplex split: if_splits)

lemma with_conn_reqs:
  assumes "with_conn i s h = Some s'" and "keyed s"
    and "\<And>cc. known cc s \<Longrightarrow> h cc = Some s' \<Longrightarrow> reqs s' \<subseteq>\<^sub>m reqs s"
  shows "reqs s' \<subseteq>\<^sub>m reqs s"
  using assms by (elim with_conn_cases) (auto intro: knownI)

lemma known_update:
  "known cc s \<Longrightarrow> known (cc\<lparr>replyOff := n\<rparr>) s" "known cc s \<Longrightarrow> known (cc\<lparr>initSent := n\<rparr>) s"
  "known cc s \<Longrightarrow> known (cc\<lparr>lastTick := n\<rparr>) s" "known cc s \<Longrightarrow> known (cc\<lparr>c2uOff := n\<rparr>) s"
  "known cc s \<Longrightarrow> known (cc\<lparr>c2uEnd := n\<rparr>) s" "known cc s \<Longrightarrow> known (cc\<lparr>u2cOff := n\<rparr>) s"
  "known cc s \<Longrightarrow> known (cc\<lparr>u2cEnd := n\<rparr>) s" "known cc s \<Longrightarrow> known (cc\<lparr>clientReadDone := b\<rparr>) s"
  "known cc s \<Longrightarrow> known (cc\<lparr>upstreamReadDone := b\<rparr>) s" "known cc s \<Longrightarrow> known (cc\<lparr>counted := b\<rparr>) s"
  "known cc s \<Longrightarrow> known (cc\<lparr>closesLeft := l\<rparr>) s" "known cc s \<Longrightarrow> known (cc\<lparr>upstreamFD := f\<rparr>) s"
  by (auto elim: known_sel)

lemma reqs_closeConn_after:
  "known cc s \<Longrightarrow> reqs (closeConn cc (count f s)) \<subseteq>\<^sub>m reqs s" "known cc s \<Longrightarrow> reqs (closeConn cc (sys x s)) \<subseteq>\<^sub>m reqs s"
  using reqs_closeConn [of cc "count f s"] reqs_closeConn [of cc "sys x s"] by simp_all

lemmas reqs_pieces = reqs_fail reqs_closeConn reqs_closeConn_after known_update

lemma reqs_conn_handlers:
  "on_replyClient c i res s = Some s' \<Longrightarrow> keyed s \<Longrightarrow> reqs s' \<subseteq>\<^sub>m reqs s"
  "on_replyMore i res s = Some s' \<Longrightarrow> keyed s \<Longrightarrow> reqs s' \<subseteq>\<^sub>m reqs s"
  "on_rejectSend i res s = Some s' \<Longrightarrow> keyed s \<Longrightarrow> reqs s' \<subseteq>\<^sub>m reqs s"
  "on_sendUp c i res s = Some s' \<Longrightarrow> keyed s \<Longrightarrow> reqs s' \<subseteq>\<^sub>m reqs s"
  "on_c2uRecv i res s = Some s' \<Longrightarrow> keyed s \<Longrightarrow> reqs s' \<subseteq>\<^sub>m reqs s"
  "on_c2uSend i res s = Some s' \<Longrightarrow> keyed s \<Longrightarrow> reqs s' \<subseteq>\<^sub>m reqs s"
  "on_u2cRecv i res s = Some s' \<Longrightarrow> keyed s \<Longrightarrow> reqs s' \<subseteq>\<^sub>m reqs s"
  "on_u2cSend i res s = Some s' \<Longrightarrow> keyed s \<Longrightarrow> reqs s' \<subseteq>\<^sub>m reqs s"
  unfolding on_replyClient_def on_replyMore_def on_rejectSend_def on_sendUp_def
    on_c2uRecv_def on_c2uSend_def on_u2cRecv_def on_u2cSend_def Let_def
  by (erule (1) with_conn_reqs;
      auto simp: known_update reqs_posts reqs_startDuplex split: if_splits intro: reqs_pieces)+

lemma reqs_drop_fd [simp]: "reqs (drop_fd d s) = reqs s" "known cc (drop_fd d s) = known cc s"
  by (simp_all add: drop_fd_def)

lemma growReq_known: "growReq c cc = Some cc' \<Longrightarrow> known cc s \<Longrightarrow> known cc' s"
  by (auto simp: growReq_def Let_def known_def split: if_splits)

lemma reqs_handle_result:
  assumes h: "handle_result c r s = Some s'" and k: "keyed s"
  shows "reqs s' \<subseteq>\<^sub>m reqs s"
proof (cases "\<exists>cc. map_of (conns s) (res_id r) = Some cc \<and> \<not> closing cc")
  case False
  then show ?thesis using h handle_result_gone [of s r c] by (cases "map_of (conns s) (res_id r)") auto
next
  case True
  then obtain cc where cc: "map_of (conns s) (res_id r) = Some cc" "\<not> closing cc" by blast
  let ?d = "dec r" and ?cc = "cc\<lparr>lastTick := tick s\<rparr>"
  have kn: "known ?cc s" using cc k by (simp add: known_def reqs_def keyed_def)
  note lv = h [unfolded handle_result_live [OF cc] Let_def]
  consider (r) "Reject ?d" | (m) "\<not> Reject ?d" "More ?d" | (u) "\<not> Reject ?d" "\<not> More ?d" by blast
  then show ?thesis
  proof cases
    case r
    let ?cr = "?cc\<lparr>counted := True\<rparr>" and ?s = "count (\<lambda>n. n\<lparr>rejected := rejected n + 1\<rparr>) (drop_fd ?d s)"
    have "known ?cr ?s" using kn by (simp add: known_update)
    then have "send_reply ?cr (Reply ?d) OpRejectSend ?s = Some s' \<Longrightarrow> reqs s' = reqs s" "reqs (closeConn ?cr ?s) \<subseteq>\<^sub>m reqs s"
      using reqs_posts(3) [of ?cr _ _ ?s s'] reqs_closeConn [of ?cr ?s] by simp_all
    then show ?thesis using lv r by (auto split: if_splits)
  next
    case m
    show ?thesis
    proof (cases "growReq c ?cc")
      case None
      then show ?thesis using lv m reqs_fail [of ?cc "drop_fd ?d s"] kn by auto
    next
      case (Some cc1)
      then have "known cc1 (drop_fd ?d s)" using growReq_known kn by simp
      then show ?thesis using lv m Some
          reqs_posts(1) [of cc1 "drop_fd ?d s" s'] reqs_posts(3) [of cc1 _ _ "drop_fd ?d s" s']
        by (auto split: if_splits)
    qed
  next
    case u
    let ?cu = "?cc\<lparr>upstreamFD := UpstreamFD ?d, initSent := clamp_consumed (Consumed ?d) (reqN ?cc)\<rparr>"
    have "known ?cu s" using kn by (simp add: known_update)
    then show ?thesis using lv u reqs_posts(3) [of ?cu _ _ s s'] reqs_posts(4) [of c ?cu s s'] by (auto split: if_splits)
  qed
qed

lemma reqs_handle_results: "handle_results c rs s = Some s' \<Longrightarrow> keyed s \<Longrightarrow> reqs s' \<subseteq>\<^sub>m reqs s"
proof (induction rs arbitrary: s)
  case (Cons r rs)
  then obtain s1 where "handle_result c r s = Some s1" "handle_results c rs s1 = Some s'"
    by (auto split: option.splits)
  with Cons show ?case by (meson frame_handle_result frame_keyed reqs_handle_result map_le_trans)
qed simp

lemma reqs_on_eventfd: "on_eventfd c s = Some s' \<Longrightarrow> keyed s \<Longrightarrow> reqs s' \<subseteq>\<^sub>m reqs s"
  using reqs_handle_results [of c "ready (br s)" "drained s" s'] reqs_cong [of "drained s" s]
  by (simp add: on_eventfd_eq keyed_def)

lemma reqs_on_close: "on_close i s = Some s' \<Longrightarrow> keyed s \<Longrightarrow> reqs s' \<subseteq>\<^sub>m reqs s"
  by (auto simp: on_close_def Let_def reqs_def keyed_def map_le_def delete_conv' update_conv'
      split: option.splits if_splits)

lemma reqs_sweep_one: "keyed s \<Longrightarrow> reqs (sweep_one c i s) \<subseteq>\<^sub>m reqs s"
  by (auto simp: sweep_one_def Let_def idle_expired_def keyed_def split: option.split
      intro!: reqs_closeConn_after known_update(10) knownI)

lemma reqs_sweep: "keyed s \<Longrightarrow> reqs (sweep c is s) \<subseteq>\<^sub>m reqs s"
proof (induction c "is" s rule: sweep.induct)
  case (2 c i "is" s)
  then show ?case using reqs_sweep_one [of s c i] frame_keyed [OF frame_sweep_one] map_le_trans by fastforce
qed simp

lemma reqs_on_timeout: "on_timeout c order s = Some s' \<Longrightarrow> keyed s \<Longrightarrow> reqs s' \<subseteq>\<^sub>m reqs s"
proof -
  assume h: "on_timeout c order s = Some s'" and k: "keyed s"
  let ?s = "(postTimeout s)\<lparr>tick := tick s + 1\<rparr>"
  have "reqs ?s = reqs s" "keyed ?s" using k by (auto simp: keyed_def postTimeout_def intro!: reqs_cong)
  moreover have "s' = ?s \<or> s' = sweep c order ?s" using h by (auto simp: on_timeout_def Let_def postTimeout_def)
  ultimately show ?thesis using reqs_sweep [of ?s c order] by auto
qed

lemma reqs_on_recvReq:
  assumes "on_recvReq i res s = Some s'" and "keyed s" and "j \<noteq> i" and "reqs s' j = Some n"
  shows "reqs s j = Some n"
proof (rule with_conn_cases [OF assms(1) [unfolded on_recvReq_def] assms(2)])
  fix cc
  assume cc: "map_of (conns s) i = Some cc" "conn_id cc = i" and cl: "\<not> closing cc"
    and h: "(if res \<le> 0 then Some (fail cc s)
      else let cc = cc\<lparr>reqN := reqN cc + nat res\<rparr>; cc = cc\<lparr>lastTick := tick s\<rparr>; s = putc cc s
        in if reqN cc \<le> length (reqBuf cc)
           then Some (s\<lparr>jobs := jobs s @ [\<lparr>job_id = conn_id cc, job_clientFD = clientFD cc, job_req = take (reqN cc) (reqBuf cc)\<rparr>]\<rparr>)
           else None) = Some s'"
  show ?thesis
  proof (cases "res \<le> 0")
    case True
    have "known cc s" using cc cl by (simp add: knownI)
    then show ?thesis using h True reqs_fail [of cc s] assms(4) by (auto simp: map_le_def dom_def)
  next
    case False
    then show ?thesis using h assms(3,4) cc(2) by (auto simp: Let_def reqs_putc split: if_splits)
  qed
qed (use assms in simp)

lemma reqs_on_accept:
  assumes "on_accept c res s = Some s'" and "reqs s' j = Some n"
  shows "reqs s j = Some n \<or> j = nextID s + 1"
  using assms by (auto simp: on_accept_def Let_def reqs_def update_conv' new_conn_def split: if_splits)

text \<open>All handlers together: only the receive of a request changes the length of one.\<close>

lemma reqs_cqe:
  assumes "handle_cqe c o' i res order s = Some s'" and "keyed s" and "reqs s' j = Some n"
  shows "reqs s j = Some n \<or> (o' = OpRecvReq \<and> j = i) \<or> (o' = OpAccept \<and> j = nextID s + 1)"
proof -
  have sub: "reqs s' \<subseteq>\<^sub>m reqs s \<Longrightarrow> reqs s j = Some n" using assms(3) by (auto simp: map_le_def dom_def)
  show ?thesis
  proof (cases o')
    case OpAccept
    then show ?thesis using reqs_on_accept [of c res s s' j n] assms by (simp add: handle_cqe_def)
  next
    case OpRecvReq
    then show ?thesis using reqs_on_recvReq [of i res s s' j n] assms by (auto simp: handle_cqe_def)
  qed (use assms(1,2) sub in \<open>auto simp: handle_cqe_def reqs_conn_handlers reqs_on_eventfd reqs_on_close reqs_on_timeout\<close>)
qed

section \<open>Refinement\<close>

text \<open>A session state stands for the streams of an open connection.\<close>

definition stands_for :: "session \<Rightarrow> conn \<Rightarrow> streams \<Rightarrow> bool" where
  "stands_for s cc g \<longleftrightarrow> replies (decs g) @ from_up g = to_client g @ sn_down s \<and>
     (case sn_stage s of
        Asking \<Rightarrow> all_more (decs g) \<and> to_up g = [] \<and> sn_up s = from_client g
      | Refused \<Rightarrow> to_up g = [] \<and> (\<exists>d. decided_by g d \<and> Reject d)
      | Adopted \<Rightarrow> (\<exists>d. decided_by g d \<and> adopts d \<and> clamp_consumed (Consumed d) (reqN cc) \<le> length (from_client g) \<and>
          drop (clamp_consumed (Consumed d) (reqN cc)) (from_client g) = to_up g @ sn_up s))"

lemma decided_by_unique: "decided_by g d \<Longrightarrow> decided_by g d' \<Longrightarrow> d = d'"
  by (auto simp: decided_by_def)

lemma decided_not_more: "decided_by g d \<Longrightarrow> adopts d \<or> Reject d \<Longrightarrow> \<not> all_more (decs g)"
  by (auto simp: decided_by_def all_more_def adopts_def)

lemma stands_start: "stands_for session0 cc no_streams"
  by (simp add: stands_for_def session0_def no_streams_def replies_def all_more_def)

text \<open>What the client sends is queued; the length of the request may only grow while asking.\<close>

lemma stands_from_client:
  assumes "stands_for s cc g" and "reqN cc' = reqN cc \<or> sn_stage s = Asking"
  shows "\<exists>s'. session_step (FromClient bs) s = Some s' \<and> stands_for s' cc' (g\<lparr>from_client := from_client g @ bs\<rparr>)"
  using assms by (cases "sn_stage s") (auto simp: stands_for_def decided_by_def)

lemma stands_decides:
  assumes "stands_for s cc g" and "all_more (decs g)" and "length (from_client g) = reqN cc" and "from_up g = []"
  shows "\<exists>s'. session_step (Decides d) s = Some s' \<and> stands_for s' cc (g\<lparr>decs := decs g @ [d]\<rparr>)"
proof -
  have st: "sn_stage s = Asking" using assms(1,2) decided_not_more by (auto simp: stands_for_def split: stage.splits)
  then have s: "sn_up s = from_client g" "to_up g = []" "replies (decs g) = to_client g @ sn_down s"
    using assms(1,4) by (simp_all add: stands_for_def)
  then have r: "replies (decs g @ [d]) = to_client g @ (sn_down s @ Reply d)" by (simp add: replies_def)
  show ?thesis using assms(2,3,4) st s(1,2) r clamp_consumed_le [of "Consumed d" "reqN cc"]
    by (auto simp: stands_for_def decided_by_def adopts_def all_more_def Let_def)
qed

text \<open>A send to the upstream takes the front of the queue.\<close>

lemma stands_to_up:
  assumes s: "stands_for s cc g" and f: "relays_faithfully cc (g\<lparr>to_up := to_up g @ bs\<rparr>)"
  shows "\<exists>s'. session_step (ToUp bs) s = Some s' \<and> stands_for s' cc (g\<lparr>to_up := to_up g @ bs\<rparr>)"
proof (cases "bs = []")
  case False
  then obtain d rest where d: "decided_by g d" "adopts d"
      "drop (clamp_consumed (Consumed d) (reqN cc)) (from_client g) = (to_up g @ bs) @ rest"
    using f by (auto simp: relays_faithfully_def decided_by_def)
  have "sn_stage s = Adopted"
    using s d decided_not_more decided_by_unique by (fastforce simp: stands_for_def adopts_def split: stage.splits)
  moreover from this obtain d' where d': "decided_by g d'" "adopts d'"
      "clamp_consumed (Consumed d') (reqN cc) \<le> length (from_client g)"
      "drop (clamp_consumed (Consumed d') (reqN cc)) (from_client g) = to_up g @ sn_up s"
    using s by (auto simp: stands_for_def)
  moreover have "d' = d" using d(1) d'(1) decided_by_unique by blast
  ultimately have "sn_up s = bs @ rest" using d(3) by simp
  then show ?thesis using s d d' \<open>d' = d\<close> \<open>sn_stage s = Adopted\<close> False
    by (auto simp: stands_for_def decided_by_def)
qed (use s in simp)

lemma stands_from_up:
  assumes "stands_for s cc g" and "bs \<noteq> [] \<Longrightarrow> decided_by g d \<and> adopts d"
  shows "\<exists>s'. session_step (FromUp bs) s = Some s' \<and> stands_for s' cc (g\<lparr>from_up := from_up g @ bs\<rparr>)"
proof (cases "bs = []")
  case False
  then have d: "decided_by g d" "adopts d" using assms(2) by auto
  have st: "sn_stage s = Adopted"
    using assms(1) d decided_not_more decided_by_unique by (fastforce simp: stands_for_def adopts_def split: stage.splits)
  have "replies (decs g) @ from_up g @ bs = to_client g @ sn_down s @ bs" using assms(1) by (simp add: stands_for_def)
  then show ?thesis using assms(1) st False by (auto simp: stands_for_def decided_by_def)
qed (use assms in simp)

text \<open>A send to the client takes the front of its queue.\<close>

lemma stands_to_client:
  assumes s: "stands_for s cc g" and f: "relays_faithfully cc (g\<lparr>to_client := to_client g @ bs\<rparr>)"
  shows "\<exists>s'. session_step (ToClient bs) s = Some s' \<and> stands_for s' cc (g\<lparr>to_client := to_client g @ bs\<rparr>)"
proof -
  obtain rest where "replies (decs g) @ from_up g = (to_client g @ bs) @ rest" using f by (auto simp: relays_faithfully_def)
  moreover have "replies (decs g) @ from_up g = to_client g @ sn_down s" using s by (simp add: stands_for_def)
  ultimately have "sn_down s = bs @ rest" by simp
  then show ?thesis using s by (cases "sn_stage s") (auto simp: stands_for_def decided_by_def)
qed

section \<open>The refinement, step by step\<close>

lemma stands_cong: "reqN cc' = reqN cc \<Longrightarrow> stands_for s cc' g = stands_for s cc g"
  by (cases "sn_stage s") (simp_all add: stands_for_def)

text \<open>A log that left no streams shows nothing that counts.\<close>

fun silent :: "visible \<Rightarrow> bool" where
  "silent (FromClient bs) = (bs = [])"
| "silent (Decides d) = False"
| "silent (ToUp bs) = (bs = [])"
| "silent (FromUp bs) = (bs = [])"
| "silent (ToClient bs) = (bs = [])"

lemma silent_run: "\<forall>v\<in>set vs. silent v \<Longrightarrow> session_run vs s = Some s"
proof (induction vs)
  case (Cons v vs)
  then show ?case by (cases v) auto
qed simp

lemma no_streams_silent: "streams_of es i = no_streams \<Longrightarrow> v \<in> set (session_log i es) \<Longrightarrow> silent v"
proof (induction es arbitrary: v rule: rev_induct)
  case (snoc e es)
  have "streams_of es i = no_streams \<and> (\<forall>v\<in>set (shows_of i e). silent v)"
  proof (cases e)
    case (LComplete q res data)
    then show ?thesis using snoc.prems(1)
      by (cases "streams_of es i"; cases "sqe_op q") (auto simp: on_entry_def no_streams_def Let_def split: if_splits)
  next
    case (LHook j d)
    then show ?thesis using snoc.prems(1)
      by (cases "streams_of es i") (auto simp: no_streams_def split: if_splits)
  qed
  then show ?case using snoc by auto
qed simp

definition session_ok :: "system \<Rightarrow> bool" where
  "session_ok S \<longleftrightarrow> (\<forall>i cc. map_of (conns (wk S)) i = Some cc \<and> \<not> closing cc \<longrightarrow>
     (\<exists>s. session_run (session_log i (log S)) session0 = Some s \<and> stands_for s cc (streams_of (log S) i)))"

lemma reqs_open: "reqs s j = Some n \<longleftrightarrow> (\<exists>cc. map_of (conns s) j = Some cc \<and> \<not> closing cc \<and> reqN cc = n)"
  by (auto simp: reqs_def split: option.splits)

lemma reqs_kernel: "reqs (kernel_effect q data s) = reqs s"
proof -
  have f: "closing (fill b off data cc) = closing cc \<and> reqN (fill b off data cc) = reqN cc" for b off cc by (cases b) simp_all
  show ?thesis by (auto simp: kernel_effect_def reqs_def update_conv' fun_eq_iff f split: request.split option.split)
qed

lemma keyed_kernel: "keyed s \<Longrightarrow> keyed (kernel_effect q data s)"
proof -
  have f: "conn_id (fill b off data cc) = conn_id cc" for b off cc by (cases b) simp_all
  show "keyed s \<Longrightarrow> keyed (kernel_effect q data s)"
    by (auto simp: kernel_effect_def keyed_def update_conv' f split: request.split option.split)
qed

lemma recvReq_open:
  "on_recvReq i res s = Some s' \<Longrightarrow> reqs s' i = Some n \<Longrightarrow> \<exists>m. reqs s i = Some m"
  by (auto simp: on_recvReq_def with_conn_def reqs_def split: option.splits if_splits)

text \<open>One step: a session that ran so far runs on.\<close>

lemma session_extends:
  assumes "session_run vs session0 = Some s" and "\<exists>s'. session_step v s = Some s' \<and> P s'"
  shows "\<exists>s'. session_run (vs @ [v]) session0 = Some s' \<and> P s'"
  using assms by (auto simp: session_run_append)

lemma session_hook_done:
  assumes r: "engine_reachable c base S" and c: "config_ok c" and v: "session_ok S"
    and e: "event_ok S (HookDone j d)" and S': "sys_step c S (HookDone j d) = Some S'"
  shows "session_ok S'"
  unfolding session_ok_def
proof (intro allI impI, elim conjE)
  fix i cc assume "map_of (conns (wk S')) i = Some cc" and op: "\<not> closing cc"
  then have cc: "map_of (conns (wk S)) i = Some cc" using S' by (auto simp: Let_def)
  let ?jb = "jobs (wk S) ! j" and ?g = "streams_of (log S) i"
  obtain s where s: "session_run (session_log i (log S)) session0 = Some s" "stands_for s cc ?g"
    using v cc op by (auto simp: session_ok_def)
  have l: "log S' = log S @ [LHook (job_id ?jb) d]" using S' by (auto simp: Let_def)
  show "\<exists>s. session_run (session_log i (log S')) session0 = Some s \<and> stands_for s cc (streams_of (log S') i)"
  proof (cases "job_id ?jb = i")
    case True
    have "?jb \<in># jobs_of i (wk S)" using e True by (simp add: jobs_of_def)
    with reach_phase [OF r c cc op] have "undecided c cc ?g" "all_more (decs ?g)"
      by (auto elim: phase_ok.cases)
    then have "\<exists>s'. session_step (Decides d) s = Some s' \<and> stands_for s' cc (?g\<lparr>decs := decs ?g @ [d]\<rparr>)"
      by (intro stands_decides s(2)) (auto simp: undecided_def pre_relay_def)
    from session_extends [OF s(1) this] show ?thesis by (simp add: l True)
  next
    case False
    then show ?thesis using s by (simp add: l)
  qed
qed

lemma session_entry:
  assumes run: "session_run vs session0 = Some s" and st: "stands_for s cc g"
    and ph: "phase_ok c cc g Q J R" and q: "sqe_id q = i" "sqe_op q \<noteq> OpClose \<Longrightarrow> q \<in># Q"
    and rq: "reqN cc' = reqN cc \<or> sqe_op q = OpRecvReq"
    and f: "relays_faithfully cc' (on_entry q res data g)"
  shows "\<exists>s'. session_run (vs @ shows_of i (LComplete q res data)) session0 = Some s' \<and> stands_for s' cc' (on_entry q res data g)"
proof -
  let ?sent = "sent_bytes (sqe_req q) res"
  have st': "stands_for s cc' g" if "sqe_op q \<noteq> OpRecvReq" using rq that st stands_cong by blast
  have asking: "sn_stage s = Asking" if "sqe_op q = OpRecvReq"
  proof -
    have "all_more (decs g)" using ph q that by cases (auto simp: entry_defs elim!: c2u_ok.cases u2c_ok.cases)
    then show ?thesis using st decided_not_more by (auto simp: stands_for_def split: stage.splits)
  qed
  have relaying: "\<exists>d. decided_by g d \<and> adopts d" if "sqe_op q = OpU2CRecv"
    using ph q that by cases (auto simp: entry_defs relay_streams_def elim!: c2u_ok.cases u2c_ok.cases)
  consider (recv) "sqe_op q \<in> {OpRecvReq, OpC2URecv}" | (up) "sqe_op q \<in> {OpSendUp, OpC2USend}"
    | (urecv) "sqe_op q = OpU2CRecv" | (client) "sqe_op q \<in> {OpU2CSend, OpReplyClient, OpReplyMore, OpRejectSend}"
    | (none) "sqe_op q \<in> {OpAccept, OpEventfd, OpTimeout, OpClose}" by (cases "sqe_op q") auto
  then show ?thesis
  proof cases
    case recv
    then have g': "on_entry q res data g = g\<lparr>from_client := from_client g @ data\<rparr>"
      and v: "shows_of i (LComplete q res data) = [FromClient data]" using q(1) by (auto simp: on_entry_def)
    show ?thesis unfolding v g' by (rule session_extends [OF run stands_from_client [OF st]]) (use rq asking in auto)
  next
    case up
    then have g': "on_entry q res data g = g\<lparr>to_up := to_up g @ ?sent\<rparr>"
      and v: "shows_of i (LComplete q res data) = [ToUp ?sent]" using q(1) by (auto simp: on_entry_def)
    have "stands_for s cc' g" using st' up by auto
    then show ?thesis unfolding v g' by (rule session_extends [OF run stands_to_up]) (use f g' in simp)
  next
    case urecv
    then have g': "on_entry q res data g = g\<lparr>from_up := from_up g @ data\<rparr>"
      and v: "shows_of i (LComplete q res data) = [FromUp data]" using q(1) by (auto simp: on_entry_def)
    obtain d where "decided_by g d \<and> adopts d" using relaying urecv by blast
    then show ?thesis unfolding v g' using session_extends [OF run stands_from_up [OF st']] urecv by auto
  next
    case client
    then have g': "on_entry q res data g = g\<lparr>to_client := to_client g @ ?sent\<rparr>"
      and v: "shows_of i (LComplete q res data) = [ToClient ?sent]" using q(1) by (auto simp: on_entry_def)
    have "stands_for s cc' g" using st' client by auto
    then show ?thesis unfolding v g' by (rule session_extends [OF run stands_to_client]) (use f g' in simp)
  next
    case none
    then have "on_entry q res data g = g" "shows_of i (LComplete q res data) = []" by (auto simp: on_entry_def)
    then show ?thesis using run st' none by auto
  qed
qed

lemma session_old:
  assumes r: "engine_reachable c base S" and c: "config_ok c" and v: "session_ok S"
    and n: "n < length (sq (wk S))" and l: "log S' = log S @ [LComplete (sq (wk S) ! n) res data]"
    and f: "relays_faithfully cc' (streams_of (log S') i)"
    and cc: "map_of (conns (wk S)) i = Some cc" "\<not> closing cc"
    and rq: "reqN cc' = reqN cc \<or> sqe_op (sq (wk S) ! n) = OpRecvReq \<and> sqe_id (sq (wk S) ! n) = i"
  shows "\<exists>s. session_run (session_log i (log S')) session0 = Some s \<and> stands_for s cc' (streams_of (log S') i)"
proof -
  let ?q = "sq (wk S) ! n" and ?g = "streams_of (log S) i"
  obtain s where s: "session_run (session_log i (log S)) session0 = Some s" "stands_for s cc ?g"
    using v cc by (auto simp: session_ok_def)
  show ?thesis
  proof (cases "sqe_id ?q = i")
    case True
    have "sqe_op ?q \<noteq> OpClose \<Longrightarrow> ?q \<in># ops_of i (wk S)" using n True by (simp add: ops_of_def)
    moreover have "relays_faithfully cc' (on_entry ?q res data ?g)" using f True by (simp add: l)
    ultimately show ?thesis
      using session_entry [OF s reach_phase [OF r c cc] True] rq True by (simp add: l)
  next
    case False
    then have "stands_for s cc' ?g" using rq s(2) stands_cong by blast
    then show ?thesis using s(1) False by (simp add: l)
  qed
qed

lemma session_complete:
  assumes r: "engine_reachable c base S" and c: "config_ok c" and v: "session_ok S"
    and t: "sys_trans c S (Complete n res data order) S'"
  shows "session_ok S'"
  unfolding session_ok_def
proof (intro allI impI, elim conjE)
  fix i cc' assume cc': "map_of (conns (wk S')) i = Some cc'" and op': "\<not> closing cc'"
  let ?q = "sq (wk S) ! n"
  let ?s0 = "kernel_effect ?q data ((wk S)\<lparr>sq := drop_nth n (sq (wk S))\<rparr>)"
  have n: "n < length (sq (wk S))" using t by (simp add: sys_trans_def)
  have h: "handle_cqe c (sqe_op ?q) (sqe_id ?q) res order ?s0 = Some (wk S')" and l: "log S' = log S @ [LComplete ?q res data]"
    using t by (auto simp: sys_trans_def Let_def)
  have inv: "engine_inv c [] (streams_of (log S)) (ring_entries (wk S)) (wk S)" by (rule reach_inv [OF r c])
  have k: "keyed ?s0"
    using reach_conn [OF r c] by (intro keyed_kernel) (auto simp: keyed_def conn_inv_def)
  have r0: "reqs ?s0 = reqs (wk S)" unfolding reqs_kernel by (rule reqs_cong) simp
  have n0: "nextID ?s0 = nextID (wk S)" by (simp add: kernel_effect_def split: request.split option.split)
  have f: "relays_faithfully cc' (streams_of (log S') i)"
    by (rule phase_faithful [OF reach_phase [OF reach_step [OF r t] c cc' op']])
  have "reqs (wk S') i = Some (reqN cc')" using cc' op' by (auto simp: reqs_open)
  from reqs_cqe [OF h k this] consider (same) "reqs (wk S) i = Some (reqN cc')"
    | (recv) "sqe_op ?q = OpRecvReq" "i = sqe_id ?q" | (new) "sqe_op ?q = OpAccept" "i = nextID (wk S) + 1"
    unfolding r0 n0 by blast
  then show "\<exists>s. session_run (session_log i (log S')) session0 = Some s \<and> stands_for s cc' (streams_of (log S') i)"
  proof cases
    case new
    have "sqe_id ?q = 0" using sqe_wf_nth [OF inv n] new(1) by (simp add: sqe_wf.simps)
    then have g: "streams_of (log S') i = streams_of (log S) i" "session_log i (log S') = session_log i (log S)"
      using new(2) by (simp_all add: l)
    have z: "streams_of (log S) i = no_streams"
      using inv new(2) by (auto simp: engine_inv_def inv_except_def fresh_from_def)
    have "session_run (session_log i (log S)) session0 = Some session0"
      by (rule silent_run) (use no_streams_silent [OF z] in blast)
    then show ?thesis using stands_start unfolding g z by auto
  next
    case same
    then obtain cc where "map_of (conns (wk S)) i = Some cc" "\<not> closing cc" "reqN cc = reqN cc'" by (auto simp: reqs_open)
    then show ?thesis using session_old [OF r c v n l f] by simp
  next
    case recv
    have "on_recvReq i res ?s0 = Some (wk S')" using h recv by (simp add: handle_cqe_def)
    from recvReq_open [OF this \<open>reqs (wk S') i = _\<close>] obtain cc where "map_of (conns (wk S)) i = Some cc" "\<not> closing cc"
      unfolding r0 by (auto simp: reqs_open)
    then show ?thesis using session_old [OF r c v n l f] recv by simp
  qed
qed

interpretation sessions: inductive_invariant "booted base" "sys_trans c"
  "\<lambda>S. config_ok c \<longrightarrow> engine_reachable c base S \<and> session_ok S" for base c
proof
  show "config_ok c \<longrightarrow> engine_reachable c base S \<and> session_ok S" if "booted base S" for S
  proof -
    have "engine_reachable c base S" by (rule reach_start) (rule that)
    moreover have "session_ok S"
      using that by (auto simp: booted_def session_ok_def boot_def start_worker_def postTimeout_def postEventfd_def Let_def)
    ultimately show ?thesis by simp
  qed
  show "config_ok c \<longrightarrow> engine_reachable c base S' \<and> session_ok S'"
    if v: "config_ok c \<longrightarrow> engine_reachable c base S \<and> session_ok S" and t: "sys_trans c S e S'" for S e S'
  proof (intro impI conjI)
    assume c: "config_ok c"
    then have r: "engine_reachable c base S" and ok: "session_ok S" using v by auto
    show "engine_reachable c base S'" by (rule reach_step [OF r t])
    show "session_ok S'"
    proof (cases e)
      case (Complete n res data order)
      then show ?thesis using session_complete [OF r c ok] t by blast
    next
      case (HookDone j d)
      then show ?thesis using session_hook_done [OF r c ok] t by (auto simp: sys_trans_def)
    next
      case (BatchEnd ov stopped)
      then have "conns (wk S') = conns (wk S)" "log S' = log S"
        using t by (auto simp: sys_trans_def batch_end_def Let_def note_overflow_def)
      then show ?thesis using ok by (simp add: session_ok_def)
    qed
  qed
qed

text \<open>
  C3. The engine refines the specification: for every open connection, what the log shows of it is a run of the
  abstract session, so whatever the sizes of receives and sends, the order of completions and the other
  connections: what goes upstream is the front of what the client sent beyond the consumed handshake and only after
  a decision adopts an upstream, what goes to the client is the front of the replies and of what the upstream sent,
  and there is one final decision. The session at the end holds exactly the bytes the engine has yet to pass on.
\<close>

theorem engine_refines_session:
  assumes "engine_reachable c base S" and "config_ok c"
    and "map_of (conns (wk S)) i = Some cc" and "\<not> closing cc"
  shows "\<exists>s. session_run (session_log i (log S)) session0 = Some s \<and> stands_for s cc (streams_of (log S) i)"
  using sessions.reachable_inv [OF assms(1)] assms by (auto simp: session_ok_def)

lemma engine_refines_session_witness:
  "\<exists>s. session_run (session_log 1 (log (demo 14))) session0 = Some s \<and> sn_stage s = Adopted \<and>
    session_log 1 (log (demo 14)) \<noteq> []"
proof -
  let ?cc = "the (map_of (conns (wk (demo 14))) 1)"
  have m: "map_of (conns (wk (demo 14))) 1 = Some ?cc" "\<not> closing ?cc" "session_log 1 (log (demo 14)) \<noteq> []" by code_simp+
  obtain s where s: "session_run (session_log 1 (log (demo 14))) session0 = Some s"
      "stands_for s ?cc (streams_of (log (demo 14)) 1)"
    using engine_refines_session [OF demo_reachable demo_cfg_ok(1) m(1,2)] by blast
  have "to_up (streams_of (log (demo 14)) 1) \<noteq> []" by code_simp
  then have "sn_stage s = Adopted" using s(2) by (simp add: stands_for_def split: stage.splits)
  with s m(3) show ?thesis by blast
qed

end
