(* ===== verification/Machines.thy ===== *)
theory Machines
  imports Prelude
begin

text \<open>
  Runs of transition systems, shared by the commands that start goroutines and wait for them: \<open>trace\<close> is a
  finite run, and the locale \<open>ranked\<close> the argument that a system which is draining comes to rest.
  \<open>net_server\<close> is an accept loop that starts a goroutine for every connection, with shared counters.
\<close>

fun trace :: "('s \<Rightarrow> 'e \<Rightarrow> 's \<Rightarrow> bool) \<Rightarrow> 's \<Rightarrow> 'e list \<Rightarrow> 's \<Rightarrow> bool" where
  "trace tr s [] s' \<longleftrightarrow> s' = s"
| "trace tr s (e # es) s' \<longleftrightarrow> (\<exists>s1. tr s e s1 \<and> trace tr s1 es s')"

lemma trace_reachable: "reachable start tr s \<Longrightarrow> trace tr s es s' \<Longrightarrow> reachable start tr s'"
  by (induction es arbitrary: s) (auto intro: reach_step)

text \<open>A run of a machine given by its guard and its step function, checked by evaluation.\<close>

fun runs :: "('e \<Rightarrow> 's \<Rightarrow> bool) \<Rightarrow> ('e \<Rightarrow> 's \<Rightarrow> 's) \<Rightarrow> 'e list \<Rightarrow> 's \<Rightarrow> bool" where
  "runs guard act [] s \<longleftrightarrow> True"
| "runs guard act (e # es) s \<longleftrightarrow> guard e s \<and> runs guard act es (act e s)"

lemma runs_trace:
  "runs guard act es s \<Longrightarrow> (\<And>s e s'. tr s e s' \<longleftrightarrow> guard e s \<and> s' = act e s) \<Longrightarrow> trace tr s es (fold act es s)"
  by (induction es arbitrary: s) auto

lemma runs_reachable:
  assumes "runs guard act es s0" and "\<And>s e s'. tr s e s' \<longleftrightarrow> guard e s \<and> s' = act e s"
  shows "reachable (\<lambda>s. s = s0) tr (fold act es s0)"
  by (rule trace_reachable [OF reach_start runs_trace [OF assms]]) simp

locale ranked =
  fixes trans :: "'s \<Rightarrow> 'e \<Rightarrow> 's \<Rightarrow> bool"
    and draining :: "'s \<Rightarrow> bool"
    and rank :: "'s \<Rightarrow> nat"
  assumes drains: "draining s \<Longrightarrow> trans s e s' \<Longrightarrow> draining s' \<and> rank s' < rank s"
    and moves: "draining s \<Longrightarrow> 0 < rank s \<Longrightarrow> \<exists>e s'. trans s e s'"
begin

lemma bounded: "trace trans s es s' \<Longrightarrow> draining s \<Longrightarrow> draining s' \<and> length es + rank s' \<le> rank s"
proof (induction es arbitrary: s)
  case (Cons e es)
  then obtain s1 where "trans s e s1" "trace trans s1 es s'" by auto
  with Cons.IH [of s1] drains [of s e s1] Cons.prems(2) show ?case by fastforce
qed simp

lemma comes_to_rest:
  "trace trans s es s' \<Longrightarrow> draining s \<Longrightarrow> length es \<le> rank s \<and> (rank s' = 0 \<or> (\<exists>e s''. trans s' e s''))"
  using bounded moves by fastforce

end

section \<open>Counting the goroutines in a state\<close>

lemma sum_list_update_nat:
  fixes xs :: "nat list"
  assumes "k < length xs"
  shows "sum_list (xs[k := y]) + xs ! k = sum_list xs + y"
  using assms by (induction xs arbitrary: k) (auto split: nat.splits)

lemma count_update:
  assumes "k < length xs"
  shows "length (filter P (xs[k := y])) + (if P (xs ! k) then 1 else 0) = length (filter P xs) + (if P y then 1 else 0)"
proof -
  have c: "length (filter P ys) = sum_list (map (\<lambda>x. if P x then 1 else 0) ys)" for ys by (induction ys) auto
  show ?thesis using sum_list_update_nat [of k "map (\<lambda>x. if P x then 1 else 0) xs" "if P y then 1 else 0"] assms
    by (simp add: c map_update)
qed

section \<open>Accept loops\<close>

text \<open>
  \<open>running\<close> is the number of connections whose goroutine has not returned; \<open>ended_log\<close> keeps what the others
  met. A failing accept is logged and the loop goes on.
\<close>

record ('s, 'w) net_server =
  counters_s :: 's
  running :: nat
  ended_log :: "'w list"

datatype 'w serve_event = Accepts | AcceptFails | Serves 'w

fun serve_enabled :: "'w serve_event \<Rightarrow> ('s, 'w) net_server \<Rightarrow> bool" where
  "serve_enabled (Serves w) S \<longleftrightarrow> 0 < running S"
| "serve_enabled _ S \<longleftrightarrow> True"

fun serve_step :: "('s \<Rightarrow> 's) \<Rightarrow> ('w \<Rightarrow> 's \<Rightarrow> 's) \<Rightarrow> 'w serve_event \<Rightarrow> ('s, 'w) net_server \<Rightarrow> ('s, 'w) net_server" where
  "serve_step admit finish Accepts S = S\<lparr>counters_s := admit (counters_s S), running := running S + 1\<rparr>"
| "serve_step admit finish AcceptFails S = S"
| "serve_step admit finish (Serves w) S =
    S\<lparr>counters_s := finish w (counters_s S), running := running S - 1, ended_log := ended_log S @ [w]\<rparr>"

definition serve_trans ::
  "('s \<Rightarrow> 's) \<Rightarrow> ('w \<Rightarrow> 's \<Rightarrow> 's) \<Rightarrow> ('s, 'w) net_server \<Rightarrow> 'w serve_event \<Rightarrow> ('s, 'w) net_server \<Rightarrow> bool" where
  "serve_trans admit finish S e S' \<longleftrightarrow> serve_enabled e S \<and> S' = serve_step admit finish e S"

definition serve_boot :: "'s \<Rightarrow> ('s, 'w) net_server" where
  "serve_boot s = \<lparr>counters_s = s, running = 0, ended_log = []\<rparr>"

text \<open>
  The interface between an accept loop and its handler: \<open>total\<close> is a sum of counters to which every handled
  connection adds one, whatever it met, and which the loop leaves alone.
\<close>

locale conn_handler =
  fixes admit :: "'s \<Rightarrow> 's" and finish :: "'w \<Rightarrow> 's \<Rightarrow> 's" and total :: "'s \<Rightarrow> u64" and s0 :: 's
  assumes total_start: "total s0 = 0"
    and total_admit: "total (admit s) = total s"
    and total_finish: "total (finish w s) = total s + 1"
begin

lemma charged_once:
  "reachable (\<lambda>S. S = serve_boot s0) (serve_trans admit finish) S \<Longrightarrow> total (counters_s S) = of_nat (length (ended_log S))"
proof (induction rule: reachable.induct)
  case (reach_step S e S')
  then show ?case by (cases e) (auto simp: serve_trans_def total_admit total_finish)
qed (simp add: serve_boot_def total_start)

end

text \<open>A loop that also counts the connections it accepts.\<close>

locale counted_handler = conn_handler +
  fixes entered :: "'a \<Rightarrow> u64"
  assumes entered_start: "entered s0 = 0"
    and entered_admit: "entered (admit s) = entered s + 1"
    and entered_finish: "entered (finish w s) = entered s"
begin

lemma all_accounted:
  assumes "reachable (\<lambda>S. S = serve_boot s0) (serve_trans admit finish) S"
  shows "entered (counters_s S) = total (counters_s S) + of_nat (running S)"
proof -
  have "entered (counters_s S) = of_nat (length (ended_log S)) + of_nat (running S)" using assms
  proof (induction rule: reachable.induct)
    case (reach_step S e S')
    then show ?case by (cases e) (auto simp: serve_trans_def entered_admit entered_finish of_nat_diff algebra_simps)
  qed (simp add: serve_boot_def entered_start)
  then show ?thesis using charged_once [OF assms] by simp
qed

end

end
