(* ===== verification/Engine_Ends.thy ===== *)
theory Engine_Ends
  imports Engine_Properties Machines
begin

text \<open>
  How connections and the worker end: which step counts a connection as completed, and what a worker still does
  once it has seen the stop flag.
\<close>

section \<open>The counter of completed connections\<close>

text \<open>Only the handler of a close counts a connection as completed.\<close>

lemma completed_closeConn [simp]: "completed (counts (closeConn cc s)) = completed (counts s)"
  by (simp add: closeConn_def Let_def split_beta count_def)

lemma completed_fail [simp]: "completed (counts (fail cc s)) = completed (counts s)"
  by (simp add: fail_def count_def)

lemma completed_relay:
  "startDuplex c cc s = Some s' \<Longrightarrow> completed (counts s') = completed (counts s)"
  "forwardInit c cc s = Some s' \<Longrightarrow> completed (counts s') = completed (counts s)"
  "postRecvReq cc s = Some s' \<Longrightarrow> completed (counts s') = completed (counts s)"
  "resend_reply cc o' s = Some s' \<Longrightarrow> completed (counts s') = completed (counts s)"
  "send_reply cc rep o' s = Some s' \<Longrightarrow> completed (counts s') = completed (counts s)"
  by (auto simp: startDuplex_def forwardInit_def postRecvReq_def resend_reply_def send_reply_def Let_def
      split: option.splits if_splits)

lemma completed_replies:
  "on_replyClient c i res s = Some s' \<Longrightarrow> completed (counts s') = completed (counts s)"
  "on_replyMore i res s = Some s' \<Longrightarrow> completed (counts s') = completed (counts s)"
  "on_rejectSend i res s = Some s' \<Longrightarrow> completed (counts s') = completed (counts s)"
  "on_sendUp c i res s = Some s' \<Longrightarrow> completed (counts s') = completed (counts s)"
  "on_recvReq i res s = Some s' \<Longrightarrow> completed (counts s') = completed (counts s)"
  unfolding on_replyClient_def on_replyMore_def on_rejectSend_def on_sendUp_def on_recvReq_def with_conn_def
  by (auto simp: Let_def count_def split: option.splits if_splits dest!: completed_relay)

lemma completed_streams:
  "on_c2uRecv i res s = Some s' \<Longrightarrow> completed (counts s') = completed (counts s)"
  "on_c2uSend i res s = Some s' \<Longrightarrow> completed (counts s') = completed (counts s)"
  "on_u2cRecv i res s = Some s' \<Longrightarrow> completed (counts s') = completed (counts s)"
  "on_u2cSend i res s = Some s' \<Longrightarrow> completed (counts s') = completed (counts s)"
  unfolding on_c2uRecv_def on_c2uSend_def on_u2cRecv_def on_u2cSend_def with_conn_def
  by (auto simp: Let_def count_def split: option.splits if_splits)

lemma completed_result: "handle_result c r s = Some s' \<Longrightarrow> completed (counts s') = completed (counts s)"
  by (auto simp: handle_result_def Let_def count_def split: option.splits if_splits dest!: completed_relay)

lemma completed_results: "handle_results c rs s = Some s' \<Longrightarrow> completed (counts s') = completed (counts s)"
  by (induction rs arbitrary: s) (auto split: option.splits dest!: completed_result)

lemma completed_sweep: "completed (counts (sweep c is s)) = completed (counts s)"
  by (induction c "is" s rule: sweep.induct) (auto simp: sweep_one_def Let_def count_def split: option.splits)

lemma completed_cqe:
  "handle_cqe c o' i res order s = Some s' \<Longrightarrow> o' \<noteq> OpClose \<Longrightarrow> completed (counts s') = completed (counts s)"
  by (cases o')
    (auto simp: handle_cqe_def on_accept_def on_eventfd_eq on_timeout_def postTimeout_def completed_sweep Let_def count_def
      split: if_splits dest!: completed_replies completed_streams completed_results)

lemma completed_kernel [simp]: "completed (counts (kernel_effect q data s)) = completed (counts s)"
  by (simp add: kernel_effect_def split: request.split option.split)

lemma completed_topUp [simp]: "completed (counts (topUp c s)) = completed (counts s)"
  by (rule topUp_induct) (simp_all add: postAccept_def)

lemma completed_close:
  assumes "on_close i s = Some s'" and "map_of (conns s) i = Some cc" and "keyed s"
  shows "completed (counts s') = completed (counts s) + (if closesLeft cc \<le> 1 \<and> \<not> counted cc \<and> relayStarted cc then 1 else 0)"
    and "closesLeft cc \<le> 1 \<Longrightarrow> map_of (conns s') i = None"
  using assms by (auto simp: on_close_def Let_def count_def keyed_def split: if_splits)

lemma completed_gone: "on_close i s = Some s' \<Longrightarrow> map_of (conns s) i = None \<Longrightarrow> s' = s"
  by (simp add: on_close_def)

text \<open>A close completes: the connection it belongs to is closing, and the handler starts from its entry in the table.\<close>

lemma close_step:
  assumes r: "engine_reachable c base S" "config_ok c" and t: "sys_trans c S (Complete n res data order) S'"
    and q: "q = sq (wk S) ! n" "sqe_op q = OpClose"
  obtains k where "on_close (sqe_id q) k = Some (wk S')" "conns k = conns (wk S)" "counts k = counts (wk S)" "keyed k"
    "\<And>cc. map_of (conns (wk S)) (sqe_id q) = Some cc \<Longrightarrow> closing cc"
proof -
  let ?k = "kernel_effect q data ((wk S)\<lparr>sq := drop_nth n (sq (wk S))\<rparr>)"
  have n: "n < length (sq (wk S))" using t by (simp add: sys_trans_def)
  have i: "engine_inv c [] (streams_of (log S)) (ring_entries (wk S)) (wk S)" using reach_inv [OF r] by simp
  have "sqe_wf q" using reach_inv [OF r] n q(1) by (simp add: engine_inv_def inv_except_def)
  then have "\<exists>f. sqe_req q = Close f" using q(2) by (auto simp: sqe_wf.simps)
  then have k: "conns ?k = conns (wk S)" "counts ?k = counts (wk S)" by (auto simp: kernel_effect_def)
  have "keyed (wk S)" by (rule table_ok_keyed [OF engine_ok_table [OF reach_engine_ok [OF r]]])
  then have "keyed ?k" by (simp add: keyed_def k)
  moreover have "on_close (sqe_id q) ?k = Some (wk S')" using t q by (auto simp: sys_trans_def Let_def handle_cqe_def)
  moreover have "closing cc" if "map_of (conns (wk S)) (sqe_id q) = Some cc" for cc
  proof (rule ccontr)
    assume "\<not> closing cc"
    then have "closes_of (sqe_id q) (wk S) = {#}" using reach_conn [OF r that] by (simp add: conn_inv_def)
    moreover have "q \<in># closes_of (sqe_id q) (wk S)" using n q by (simp add: closes_of_def)
    ultimately show False by simp
  qed
  ultimately show thesis using that k by blast
qed

text \<open>
  C14. A connection counts as completed exactly when it was relayed completely. The counter changes only in the
  step that handles the last close of a connection which no other counter was charged with, which reached the relay
  phase, saw the end of stream on both sides, and of which every byte of both directions was delivered; the counter
  then grows by one and the connection leaves the table. And every last close of a connection that
  was charged to no other counter is such a step.
\<close>

theorem completed_means_relayed:
  assumes "engine_reachable c base S" and "config_ok c" and "sys_trans c S e S'"
  shows "(completed (counts (wk S')) \<noteq> completed (counts (wk S)) \<longrightarrow>
      (\<exists>n res data order i cc d. e = Complete n res data order \<and> sqe_op (sq (wk S) ! n) = OpClose \<and>
         sqe_id (sq (wk S) ! n) = i \<and> map_of (conns (wk S)) i = Some cc \<and> \<not> counted cc \<and> relayStarted cc \<and>
         clientReadDone cc \<and> upstreamReadDone cc \<and> decided_by (streams_of (log S) i) d \<and> adopts d \<and>
         to_up (streams_of (log S) i) = drop (clamp_consumed (Consumed d) (reqN cc)) (from_client (streams_of (log S) i)) \<and>
         to_client (streams_of (log S) i) = replies (decs (streams_of (log S) i)) @ from_up (streams_of (log S) i) \<and>
         map_of (conns (wk S')) i = None \<and> completed (counts (wk S')) = completed (counts (wk S)) + 1)) \<and>
    (\<forall>n res data order i cc. e = Complete n res data order \<and> sqe_op (sq (wk S) ! n) = OpClose \<and>
       sqe_id (sq (wk S) ! n) = i \<and> map_of (conns (wk S)) i = Some cc \<and> closesLeft cc \<le> 1 \<longrightarrow>
       map_of (conns (wk S')) i = None \<and>
       completed (counts (wk S')) = completed (counts (wk S)) + (if counted cc then 0 else 1))"
proof (cases "\<exists>n res data order. e = Complete n res data order \<and> sqe_op (sq (wk S) ! n) = OpClose")
  case False
  have "completed (counts (wk S')) = completed (counts (wk S))"
  proof (cases e)
    case (Complete n res data order)
    then show ?thesis using assms(3) False by (auto simp: sys_trans_def Let_def dest: completed_cqe)
  qed (use assms(3) in \<open>auto simp: sys_trans_def Let_def batch_end_def note_overflow_def count_def\<close>)
  then show ?thesis using False by blast
next
  case True
  then obtain n res data order where e: "e = Complete n res data order" "sqe_op (sq (wk S) ! n) = OpClose" by blast
  let ?q = "sq (wk S) ! n"
  obtain k where k: "on_close (sqe_id ?q) k = Some (wk S')" "conns k = conns (wk S)" "counts k = counts (wk S)" "keyed k"
      "\<And>cc. map_of (conns (wk S)) (sqe_id ?q) = Some cc \<Longrightarrow> closing cc"
    using close_step [OF assms(1,2) assms(3) [unfolded e(1)] refl e(2)] by blast
  show ?thesis
  proof (cases "map_of (conns (wk S)) (sqe_id ?q)")
    case None
    then have "wk S' = k" using completed_gone [OF k(1)] k(2) by simp
    then show ?thesis using None k(3) by (auto simp: e(1))
  next
    case (Some cc)
    have m: "map_of (conns k) (sqe_id ?q) = Some cc" using Some by (simp add: k(2))
    note cl = completed_close [OF k(1) m k(4), unfolded k(3)]
    note re = closing_relayed [OF assms(1,2) Some k(5) [OF Some]]
    have "(closesLeft cc \<le> 1 \<and> \<not> counted cc \<and> relayStarted cc) \<longleftrightarrow> closesLeft cc \<le> 1 \<and> \<not> counted cc" using re by blast
    with cl(1) have cnt: "completed (counts (wk S')) = completed (counts (wk S)) + (if closesLeft cc \<le> 1 \<and> \<not> counted cc then 1 else 0)"
      by simp
    show ?thesis unfolding e(1) using Some cl(2) cnt re e(2) by (auto split: if_splits)
  qed
qed

lemma completed_means_relayed_witness:
  "completed (counts (wk (demo 18))) = 0 \<and> completed (counts (wk (demo 19))) = 1 \<and>
   (\<exists>cc. map_of (conns (wk (demo 18))) 1 = Some cc \<and> relayStarted cc \<and> clientReadDone cc \<and> upstreamReadDone cc) \<and>
   map_of (conns (wk (demo 19))) 1 = None"
proof -
  have t: "event_ok (demo 18) (Complete 2 0 [] [1])" "sys_step demo_cfg (demo 18) (Complete 2 0 [] [1]) = Some (demo 19)"
    "completed (counts (wk (demo 18))) = 0" "completed (counts (wk (demo 19))) = 1" "sqe_id (sq (wk (demo 18)) ! 2) = 1"
    unfolding demo_def by code_simp+
  then have s: "sys_trans demo_cfg (demo 18) (Complete 2 0 [] [1]) (demo 19)" by (simp add: sys_trans_def)
  show ?thesis using completed_means_relayed [OF demo_reachable demo_cfg_ok(1) s] t(3-5) by auto
qed

section \<open>After \<open>Stop\<close>\<close>

text \<open>From the batch that sees the stop flag on, every batch does: the flag is never cleared.\<close>

definition stopping :: "event list \<Rightarrow> bool" where
  "stopping es \<longleftrightarrow> (\<forall>e\<in>set es. case e of BatchEnd ov b \<Rightarrow> b | _ \<Rightarrow> True)"

fun is_accept :: "entry \<Rightarrow> bool" where
  "is_accept (LComplete q res data) \<longleftrightarrow> sqe_op q = OpAccept"
| "is_accept (LHook i d) \<longleftrightarrow> False"

definition accepts_done :: "system \<Rightarrow> nat" where
  "accepts_done S = length (filter is_accept (log S))"

text \<open>What a step of a stopping worker does to its accepts and its table.\<close>

definition stop_inv :: "system \<Rightarrow> system \<Rightarrow> bool" where
  "stop_inv S S' \<longleftrightarrow> acceptInflight (wk S') + int (accepts_done S') = acceptInflight (wk S) + int (accepts_done S) \<and>
     nextID (wk S) \<le> nextID (wk S') \<and> nextID (wk S') + accepts_done S \<le> nextID (wk S) + accepts_done S' \<and>
     dom (map_of (conns (wk S'))) \<subseteq> dom (map_of (conns (wk S))) \<union> {nextID (wk S)<..nextID (wk S')}"

lemma stop_inv_refl: "stop_inv S S"
  by (auto simp: stop_inv_def)

lemma stop_inv_trans:
  assumes "stop_inv S S1" and "stop_inv S1 S2"
  shows "stop_inv S S2"
proof -
  have "dom (map_of (conns (wk S2))) \<subseteq> dom (map_of (conns (wk S1))) \<union> {nextID (wk S1)<..nextID (wk S2)}"
    "dom (map_of (conns (wk S1))) \<subseteq> dom (map_of (conns (wk S))) \<union> {nextID (wk S)<..nextID (wk S1)}"
    using assms by (simp_all only: stop_inv_def)
  moreover have n: "nextID (wk S) \<le> nextID (wk S1)" "nextID (wk S1) \<le> nextID (wk S2)" using assms by (simp_all add: stop_inv_def)
  then have "{nextID (wk S)<..nextID (wk S1)} \<union> {nextID (wk S1)<..nextID (wk S2)} \<subseteq> {nextID (wk S)<..nextID (wk S2)}" by auto
  ultimately have "dom (map_of (conns (wk S2))) \<subseteq> dom (map_of (conns (wk S))) \<union> {nextID (wk S)<..nextID (wk S2)}" by blast
  then show ?thesis using assms by (auto simp: stop_inv_def)
qed

lemma stop_inv_frame:
  assumes "frame k (wk S')" and "acceptInflight k = acceptInflight (wk S)" "nextID k = nextID (wk S)"
    "dom (map_of (conns k)) = dom (map_of (conns (wk S)))" and "accepts_done S' = accepts_done S"
  shows "stop_inv S S'"
  using frame_dom [OF assms(1)] assms by (auto simp: stop_inv_def frame_def same_globals_def)

lemma on_accept_stop:
  assumes "on_accept c res s = Some s'"
  shows "acceptInflight s' = acceptInflight s - 1" "nextID s \<le> nextID s'" "nextID s' \<le> nextID s + 1"
    "dom (map_of (conns s')) \<subseteq> dom (map_of (conns s)) \<union> {nextID s<..nextID s'}"
  using assms by (auto simp: on_accept_def Let_def count_def new_conn_def split: if_splits)

lemma kernel_effect_dom: "dom (map_of (conns (kernel_effect q data s))) = dom (map_of (conns s))"
  by (auto simp: kernel_effect_def split: request.split option.split if_splits)

lemma kernel_effect_rest [simp]:
  "acceptInflight (kernel_effect q data s) = acceptInflight s" "nextID (kernel_effect q data s) = nextID s"
  by (simp_all add: kernel_effect_def split: request.split option.split)

lemma stop_step:
  assumes k: "keyed (wk S)" and t: "sys_trans c S e S'" and b: "stopping [e]"
  shows "stop_inv S S' \<and> (exited (wk S') \<longleftrightarrow> exited (wk S) \<or> (\<exists>ov. e = BatchEnd ov True) \<and> conns (wk S) = [])"
proof (cases e)
  case (Complete n res data order)
  let ?q = "sq (wk S) ! n"
  let ?k = "kernel_effect ?q data ((wk S)\<lparr>sq := drop_nth n (sq (wk S))\<rparr>)"
  have h: "handle_cqe c (sqe_op ?q) (sqe_id ?q) res order ?k = Some (wk S')" and l: "log S' = log S @ [LComplete ?q res data]"
    and x: "\<not> exited (wk S)"
    using t Complete by (auto simp: sys_trans_def Let_def)
  have d: "dom (map_of (conns ?k)) = dom (map_of (conns (wk S)))" by (simp add: kernel_effect_dom)
  have kk: "keyed ?k" using k by (auto simp: kernel_effect_def keyed_def split: request.splits option.splits)
  have ex: "exited ?k = exited (wk S)" by (simp add: kernel_effect_def split: request.split option.split)
  consider "sqe_op ?q = OpAccept" | "sqe_op ?q = OpEventfd" | "sqe_op ?q \<noteq> OpAccept" "sqe_op ?q \<noteq> OpEventfd" by blast
  then show ?thesis
  proof cases
    case 1
    then have a: "on_accept c res ?k = Some (wk S')" using h by (simp add: handle_cqe_def)
    have "accepts_done S' = Suc (accepts_done S)" using 1 by (simp add: accepts_done_def l)
    then show ?thesis using on_accept_stop [OF a] on_accept_exited [OF a] ex d Complete x by (auto simp: stop_inv_def)
  next
    case 2
    have f: "frame (drained ?k) (wk S')" using frame_on_eventfd [OF _ kk, of c "wk S'"] h 2 by (simp add: handle_cqe_def)
    have "accepts_done S' = accepts_done S" using 2 by (simp add: accepts_done_def l)
    then have "stop_inv S S'" by (intro stop_inv_frame [OF f]) (simp_all add: d)
    moreover have "exited (wk S') = exited (wk S)" using f ex by (simp add: frame_def same_globals_def)
    ultimately show ?thesis using Complete by simp
  next
    case 3
    have f: "frame ?k (wk S')" by (rule frame_handle_cqe [OF h kk 3])
    have "accepts_done S' = accepts_done S" using 3 by (simp add: accepts_done_def l)
    then have "stop_inv S S'" by (intro stop_inv_frame [OF f]) (simp_all add: d)
    moreover have "exited (wk S') = exited (wk S)" using f ex by (simp add: frame_def same_globals_def)
    ultimately show ?thesis using Complete by simp
  qed
next
  case (HookDone j d)
  then show ?thesis using t by (auto simp: sys_trans_def Let_def stop_inv_def accepts_done_def)
next
  case (BatchEnd ov b')
  then have "b'" using b by (auto simp: stopping_def)
  then show ?thesis using t BatchEnd
    by (cases "conns (wk S) = []") (auto simp: sys_trans_def batch_end_def Let_def stop_inv_def accepts_done_def)
qed

lemma stop_trace:
  assumes "config_ok c"
  shows "engine_reachable c base S \<Longrightarrow> trace (sys_trans c) S es S' \<Longrightarrow> stopping es \<Longrightarrow>
    stop_inv S S' \<and> accepts_done S \<le> accepts_done S'"
proof (induction es arbitrary: S)
  case Nil
  then show ?case by (simp add: stop_inv_refl)
next
  case (Cons e es)
  then obtain S1 where t: "sys_trans c S e S1" "trace (sys_trans c) S1 es S'" by auto
  have k: "keyed (wk S)" by (rule table_ok_keyed [OF engine_ok_table [OF reach_engine_ok [OF Cons.prems(1) assms]]])
  have st: "stopping [e]" "stopping es" using Cons.prems(3) by (auto simp: stopping_def)
  have r: "engine_reachable c base S1" by (rule reach_step [OF Cons.prems(1) t(1)])
  have "accepts_done S \<le> accepts_done S1"
    using t(1) by (cases e) (auto simp: sys_trans_def Let_def accepts_done_def)
  moreover have "stop_inv S S1" using stop_step [OF k t(1) st(1)] by blast
  moreover have "stop_inv S1 S' \<and> accepts_done S1 \<le> accepts_done S'" by (rule Cons.IH [OF r t(2) st(2)])
  ultimately show ?case using stop_inv_trans by (meson le_trans)
qed

text \<open>The batch at whose end the worker exits.\<close>

definition exits_in :: "config \<Rightarrow> system \<Rightarrow> event list \<Rightarrow> system \<Rightarrow> bool" where
  "exits_in c S es S' \<longleftrightarrow> (\<exists>es1 ov es2 S1. es = es1 @ BatchEnd ov True # es2 \<and> trace (sys_trans c) S es1 S1 \<and>
     trace (sys_trans c) S1 (BatchEnd ov True # es2) S' \<and> conns (wk S1) = [])"

lemma exits_in_Nil [simp]: "\<not> exits_in c S [] S'"
  by (simp add: exits_in_def)

lemma exits_in_here: "trace (sys_trans c) S (BatchEnd ov True # es) S' \<Longrightarrow> conns (wk S) = [] \<Longrightarrow> exits_in c S (BatchEnd ov True # es) S'"
  unfolding exits_in_def by (metis append_Nil trace.simps(1))

lemma exits_in_later: "sys_trans c S e S1 \<Longrightarrow> exits_in c S1 es S' \<Longrightarrow> exits_in c S (e # es) S'"
  unfolding exits_in_def by (metis append_Cons trace.simps(2))

lemma exits_in_stops: "exits_in c S es S' \<Longrightarrow> exited (wk S')"
proof -
  have keeps: "trace (sys_trans c) S2 es2 S' \<Longrightarrow> exited (wk S2) \<Longrightarrow> exited (wk S')" for S2 es2
  proof (induction es2 arbitrary: S2)
    case (Cons e es2)
    then obtain S3 where t: "sys_trans c S2 e S3" "trace (sys_trans c) S3 es2 S'" by auto
    then have "exited (wk S3)" using Cons.prems(2) by (cases e) (auto simp: sys_trans_def Let_def)
    with Cons.IH [OF t(2)] show ?case by blast
  qed simp
  assume "exits_in c S es S'"
  then show ?thesis unfolding exits_in_def by (auto simp: sys_trans_def batch_end_def Let_def intro: keeps)
qed

lemma exits_trace:
  assumes "config_ok c"
  shows "engine_reachable c base S \<Longrightarrow> trace (sys_trans c) S es S' \<Longrightarrow> stopping es \<Longrightarrow> exited (wk S') \<Longrightarrow>
    exited (wk S) \<or> exits_in c S es S'"
proof (induction es arbitrary: S)
  case (Cons e es)
  then obtain S1 where t: "sys_trans c S e S1" "trace (sys_trans c) S1 es S'" by auto
  have k: "keyed (wk S)" by (rule table_ok_keyed [OF engine_ok_table [OF reach_engine_ok [OF Cons.prems(1) assms]]])
  have st: "stopping [e]" "stopping es" using Cons.prems(3) by (auto simp: stopping_def)
  have r: "engine_reachable c base S1" by (rule reach_step [OF Cons.prems(1) t(1)])
  from Cons.IH [OF r t(2) st(2) Cons.prems(4)] show ?case
  proof
    assume "exited (wk S1)"
    then show ?thesis using stop_step [OF k t(1) st(1)] exits_in_here Cons.prems(2) by blast
  next
    assume "exits_in c S1 es S'"
    then show ?thesis using exits_in_later [OF t(1)] by blast
  qed
qed simp

text \<open>
  C22. Shutdown: from the moment a worker sees the stop flag, whatever completes and however long it still runs, no
  accept is posted: those that complete are taken from the ones then in flight, one for one, so that at most that many
  clients more are let in; the connections in the table, and those, are served on; and the worker exits at
  the end of a batch at which the table is empty, and only so.
\<close>

theorem stop_drains:
  assumes "engine_reachable c base S" and "config_ok c" and "trace (sys_trans c) S es S'" and "stopping es"
  shows "accepts_done S \<le> accepts_done S' \<and> 0 \<le> acceptInflight (wk S') \<and>
    int (accepts_done S' - accepts_done S) = acceptInflight (wk S) - acceptInflight (wk S') \<and>
    dom (map_of (conns (wk S'))) \<subseteq>
      dom (map_of (conns (wk S))) \<union> {nextID (wk S)<..nextID (wk S) + nat (acceptInflight (wk S))} \<and>
    (\<not> exited (wk S) \<longrightarrow> (exited (wk S') \<longleftrightarrow> exits_in c S es S')) \<and> (exited (wk S') \<longrightarrow> conns (wk S') = [])"
proof -
  have r: "engine_reachable c base S'" by (rule trace_reachable [OF assms(1,3)])
  have a: "0 \<le> acceptInflight (wk S')" using reach_engine_ok [OF r assms(2)] by (simp add: engine_ok_def globals_ok_def)
  have s: "stop_inv S S'" "accepts_done S \<le> accepts_done S'" using stop_trace [OF assms(2,1,3,4)] by simp_all
  then have d: "dom (map_of (conns (wk S'))) \<subseteq> dom (map_of (conns (wk S))) \<union> {nextID (wk S)<..nextID (wk S')}"
    and n: "acceptInflight (wk S') + int (accepts_done S') = acceptInflight (wk S) + int (accepts_done S)"
      "nextID (wk S') + accepts_done S \<le> nextID (wk S) + accepts_done S'"
    by (simp_all only: stop_inv_def)
  have "nextID (wk S') \<le> nextID (wk S) + nat (acceptInflight (wk S))" using n a s(2) by linarith
  then have "{nextID (wk S)<..nextID (wk S')} \<subseteq> {nextID (wk S)<..nextID (wk S) + nat (acceptInflight (wk S))}" by auto
  with d have "dom (map_of (conns (wk S'))) \<subseteq>
      dom (map_of (conns (wk S))) \<union> {nextID (wk S)<..nextID (wk S) + nat (acceptInflight (wk S))}" by blast
  moreover have "exited (wk S') \<longrightarrow> conns (wk S') = []" using reachable_sys_inv [OF r assms(2)] by (simp add: sys_inv_def)
  ultimately show ?thesis
    using a s(2) n(1) exits_trace [OF assms(2,1,3,4)] exits_in_stops [of c S es S'] by (auto simp: of_nat_diff)
qed

text \<open>The flag is seen after the client has been let in; its connection is served to the end, then the worker exits.\<close>

definition stop_events :: "event list" where
  "stop_events = drop 3 (take 19 demo_events) @ [BatchEnd 0 True]"

lemma stop_drains_witness:
  "exits_in demo_cfg (demo 3) stop_events (the (sys_run demo_cfg (demo 3) stop_events)) \<and>
   dom (map_of (conns (wk (the (sys_run demo_cfg (demo 3) stop_events))))) \<subseteq> {1}"
proof -
  let ?S = "the (sys_run demo_cfg (demo 3) stop_events)"
  have tr: "sys_run c S es = Some S' \<Longrightarrow> trace (sys_trans c) S es S'" for c S es S'
    by (induction es arbitrary: S) (auto simp: sys_trans_def split: if_splits option.splits)
  have h: "sys_run demo_cfg (demo 3) stop_events = Some ?S" "\<not> exited (wk (demo 3))" "exited (wk ?S)" "stopping stop_events"
    "acceptInflight (wk (demo 3)) = 0" "fst ` set (conns (wk (demo 3))) = {1}"
    by code_simp+
  have "dom (map_of (conns (wk (demo 3)))) = {1}" using h(6) by (simp add: dom_map_of_conv_image_fst)
  then show ?thesis using stop_drains [OF demo_reachable demo_cfg_ok(1) tr [OF h(1)] h(4)] h(2,3,5) by auto
qed

end
