(* ===== verification/Bridge_Concurrency.thy ===== *)
theory Bridge_Concurrency
  imports Bridge
begin

text \<open>
  The wake-up bridge with its real interleavings. Hook goroutines run \<open>push\<close> concurrently with the
  ring worker's handling of the eventfd completion. The atomic steps are the critical section of the
  mutex, the atomic \<open>Swap\<close>, the \<open>write\<close> system call, the kernel completing the armed read, and on the
  worker's side the steps of the \<open>opEventfd\<close> case in their order: arm the read again, clear the flag,
  drain. The flag \<open>notified\<close> lets several pushes share one write; the question is whether a result can
  be left behind without a wake-up.
\<close>

section \<open>States and steps\<close>

text \<open>Where a goroutine is in \<open>push\<close>: before the critical section, before the swap, before the write.\<close>

datatype 'r producer = AtAppend 'r | AtSwap | AtWrite

text \<open>Where the worker is in its \<open>opEventfd\<close> case; \<open>Waiting\<close> is anywhere else.\<close>

datatype consumer = Waiting | AtRearm | AtClear | AtDrain

record 'r wake_state =
  bdg :: "'r bridge"
  armed :: bool
  cqes :: nat
  producers :: "'r producer list"
  consumer :: consumer
  pushed :: "'r list"
  delivered :: "'r list"

definition wake_start :: "'r wake_state" where
  "wake_start = \<lparr>bdg = new_bridge, armed = True, cqes = 0, producers = [], consumer = Waiting,
     pushed = [], delivered = []\<rparr>"

definition do_append :: "'r \<Rightarrow> 'r bridge \<Rightarrow> 'r bridge" where
  "do_append r b = b\<lparr>ready := ready b @ [r]\<rparr>"

definition do_swap :: "'r bridge \<Rightarrow> u32 \<times> 'r bridge" where
  "do_swap b = (notified b, b\<lparr>notified := 1\<rparr>)"

definition do_write :: "'r bridge \<Rightarrow> 'r bridge" where
  "do_write b = b\<lparr>wakes := wakes b + 1\<rparr>"

definition do_clear :: "'r bridge \<Rightarrow> 'r bridge" where
  "do_clear b = b\<lparr>notified := 0\<rparr>"

text \<open>One step of the \<open>k\<close>-th goroutine: its next position (\<open>None\<close> when it is done) and the new state.\<close>

definition producer_step :: "nat \<Rightarrow> 'r wake_state \<Rightarrow> 'r wake_state" where
  "producer_step k s =
    (case producers s ! k of
       AtAppend r \<Rightarrow> s\<lparr>bdg := do_append r (bdg s), pushed := pushed s @ [r], producers := (producers s)[k := AtSwap]\<rparr>
     | AtSwap \<Rightarrow>
         (let (old, b) = do_swap (bdg s)
          in if old = 0 then s\<lparr>bdg := b, producers := (producers s)[k := AtWrite]\<rparr>
             else s\<lparr>bdg := b, producers := take k (producers s) @ drop (Suc k) (producers s)\<rparr>)
     | AtWrite \<Rightarrow> s\<lparr>bdg := do_write (bdg s), producers := take k (producers s) @ drop (Suc k) (producers s)\<rparr>)"

definition read_completes :: "'r wake_state \<Rightarrow> 'r wake_state" where
  "read_completes s = s\<lparr>bdg := (bdg s)\<lparr>wakes := 0\<rparr>, armed := False, cqes := cqes s + 1\<rparr>"

definition consumer_step :: "'r wake_state \<Rightarrow> 'r wake_state" where
  "consumer_step s =
    (case consumer s of
       Waiting \<Rightarrow> s\<lparr>cqes := cqes s - 1, consumer := AtRearm\<rparr>
     | AtRearm \<Rightarrow> s\<lparr>armed := True, consumer := AtClear\<rparr>
     | AtClear \<Rightarrow> s\<lparr>bdg := do_clear (bdg s), consumer := AtDrain\<rparr>
     | AtDrain \<Rightarrow> (let (rs, b) = drain (bdg s) in s\<lparr>bdg := b, delivered := delivered s @ rs, consumer := Waiting\<rparr>))"

text \<open>The steps of the running system; a new \<open>push\<close> may start at any time.\<close>

inductive wake_step :: "'r wake_state \<Rightarrow> 'r wake_state \<Rightarrow> bool" where
  producer: "k < length (producers s) \<Longrightarrow> wake_step s (producer_step k s)"
| kernel: "armed s \<Longrightarrow> 0 < wakes (bdg s) \<Longrightarrow> wake_step s (read_completes s)"
| worker: "consumer s \<noteq> Waiting \<or> 0 < cqes s \<Longrightarrow> wake_step s (consumer_step s)"

definition new_push :: "'r \<Rightarrow> 'r wake_state \<Rightarrow> 'r wake_state" where
  "new_push r s = s\<lparr>producers := producers s @ [AtAppend r]\<rparr>"

text \<open>The label \<open>Some r\<close> starts a push of \<open>r\<close>; \<open>None\<close> is a step of what is already running.\<close>

definition wake_trans :: "'r wake_state \<Rightarrow> 'r option \<Rightarrow> 'r wake_state \<Rightarrow> bool" where
  "wake_trans s e s' \<longleftrightarrow> (case e of Some r \<Rightarrow> s' = new_push r s | None \<Rightarrow> wake_step s s')"

abbreviation wake_reachable :: "'r wake_state \<Rightarrow> bool" where
  "wake_reachable \<equiv> reachable (\<lambda>s. s = wake_start) wake_trans"

inductive_cases wake_step_cases: "wake_step s s'"

section \<open>The invariant\<close>

definition wake_pending :: "'r wake_state \<Rightarrow> bool" where
  "wake_pending s \<longleftrightarrow> AtWrite \<in> set (producers s) \<or> 0 < wakes (bdg s) \<or> 0 < cqes s"

definition wake_inv :: "'r wake_state \<Rightarrow> bool" where
  "wake_inv s \<longleftrightarrow>
     pushed s = delivered s @ ready (bdg s) \<and>
     (if armed s then 1 else 0) + cqes s + (if consumer s = AtRearm then 1 else 0) = (1::nat) \<and>
     (notified (bdg s) \<noteq> 0 \<longrightarrow> wake_pending s \<or> consumer s \<in> {AtRearm, AtClear}) \<and>
     (ready (bdg s) \<noteq> [] \<longrightarrow> AtSwap \<in> set (producers s) \<or> wake_pending s \<or> consumer s \<noteq> Waiting)"

lemma set_update_other: "k < length xs \<Longrightarrow> y \<in> set xs \<Longrightarrow> y \<noteq> xs ! k \<Longrightarrow> y \<in> set (xs[k := x])"
  by (metis in_set_conv_nth length_list_update nth_list_update_neq)

lemma set_update_new: "k < length xs \<Longrightarrow> x \<in> set (xs[k := x])"
  by (simp add: set_update_memI)

lemma set_removed_other: "k < length xs \<Longrightarrow> y \<in> set xs \<Longrightarrow> y \<noteq> xs ! k \<Longrightarrow> y \<in> set (take k xs @ drop (Suc k) xs)"
  by (metis Un_iff id_take_nth_drop insert_iff list.set(2) set_append)

lemma wake_inv_producer:
  assumes v: "wake_inv s" and k: "k < length (producers s)"
  shows "wake_inv (producer_step k s)"
proof (cases "producers s ! k")
  case (AtAppend r)
  have "AtWrite \<in> set ((producers s)[k := AtSwap])" if "AtWrite \<in> set (producers s)"
    using set_update_other [OF k that] AtAppend by simp
  then show ?thesis using v AtAppend set_update_new [OF k, of AtSwap]
    by (auto simp: wake_inv_def producer_step_def do_append_def wake_pending_def)
next
  case AtSwap
  show ?thesis
  proof (cases "notified (bdg s) = 0")
    case True
    then show ?thesis using v AtSwap set_update_new [OF k, of AtWrite]
      by (auto simp: wake_inv_def producer_step_def do_swap_def wake_pending_def)
  next
    case False
    have "AtWrite \<in> set (take k (producers s) @ drop (Suc k) (producers s))" if "AtWrite \<in> set (producers s)"
      using set_removed_other [OF k that] AtSwap by simp
    then show ?thesis using v AtSwap False
      by (auto simp: wake_inv_def producer_step_def do_swap_def wake_pending_def)
  qed
next
  case AtWrite
  then show ?thesis using v
    by (auto simp: wake_inv_def producer_step_def do_write_def wake_pending_def)
qed

lemma wake_inv_kernel: "wake_inv s \<Longrightarrow> armed s \<Longrightarrow> wake_inv (read_completes s)"
  by (auto simp: wake_inv_def read_completes_def wake_pending_def split: if_splits)

lemma wake_inv_worker: "wake_inv s \<Longrightarrow> consumer s \<noteq> Waiting \<or> 0 < cqes s \<Longrightarrow> wake_inv (consumer_step s)"
  by (cases "consumer s")
     (auto simp: wake_inv_def consumer_step_def wake_pending_def do_clear_def drain_def split: if_splits)

lemma wake_inv_step: "wake_step s s' \<Longrightarrow> wake_inv s \<Longrightarrow> wake_inv s'"
  by (erule wake_step_cases) (auto intro: wake_inv_producer wake_inv_kernel wake_inv_worker)

lemma wake_inv_new_push: "wake_inv s \<Longrightarrow> wake_inv (new_push r s)"
  by (auto simp: wake_inv_def new_push_def wake_pending_def)

lemma wake_inv_start: "wake_inv wake_start"
  by (simp add: wake_inv_def wake_start_def new_bridge_def)

interpretation wake: inductive_invariant "\<lambda>s. s = wake_start" wake_trans wake_inv
  by unfold_locales (auto simp: wake_trans_def wake_inv_start wake_inv_step wake_inv_new_push split: option.splits)

section \<open>Termination of the running steps\<close>

fun producer_weight :: "'r producer \<Rightarrow> nat" where
  "producer_weight (AtAppend r) = 12"
| "producer_weight AtSwap = 11"
| "producer_weight AtWrite = 7"

fun consumer_weight :: "consumer \<Rightarrow> nat" where
  "consumer_weight Waiting = 0"
| "consumer_weight AtRearm = 4"
| "consumer_weight AtClear = 3"
| "consumer_weight AtDrain = 2"

definition wake_measure :: "'r wake_state \<Rightarrow> nat" where
  "wake_measure s = sum_list (map producer_weight (producers s)) + 6 * wakes (bdg s) + 5 * cqes s +
     consumer_weight (consumer s)"

lemma sum_list_update_weight:
  "k < length xs \<Longrightarrow> sum_list (map f (xs[k := x])) + f (xs ! k) = sum_list (map f xs) + (f x :: nat)"
  by (induction xs arbitrary: k) (auto split: nat.split simp: nth_Cons' less_Suc_eq_0_disj)

lemma sum_list_removed_weight:
  "k < length xs \<Longrightarrow> sum_list (map f (take k xs @ drop (Suc k) xs)) + (f (xs ! k) :: nat) = sum_list (map f xs)"
  by (induction xs arbitrary: k) (auto simp: less_Suc_eq_0_disj add.assoc)

lemma wake_step_decreases:
  assumes "wake_step s s'"
  shows "wake_measure s' < wake_measure s"
  using assms
proof cases
  case (producer k)
  note w = sum_list_update_weight [OF producer(2), of producer_weight AtSwap]
    sum_list_update_weight [OF producer(2), of producer_weight AtWrite]
    sum_list_removed_weight [OF producer(2), of producer_weight]
  show ?thesis
    using w unfolding producer(1) by (cases "producers s ! k")
      (auto simp: producer_step_def wake_measure_def do_append_def do_swap_def do_write_def)
next
  case worker
  then show ?thesis
    by (cases "consumer s") (auto simp: consumer_step_def wake_measure_def do_clear_def drain_def)
qed (auto simp: read_completes_def wake_measure_def)

section \<open>A concrete run\<close>

text \<open>One goroutine pushes 7: append, swap, write; the read completes; the worker handles it.\<close>

definition wake_run :: "nat \<Rightarrow> nat wake_state" where
  "wake_run n = fold (\<lambda>f s. f s)
     (take n [new_push 7, producer_step 0, producer_step 0, producer_step 0, read_completes,
        consumer_step, consumer_step, consumer_step, consumer_step]) wake_start"

lemma wake_run_states:
  "wake_run 0 = wake_start"
  "wake_run 1 = new_push 7 (wake_run 0)"
  "wake_run 2 = producer_step 0 (wake_run 1)"
  "wake_run 3 = producer_step 0 (wake_run 2)"
  "wake_run 4 = producer_step 0 (wake_run 3)"
  "wake_run 5 = read_completes (wake_run 4)"
  "wake_run 6 = consumer_step (wake_run 5)"
  "wake_run 7 = consumer_step (wake_run 6)"
  "wake_run 8 = consumer_step (wake_run 7)"
  "wake_run 9 = consumer_step (wake_run 8)"
  by (simp_all add: wake_run_def)

lemma wake_run_enabled:
  "length (producers (wake_run 1)) = 1" "length (producers (wake_run 2)) = 1" "length (producers (wake_run 3)) = 1"
  "armed (wake_run 4)" "wakes (bdg (wake_run 4)) = 1" "cqes (wake_run 5) = 1"
  "consumer (wake_run 6) = AtRearm" "consumer (wake_run 7) = AtClear" "consumer (wake_run 8) = AtDrain"
  by code_simp+

lemma wake_run_end:
  "producers (wake_run 9) = []" "wakes (bdg (wake_run 9)) = 0" "consumer (wake_run 9) = Waiting"
  "cqes (wake_run 9) = 0" "pushed (wake_run 9) = [7]"
  by code_simp+

lemma wake_run_reachable: "wake_reachable (wake_run 9)"
proof -
  have push: "wake_reachable s \<Longrightarrow> wake_reachable (new_push r s)" for s :: "nat wake_state" and r
    by (erule reach_step [of _ _ _ "Some r"]) (simp add: wake_trans_def)
  have step: "wake_reachable s \<Longrightarrow> wake_step s s' \<Longrightarrow> wake_reachable s'" for s s' :: "nat wake_state"
    by (erule reach_step [of _ _ _ None]) (simp add: wake_trans_def)
  have "wake_reachable (wake_run 0)" unfolding wake_run_states(1) by (rule reach_start) simp
  then have "wake_reachable (wake_run 1)" unfolding wake_run_states(2) by (rule push)
  then have "wake_reachable (wake_run 2)" unfolding wake_run_states(3)
    by (rule step [OF _ wake_step.producer]) (use wake_run_enabled in simp)
  then have "wake_reachable (wake_run 3)" unfolding wake_run_states(4)
    by (rule step [OF _ wake_step.producer]) (use wake_run_enabled in simp)
  then have "wake_reachable (wake_run 4)" unfolding wake_run_states(5)
    by (rule step [OF _ wake_step.producer]) (use wake_run_enabled in simp)
  then have "wake_reachable (wake_run 5)" unfolding wake_run_states(6)
    by (rule step) (simp add: wake_step.kernel wake_run_enabled)
  then have "wake_reachable (wake_run 6)" unfolding wake_run_states(7)
    by (rule step) (simp add: wake_step.worker wake_run_enabled)
  then have "wake_reachable (wake_run 7)" unfolding wake_run_states(8)
    by (rule step) (simp add: wake_step.worker wake_run_enabled)
  then have "wake_reachable (wake_run 8)" unfolding wake_run_states(9)
    by (rule step) (simp add: wake_step.worker wake_run_enabled)
  then show ?thesis unfolding wake_run_states(10)
    by (rule step) (simp add: wake_step.worker wake_run_enabled)
qed

lemma wake_run_quiescent: "\<nexists>s'. wake_step (wake_run 9) s'"
proof
  assume "\<exists>s'. wake_step (wake_run 9) s'"
  then show False by (auto elim!: wake_step_cases simp: wake_run_end)
qed

section \<open>Properties\<close>

text \<open>
  C23. First in, first out, exactly once: in every reachable state what the worker has received
  followed by what is in the bridge is what the goroutines pushed, in the order of their critical
  sections.
\<close>

theorem bridge_fifo:
  assumes "wake_reachable s"
  shows "pushed s = delivered s @ ready (bdg s)"
  using wake.reachable_inv [OF assms] by (simp add: wake_inv_def)

lemma bridge_fifo_witness: "delivered (wake_run 9) @ ready (bdg (wake_run 9)) = [7]"
  using bridge_fifo [OF wake_run_reachable] by (simp add: wake_run_end)

text \<open>
  C12. No wake-up is lost: whenever the running goroutines, the kernel and the worker have nothing
  left to do, every pushed result has been delivered.
\<close>

theorem no_lost_wakeup:
  assumes "wake_reachable s" and "\<nexists>s'. wake_step s s'"
  shows "ready (bdg s) = [] \<and> delivered s = pushed s"
proof -
  have v: "wake_inv s" by (rule wake.reachable_inv [OF assms(1)])
  have "producers s = []" using assms(2) wake_step.producer [of 0 s] by auto
  moreover have "consumer s = Waiting" "cqes s = 0" using assms(2) wake_step.worker [of s] by blast+
  moreover from this v have "armed s" by (auto simp: wake_inv_def split: if_splits)
  then have "wakes (bdg s) = 0" using assms(2) wake_step.kernel [of s] by blast
  ultimately show ?thesis using v by (auto simp: wake_inv_def wake_pending_def)
qed

lemma no_lost_wakeup_witness: "delivered (wake_run 9) = [7]"
  using no_lost_wakeup [OF wake_run_reachable wake_run_quiescent] by (simp add: wake_run_end)

text \<open>
  The running steps terminate: without new pushes every execution is finite, so together with the absence of
  lost wake-ups every push is eventually delivered.
\<close>

theorem wakeup_terminates: "wfp (\<lambda>s' s. wake_step s s')"
  by (rule wfp_if_convertible_to_nat [of _ wake_measure]) (rule wake_step_decreases)

text \<open>
  The three steps of one \<open>push\<close> run without interruption are the operation \<open>push\<close> of the
  sequential model.
\<close>

theorem push_refines:
  assumes "producers s = [AtAppend r]"
  shows "\<exists>s1 s2. wake_step s s1 \<and> wake_step s1 s2 \<and> producers s2 \<in> {[], [AtWrite]} \<and>
    (if producers s2 = [] then bdg s2 = push r (bdg s) else wake_step s2 (producer_step 0 s2) \<and> bdg (producer_step 0 s2) = push r (bdg s))"
proof -
  let ?s1 = "producer_step 0 s"
  have 1: "wake_step s ?s1" using assms by (intro wake_step.producer) simp
  have p: "producers ?s1 = [AtSwap]" "bdg ?s1 = do_append r (bdg s)" using assms by (simp_all add: producer_step_def)
  let ?s2 = "producer_step 0 ?s1"
  have 2: "wake_step ?s1 ?s2" using p by (intro wake_step.producer) simp
  show ?thesis
  proof (cases "notified (bdg s) = 0")
    case True
    then have q: "producers ?s2 = [AtWrite]" "bdg ?s2 = snd (do_swap (do_append r (bdg s)))"
      using p by (simp_all add: producer_step_def do_swap_def do_append_def)
    then have "wake_step ?s2 (producer_step 0 ?s2)" by (intro wake_step.producer) simp
    moreover have "bdg (producer_step 0 ?s2) = push r (bdg s)"
      using q True by (simp add: producer_step_def push_def do_write_def do_swap_def do_append_def Let_def)
    ultimately show ?thesis using 1 2 q by (intro exI [of _ ?s1] exI [of _ ?s2]) simp
  next
    case False
    then have "producers ?s2 = []" "bdg ?s2 = push r (bdg s)"
      using p by (simp_all add: producer_step_def do_swap_def do_append_def push_def Let_def)
    then show ?thesis using 1 2 by (intro exI [of _ ?s1] exI [of _ ?s2]) simp
  qed
qed

lemma push_refines_witness:
  "\<exists>s1 s2. wake_step (wake_run 1) s1 \<and> wake_step s1 s2 \<and> producers s2 \<in> {[], [AtWrite]}"
proof -
  have "producers (wake_run 1) = [AtAppend 7]" by code_simp
  from push_refines [OF this] show ?thesis by blast
qed

end
