(* ===== verification/Uring.thy ===== *)
theory Uring
  imports Prelude
begin

text \<open>
  The hand-written io_uring binding, \<open>internal/uring/uring.go\<close>: the wire format of submission
  entries and the \<open>Prep\<close> helpers, the submission ring (\<open>GetSQE\<close>, \<open>Submit\<close>), the completion ring
  (\<open>CQReady\<close>, \<open>PeekCQE\<close>, \<open>CQAdvance\<close>), and construction and teardown (\<open>New\<close>, \<open>Close\<close>).

  Heads, tails and masks are 32-bit words that wrap. The kernel's side of the shared memory is given
  by its documented behaviour: it consumes entries from the head of the submission ring in order
  (\<open>kernel_consume\<close>) and appends completions at the tail of the completion ring
  (\<open>kernel_complete\<close>).
\<close>

section \<open>Submission entries on the wire\<close>

unbundle bit_operations_syntax

record wire =
  Opcode :: u8
  Flags :: u8
  IoPrio :: u16
  Fd :: u32
  Off :: u64
  Addr_w :: u64
  Len_w :: u32
  OpFlags :: u32
  UserData :: u64
  BufIndex :: u16
  Personality :: u16
  SpliceFdIn :: u32
  Addr3 :: u64
  pad2 :: u64

definition zero_wire :: wire where
  "zero_wire = \<lparr>Opcode = 0, Flags = 0, IoPrio = 0, Fd = 0, Off = 0, Addr_w = 0, Len_w = 0, OpFlags = 0,
     UserData = 0, BufIndex = 0, Personality = 0, SpliceFdIn = 0, Addr3 = 0, pad2 = 0\<rparr>"

text \<open>
  Go's layout of a struct of integer fields: each field at the next multiple of its size, the whole
  padded to the largest size. \<open>sqe_sizes\<close> and \<open>cqe_sizes\<close> are the sizes of the fields in order.
\<close>

definition align_up :: "nat \<Rightarrow> nat \<Rightarrow> nat" where
  "align_up n a = (n + a - 1) div a * a"

fun offsets_from :: "nat \<Rightarrow> nat list \<Rightarrow> nat list" where
  "offsets_from n [] = []"
| "offsets_from n (a # as) = align_up n a # offsets_from (align_up n a + a) as"

definition struct_size :: "nat list \<Rightarrow> nat" where
  "struct_size as = (if as = [] then 0 else align_up (last (offsets_from 0 as) + last as) (Max (set as)))"

definition sqe_sizes :: "nat list" where
  "sqe_sizes = [1, 1, 2, 4, 8, 8, 4, 4, 8, 2, 2, 4, 8, 8]"

definition cqe_sizes :: "nat list" where
  "cqe_sizes = [8, 4, 4]"

text \<open>The operation codes, and the flag values used.\<close>

definition IORING_OP_POLL_ADD :: u8 where "IORING_OP_POLL_ADD = 6"
definition IORING_OP_TIMEOUT :: u8 where "IORING_OP_TIMEOUT = 11"
definition IORING_OP_ACCEPT :: u8 where "IORING_OP_ACCEPT = 13"
definition IORING_OP_CLOSE :: u8 where "IORING_OP_CLOSE = 19"
definition IORING_OP_READ :: u8 where "IORING_OP_READ = 22"
definition IORING_OP_SEND :: u8 where "IORING_OP_SEND = 26"
definition IORING_OP_RECV :: u8 where "IORING_OP_RECV = 27"
definition IORING_OP_SPLICE :: u8 where "IORING_OP_SPLICE = 30"

lemmas op_defs = IORING_OP_POLL_ADD_def IORING_OP_TIMEOUT_def IORING_OP_ACCEPT_def IORING_OP_CLOSE_def
  IORING_OP_READ_def IORING_OP_SEND_def IORING_OP_RECV_def IORING_OP_SPLICE_def

definition acceptMultishot :: u16 where "acceptMultishot = 1"

text \<open>
  The \<open>Prep\<close> helpers write into the entry they are given. A buffer is its address and its length; the
  address of the first byte of an empty slice is a run-time panic (\<open>None\<close>).
\<close>

definition PrepAccept :: "int \<Rightarrow> u64 \<Rightarrow> wire \<Rightarrow> wire" where
  "PrepAccept listenFd u s = s\<lparr>Opcode := IORING_OP_ACCEPT, Fd := word_of_int listenFd, UserData := u\<rparr>"

definition PrepAcceptMultishot :: "int \<Rightarrow> u64 \<Rightarrow> wire \<Rightarrow> wire" where
  "PrepAcceptMultishot listenFd u s =
    s\<lparr>Opcode := IORING_OP_ACCEPT, Fd := word_of_int listenFd, IoPrio := acceptMultishot, UserData := u\<rparr>"

definition PrepRead :: "int \<Rightarrow> u64 \<times> nat \<Rightarrow> u64 \<Rightarrow> wire \<Rightarrow> wire option" where
  "PrepRead f buf u s =
    (if snd buf = 0 then None
     else Some (s\<lparr>Opcode := IORING_OP_READ, Fd := word_of_int f, Addr_w := fst buf, Len_w := of_nat (snd buf), UserData := u\<rparr>))"

definition PrepRecv :: "int \<Rightarrow> u64 \<times> nat \<Rightarrow> u64 \<Rightarrow> wire \<Rightarrow> wire option" where
  "PrepRecv f buf u s =
    (if snd buf = 0 then None
     else Some (s\<lparr>Opcode := IORING_OP_RECV, Fd := word_of_int f, Addr_w := fst buf, Len_w := of_nat (snd buf), UserData := u\<rparr>))"

definition PrepSend :: "int \<Rightarrow> u64 \<times> nat \<Rightarrow> u32 \<Rightarrow> u64 \<Rightarrow> wire \<Rightarrow> wire option" where
  "PrepSend f buf fl u s =
    (if snd buf = 0 then None
     else Some (s\<lparr>Opcode := IORING_OP_SEND, Fd := word_of_int f, Addr_w := fst buf, Len_w := of_nat (snd buf),
                  OpFlags := fl, UserData := u\<rparr>))"

definition PrepClose :: "int \<Rightarrow> u64 \<Rightarrow> wire \<Rightarrow> wire" where
  "PrepClose f u s = s\<lparr>Opcode := IORING_OP_CLOSE, Fd := word_of_int f, UserData := u\<rparr>"

definition PrepTimeout :: "u64 \<Rightarrow> u64 \<Rightarrow> wire \<Rightarrow> wire" where
  "PrepTimeout ts u s =
    s\<lparr>Opcode := IORING_OP_TIMEOUT, Fd := word_of_int (- 1), Addr_w := ts, Len_w := 1, Off := 0, UserData := u\<rparr>"

definition PrepSplice :: "int \<Rightarrow> int \<Rightarrow> int \<Rightarrow> int \<Rightarrow> u32 \<Rightarrow> u32 \<Rightarrow> u64 \<Rightarrow> wire \<Rightarrow> wire" where
  "PrepSplice fdIn offIn fdOut offOut nbytes fl u s =
    s\<lparr>Opcode := IORING_OP_SPLICE, Fd := word_of_int fdOut, Off := word_of_int offOut, Addr_w := word_of_int offIn,
      Len_w := nbytes, OpFlags := fl, SpliceFdIn := word_of_int fdIn, UserData := u\<rparr>"

definition PrepPollAdd :: "int \<Rightarrow> u32 \<Rightarrow> u64 \<Rightarrow> wire \<Rightarrow> wire" where
  "PrepPollAdd f ev u s = s\<lparr>Opcode := IORING_OP_POLL_ADD, Fd := word_of_int f, OpFlags := ev, UserData := u\<rparr>"

section \<open>The ring\<close>

record cqe =
  cqe_ud :: u64
  cqe_res :: int
  cqe_flags :: u32

record ring =
  rfd :: int
  sqes :: "wire list"
  sqArray :: "u32 list"
  cqes :: "cqe list"
  sqHead :: u32
  sqTail :: u32
  cqHead :: u32
  cqTail :: u32
  cqOverflow_r :: u32
  sqMask :: u32
  cqMask :: u32
  sqEntries :: u32
  cqEntries :: u32
  sqTailLocal :: u32
  cqHeadLocal :: u32
  toSubmit :: u32
  singleMmap :: bool
  noDrop :: bool

text \<open>\<open>GetSQE\<close>: the index of the entry handed out (the \<open>*SQE\<close> of the code), or \<open>None\<close> when the ring is full.\<close>

definition GetSQE :: "ring \<Rightarrow> (u32 \<times> ring) option" where
  "GetSQE r =
    (let head = sqHead r
     in if sqTailLocal r - head \<ge> sqEntries r then None
        else
          let idx = sqTailLocal r AND sqMask r
          in Some (idx, r\<lparr>sqes := (sqes r)[unat idx := zero_wire], sqArray := (sqArray r)[unat idx := idx],
                          sqTailLocal := sqTailLocal r + 1, toSubmit := toSubmit r + 1\<rparr>))"

definition write_sqe :: "u32 \<Rightarrow> wire \<Rightarrow> ring \<Rightarrow> ring" where
  "write_sqe idx w r = r\<lparr>sqes := (sqes r)[unat idx := w]\<rparr>"

text \<open>What one \<open>io_uring_enter\<close> returns: interrupted, an error number, or the number of entries consumed.\<close>

datatype enter_result = EINTR | Errno int | Submitted nat

text \<open>The kernel takes entries from the head, in order.\<close>

definition kernel_consume :: "nat \<Rightarrow> ring \<Rightarrow> ring" where
  "kernel_consume n r = r\<lparr>sqHead := sqHead r + of_nat n\<rparr>"

text \<open>
  A call of \<open>io_uring_enter\<close> with the number of entries to submit, of completions to wait for and the
  flags; the kernel's side of one call is a function of these arguments.
\<close>

type_synonym enter_call = "u32 \<times> u32 \<times> u32 \<Rightarrow> enter_result"

fun enter_loop :: "u32 \<Rightarrow> u32 \<Rightarrow> enter_call list \<Rightarrow> ring \<Rightarrow> ((int + nat) \<times> ring \<times> enter_call list) option" where
  "enter_loop waitNr fl [] r = None"
| "enter_loop waitNr fl (enter # es) r =
    (case enter (toSubmit r, waitNr, fl) of
       EINTR \<Rightarrow> enter_loop waitNr fl es r
     | Errno e \<Rightarrow> Some (Inl e, r, es)
     | Submitted n \<Rightarrow> Some (Inr n, (kernel_consume n r)\<lparr>toSubmit := 0\<rparr>, es))"

text \<open>
  \<open>Submit\<close>: the tail is published, then \<open>io_uring_enter\<close> is called until it is not interrupted. The
  list holds the successive calls (\<open>None\<close>: it runs out, the call does not return).
\<close>

definition Submit :: "u32 \<Rightarrow> enter_call list \<Rightarrow> ring \<Rightarrow> ((int + nat) \<times> ring \<times> enter_call list) option" where
  "Submit waitNr es r =
    (let r = r\<lparr>sqTail := sqTailLocal r\<rparr>;
         fl = (if waitNr > 0 then 1 else 0)
     in enter_loop waitNr fl es r)"

text \<open>The \<open>post\<close> closure of the worker: submit until there is room, with fuel for the iterations.\<close>

fun post_ring :: "nat \<Rightarrow> (wire \<Rightarrow> wire) \<Rightarrow> enter_call list \<Rightarrow> ring \<Rightarrow> (ring \<times> enter_call list) option" where
  "post_ring 0 prep es r = None"
| "post_ring (Suc fuel) prep es r =
    (case GetSQE r of
       Some (idx, r') \<Rightarrow> Some (write_sqe idx (prep (sqes r' ! unat idx)) r', es)
     | None \<Rightarrow>
         (case Submit 0 es r of
            None \<Rightarrow> None
          | Some (res, r', es') \<Rightarrow> post_ring fuel prep es' r'))"

definition CQReady :: "ring \<Rightarrow> u32" where
  "CQReady r = cqTail r - cqHeadLocal r"

definition PeekCQE :: "ring \<Rightarrow> u32 \<Rightarrow> cqe" where
  "PeekCQE r i = cqes r ! unat ((cqHeadLocal r + i) AND cqMask r)"

definition CQAdvance :: "u32 \<Rightarrow> ring \<Rightarrow> ring" where
  "CQAdvance n r = (let h = cqHeadLocal r + n in r\<lparr>cqHeadLocal := h, cqHead := h\<rparr>)"

definition CQOverflow_of :: "ring \<Rightarrow> u32" where
  "CQOverflow_of r = cqOverflow_r r"

text \<open>
  The kernel posting a completion: at the tail when there is room; else it is dropped and counted
  (a kernel with \<open>IORING_FEAT_NODROP\<close> keeps it back and posts it later).
\<close>

definition kernel_complete :: "cqe \<Rightarrow> ring \<Rightarrow> ring" where
  "kernel_complete e r =
    (if cqTail r - cqHead r < cqEntries r
     then r\<lparr>cqes := (cqes r)[unat (cqTail r AND cqMask r) := e], cqTail := cqTail r + 1\<rparr>
     else if noDrop r then r else r\<lparr>cqOverflow_r := cqOverflow_r r + 1\<rparr>)"

text \<open>The harvest loop of the worker: the completions seen, in order, and the ring after \<open>CQAdvance\<close>.\<close>

definition harvest :: "ring \<Rightarrow> cqe list \<times> ring" where
  "harvest r =
    (let n = CQReady r
     in (map (\<lambda>i. PeekCQE r (of_nat i)) [0..<unat n], CQAdvance n r))"

section \<open>Construction and teardown\<close>

text \<open>
  \<open>New\<close> sets up the ring and maps its regions; \<open>Close\<close> undoes it. The kernel's part is given by the
  result of \<open>io_uring_setup\<close> (an error number, or the descriptor and the parameters it fills in)
  and by which \<open>mmap\<close> calls succeed. What happens is recorded as the list of mappings made and
  the cleanup actions taken.
\<close>

record params =
  p_sqEntries :: u32
  p_cqEntries :: u32
  p_features :: u32
  p_sq_head :: u32
  p_sq_tail :: u32
  p_sq_mask :: u32
  p_sq_array :: u32
  p_cq_head :: u32
  p_cq_tail :: u32
  p_cq_mask :: u32
  p_cq_overflow :: u32
  p_cq_cqes :: u32

datatype region = SQRing | CQRing | SQEs

datatype cleanup = Munmap region | CloseFD int

datatype new_ring_error = SetupFailed int | MmapFailed region

record handles =
  h_fd :: int
  h_sqRing :: bool
  h_cqRing :: bool
  h_sqeMmap :: bool
  h_single :: bool
  h_noDrop :: bool

definition Close_ring :: "handles \<Rightarrow> cleanup list" where
  "Close_ring h =
    (if h_sqeMmap h then [Munmap SQEs] else []) @
    (if \<not> h_single h \<and> h_cqRing h then [Munmap CQRing] else []) @
    (if h_sqRing h then [Munmap SQRing] else []) @
    (if h_fd h \<noteq> 0 then [CloseFD (h_fd h)] else [])"

text \<open>The sizes of the two ring mappings, in 32-bit arithmetic as in the code.\<close>

definition ring_sizes :: "params \<Rightarrow> u32 \<times> u32" where
  "ring_sizes p =
    (let sqRingSz = p_sq_array p + p_sqEntries p * 4;
         cqRingSz = p_cq_cqes p + p_cqEntries p * 16
     in if p_features p AND 1 \<noteq> 0
        then (let m = (if cqRingSz > sqRingSz then cqRingSz else sqRingSz) in (m, m))
        else (sqRingSz, cqRingSz))"

text \<open>The result, the regions mapped, and the cleanup actions.\<close>

definition New_ring ::
  "int + (int \<times> params) \<Rightarrow> (region \<Rightarrow> nat \<Rightarrow> bool) \<Rightarrow> (new_ring_error + handles) \<times> region list \<times> cleanup list" where
  "New_ring setup mmap =
    (case setup of
       Inl e \<Rightarrow> (Inl (SetupFailed e), [], [])
     | Inr (f, p) \<Rightarrow>
         (let single = (p_features p AND 1 \<noteq> 0);
              h = \<lparr>h_fd = f, h_sqRing = False, h_cqRing = False, h_sqeMmap = False, h_single = single,
                   h_noDrop = (p_features p AND 2 \<noteq> 0)\<rparr>;
              (sqRingSz, cqRingSz) = ring_sizes p
          in if \<not> mmap SQRing (unat sqRingSz) then (Inl (MmapFailed SQRing), [], [CloseFD f])
             else
               let h = h\<lparr>h_sqRing := True\<rparr>
               in if \<not> single \<and> \<not> mmap CQRing (unat cqRingSz)
                  then (Inl (MmapFailed CQRing), [SQRing], Close_ring h)
                  else
                    let h = h\<lparr>h_cqRing := True\<rparr>;
                        mapped = (if single then [SQRing] else [SQRing, CQRing])
                    in if \<not> mmap SQEs (unat (p_sqEntries p) * struct_size sqe_sizes)
                       then (Inl (MmapFailed SQEs), mapped, Close_ring h)
                       else (Inr (h\<lparr>h_sqeMmap := True\<rparr>), mapped @ [SQEs], [])))"

text \<open>
  The rest of \<open>New\<close>: the fields of the ring point into the mapped regions at the offsets the kernel
  returned. \<open>mem\<close> gives the word at an offset of a region; a completion ring that shares the mapping
  of the submission ring is read there. The arrays are fresh pages, hence zero.
\<close>

definition zero_cqe :: cqe where
  "zero_cqe = \<lparr>cqe_ud = 0, cqe_res = 0, cqe_flags = 0\<rparr>"

definition init_ring :: "params \<Rightarrow> (region \<Rightarrow> u32 \<Rightarrow> u32) \<Rightarrow> handles \<Rightarrow> ring" where
  "init_ring p mem h =
    (let cq = (if h_single h then SQRing else CQRing)
     in \<lparr>rfd = h_fd h,
         sqes = replicate (unat (p_sqEntries p)) zero_wire,
         sqArray = replicate (unat (p_sqEntries p)) 0,
         cqes = replicate (unat (p_cqEntries p)) zero_cqe,
         sqHead = mem SQRing (p_sq_head p), sqTail = mem SQRing (p_sq_tail p),
         cqHead = mem cq (p_cq_head p), cqTail = mem cq (p_cq_tail p),
         cqOverflow_r = mem cq (p_cq_overflow p),
         sqMask = mem SQRing (p_sq_mask p), cqMask = mem cq (p_cq_mask p),
         sqEntries = p_sqEntries p, cqEntries = p_cqEntries p,
         sqTailLocal = mem SQRing (p_sq_tail p), cqHeadLocal = mem cq (p_cq_head p),
         toSubmit = 0, singleMmap = h_single h, noDrop = h_noDrop h\<rparr>)"

section \<open>Well-formed rings and what they hold\<close>

definition ring_wf :: "nat \<Rightarrow> nat \<Rightarrow> ring \<Rightarrow> bool" where
  "ring_wf k l r \<longleftrightarrow>
     k < 32 \<and> l < 32 \<and>
     sqEntries r = 2 ^ k \<and> sqMask r = mask k \<and> length (sqes r) = 2 ^ k \<and> length (sqArray r) = 2 ^ k \<and>
     unat (sqTailLocal r - sqHead r) \<le> 2 ^ k \<and>
     cqEntries r = 2 ^ l \<and> cqMask r = mask l \<and> length (cqes r) = 2 ^ l \<and>
     cqHead r = cqHeadLocal r \<and> unat (cqTail r - cqHeadLocal r) \<le> 2 ^ l"

text \<open>The entries prepared and not yet consumed, oldest first, through the index array as the kernel reads it.\<close>

definition sq_pending :: "ring \<Rightarrow> wire list" where
  "sq_pending r = map (\<lambda>i. sqes r ! unat (sqArray r ! unat ((sqHead r + of_nat i) AND sqMask r)))
     [0..<unat (sqTailLocal r - sqHead r)]"

definition cq_pending :: "ring \<Rightarrow> cqe list" where
  "cq_pending r = map (\<lambda>i. cqes r ! unat ((cqHeadLocal r + of_nat i) AND cqMask r)) [0..<unat (cqTail r - cqHeadLocal r)]"

text \<open>The slot of the \<open>i\<close>-th entry after the head, in plain arithmetic.\<close>

lemma slot_nat:
  fixes h :: u32
  assumes "k < 32"
  shows "unat ((h + of_nat i) AND mask k) = (unat h + i) mod 2 ^ k"
proof -
  have "unat ((h + of_nat i) AND mask k) = unat (h + of_nat i) mod 2 ^ k"
    by (simp only: take_bit_eq_mask [symmetric] unsigned_take_bit_eq) (simp only: take_bit_eq_mod)
  also have "unat (h + of_nat i) = (unat h + i) mod 2 ^ 32"
    by (simp add: unat_word_ariths unat_of_nat mod_simps)
  also have "(unat h + i) mod 2 ^ 32 mod 2 ^ k = (unat h + i) mod 2 ^ k"
    using assms by (intro mod_mod_cancel le_imp_power_dvd) simp
  finally show ?thesis .
qed

lemma slot_distinct:
  fixes h :: nat
  assumes "i < j" "j - i < 2 ^ k"
  shows "(h + i) mod 2 ^ k \<noteq> (h + j) mod 2 ^ k"
proof
  assume "(h + i) mod 2 ^ k = (h + j) mod 2 ^ k"
  then have "2 ^ k dvd (h + j) - (h + i)" using mod_eq_dvd_iff_nat [of "h + i" "h + j" "2 ^ k"] assms(1) by simp
  then have "2 ^ k dvd j - i" by simp
  with assms show False by (auto dest!: dvd_imp_le)
qed

section \<open>The submission ring is a queue\<close>

text \<open>The index array holds the identity on every slot in use.\<close>

definition sq_slots_ok :: "ring \<Rightarrow> bool" where
  "sq_slots_ok r \<longleftrightarrow> (\<forall>i<unat (sqTailLocal r - sqHead r).
     sqArray r ! unat ((sqHead r + of_nat i) AND sqMask r) = (sqHead r + of_nat i) AND sqMask r)"

definition sq_ok :: "nat \<Rightarrow> nat \<Rightarrow> ring \<Rightarrow> bool" where
  "sq_ok k l r \<longleftrightarrow> ring_wf k l r \<and> sq_slots_ok r"

lemma sq_pending_eq:
  assumes "sq_ok k l r"
  shows "sq_pending r = map (\<lambda>i. sqes r ! ((unat (sqHead r) + i) mod 2 ^ k)) [0..<unat (sqTailLocal r - sqHead r)]"
proof -
  have k: "k < 32" and m: "sqMask r = mask k" using assms by (auto simp: sq_ok_def ring_wf_def)
  have "sqArray r ! unat ((sqHead r + of_nat i) AND mask k) = (sqHead r + of_nat i) AND mask k"
    if "i < unat (sqTailLocal r - sqHead r)" for i
    using assms that m by (simp add: sq_ok_def sq_slots_ok_def)
  then show ?thesis unfolding sq_pending_def m by (simp add: slot_nat [OF k])
qed

lemma unat_succ: "unat (x :: u32) < 2 ^ k \<Longrightarrow> k < 32 \<Longrightarrow> unat (x + 1) = unat x + 1"
proof -
  assume x: "unat x < 2 ^ k" and k: "k < 32"
  have "(2::nat) ^ k \<le> 2 ^ 31" using k by (intro power_increasing) auto
  then show "unat (x + 1) = unat x + 1" using x by (simp add: unat_word_ariths)
qed

lemma unat_2p: "k < 32 \<Longrightarrow> unat ((2::u32) ^ k) = 2 ^ k"
proof -
  assume "k < 32"
  then have "(2::nat) ^ k < 2 ^ 32" by (intro power_strict_increasing) auto
  moreover have "(2::u32) ^ k = of_nat (2 ^ k)" by simp
  ultimately show "unat ((2::u32) ^ k) = 2 ^ k" by (simp only: unat_of_nat) simp
qed

lemma GetSQE_full:
  assumes "ring_wf k l r"
  shows "GetSQE r = None \<longleftrightarrow> length (sq_pending r) = 2 ^ k"
proof -
  have "sqEntries r = 2 ^ k" "k < 32" "unat (sqTailLocal r - sqHead r) \<le> 2 ^ k" using assms by (auto simp: ring_wf_def)
  moreover from this have "unat ((2::u32) ^ k) = 2 ^ k" by (simp only: unat_2p)
  ultimately show ?thesis by (auto simp: GetSQE_def Let_def sq_pending_def word_le_nat_alt)
qed

text \<open>Handing out an entry and writing it appends to the queue; nothing pending is touched.\<close>

lemma enqueue_ok:
  assumes v: "sq_ok k l r" and g: "GetSQE r = Some (idx, r')"
  shows "sq_ok k l (write_sqe idx w r')" "sq_pending (write_sqe idx w r') = sq_pending r @ [w]"
    "sqes r' ! unat idx = zero_wire" "toSubmit (write_sqe idx w r') = toSubmit r + 1"
proof -
  let ?n = "unat (sqTailLocal r - sqHead r)" and ?h = "unat (sqHead r)"
  let ?q = "write_sqe idx w r'"
  have wf: "k < 32" "sqMask r = mask k" "sqEntries r = 2 ^ k" "length (sqes r) = 2 ^ k" "length (sqArray r) = 2 ^ k"
    using v by (auto simp: sq_ok_def ring_wf_def)
  have idx: "idx = sqTailLocal r AND mask k"
    and r': "r' = r\<lparr>sqes := (sqes r)[unat idx := zero_wire], sqArray := (sqArray r)[unat idx := idx],
        sqTailLocal := sqTailLocal r + 1, toSubmit := toSubmit r + 1\<rparr>"
    and room: "\<not> sqEntries r \<le> sqTailLocal r - sqHead r"
    using g wf(2) by (auto simp: GetSQE_def Let_def split: if_splits)
  have n: "?n < 2 ^ k" using room unat_2p [OF wf(1)] by (simp add: wf(3) word_le_nat_alt)
  have t: "sqTailLocal r = sqHead r + of_nat ?n" by simp
  have ui: "unat idx = (?h + ?n) mod 2 ^ k"
    using slot_nat [OF wf(1), of "sqHead r" ?n] unfolding idx t [symmetric] .
  have lt: "unat idx < 2 ^ k" unfolding ui by simp
  have "sqTailLocal ?q - sqHead ?q = (sqTailLocal r - sqHead r) + 1" by (simp add: r' write_sqe_def)
  then have n': "unat (sqTailLocal ?q - sqHead ?q) = ?n + 1" using unat_succ [OF n wf(1)] by simp
  have same: "(?h + i) mod 2 ^ k \<noteq> unat idx" if "i < ?n" for i
    unfolding ui by (rule slot_distinct) (use that n in auto)
  have sl: "sqArray ?q ! unat ((sqHead r + of_nat i) AND mask k) = (sqHead r + of_nat i) AND mask k" if i: "i < ?n + 1" for i
  proof (cases "i = ?n")
    case True
    then have "(sqHead r + of_nat i) AND mask k = idx" using idx t by simp
    then show ?thesis using lt wf(5) by (simp add: r' write_sqe_def)
  next
    case False
    then have "i < ?n" using i by simp
    moreover from this have "unat ((sqHead r + of_nat i) AND mask k) \<noteq> unat idx"
      using same by (simp add: slot_nat [OF wf(1)])
    ultimately show ?thesis using v wf by (simp add: r' write_sqe_def sq_ok_def sq_slots_ok_def)
  qed
  have "ring_wf k l ?q" using v n n' wf by (simp add: sq_ok_def ring_wf_def r' write_sqe_def)
  moreover have "sq_slots_ok ?q" using sl n' wf by (simp add: sq_slots_ok_def r' write_sqe_def)
  ultimately show ok: "sq_ok k l ?q" by (simp add: sq_ok_def)
  have nth: "sqes ?q ! ((?h + i) mod 2 ^ k) = (if i = ?n then w else sqes r ! ((?h + i) mod 2 ^ k))" if "i < ?n + 1" for i
    using that same [of i] ui lt wf(4) by (auto simp: r' write_sqe_def)
  have h: "sqHead ?q = sqHead r" by (simp add: r' write_sqe_def)
  show "sq_pending ?q = sq_pending r @ [w]"
    unfolding sq_pending_eq [OF ok] sq_pending_eq [OF v] n' unfolding h using nth by auto
  show "sqes r' ! unat idx = zero_wire" "toSubmit ?q = toSubmit r + 1"
    using lt wf(4) by (simp_all add: r' write_sqe_def)
qed

text \<open>The kernel consuming \<open>n\<close> entries takes the \<open>n\<close> oldest.\<close>

lemma consume_ok:
  assumes v: "sq_ok k l r" and n: "n \<le> length (sq_pending r)"
  shows "sq_ok k l (kernel_consume n r)" "sq_pending (kernel_consume n r) = drop n (sq_pending r)"
proof -
  let ?m = "unat (sqTailLocal r - sqHead r)" and ?r = "kernel_consume n r"
  have wf: "k < 32" "sqMask r = mask k" using v by (auto simp: sq_ok_def ring_wf_def)
  have nm: "n \<le> ?m" using n by (simp add: sq_pending_def)
  have "?m < 2 ^ LENGTH(32)" by (rule unsigned_less)
  then have lt: "n < 2 ^ 32" using nm by simp
  have "sqTailLocal ?r - sqHead ?r = (sqTailLocal r - sqHead r) - of_nat n" by (simp add: kernel_consume_def)
  moreover have "unat ((sqTailLocal r - sqHead r) - of_nat n) = ?m - n"
    using nm lt by (subst unat_sub) (simp_all add: word_le_nat_alt unat_of_nat)
  ultimately have m': "unat (sqTailLocal ?r - sqHead ?r) = ?m - n" by simp
  have sh: "sqHead ?r + of_nat i = sqHead r + of_nat (n + i)" for i by (simp add: kernel_consume_def)
  have "ring_wf k l ?r" using v m' by (auto simp: sq_ok_def ring_wf_def kernel_consume_def)
  moreover have "sqArray r ! unat ((sqHead r + of_nat (n + i)) AND sqMask r) = (sqHead r + of_nat (n + i)) AND sqMask r"
    if "i < ?m - n" for i
    using v that nm unfolding sq_ok_def sq_slots_ok_def by (metis add.commute less_diff_conv)
  then have "sq_slots_ok ?r"
    unfolding sq_slots_ok_def m' sh by (simp add: kernel_consume_def)
  ultimately show ok: "sq_ok k l ?r" by (simp add: sq_ok_def)
  have "unat (sqHead ?r + of_nat i AND mask k) = (unat (sqHead r) + (n + i)) mod 2 ^ k" for i
    unfolding sh by (rule slot_nat [OF wf(1)])
  then have e: "(unat (sqHead ?r) + i) mod 2 ^ k = (unat (sqHead r) + (n + i)) mod 2 ^ k" for i
    using slot_nat [OF wf(1), of "sqHead ?r" i] by simp
  show "sq_pending ?r = drop n (sq_pending r)"
    unfolding sq_pending_eq [OF ok] sq_pending_eq [OF v] m' e
    by (rule nth_equalityI) (auto simp: kernel_consume_def)
qed

section \<open>The completion ring is a queue\<close>

lemma cq_pending_eq:
  assumes "ring_wf k l r"
  shows "cq_pending r = map (\<lambda>i. cqes r ! ((unat (cqHeadLocal r) + i) mod 2 ^ l)) [0..<unat (cqTail r - cqHeadLocal r)]"
  using assms by (simp add: cq_pending_def ring_wf_def slot_nat)

lemma complete_room:
  assumes "ring_wf k l r"
  shows "cqTail r - cqHead r < cqEntries r \<longleftrightarrow> length (cq_pending r) < 2 ^ l"
  using assms by (auto simp: ring_wf_def cq_pending_def word_less_nat_alt unat_2p)

lemma kernel_complete_ok:
  assumes v: "ring_wf k l r" and room: "length (cq_pending r) < 2 ^ l"
  shows "ring_wf k l (kernel_complete e r)" "cq_pending (kernel_complete e r) = cq_pending r @ [e]"
proof -
  let ?n = "unat (cqTail r - cqHeadLocal r)" and ?h = "unat (cqHeadLocal r)"
  let ?slot = "unat (cqTail r AND mask l)" and ?q = "kernel_complete e r"
  have wf: "l < 32" "cqMask r = mask l" "length (cqes r) = 2 ^ l" "cqHead r = cqHeadLocal r"
    using v by (auto simp: ring_wf_def)
  have n: "?n < 2 ^ l" using room by (simp add: cq_pending_def)
  have q: "?q = r\<lparr>cqes := (cqes r)[?slot := e], cqTail := cqTail r + 1\<rparr>"
    using complete_room [OF v] room by (simp add: kernel_complete_def wf(2))
  have ui: "?slot = (?h + ?n) mod 2 ^ l" using slot_nat [OF wf(1), of "cqHeadLocal r" ?n] by simp
  have lt: "?slot < 2 ^ l" unfolding ui by simp
  have "cqTail ?q - cqHeadLocal ?q = (cqTail r - cqHeadLocal r) + 1" by (simp add: q)
  then have n': "unat (cqTail ?q - cqHeadLocal ?q) = ?n + 1" using unat_succ [OF n wf(1)] by simp
  have same: "(?h + i) mod 2 ^ l \<noteq> ?slot" if "i < ?n" for i
    unfolding ui by (rule slot_distinct) (use that n in auto)
  show ok: "ring_wf k l ?q" using v n n' by (auto simp: ring_wf_def q)
  have nth: "cqes ?q ! ((?h + i) mod 2 ^ l) = (if i = ?n then e else cqes r ! ((?h + i) mod 2 ^ l))" if "i < ?n + 1" for i
    using that same [of i] ui lt wf(3) by (auto simp: q)
  have h: "cqHeadLocal ?q = cqHeadLocal r" by (simp add: q)
  show "cq_pending ?q = cq_pending r @ [e]"
    unfolding cq_pending_eq [OF ok] cq_pending_eq [OF v] n' unfolding h using nth by auto
qed

lemma CQAdvance_ok:
  assumes v: "ring_wf k l r" and n: "n \<le> length (cq_pending r)"
  shows "ring_wf k l (CQAdvance (of_nat n) r)" "cq_pending (CQAdvance (of_nat n) r) = drop n (cq_pending r)"
proof -
  let ?m = "unat (cqTail r - cqHeadLocal r)" and ?r = "CQAdvance (of_nat n) r"
  have wf: "l < 32" using v by (auto simp: ring_wf_def)
  have nm: "n \<le> ?m" using n by (simp add: cq_pending_def)
  have "?m < 2 ^ LENGTH(32)" by (rule unsigned_less)
  then have lt: "n < 2 ^ 32" using nm by simp
  have "cqTail ?r - cqHeadLocal ?r = (cqTail r - cqHeadLocal r) - of_nat n" by (simp add: CQAdvance_def Let_def)
  moreover have "unat ((cqTail r - cqHeadLocal r) - of_nat n) = ?m - n"
    using nm lt by (subst unat_sub) (simp_all add: word_le_nat_alt unat_of_nat)
  ultimately have m': "unat (cqTail ?r - cqHeadLocal ?r) = ?m - n" by simp
  show ok: "ring_wf k l ?r" using v m' by (auto simp: ring_wf_def CQAdvance_def Let_def)
  have "unat (cqHeadLocal ?r + of_nat i AND mask l) = (unat (cqHeadLocal r) + (n + i)) mod 2 ^ l" for i
    using slot_nat [OF wf, of "cqHeadLocal r" "n + i"] by (simp add: CQAdvance_def Let_def add.assoc)
  then have e: "(unat (cqHeadLocal ?r) + i) mod 2 ^ l = (unat (cqHeadLocal r) + (n + i)) mod 2 ^ l" for i
    using slot_nat [OF wf, of "cqHeadLocal ?r" i] by simp
  show "cq_pending ?r = drop n (cq_pending r)"
    unfolding cq_pending_eq [OF ok] cq_pending_eq [OF v] m' e
    by (rule nth_equalityI) (auto simp: CQAdvance_def Let_def)
qed

section \<open>The interface of a shared ring\<close>

text \<open>
  What the worker relies on of either ring: a bounded first-in first-out queue with one producer and
  one consumer. \<open>put\<close> fails exactly when the queue is full.
\<close>

datatype 'e ring_op = Put 'e | Take nat

text \<open>A history of operations: what was accepted into the queue and what was taken out of it.\<close>

fun run_ops ::
  "('q \<Rightarrow> 'e list) \<Rightarrow> ('e \<Rightarrow> 'q \<Rightarrow> 'q option) \<Rightarrow> (nat \<Rightarrow> 'q \<Rightarrow> 'q) \<Rightarrow> 'e ring_op list \<Rightarrow> 'q \<Rightarrow> 'e list \<times> 'e list \<times> 'q" where
  "run_ops pend put tak [] q = ([], [], q)"
| "run_ops pend put tak (Put e # ops) q =
    (case put e q of
       None \<Rightarrow> run_ops pend put tak ops q
     | Some q' \<Rightarrow> let (ins, outs, q'') = run_ops pend put tak ops q' in (e # ins, outs, q''))"
| "run_ops pend put tak (Take n # ops) q =
    (let k = min n (length (pend q));
         (ins, outs, q'') = run_ops pend put tak ops (tak k q)
     in (ins, take k (pend q) @ outs, q''))"

locale shared_ring =
  fixes wf :: "'q \<Rightarrow> bool" and pend :: "'q \<Rightarrow> 'e list" and cap :: nat
    and put :: "'e \<Rightarrow> 'q \<Rightarrow> 'q option" and tak :: "nat \<Rightarrow> 'q \<Rightarrow> 'q"
  assumes cap_bound: "wf q \<Longrightarrow> length (pend q) \<le> cap"
    and put_full: "wf q \<Longrightarrow> put e q = None \<longleftrightarrow> length (pend q) = cap"
    and put_some: "wf q \<Longrightarrow> put e q = Some q' \<Longrightarrow> wf q' \<and> pend q' = pend q @ [e]"
    and tak_ok: "wf q \<Longrightarrow> n \<le> length (pend q) \<Longrightarrow> wf (tak n q) \<and> pend (tak n q) = drop n (pend q)"
begin

lemma run_ops_fifo:
  "wf q \<Longrightarrow> run_ops pend put tak ops q = (ins, outs, q') \<Longrightarrow> wf q' \<and> pend q @ ins = outs @ pend q'"
proof (induction ops arbitrary: q ins outs q')
  case Nil
  then show ?case by simp
next
  case (Cons op ops)
  show ?case
  proof (cases op)
    case (Put e)
    show ?thesis
    proof (cases "put e q")
      case None
      then show ?thesis using Cons Put by simp
    next
      case (Some q1)
      obtain ins1 where r: "run_ops pend put tak ops q1 = (ins1, outs, q')" "ins = e # ins1"
        using Cons.prems(2) Put Some by (auto split: prod.splits)
      have "wf q1" "pend q1 = pend q @ [e]" using put_some [OF Cons.prems(1) Some] by auto
      with Cons.IH [OF _ r(1)] r(2) show ?thesis by simp
    qed
  next
    case (Take n)
    let ?k = "min n (length (pend q))"
    obtain outs1 where r: "run_ops pend put tak ops (tak ?k q) = (ins, outs1, q')" "outs = take ?k (pend q) @ outs1"
      using Cons.prems(2) Take by (auto split: prod.splits simp: Let_def)
    have "wf (tak ?k q)" "pend (tak ?k q) = drop ?k (pend q)" using tak_ok [OF Cons.prems(1), of ?k] by auto
    with Cons.IH [OF _ r(1)] r(2) show ?thesis by (metis append_assoc append_take_drop_id)
  qed
qed

end

definition ring_put :: "wire \<Rightarrow> ring \<Rightarrow> ring option" where
  "ring_put w r = (case GetSQE r of None \<Rightarrow> None | Some (idx, r') \<Rightarrow> Some (write_sqe idx w r'))"

definition ring_complete :: "cqe \<Rightarrow> ring \<Rightarrow> ring option" where
  "ring_complete e r = (if cqTail r - cqHead r < cqEntries r then Some (kernel_complete e r) else None)"

interpretation sq: shared_ring "sq_ok k l" sq_pending "2 ^ k" ring_put kernel_consume for k l
proof
  fix q q' :: ring and e :: wire and n :: nat
  assume v: "sq_ok k l q"
  then have wf: "ring_wf k l q" by (simp add: sq_ok_def)
  show "length (sq_pending q) \<le> 2 ^ k" using wf by (simp add: sq_pending_def ring_wf_def)
  show "ring_put e q = None \<longleftrightarrow> length (sq_pending q) = 2 ^ k"
    using GetSQE_full [OF wf] by (auto simp: ring_put_def split: option.split)
  show "ring_put e q = Some q' \<Longrightarrow> sq_ok k l q' \<and> sq_pending q' = sq_pending q @ [e]"
    using enqueue_ok(1,2) [OF v] by (auto simp: ring_put_def split: option.splits)
  show "n \<le> length (sq_pending q) \<Longrightarrow> sq_ok k l (kernel_consume n q) \<and> sq_pending (kernel_consume n q) = drop n (sq_pending q)"
    using consume_ok [OF v] by blast
qed

interpretation cq: shared_ring "ring_wf k l" cq_pending "2 ^ l" ring_complete "\<lambda>n. CQAdvance (of_nat n)" for k l
proof
  fix q q' :: ring and e :: cqe and n :: nat
  assume v: "ring_wf k l q"
  show le: "length (cq_pending q) \<le> 2 ^ l" using v by (simp add: cq_pending_def ring_wf_def)
  show "ring_complete e q = None \<longleftrightarrow> length (cq_pending q) = 2 ^ l"
    using complete_room [OF v] le by (auto simp: ring_complete_def)
  show "ring_complete e q = Some q' \<Longrightarrow> ring_wf k l q' \<and> cq_pending q' = cq_pending q @ [e]"
    using kernel_complete_ok [OF v] complete_room [OF v] by (auto simp: ring_complete_def split: if_splits)
  show "n \<le> length (cq_pending q) \<Longrightarrow>
      ring_wf k l (CQAdvance (of_nat n) q) \<and> cq_pending (CQAdvance (of_nat n) q) = drop n (cq_pending q)"
    using CQAdvance_ok [OF v] by blast
qed

end
