(* ===== verification/Uring_Properties.thy ===== *)
theory Uring_Properties
  imports Uring Worker
begin

text \<open>
  Properties of the io_uring binding: the struct layout, the two rings as queues, the posting loop, and the
  accounting of what is still to be submitted.
\<close>

section \<open>The layout of the structs\<close>

text \<open>
  The structs have the layout of the kernel ABI: the offsets the comments of \<open>SQE\<close> and \<open>CQE\<close>
  give, 64 and 16 bytes.
\<close>

theorem struct_layout:
  "offsets_from 0 sqe_sizes = [0, 1, 2, 4, 8, 16, 24, 28, 32, 40, 42, 44, 48, 56] \<and> struct_size sqe_sizes = 64 \<and>
   offsets_from 0 cqe_sizes = [0, 8, 12] \<and> struct_size cqe_sizes = 16"
  by code_simp

section \<open>The rings as queues\<close>

text \<open>
  C15. The submission ring is a first-in first-out queue: over any history of handing out entries and
  of the kernel consuming some, entries are consumed in the order they were prepared, each exactly
  once and unchanged, whatever the 32-bit indices wrap around.
\<close>

theorem submission_fifo:
  assumes "sq_ok k l r" and "run_ops sq_pending ring_put kernel_consume ops r = (ins, outs, r')"
  shows "sq_ok k l r' \<and> sq_pending r @ ins = outs @ sq_pending r'"
  by (rule sq.run_ops_fifo [OF assms])

text \<open>A ring of two entries whose indices are about to wrap.\<close>

definition demo_ring :: ring where
  "demo_ring = \<lparr>rfd = 5, sqes = [zero_wire, zero_wire], sqArray = [0, 0],
     cqes = replicate 4 \<lparr>cqe_ud = 0, cqe_res = 0, cqe_flags = 0\<rparr>,
     sqHead = - 1, sqTail = - 1, cqHead = - 2, cqTail = - 2, cqOverflow_r = 0, sqMask = 1, cqMask = 3, sqEntries = 2,
     cqEntries = 4, sqTailLocal = - 1, cqHeadLocal = - 2, toSubmit = 0, singleMmap = True, noDrop = False\<rparr>"

lemma demo_ring_ok: "sq_ok 1 2 demo_ring"
proof -
  have "mask 1 = (1 :: u32)" "mask 2 = (3 :: u32)" by (simp_all add: mask_eq_exp_minus_1)
  then show ?thesis by (simp add: sq_ok_def ring_wf_def sq_slots_ok_def demo_ring_def)
qed

definition demo_ops :: "wire ring_op list" where
  "demo_ops = [Put (PrepClose 7 1 zero_wire), Put (PrepClose 8 2 zero_wire), Take 1, Put (PrepClose 9 3 zero_wire), Take 2]"

lemma submission_fifo_witness:
  "fst (snd (run_ops sq_pending ring_put kernel_consume demo_ops demo_ring)) =
    [PrepClose 7 1 zero_wire, PrepClose 8 2 zero_wire, PrepClose 9 3 zero_wire]"
proof -
  let ?r = "run_ops sq_pending ring_put kernel_consume demo_ops demo_ring"
  have "fst ?r = [PrepClose 7 1 zero_wire, PrepClose 8 2 zero_wire, PrepClose 9 3 zero_wire]"
    "sq_pending (snd (snd ?r)) = []" "sq_pending demo_ring = []" by code_simp+
  moreover have "?r = (fst ?r, fst (snd ?r), snd (snd ?r))" by (simp only: prod.collapse)
  from submission_fifo [OF demo_ring_ok this]
  have "sq_pending demo_ring @ fst ?r = fst (snd ?r) @ sq_pending (snd (snd ?r))" by (rule conjunct2)
  ultimately show ?thesis by (simp only: append_Nil append_Nil2)
qed

definition harvest_during :: "cqe list \<Rightarrow> ring \<Rightarrow> cqe list \<times> ring" where
  "harvest_during es r =
    (let n = CQReady r;
         r' = fold kernel_complete es r
     in (map (\<lambda>i. PeekCQE r' (of_nat i)) [0..<unat n], CQAdvance n r'))"

lemma PeekCQE_pending: "i < length (cq_pending r) \<Longrightarrow> PeekCQE r (of_nat i) = cq_pending r ! i"
  by (simp add: PeekCQE_def cq_pending_def)

lemma fold_complete:
  "ring_wf k l r \<Longrightarrow> length (cq_pending r) + length es \<le> 2 ^ l \<Longrightarrow>
   ring_wf k l (fold kernel_complete es r) \<and> cq_pending (fold kernel_complete es r) = cq_pending r @ es \<and>
   cqHeadLocal (fold kernel_complete es r) = cqHeadLocal r"
proof (induction es arbitrary: r)
  case (Cons e es)
  have room: "length (cq_pending r) < 2 ^ l" using Cons.prems(2) by simp
  note kc = kernel_complete_ok [OF Cons.prems(1) room, of e]
  have "cqHeadLocal (kernel_complete e r) = cqHeadLocal r" by (simp add: kernel_complete_def)
  with Cons.IH [OF kc(1)] kc(2) Cons.prems(2) show ?case by simp
qed simp

text \<open>
  Harvesting: the completions one pass of the loop reads are exactly those pending at \<open>CQReady\<close>, in
  order, even when the kernel posts more before \<open>CQAdvance\<close>; those stay pending, in order, for the
  next pass, and none is lost while there is room.
\<close>

theorem harvest_exact:
  assumes "ring_wf k l r" and "length (cq_pending r) + length es \<le> 2 ^ l"
  shows "fst (harvest_during es r) = cq_pending r \<and> cq_pending (snd (harvest_during es r)) = es \<and>
    ring_wf k l (snd (harvest_during es r))"
proof -
  let ?r = "fold kernel_complete es r" and ?n = "unat (CQReady r)"
  have f: "ring_wf k l ?r" "cq_pending ?r = cq_pending r @ es" "cqHeadLocal ?r = cqHeadLocal r"
    using fold_complete [OF assms] by auto
  have n: "length (cq_pending r) = ?n" by (simp add: cq_pending_def CQReady_def)
  have "PeekCQE ?r (of_nat i) = cq_pending ?r ! i" if "i < ?n" for i
    by (rule PeekCQE_pending) (use that n in \<open>simp add: f(2)\<close>)
  then have "map (\<lambda>i. PeekCQE ?r (of_nat i)) [0..<?n] = cq_pending r"
    by (intro nth_equalityI) (simp_all add: f(2) n nth_append)
  moreover have "cq_pending (CQAdvance (of_nat ?n) ?r) = es \<and> ring_wf k l (CQAdvance (of_nat ?n) ?r)"
    using CQAdvance_ok [OF f(1), of ?n] by (simp add: f(2) n)
  ultimately show ?thesis by (simp add: harvest_during_def Let_def)
qed

lemma harvest_exact_witness:
  "fst (harvest_during [\<lparr>cqe_ud = 2, cqe_res = 5, cqe_flags = 0\<rparr>] (kernel_complete \<lparr>cqe_ud = 1, cqe_res = 4, cqe_flags = 0\<rparr> demo_ring))
    = [\<lparr>cqe_ud = 1, cqe_res = 4, cqe_flags = 0\<rparr>]"
proof -
  let ?r = "kernel_complete \<lparr>cqe_ud = 1, cqe_res = 4, cqe_flags = 0\<rparr> demo_ring"
  have w: "ring_wf 1 2 demo_ring" using demo_ring_ok by (simp add: sq_ok_def)
  have p: "cq_pending demo_ring = []" "cq_pending ?r = [\<lparr>cqe_ud = 1, cqe_res = 4, cqe_flags = 0\<rparr>]" by code_simp+
  have "ring_wf 1 2 ?r" by (rule kernel_complete_ok [OF w]) (simp add: p)
  from harvest_exact [OF this, of "[\<lparr>cqe_ud = 2, cqe_res = 5, cqe_flags = 0\<rparr>]"] show ?thesis by (simp add: p)
qed

section \<open>Posting and submitting\<close>

lemma enter_loop_EINTR: "enter_loop w fl (replicate m (\<lambda>_. EINTR) @ es) r = enter_loop w fl es r"
  by (induction m) simp_all

definition failing :: "enter_call \<Rightarrow> ring \<Rightarrow> bool" where
  "failing enter r \<longleftrightarrow> (case enter (toSubmit r, 0, 0) of Submitted n \<Rightarrow> False | _ \<Rightarrow> True)"

lemma enter_loop_failing:
  "\<forall>e\<in>set es. failing e r \<Longrightarrow>
   enter_loop 0 0 es r = None \<or> (\<exists>err es'. enter_loop 0 0 es r = Some (Inl err, r, es') \<and> set es' \<subseteq> set es)"
proof (induction es)
  case (Cons e es)
  then show ?case by (cases "e (toSubmit r, 0, 0)") (fastforce simp: failing_def)+
qed simp

lemma post_spins:
  "GetSQE r = None \<Longrightarrow> \<forall>e\<in>set es. failing e r \<Longrightarrow> post_ring fuel prep es r = None"
proof (induction fuel arbitrary: es r)
  case (Suc fuel)
  let ?r = "r\<lparr>sqTail := sqTailLocal r\<rparr>"
  have f: "\<forall>e\<in>set es. failing e ?r" and g: "GetSQE ?r = None"
    using Suc.prems by (simp_all add: failing_def GetSQE_def Let_def split: if_splits)
  from enter_loop_failing [OF f] show ?case
  proof
    assume "enter_loop 0 0 es ?r = None"
    with Suc.prems(1) show ?thesis by (simp add: Submit_def Let_def)
  next
    assume "\<exists>err es'. enter_loop 0 0 es ?r = Some (Inl err, ?r, es') \<and> set es' \<subseteq> set es"
    then obtain err es' where e: "Submit 0 es r = Some (Inl err, ?r, es')" "set es' \<subseteq> set es"
      by (auto simp: Submit_def Let_def)
    then have "post_ring fuel prep es' ?r = None" using f g by (intro Suc.IH) auto
    with Suc.prems(1) e(1) show ?thesis by simp
  qed
qed simp

lemma posts:
  assumes "sq_ok k l r" and "es = replicate m (\<lambda>_. EINTR) @ enter # es'" and "enter (toSubmit r, 0, 0) = Submitted n"
    and "0 < n" and "n \<le> length (sq_pending r)"
  shows "\<exists>r'. post_ring (Suc (Suc fuel)) prep es r =
      Some (r', if length (sq_pending r) < 2 ^ k then es else es') \<and> sq_ok k l r' \<and>
    sq_pending r' = (if length (sq_pending r) < 2 ^ k then sq_pending r else drop n (sq_pending r)) @ [prep zero_wire]"
proof (cases "GetSQE r")
  case None
  let ?s = "(kernel_consume n (r\<lparr>sqTail := sqTailLocal r\<rparr>))\<lparr>toSubmit := 0\<rparr>"
  have full: "length (sq_pending r) = 2 ^ k" using None GetSQE_full assms(1) by (auto simp: sq_ok_def)
  have sub: "Submit 0 es r = Some (Inr n, ?s, es')"
    unfolding assms(2) Submit_def by (simp add: enter_loop_EINTR assms(3))
  have eq: "sq_ok k l ?s = sq_ok k l (kernel_consume n r)" "sq_pending ?s = sq_pending (kernel_consume n r)"
    by (simp_all add: sq_ok_def ring_wf_def sq_slots_ok_def sq_pending_def kernel_consume_def)
  have s: "sq_ok k l ?s" "sq_pending ?s = drop n (sq_pending r)" using consume_ok [OF assms(1,5)] eq by auto
  have "(0::nat) < 2 ^ k" by simp
  then have "length (sq_pending ?s) < 2 ^ k" unfolding s(2) length_drop full using assms(4) by (rule diff_less [rotated])
  then have "GetSQE ?s \<noteq> None" using GetSQE_full [of k l ?s] s(1) by (simp add: sq_ok_def)
  then obtain idx r1 where g: "GetSQE ?s = Some (idx, r1)" by auto
  from enqueue_ok(1,2) [OF s(1) g, of "prep zero_wire"] enqueue_ok(3) [OF s(1) g] show ?thesis
    using None sub g s(2) full by simp
next
  case (Some p)
  obtain idx r1 where g: "GetSQE r = Some (idx, r1)" using Some by (cases p) auto
  have "length (sq_pending r) \<noteq> 2 ^ k" using g GetSQE_full [of k l r] assms(1) by (auto simp: sq_ok_def)
  moreover have "length (sq_pending r) \<le> 2 ^ k" using assms(1) by (simp add: sq_ok_def ring_wf_def sq_pending_def)
  ultimately show ?thesis using enqueue_ok(1,2) [OF assms(1) g, of "prep zero_wire"] enqueue_ok(3) [OF assms(1) g] g by simp
qed

text \<open>
  C25. Posting always succeeds when the kernel makes progress: with room in the ring at once, else
  after one submission (which may be interrupted any number of times) that consumes at least one
  entry; the new entry is appended behind everything still pending. But the error of a submission is ignored:
  with the ring full and the kernel refusing, no number of iterations posts anything.
\<close>

theorem post_succeeds:
  assumes "sq_ok k l r"
  shows "(\<forall>m enter n es fuel. enter (toSubmit r, 0, 0) = Submitted n \<and> 0 < n \<and> n \<le> length (sq_pending r) \<longrightarrow>
      (let es' = replicate m (\<lambda>_. EINTR) @ enter # es; room = length (sq_pending r) < 2 ^ k
       in \<exists>r'. post_ring (Suc (Suc fuel)) prep es' r = Some (r', if room then es' else es) \<and> sq_ok k l r' \<and>
         sq_pending r' = (if room then sq_pending r else drop n (sq_pending r)) @ [prep zero_wire])) \<and>
   (length (sq_pending r) = 2 ^ k \<longrightarrow>
      (\<forall>es fuel. (\<forall>e\<in>set es. failing e r) \<longrightarrow> post_ring fuel prep es r = None))"
proof (intro conjI allI impI)
  fix m n fuel :: nat and enter :: enter_call and es :: "enter_call list"
  assume "enter (toSubmit r, 0, 0) = Submitted n \<and> 0 < n \<and> n \<le> length (sq_pending r)"
  then show "let es' = replicate m (\<lambda>_. EINTR) @ enter # es; room = length (sq_pending r) < 2 ^ k
       in \<exists>r'. post_ring (Suc (Suc fuel)) prep es' r = Some (r', if room then es' else es) \<and> sq_ok k l r' \<and>
         sq_pending r' = (if room then sq_pending r else drop n (sq_pending r)) @ [prep zero_wire]"
    unfolding Let_def by (intro posts [OF assms refl]) blast+
next
  fix es fuel
  assume "length (sq_pending r) = 2 ^ k" "\<forall>e\<in>set es. failing e r"
  then show "post_ring fuel prep es r = None"
    using GetSQE_full [of k l r] assms by (intro post_spins) (auto simp: sq_ok_def)
qed

definition full_ring :: ring where
  "full_ring = snd (snd (run_ops sq_pending ring_put kernel_consume [Put (PrepClose 7 1 zero_wire), Put (PrepClose 8 2 zero_wire)] demo_ring))"

lemma full_ring_ok: "sq_ok 1 2 full_ring" "sq_pending full_ring = [PrepClose 7 1 zero_wire, PrepClose 8 2 zero_wire]"
proof -
  let ?ops = "[Put (PrepClose 7 1 zero_wire), Put (PrepClose 8 2 zero_wire)]"
  obtain ins outs where r: "run_ops sq_pending ring_put kernel_consume ?ops demo_ring = (ins, outs, full_ring)"
    by (metis full_ring_def prod.collapse)
  show "sq_ok 1 2 full_ring" using sq.run_ops_fifo [OF demo_ring_ok r] by simp
  show "sq_pending full_ring = [PrepClose 7 1 zero_wire, PrepClose 8 2 zero_wire]" by code_simp
qed

lemma post_succeeds_witness:
  "(\<exists>r'. post_ring (Suc (Suc 0)) (PrepClose 9 3) [\<lambda>_. EINTR, \<lambda>_. Submitted 2] full_ring = Some (r', []) \<and>
      sq_pending r' = [PrepClose 9 3 zero_wire]) \<and>
    (\<forall>fuel m. post_ring fuel (PrepClose 9 3) (replicate m (\<lambda>_. Errno 16)) full_ring = None)"
proof -
  have l: "length (sq_pending full_ring) = 2" by (simp add: full_ring_ok(2))
  note p = post_succeeds [OF full_ring_ok(1), of "PrepClose 9 3", unfolded Let_def l]
  show ?thesis
    using p [THEN conjunct1, THEN spec, of 1, THEN spec, of "\<lambda>_. Submitted 2", THEN spec, of 2, THEN spec, of "[]", THEN spec, of 0]
      p [THEN conjunct2]
    by (auto simp: failing_def l simp del: post_ring.simps)
qed

definition synced :: "ring \<Rightarrow> bool" where
  "synced r \<longleftrightarrow> unat (toSubmit r) = length (sq_pending r)"

text \<open>
  C26. What is left to submit: as long as \<open>toSubmit\<close> is the number of pending entries, a submission
  keeps it so exactly when the kernel consumes all of them. When it consumes fewer (which
  \<open>io_uring_enter\<close> may), the entries left in the ring are never asked for again: \<open>toSubmit\<close> is 0, so
  the next call submits nothing.
\<close>

theorem submit_accounting:
  assumes "sq_ok k l r" and "synced r" and "enter (toSubmit r, w, if w > 0 then 1 else 0) = Submitted n"
    and "n \<le> length (sq_pending r)"
  shows "\<exists>r'. Submit w (replicate m (\<lambda>_. EINTR) @ enter # es) r = Some (Inr n, r', es) \<and>
    sq_pending r' = drop n (sq_pending r) \<and> toSubmit r' = 0 \<and> (synced r' \<longleftrightarrow> n = length (sq_pending r))"
proof -
  let ?r = "(kernel_consume n (r\<lparr>sqTail := sqTailLocal r\<rparr>))\<lparr>toSubmit := 0\<rparr>"
  have s: "Submit w (replicate m (\<lambda>_. EINTR) @ enter # es) r = Some (Inr n, ?r, es)"
    unfolding Submit_def Let_def using assms(3) by (simp add: enter_loop_EINTR)
  have "sq_pending ?r = sq_pending (kernel_consume n r)" "toSubmit ?r = 0"
    by (simp_all add: sq_pending_def kernel_consume_def)
  then show ?thesis using s consume_ok(2) [OF assms(1,4)] assms(4) by (auto simp: synced_def)
qed

lemma submit_accounting_witness:
  "\<exists>r'. Submit 1 [\<lambda>_. Submitted 1] full_ring = Some (Inr 1, r', []) \<and> toSubmit r' = 0 \<and>
    sq_pending r' = [PrepClose 8 2 zero_wire] \<and> \<not> synced r'"
proof -
  have "synced full_ring" by code_simp
  then show ?thesis
    using submit_accounting [OF full_ring_ok(1), of "\<lambda>_. Submitted 1" 1 1 0 "[]"] by (auto simp: full_ring_ok(2))
qed

text \<open>
  C27. No leak in construction and teardown: when \<open>New\<close> fails, exactly the regions it had mapped are
  unmapped and the descriptor closed; when it succeeds, \<open>Close\<close> does the same, each region once
  (the completion ring shares the mapping of the submission ring on single-mmap kernels).
\<close>

theorem ring_no_leak:
  assumes "setup = Inr (f, p)" and "f \<noteq> 0" and "New_ring setup mmap = (res, mapped, cleanup)"
  shows "distinct mapped \<and>
    (case res of
       Inl e \<Rightarrow> mset cleanup = mset (CloseFD f # map Munmap mapped)
     | Inr h \<Rightarrow> cleanup = [] \<and> mset (Close_ring h) = mset (CloseFD f # map Munmap mapped) \<and>
         (SQRing \<in> set mapped) \<and> (SQEs \<in> set mapped) \<and> (CQRing \<in> set mapped \<longleftrightarrow> p_features p AND 1 = 0))"
  using assms
  by (auto simp: New_ring_def Let_def Close_ring_def split: prod.splits if_splits)

definition demo_params :: params where
  "demo_params = \<lparr>p_sqEntries = 8, p_cqEntries = 16, p_features = 2, p_sq_head = 0, p_sq_tail = 4, p_sq_mask = 8,
     p_sq_array = 64, p_cq_head = 0, p_cq_tail = 4, p_cq_mask = 8, p_cq_overflow = 12, p_cq_cqes = 64\<rparr>"

lemma ring_no_leak_witness:
  "snd (snd (New_ring (Inr (5, demo_params))
     (\<lambda>r n. r \<noteq> SQEs))) = [Munmap CQRing, Munmap SQRing, CloseFD 5]"
proof -
  let ?s = "Inr (5, demo_params)"
  let ?n = "New_ring ?s (\<lambda>r n. r \<noteq> SQEs)"
  have "?n = (fst ?n, fst (snd ?n), snd (snd ?n))" by (simp only: prod.collapse)
  from ring_no_leak [OF refl _ this] have "distinct (fst (snd ?n))" by simp
  then show ?thesis by code_simp
qed

lemma unat_2_power: "k < 32 \<Longrightarrow> unat (2 ^ k :: u32) = 2 ^ k"
proof -
  assume "k < 32"
  then have "(2::nat) ^ k < 2 ^ 32" by (rule power_strict_increasing) simp
  moreover have "unat (of_nat (2 ^ k) :: u32) = take_bit 32 (2 ^ k)" by (simp only: unat_of_nat len_num1)
    (simp add: take_bit_eq_mod)
  ultimately show ?thesis by (simp add: take_bit_eq_mod)
qed

text \<open>
  The ring \<open>New\<close> builds is well formed and empty, for what the kernel documents: sizes that are
  powers of two, masks one less, and heads equal to the tails. The queue laws hold from there on,
  whatever value the indices start at.
\<close>

theorem new_ring_empty:
  assumes "New_ring (Inr (f, p)) mmap = (Inr h, mapped, cleanup)" and "cq = (if h_single h then SQRing else CQRing)"
    and "k < 32" and "l < 32" and "p_sqEntries p = 2 ^ k" and "p_cqEntries p = 2 ^ l"
    and "mem SQRing (p_sq_mask p) = mask k" and "mem cq (p_cq_mask p) = mask l"
    and "mem SQRing (p_sq_head p) = mem SQRing (p_sq_tail p)" and "mem cq (p_cq_head p) = mem cq (p_cq_tail p)"
  shows "sq_ok k l (init_ring p mem h) \<and> sq_pending (init_ring p mem h) = [] \<and> cq_pending (init_ring p mem h) = [] \<and>
    synced (init_ring p mem h) \<and> rfd (init_ring p mem h) = f"
proof -
  have "rfd (init_ring p mem h) = f"
    using assms(1) by (auto simp: New_ring_def init_ring_def Let_def split: prod.splits if_splits)
  moreover have "unat (2 ^ k :: u32) = 2 ^ k" "unat (2 ^ l :: u32) = 2 ^ l"
    using assms(3,4) by (simp_all add: unat_2_power)
  ultimately show ?thesis using assms(2-10)
    by (simp add: init_ring_def Let_def sq_ok_def ring_wf_def sq_slots_ok_def sq_pending_def cq_pending_def synced_def)
qed

definition demo_mem :: "region \<Rightarrow> u32 \<Rightarrow> u32" where
  "demo_mem r off = (if off = 8 then (case r of SQRing \<Rightarrow> 7 | _ \<Rightarrow> 15) else 0)"

lemma new_ring_empty_witness:
  "sq_pending (init_ring demo_params demo_mem
    \<lparr>h_fd = 5, h_sqRing = True, h_cqRing = True, h_sqeMmap = True, h_single = False, h_noDrop = True\<rparr>) = []"
proof -
  let ?h = "\<lparr>h_fd = 5, h_sqRing = True, h_cqRing = True, h_sqeMmap = True, h_single = False, h_noDrop = True\<rparr>"
  have n: "New_ring (Inr (5, demo_params)) (\<lambda>r n. True) = (Inr ?h, [SQRing, CQRing, SQEs], [])" by code_simp
  have "mask 3 = (7 :: u32)" "mask 4 = (15 :: u32)" by (simp_all add: mask_eq_exp_minus_1)
  then show ?thesis
    using new_ring_empty [OF n refl, of 3 4 demo_mem] by (simp add: demo_params_def demo_mem_def)
qed

end
