(* ===== verification/Uring_Wire.thy ===== *)
theory Uring_Wire
  imports Uring
begin

text \<open>
  Submission entries as bytes. Go lays the struct \<open>SQE\<close> out in the shared memory; the kernel reads the 64 bytes of the
  entry at the offsets of its own \<open>struct io_uring_sqe\<close> and takes the operation from them. Both sides are written down
  here on their own: the first from the struct and Go's rules, the second from the documented interface.
\<close>

section \<open>Bytes\<close>

fun le_bytes :: "nat \<Rightarrow> nat \<Rightarrow> bytes" where
  "le_bytes 0 x = []"
| "le_bytes (Suc n) x = of_nat x # le_bytes n (x div 256)"

fun le_nat :: "bytes \<Rightarrow> nat" where
  "le_nat [] = 0"
| "le_nat (b # bs) = unat b + 256 * le_nat bs"

lemma length_le_bytes [simp]: "length (le_bytes n x) = n"
  by (induction n arbitrary: x) simp_all

lemma le_nat_bytes: "x < 256 ^ n \<Longrightarrow> le_nat (le_bytes n x) = x"
proof (induction n arbitrary: x)
  case (Suc n)
  then have "x div 256 < 256 ^ n" by (simp add: less_mult_imp_div_less mult.commute)
  with Suc.IH have "le_nat (le_bytes n (x div 256)) = x div 256" by blast
  moreover have "unat (of_nat x :: u8) = x mod 256" by (simp add: unat_of_nat)
  ultimately show ?case by simp
qed simp

lemma le_nat_word:
  "le_nat (le_bytes 1 (unat (a :: u8))) = unat a" "le_nat (le_bytes 2 (unat (b :: u16))) = unat b"
  "le_nat (le_bytes 4 (unat (d :: u32))) = unat d" "le_nat (le_bytes 8 (unat (e :: u64))) = unat e"
  by (rule le_nat_bytes, rule less_le_trans, rule unsigned_less, simp)+

section \<open>The entry in memory\<close>

text \<open>The fields of the struct in order, each with its size, at the offsets of Go's layout, little-endian.\<close>

definition wire_fields :: "wire \<Rightarrow> (nat \<times> nat) list" where
  "wire_fields w =
    [(1, unat (Opcode w)), (1, unat (Flags w)), (2, unat (IoPrio w)), (4, unat (Fd w)), (8, unat (Off w)),
     (8, unat (Addr_w w)), (4, unat (Len_w w)), (4, unat (OpFlags w)), (8, unat (UserData w)), (2, unat (BufIndex w)),
     (2, unat (Personality w)), (4, unat (SpliceFdIn w)), (8, unat (Addr3 w)), (8, unat (pad2 w))]"

fun image_from :: "nat \<Rightarrow> (nat \<times> nat) list \<Rightarrow> bytes" where
  "image_from n [] = []"
| "image_from n ((sz, x) # fs) = replicate (align_up n sz - n) 0 @ le_bytes sz x @ image_from (align_up n sz + sz) fs"

definition wire_image :: "wire \<Rightarrow> bytes" where
  "wire_image w = image_from 0 (wire_fields w)"

section \<open>The kernel's reading\<close>

text \<open>
  The operations as the kernel sees them, with all the parameters it takes from an entry. Reads and receives have an
  address and a length; sockets operations have their message flags and the flags of \<open>ioprio\<close> (multishot and the like).
\<close>

datatype kernel_op =
    KAccept int nat nat nat nat             \<comment> \<open>descriptor, address, address of its length, flags, \<open>ioprio\<close>\<close>
  | KRead int nat nat nat nat               \<comment> \<open>descriptor, address, length, file offset, flags\<close>
  | KRecv int nat nat nat nat               \<comment> \<open>descriptor, address, length, message flags, \<open>ioprio\<close>\<close>
  | KSend int nat nat nat nat
  | KClose int
  | KTimeout nat nat nat                    \<comment> \<open>address of the timespec, count of completions, flags\<close>
  | KSplice int int int int nat nat         \<comment> \<open>in, its offset, out, its offset, bytes, flags\<close>
  | KPoll int nat

definition field :: "nat \<Rightarrow> nat \<Rightarrow> bytes \<Rightarrow> nat" where
  "field off n m = le_nat (take n (drop off m))"

text \<open>Signed fields: descriptors have 32 bits, the offsets of a splice 64.\<close>

definition as_int :: "nat \<Rightarrow> nat \<Rightarrow> int" where
  "as_int w x = (if x < 2 ^ (w - 1) then int x else int x - 2 ^ w)"

text \<open>
  The checks are those of the kernel's \<open>prep\<close> functions: an entry with fields set that its operation does not have is
  refused with \<open>EINVAL\<close> (\<open>None\<close>). The result carries the \<open>flags\<close> of the entry, its personality and its user data.
\<close>

definition kernel_op_of :: "nat \<Rightarrow> nat \<Rightarrow> int \<Rightarrow> nat \<Rightarrow> nat \<Rightarrow> nat \<Rightarrow> nat \<Rightarrow> nat \<Rightarrow> nat \<Rightarrow> kernel_op option" where
  "kernel_op_of opc prio f off addr len fl buf extra =
    (if opc = 6 then (if off = 0 \<and> addr = 0 \<and> len = 0 \<and> buf = 0 then Some (KPoll f fl) else None)
     else if opc = 11 then (if len = 1 \<and> buf = 0 \<and> extra = 0 then Some (KTimeout addr off fl) else None)
     else if opc = 13 then (if len = 0 \<and> buf = 0 \<and> extra = 0 then Some (KAccept f addr off fl prio) else None)
     else if opc = 19 then
       (if off = 0 \<and> addr = 0 \<and> len = 0 \<and> fl = 0 \<and> buf = 0 \<and> extra = 0 then Some (KClose f) else None)
     else if opc = 22 then (if buf = 0 then Some (KRead f addr len off fl) else None)
     else if opc = 26 then (if off = 0 \<and> extra = 0 then Some (KSend f addr len fl prio) else None)
     else if opc = 27 then (if off = 0 \<and> extra = 0 then Some (KRecv f addr len fl prio) else None)
     else if opc = 30 then
       (if buf = 0 then Some (KSplice (as_int 32 extra) (as_int 64 addr) f (as_int 64 off) len fl) else None)
     else None)"

definition kernel_sees :: "bytes \<Rightarrow> (kernel_op \<times> nat \<times> nat \<times> nat) option" where
  "kernel_sees m =
    (if length m \<noteq> 64 then None
     else map_option (\<lambda>x. (x, field 1 1 m, field 42 2 m, field 32 8 m))
       (kernel_op_of (field 0 1 m) (field 2 2 m) (as_int 32 (field 4 4 m)) (field 8 8 m) (field 16 8 m) (field 24 4 m)
         (field 28 4 m) (field 40 2 m) (field 44 4 m)))"

lemma wire_image_length: "length (wire_image w) = 64"
  by (simp add: wire_image_def wire_fields_def align_up_def)

text \<open>Every field the kernel reads is the field of the struct.\<close>

lemma field_first: "field 0 n (le_bytes n x @ b) = le_nat (le_bytes n x)"
  by (simp add: field_def)

lemma field_later: "length a \<le> off \<Longrightarrow> field off n (a @ b) = field (off - length a) n b"
  by (simp add: field_def)

lemma wire_image_flat:
  "wire_image w = le_bytes 1 (unat (Opcode w)) @ le_bytes 1 (unat (Flags w)) @ le_bytes 2 (unat (IoPrio w)) @
     le_bytes 4 (unat (Fd w)) @ le_bytes 8 (unat (Off w)) @ le_bytes 8 (unat (Addr_w w)) @ le_bytes 4 (unat (Len_w w)) @
     le_bytes 4 (unat (OpFlags w)) @ le_bytes 8 (unat (UserData w)) @ le_bytes 2 (unat (BufIndex w)) @
     le_bytes 2 (unat (Personality w)) @ le_bytes 4 (unat (SpliceFdIn w)) @ le_bytes 8 (unat (Addr3 w)) @
     le_bytes 8 (unat (pad2 w)) @ []"
  by (simp add: wire_image_def wire_fields_def align_up_def del: le_bytes.simps)

lemma wire_image_fields:
  "field 0 1 (wire_image w) = unat (Opcode w)" "field 1 1 (wire_image w) = unat (Flags w)"
  "field 2 2 (wire_image w) = unat (IoPrio w)" "field 4 4 (wire_image w) = unat (Fd w)"
  "field 8 8 (wire_image w) = unat (Off w)" "field 16 8 (wire_image w) = unat (Addr_w w)"
  "field 24 4 (wire_image w) = unat (Len_w w)" "field 28 4 (wire_image w) = unat (OpFlags w)"
  "field 32 8 (wire_image w) = unat (UserData w)" "field 40 2 (wire_image w) = unat (BufIndex w)"
  "field 42 2 (wire_image w) = unat (Personality w)" "field 44 4 (wire_image w) = unat (SpliceFdIn w)"
  by (simp_all add: wire_image_flat field_first field_later le_nat_word del: le_bytes.simps le_nat.simps One_nat_def append_Nil2)

lemma as_int_word:
  "- (2 ^ 31) \<le> f \<Longrightarrow> f < 2 ^ 31 \<Longrightarrow> as_int 32 (unat (word_of_int f :: u32)) = f"
  "- (2 ^ 63) \<le> g \<Longrightarrow> g < 2 ^ 63 \<Longrightarrow> as_int 64 (unat (word_of_int g :: u64)) = g"
proof -
  have m: "z mod M = (if 0 \<le> z then z else z + M)" if "- M \<le> z" "z < M" for z M :: int
    using that mod_pos_pos_trivial [of "z + M" M] by (simp add: mod_pos_pos_trivial)
  have u: "int (unat (word_of_int z :: u32)) = z mod 2 ^ 32" "int (unat (word_of_int z :: u64)) = z mod 2 ^ 64" for z
    by (simp_all add: take_bit_eq_mod unsigned_of_int)
  have lt: "unat w < M \<longleftrightarrow> int (unat w) < int M" for w :: "'a::len word" and M by (rule of_nat_less_iff [symmetric])
  show "- (2 ^ 31) \<le> f \<Longrightarrow> f < 2 ^ 31 \<Longrightarrow> as_int 32 (unat (word_of_int f :: u32)) = f"
    using m [of "2 ^ 32" f] unfolding as_int_def lt u by simp
  show "- (2 ^ 63) \<le> g \<Longrightarrow> g < 2 ^ 63 \<Longrightarrow> as_int 64 (unat (word_of_int g :: u64)) = g"
    using m [of "2 ^ 64" g] unfolding as_int_def lt u by simp
qed

lemma unat_len: "n < 2 ^ 32 \<Longrightarrow> unat (of_nat n :: u32) = n"
  by (simp add: unat_of_nat)

section \<open>From the helper to the kernel\<close>

text \<open>
  What the callers do: take an entry, prepare it in place. \<open>kernel_queue\<close> is what the kernel makes of the entries
  it has not consumed yet, in order.
\<close>

definition prepare_in :: "(wire \<Rightarrow> wire option) \<Rightarrow> ring \<Rightarrow> ring option" where
  "prepare_in prep r =
    (case GetSQE r of
       None \<Rightarrow> None
     | Some (idx, r') \<Rightarrow> map_option (\<lambda>w. write_sqe idx w r') (prep (sqes r' ! unat idx)))"

definition kernel_queue :: "ring \<Rightarrow> (kernel_op \<times> nat \<times> nat \<times> nat) option list" where
  "kernel_queue r = map (\<lambda>w. kernel_sees (wire_image w)) (sq_pending r)"

definition asks_kernel :: "(wire \<Rightarrow> wire option) \<Rightarrow> ring \<Rightarrow> kernel_op \<Rightarrow> u64 \<Rightarrow> bool" where
  "asks_kernel prep r x u \<longleftrightarrow>
    map_option kernel_queue (prepare_in prep r) = Some (kernel_queue r @ [Some (x, 0, 0, unat u)])"

lemma kernel_sees_wire:
  "kernel_sees (wire_image w) =
    map_option (\<lambda>x. (x, unat (Flags w), unat (Personality w), unat (UserData w)))
      (kernel_op_of (unat (Opcode w)) (unat (IoPrio w)) (as_int 32 (unat (Fd w))) (unat (Off w)) (unat (Addr_w w))
        (unat (Len_w w)) (unat (OpFlags w)) (unat (BufIndex w)) (unat (SpliceFdIn w)))"
  by (simp only: kernel_sees_def wire_image_fields wire_image_length if_False simp_thms)

lemma asks_kernelI:
  assumes "sq_ok k l r" and "length (sq_pending r) < 2 ^ k"
    and "map_option (\<lambda>w. kernel_sees (wire_image w)) (prep zero_wire) = Some (Some (x, 0, 0, unat u))"
  shows "asks_kernel prep r x u"
proof -
  obtain idx r' where g: "GetSQE r = Some (idx, r')"
    using GetSQE_full [of k l r] assms(1,2) by (cases "GetSQE r") (auto simp: sq_ok_def)
  show ?thesis
    using enqueue_ok(2) [OF assms(1) g] enqueue_ok(3) [OF assms(1) g] assms(3)
    by (auto simp: asks_kernel_def prepare_in_def kernel_queue_def g)
qed

lemmas prep_defs = PrepAccept_def PrepAcceptMultishot_def PrepRead_def PrepRecv_def PrepSend_def PrepClose_def
  PrepTimeout_def PrepSplice_def PrepPollAdd_def acceptMultishot_def op_defs zero_wire_def

text \<open>
  C24. Wire fidelity: whatever the slot held before, an entry taken and prepared by a \<open>Prep\<close> helper is read by the kernel
  from the 64 bytes in shared memory as exactly the operation asked for.
\<close>

theorem wire_faithful:
  assumes ring: "sq_ok k l r" "length (sq_pending r) < 2 ^ k"
    and fds: "- (2 ^ 31) \<le> f" "f < 2 ^ 31" "- (2 ^ 31) \<le> g" "g < 2 ^ 31"
    and offs: "- (2 ^ 63) \<le> x" "x < 2 ^ 63" "- (2 ^ 63) \<le> y" "y < 2 ^ 63"
    and len: "0 < n" "n < 2 ^ 32"
  shows "asks_kernel (Some \<circ> PrepAccept f u) r (KAccept f 0 0 0 0) u \<and>
    asks_kernel (Some \<circ> PrepAcceptMultishot f u) r (KAccept f 0 0 0 1) u \<and>
    asks_kernel (PrepRead f (a, n) u) r (KRead f (unat a) n 0 0) u \<and>
    asks_kernel (PrepRecv f (a, n) u) r (KRecv f (unat a) n 0 0) u \<and>
    asks_kernel (PrepSend f (a, n) fl u) r (KSend f (unat a) n (unat fl) 0) u \<and>
    asks_kernel (Some \<circ> PrepClose f u) r (KClose f) u \<and>
    asks_kernel (Some \<circ> PrepTimeout a u) r (KTimeout (unat a) 0 0) u \<and>
    asks_kernel (Some \<circ> PrepSplice f x g y c fl u) r (KSplice f x g y (unat c) (unat fl)) u \<and>
    asks_kernel (Some \<circ> PrepPollAdd f ev u) r (KPoll f (unat ev)) u"
  by (intro conjI; rule asks_kernelI [OF ring])
    (use fds offs len in \<open>simp_all add: prep_defs kernel_sees_wire kernel_op_of_def as_int_word unat_len\<close>)

text \<open>A ring of two slots about to wrap, both holding entries the kernel consumed earlier.\<close>

definition wrapped_ring :: ring where
  "wrapped_ring = \<lparr>rfd = 5, sqes = replicate 2 (PrepAcceptMultishot 3 9 zero_wire), sqArray = [0, 1],
     cqes = replicate 4 \<lparr>cqe_ud = 0, cqe_res = 0, cqe_flags = 0\<rparr>,
     sqHead = - 1, sqTail = - 1, cqHead = - 2, cqTail = - 2, cqOverflow_r = 0, sqMask = 1, cqMask = 3, sqEntries = 2,
     cqEntries = 4, sqTailLocal = - 1, cqHeadLocal = - 2, toSubmit = 0, singleMmap = True, noDrop = False\<rparr>"

lemma wrapped_ring_ok: "sq_ok 1 2 wrapped_ring" "length (sq_pending wrapped_ring) < 2 ^ 1"
proof -
  have "mask 1 = (1 :: u32)" "mask 2 = (3 :: u32)" by (simp_all add: mask_eq_exp_minus_1)
  then show "sq_ok 1 2 wrapped_ring" by (simp add: sq_ok_def ring_wf_def sq_slots_ok_def wrapped_ring_def)
  show "length (sq_pending wrapped_ring) < 2 ^ 1" by code_simp
qed

lemma wire_faithful_witness:
  "asks_kernel (PrepRecv 10 (4098, 14) 7) wrapped_ring (KRecv 10 4098 14 0 0) 7 \<and>
   asks_kernel (Some \<circ> PrepSplice 10 (- 1) 12 (- 1) 65536 1 7) wrapped_ring (KSplice 10 (- 1) 12 (- 1) 65536 1) 7"
  using wire_faithful [OF wrapped_ring_ok, of 10 12 "- 1" "- 1" 14 7 4098 1 65536 0] by simp

end
