(* ===== verification/Go_Net.thy ===== *)
theory Go_Net
  imports Prelude
begin

text \<open>
  The parts of Go's standard library that the address handling of the repository calls:
  \<open>strconv.Atoi\<close> and \<open>Itoa\<close>, \<open>strings.TrimSpace\<close> and \<open>Split\<close>, \<open>net.SplitHostPort\<close> and
  \<open>JoinHostPort\<close>, \<open>netip.ParseAddr\<close> and \<open>net.ParseIP\<close>. Strings are lists of bytes (\<open>char\<close>);
  \<open>TrimSpace\<close> is modelled on ASCII white space.
\<close>

section \<open>Numbers\<close>

definition is_digit :: "char \<Rightarrow> bool" where
  "is_digit c \<longleftrightarrow> 48 \<le> (of_char c :: int) \<and> (of_char c :: int) \<le> 57"

definition digit_val :: "char \<Rightarrow> int" where
  "digit_val c = of_char c - 48"

function dec_str :: "int \<Rightarrow> string" where
  "dec_str n = (if n < 10 then [char_of (48 + n)] else dec_str (n div 10) @ [char_of (48 + n mod 10)])"
  by pat_completeness auto
termination by (relation "measure nat") auto

declare dec_str.simps [simp del]

definition Itoa :: "int \<Rightarrow> string" where
  "Itoa i = (if i < 0 then ''-'' @ dec_str (- i) else dec_str i)"

fun parse_digits :: "int \<Rightarrow> string \<Rightarrow> int option" where
  "parse_digits acc [] = Some acc"
| "parse_digits acc (c # cs) = (if is_digit c then parse_digits (acc * 10 + digit_val c) cs else None)"

definition Atoi :: "string \<Rightarrow> int option" where
  "Atoi s =
    (let neg = (s \<noteq> [] \<and> hd s = CHR ''-'');
         ds = (if s \<noteq> [] \<and> (hd s = CHR ''-'' \<or> hd s = CHR ''+'') then tl s else s)
     in if ds = [] then None
        else case parse_digits 0 ds of
          None \<Rightarrow> None
        | Some n \<Rightarrow>
            if neg then (if n \<le> 2 ^ 63 then Some (- n) else None)
            else (if n < 2 ^ 63 then Some n else None))"

lemma digit_char: "0 \<le> n \<Longrightarrow> n < 10 \<Longrightarrow> is_digit (char_of (48 + n)) \<and> digit_val (char_of (48 + n)) = n"
  by (simp add: is_digit_def digit_val_def)

lemma parse_digits_append:
  "parse_digits acc (xs @ ys) = (case parse_digits acc xs of None \<Rightarrow> None | Some a \<Rightarrow> parse_digits a ys)"
  by (induction xs arbitrary: acc) simp_all

lemma dec_str_digits: "0 \<le> n \<Longrightarrow> \<forall>c\<in>set (dec_str n). is_digit c"
proof (induction n rule: dec_str.induct)
  case (1 n)
  then show ?case by (subst dec_str.simps) (auto simp: digit_char)
qed

lemma dec_str_not_Nil: "dec_str n \<noteq> []"
  by (subst dec_str.simps) simp

lemma parse_dec_str: "0 \<le> n \<Longrightarrow> parse_digits 0 (dec_str n) = Some n"
proof (induction n rule: dec_str.induct)
  case (1 n)
  show ?case
  proof (cases "n < 10")
    case True
    then show ?thesis using "1.prems" by (subst dec_str.simps) (simp add: digit_char)
  next
    case False
    then show ?thesis using 1
      by (subst dec_str.simps) (simp add: parse_digits_append digit_char)
  qed
qed

lemma not_digit_sign: "\<not> is_digit (CHR ''-'')" "\<not> is_digit (CHR ''+'')" "\<not> is_digit (CHR ''.'')"
    "\<not> is_digit (CHR '':'')" "\<not> is_digit (CHR '']'')" "\<not> is_digit (CHR ''['')"
  by code_simp+

lemma hd_dec_str: "0 \<le> n \<Longrightarrow> is_digit (hd (dec_str n))"
  using dec_str_digits dec_str_not_Nil hd_in_set by blast

lemma Atoi_Itoa: "0 \<le> i \<Longrightarrow> i < 2 ^ 63 \<Longrightarrow> Atoi (Itoa i) = Some i"
proof -
  assume i: "0 \<le> i" "i < 2 ^ 63"
  have "hd (dec_str i) \<noteq> CHR ''-''" "hd (dec_str i) \<noteq> CHR ''+''"
    using hd_dec_str [OF i(1)] not_digit_sign by metis+
  then show ?thesis using i
    by (simp add: Atoi_def Itoa_def Let_def dec_str_not_Nil parse_dec_str)
qed

section \<open>Splitting and trimming\<close>

definition is_space :: "char \<Rightarrow> bool" where
  "is_space c \<longleftrightarrow> (of_char c :: int) \<in> {9, 10, 11, 12, 13, 32}"

definition TrimSpace :: "string \<Rightarrow> string" where
  "TrimSpace s = rev (dropWhile is_space (rev (dropWhile is_space s)))"

fun split_on :: "char \<Rightarrow> string \<Rightarrow> string list" where
  "split_on sep [] = [[]]"
| "split_on sep (c # cs) =
    (if c = sep then [] # split_on sep cs
     else case split_on sep cs of [] \<Rightarrow> [[c]] | w # ws \<Rightarrow> (c # w) # ws)"

text \<open>\<open>strings.Join\<close> with a comma.\<close>

fun join_commas :: "string list \<Rightarrow> string" where
  "join_commas [] = []"
| "join_commas [s] = s"
| "join_commas (s # t # ts) = s @ CHR '','' # join_commas (t # ts)"

lemma split_on_sep: "c \<notin> set xs \<Longrightarrow> split_on c (xs @ c # ys) = xs # split_on c ys"
  by (induction xs) auto

lemma split_on_plain: "c \<notin> set xs \<Longrightarrow> split_on c xs = [xs]"
  by (induction xs) auto

lemma split_join_commas: "fs \<noteq> [] \<Longrightarrow> \<forall>f\<in>set fs. CHR '','' \<notin> set f \<Longrightarrow> split_on (CHR '','') (join_commas fs) = fs"
  by (induction fs rule: join_commas.induct) (simp_all add: split_on_sep split_on_plain)

lemma TrimSpace_id: "s \<noteq> [] \<Longrightarrow> \<not> is_space (hd s) \<Longrightarrow> \<not> is_space (last s) \<Longrightarrow> TrimSpace s = s"
  by (simp add: TrimSpace_def dropWhile_eq_self_iff [THEN iffD2] hd_rev)

section \<open>Host and port\<close>

definition index_of :: "char \<Rightarrow> string \<Rightarrow> nat option" where
  "index_of c s = (if c \<in> set s then Some (length (takeWhile (\<lambda>x. x \<noteq> c) s)) else None)"

definition last_index_of :: "char \<Rightarrow> string \<Rightarrow> nat option" where
  "last_index_of c s = (if c \<in> set s then Some (length s - 1 - length (takeWhile (\<lambda>x. x \<noteq> c) (rev s))) else None)"

definition split_host_port :: "string \<Rightarrow> (string \<times> string) option" where
  "split_host_port hp =
    (case last_index_of (CHR '':'') hp of
       None \<Rightarrow> None
     | Some i \<Rightarrow>
         (let port = drop (Suc i) hp in
          if hd hp = CHR ''['' then
            (case index_of (CHR '']'') hp of
               None \<Rightarrow> None
             | Some e \<Rightarrow>
                 if e + 1 = i \<and> CHR ''['' \<notin> set (drop 1 hp) \<and> CHR '']'' \<notin> set (drop (e + 1) hp)
                 then Some (drop 1 (take e hp), port) else None)
          else
            (let host = take i hp in
             if CHR '':'' \<in> set host \<or> CHR ''['' \<in> set hp \<or> CHR '']'' \<in> set hp then None
             else Some (host, port))))"

definition join_host_port :: "string \<Rightarrow> string \<Rightarrow> string" where
  "join_host_port host port =
    (if CHR '':'' \<in> set host then ''['' @ host @ '']:'' @ port else host @ '':'' @ port)"

lemma last_index_of_sep: "c \<notin> set port \<Longrightarrow> last_index_of c (host @ c # port) = Some (length host)"
  by (simp add: last_index_of_def takeWhile_append takeWhile_eq_all_conv [THEN iffD2])

lemma index_of_sep: "c \<notin> set pre \<Longrightarrow> index_of c (pre @ c # rest) = Some (length pre)"
  by (simp add: index_of_def takeWhile_append takeWhile_eq_all_conv [THEN iffD2])

definition plain :: "string \<Rightarrow> bool" where
  "plain s \<longleftrightarrow> CHR ''['' \<notin> set s \<and> CHR '']'' \<notin> set s"

lemma split_join_host_port:
  assumes "plain host" and "plain port" and "CHR '':'' \<notin> set port"
  shows "split_host_port (join_host_port host port) = Some (host, port)"
proof (cases "CHR '':'' \<in> set host")
  case True
  have "last_index_of (CHR '':'') (''['' @ host @ '']:'' @ port) = Some (length host + 2)"
    using last_index_of_sep [OF assms(3), of "''['' @ host @ '']''"] by simp
  moreover have "index_of (CHR '']'') (''['' @ host @ '']:'' @ port) = Some (length host + 1)"
    using index_of_sep [of "CHR '']''" "''['' @ host" "CHR '':'' # port"] assms(1) by (simp add: plain_def)
  ultimately show ?thesis
    using True assms by (simp add: split_host_port_def join_host_port_def plain_def Let_def)
next
  case False
  then show ?thesis using last_index_of_sep [OF assms(3), of host] assms
    by (cases host) (auto simp: split_host_port_def join_host_port_def plain_def Let_def)
qed

lemma dec_str_plain:
  assumes "0 \<le> n"
  shows "plain (dec_str n)" "CHR '':'' \<notin> set (dec_str n)" "CHR ''-'' \<notin> set (dec_str n)"
  using dec_str_digits [OF assms] not_digit_sign by (auto simp: plain_def)

section \<open>Addresses\<close>

text \<open>\<open>netip.Addr\<close>: the four or sixteen bytes, and the zone of an IPv6 address.\<close>

datatype addr = Addr4 bytes | Addr6 bytes string

fun Is4 :: "addr \<Rightarrow> bool" where
  "Is4 (Addr4 bs) = True"
| "Is4 (Addr6 bs z) = False"

text \<open>\<open>As4\<close> on an IPv6 address is not used by the sources.\<close>

fun As16 :: "addr \<Rightarrow> bytes" where
  "As16 (Addr4 bs) = replicate 10 0 @ [0xff, 0xff] @ bs"
| "As16 (Addr6 bs z) = bs"

text \<open>\<open>parseIPv4Fields\<close>, with the value and digit count of the octet being read.\<close>

fun ipv4_fields :: "int \<Rightarrow> nat \<Rightarrow> bytes \<Rightarrow> string \<Rightarrow> bytes option" where
  "ipv4_fields val digLen fields [] = (if length fields < 3 then None else Some (fields @ [word_of_int val]))"
| "ipv4_fields val digLen fields (c # cs) =
    (if is_digit c then
       (if digLen = 1 \<and> val = 0 then None
        else if val * 10 + digit_val c > 255 then None
        else ipv4_fields (val * 10 + digit_val c) (digLen + 1) fields cs)
     else if c = CHR ''.'' then
       (if digLen = 0 \<or> cs = [] then None
        else if length fields = 3 then None
        else ipv4_fields 0 0 (fields @ [word_of_int val]) cs)
     else None)"

declare ipv4_fields.simps(2) [simp del]

definition parseIPv4 :: "string \<Rightarrow> addr option" where
  "parseIPv4 s = map_option Addr4 (ipv4_fields 0 0 [] s)"

definition hex_val :: "char \<Rightarrow> int option" where
  "hex_val c =
    (let n = of_char c in
     if 48 \<le> n \<and> n \<le> 57 then Some (n - 48)
     else if 97 \<le> n \<and> n \<le> 102 then Some (n - 87)
     else if 65 \<le> n \<and> n \<le> 70 then Some (n - 55) else None)"

definition is_hex :: "char \<Rightarrow> bool" where
  "is_hex c \<longleftrightarrow> hex_val c \<noteq> None"

definition hex_num :: "string \<Rightarrow> int" where
  "hex_num s = foldl (\<lambda>acc c. acc * 16 + the (hex_val c)) 0 s"

definition chunk :: "int \<Rightarrow> bytes" where
  "chunk n = [word_of_int (n div 256), word_of_int n]"

text \<open>
  The loop of \<open>parseIPv6\<close>: the number of two-byte groups still to fill (the loop runs while the index
  is below 16, and each pass fills one group or leaves), the bytes so far, the position of the
  ellipsis, the rest of the text.
\<close>

fun ipv6_loop :: "nat \<Rightarrow> bytes \<Rightarrow> nat option \<Rightarrow> string \<Rightarrow> (bytes \<times> nat option) option" where
  "ipv6_loop 0 ip ell s = (if s = [] then Some (ip, ell) else None)"
| "ipv6_loop (Suc n) ip ell s =
    (let hs = takeWhile is_hex s; rest = dropWhile is_hex s in
     if hs = [] \<or> length hs > 4 then None
     else case rest of
       [] \<Rightarrow> Some (ip @ chunk (hex_num hs), ell)
     | c # cs \<Rightarrow>
         if c = CHR ''.'' then
           (if ell = None \<and> length ip \<noteq> 12 then None
            else if length ip + 4 > 16 then None
            else map_option (\<lambda>f. (ip @ f, ell)) (ipv4_fields 0 0 [] s))
         else if c \<noteq> CHR '':'' \<or> cs = [] then None
         else if hd cs = CHR '':'' then
           (if ell \<noteq> None then None
            else if tl cs = [] then Some (ip @ chunk (hex_num hs), Some (length ip + 2))
            else ipv6_loop n (ip @ chunk (hex_num hs)) (Some (length ip + 2)) (tl cs))
         else ipv6_loop n (ip @ chunk (hex_num hs)) ell cs)"

definition expand_ellipsis :: "bytes \<times> nat option \<Rightarrow> bytes option" where
  "expand_ellipsis r =
    (let ip = fst r in
     case snd r of
       None \<Rightarrow> if length ip < 16 then None else Some ip
     | Some e \<Rightarrow> if length ip < 16 then Some (take e ip @ replicate (16 - length ip) 0 @ drop e ip) else None)"

definition parseIPv6 :: "string \<Rightarrow> addr option" where
  "parseIPv6 inp =
    (let zoned = (CHR ''%'' \<in> set inp);
         s = takeWhile (\<lambda>c. c \<noteq> CHR ''%'') inp;
         zone = (if zoned then tl (dropWhile (\<lambda>c. c \<noteq> CHR ''%'') inp) else [])
     in if zoned \<and> zone = [] then None
        else if take 2 s = ''::'' then
          (if length s = 2 then Some (Addr6 (replicate 16 0) zone)
           else map_option (\<lambda>bs. Addr6 bs zone) (Option.bind (ipv6_loop 8 [] (Some 0) (drop 2 s)) expand_ellipsis))
        else map_option (\<lambda>bs. Addr6 bs zone) (Option.bind (ipv6_loop 8 [] None s) expand_ellipsis))"

fun addr_kind :: "string \<Rightarrow> char option" where
  "addr_kind [] = None"
| "addr_kind (c # cs) = (if c = CHR ''.'' \<or> c = CHR '':'' \<or> c = CHR ''%'' then Some c else addr_kind cs)"

definition ParseAddr :: "string \<Rightarrow> addr option" where
  "ParseAddr s =
    (case addr_kind s of
       None \<Rightarrow> None
     | Some c \<Rightarrow> if c = CHR ''.'' then parseIPv4 s else if c = CHR '':'' then parseIPv6 s else None)"

text \<open>\<open>net.ParseIP\<close>: the sixteen-byte form, addresses with a zone refused.\<close>

definition ParseIP :: "string \<Rightarrow> bytes option" where
  "ParseIP s =
    (case ParseAddr s of
       None \<Rightarrow> None
     | Some (Addr4 bs) \<Rightarrow> Some (As16 (Addr4 bs))
     | Some (Addr6 bs z) \<Rightarrow> if z = [] then Some bs else None)"

section \<open>Printed addresses parse back\<close>

definition show4 :: "int \<Rightarrow> int \<Rightarrow> int \<Rightarrow> int \<Rightarrow> string" where
  "show4 a b c d = dec_str a @ ''.'' @ dec_str b @ ''.'' @ dec_str c @ ''.'' @ dec_str d"

lemma dec_str_small:
  "0 \<le> n \<Longrightarrow> n < 10 \<Longrightarrow> dec_str n = [char_of (48 + n)]"
  "10 \<le> n \<Longrightarrow> n < 100 \<Longrightarrow> dec_str n = [char_of (48 + n div 10), char_of (48 + n mod 10)]"
  "100 \<le> n \<Longrightarrow> n < 1000 \<Longrightarrow>
    dec_str n = [char_of (48 + n div 100), char_of (48 + n div 10 mod 10), char_of (48 + n mod 10)]"
proof -
  have div2: "n div 10 div 10 = n div 100" by simp
  show one: "dec_str n = [char_of (48 + n)]" if "0 \<le> n" "n < 10" for n
    using that by (subst dec_str.simps) simp
  show two: "dec_str n = [char_of (48 + n div 10), char_of (48 + n mod 10)]" if "10 \<le> n" "n < 100" for n
    using that one [of "n div 10"] by (subst dec_str.simps) simp
  show "dec_str n = [char_of (48 + n div 100), char_of (48 + n div 10 mod 10), char_of (48 + n mod 10)]"
    if "100 \<le> n" "n < 1000"
    using that two [of "n div 10"] div2 by (subst dec_str.simps) simp
qed

lemma ipv4_digit:
  "0 \<le> d \<Longrightarrow> d < 10 \<Longrightarrow> \<not> (k = 1 \<and> val = 0) \<Longrightarrow> val * 10 + d \<le> 255 \<Longrightarrow>
   ipv4_fields val k fs (char_of (48 + d) # rest) = ipv4_fields (val * 10 + d) (k + 1) fs rest"
  using digit_char [of d] by (auto simp: ipv4_fields.simps(2))

lemma ipv4_octet:
  assumes "0 \<le> n" and "n < 256"
  shows "ipv4_fields 0 0 fs (dec_str n @ rest) = ipv4_fields n (length (dec_str n)) fs rest"
proof -
  consider "n < 10" | "10 \<le> n" "n < 100" | "100 \<le> n" by linarith
  then show ?thesis
  proof cases
    case 1
    then show ?thesis using assms by (simp add: dec_str_small(1) ipv4_digit)
  next
    case 2
    define q r where "q = n div 10" and "r = n mod 10"
    then have "1 \<le> q" "q < 10" "0 \<le> r" "r < 10" "n = q * 10 + r" using 2 by presburger+
    moreover have "dec_str n = [char_of (48 + q), char_of (48 + r)]"
      using 2 by (simp add: dec_str_small(2) q_def r_def)
    ultimately show ?thesis by (simp add: ipv4_digit)
  next
    case 3
    define m r where "m = n div 10" and "r = n mod 10"
    define p q where "p = m div 10" and "q = m mod 10"
    have nm: "n = m * 10 + r" "0 \<le> r" "r < 10" "m = p * 10 + q" "0 \<le> q" "q < 10"
      by (simp_all add: m_def r_def p_def q_def)
    then have "1 \<le> p" "p < 10" using 3 assms by linarith+
    moreover have "n = (p * 10 + q) * 10 + r" using nm(1) unfolding nm(4) .
    moreover have "n div 100 = p" by (simp add: p_def m_def)
    moreover have "dec_str n = [char_of (48 + p), char_of (48 + q), char_of (48 + r)]"
      using 3 assms dec_str_small(3) [of n] \<open>n div 100 = p\<close> by (simp add: m_def q_def r_def)
    ultimately show ?thesis using assms nm by (simp add: ipv4_digit)
  qed
qed

lemma ipv4_dot:
  "0 < k \<Longrightarrow> rest \<noteq> [] \<Longrightarrow> length fs < 3 \<Longrightarrow>
   ipv4_fields val k fs (CHR ''.'' # rest) = ipv4_fields 0 0 (fs @ [word_of_int val]) rest"
  by (simp add: not_digit_sign ipv4_fields.simps(2))

lemma addr_kind_append: "\<forall>c\<in>set xs. is_digit c \<Longrightarrow> addr_kind (xs @ ys) = addr_kind ys"
proof (induction xs)
  case (Cons x xs)
  then have "x \<noteq> CHR ''.''" "x \<noteq> CHR '':''" "x \<noteq> CHR ''%''"
    using not_digit_sign by (auto simp: is_digit_def)
  with Cons show ?case by simp
qed simp

lemma ParseAddr_show4:
  assumes "0 \<le> a" "a < 256" "0 \<le> b" "b < 256" "0 \<le> c" "c < 256" "0 \<le> d" "d < 256"
  shows "ParseAddr (show4 a b c d) = Some (Addr4 [word_of_int a, word_of_int b, word_of_int c, word_of_int d])"
proof -
  have "addr_kind (show4 a b c d) = Some (CHR ''.'')"
    unfolding show4_def by (subst addr_kind_append [OF dec_str_digits [OF assms(1)]]) simp
  moreover have "ipv4_fields 0 0 [] (show4 a b c d) = Some [word_of_int a, word_of_int b, word_of_int c, word_of_int d]"
    using ipv4_octet [OF assms(7,8), where rest = "[]"]
    by (simp add: show4_def ipv4_octet assms ipv4_dot dec_str_not_Nil)
  ultimately show ?thesis by (simp add: ParseAddr_def parseIPv4_def)
qed

text \<open>The eight groups of an IPv6 address in hexadecimal, without an ellipsis.\<close>

definition hex_digit :: "int \<Rightarrow> char" where
  "hex_digit d = (if d < 10 then char_of (48 + d) else char_of (87 + d))"

function hex_str :: "int \<Rightarrow> string" where
  "hex_str n = (if n < 16 then [hex_digit n] else hex_str (n div 16) @ [hex_digit (n mod 16)])"
  by pat_completeness auto
termination by (relation "measure nat") auto

declare hex_str.simps [simp del]

fun show6 :: "int list \<Rightarrow> string" where
  "show6 [] = []"
| "show6 [g] = hex_str g"
| "show6 (g # h # gs) = hex_str g @ CHR '':'' # show6 (h # gs)"

lemma hex_digit_val: "0 \<le> d \<Longrightarrow> d < 16 \<Longrightarrow> hex_val (hex_digit d) = Some d"
  by (simp add: hex_val_def hex_digit_def Let_def)

lemma hex_str_facts:
  "0 \<le> n \<Longrightarrow> (\<forall>c\<in>set (hex_str n). is_hex c) \<and> hex_str n \<noteq> [] \<and> hex_num (hex_str n) = n \<and>
    (\<forall>k. n < 16 ^ Suc k \<longrightarrow> length (hex_str n) \<le> Suc k)"
proof (induction n rule: hex_str.induct)
  case (1 n)
  show ?case
  proof (cases "n < 16")
    case True
    then show ?thesis using "1.prems"
      by (subst (1 2 3 4) hex_str.simps) (simp add: hex_num_def is_hex_def hex_digit_val)
  next
    case False
    have "length (hex_str (n div 16)) \<le> k" if k: "n < 16 ^ Suc k" for k
    proof (cases k)
      case 0
      with k False show ?thesis by simp
    next
      case (Suc j)
      then have "n div 16 < 16 ^ Suc j" using k by simp
      with 1 False Suc show ?thesis by simp
    qed
    then show ?thesis using 1 False
      by (subst (1 2 3 4) hex_str.simps) (auto simp: hex_num_def is_hex_def hex_digit_val)
  qed
qed

lemma hex_str_short: "0 \<le> n \<Longrightarrow> n < 65536 \<Longrightarrow> length (hex_str n) \<le> 4"
  using conjunct2 [OF conjunct2 [OF conjunct2 [OF hex_str_facts]], THEN spec, of n 3] by simp

lemma colon_not_hex: "\<not> is_hex (CHR '':'')"
  by code_simp

lemma show6_hd: "0 \<le> g \<Longrightarrow> show6 (g # gs) \<noteq> [] \<and> is_hex (hd (show6 (g # gs)))"
  using hex_str_facts [of g] by (cases gs) (auto simp: hd_append)

lemma hex_span:
  assumes "0 \<le> g"
  shows "takeWhile is_hex (hex_str g) = hex_str g" "dropWhile is_hex (hex_str g) = []"
    "takeWhile is_hex (hex_str g @ CHR '':'' # s) = hex_str g"
    "dropWhile is_hex (hex_str g @ CHR '':'' # s) = CHR '':'' # s"
  using hex_str_facts [OF assms] colon_not_hex
  by (simp_all add: takeWhile_append dropWhile_append)

lemma ipv6_loop_show6:
  "gs \<noteq> [] \<Longrightarrow> length gs \<le> n \<Longrightarrow> \<forall>g\<in>set gs. 0 \<le> g \<and> g < 65536 \<Longrightarrow>
   ipv6_loop n ip ell (show6 gs) = Some (ip @ concat (map chunk gs), ell)"
proof (induction gs arbitrary: n ip rule: show6.induct)
  case (2 g)
  have "length (hex_str g) \<le> 4" using hex_str_short 2 by simp
  with 2 show ?case using hex_str_facts [of g] by (cases n) (simp_all add: hex_span)
next
  case (3 g h gs)
  obtain m where n: "n = Suc m" using "3.prems"(2) by (cases n) auto
  have g: "0 \<le> g" "g < 65536" and h: "0 \<le> h" using "3.prems"(3) by auto
  have len: "length (hex_str g) \<le> 4" using hex_str_short g by simp
  have hd: "show6 (h # gs) \<noteq> []" "hd (show6 (h # gs)) \<noteq> CHR '':''"
    using show6_hd [OF h, of gs] colon_not_hex by metis+
  have "ipv6_loop m (ip @ chunk g) ell (show6 (h # gs)) = Some ((ip @ chunk g) @ concat (map chunk (h # gs)), ell)"
    using "3.prems" n by (intro "3.IH") simp_all
  then show ?case using len hd hex_str_facts [OF g(1)] by (simp add: n hex_span [OF g(1)] Let_def)
qed simp

lemma length_concat_chunk: "length (concat (map chunk gs)) = 2 * length gs"
  by (induction gs) (simp_all add: chunk_def)

lemma not_hex_marks: "\<not> is_hex (CHR ''.'')" "\<not> is_hex (CHR ''%'')"
  by code_simp+

lemma addr_kind_hex: "\<forall>c\<in>set xs. is_hex c \<Longrightarrow> addr_kind (xs @ CHR '':'' # ys) = Some (CHR '':'')"
proof (induction xs)
  case (Cons x xs)
  then have "x \<noteq> CHR ''.''" "x \<noteq> CHR '':''" "x \<noteq> CHR ''%''"
    using not_hex_marks colon_not_hex by (auto simp: is_hex_def)
  with Cons show ?case by simp
qed simp

lemma show6_chars: "\<forall>g\<in>set gs. 0 \<le> g \<Longrightarrow> c \<in> set (show6 gs) \<Longrightarrow> is_hex c \<or> c = CHR '':''"
  by (induction gs rule: show6.induct) (use hex_str_facts in auto)

lemma ParseAddr_show6:
  assumes "length gs = 8" and "\<forall>g\<in>set gs. 0 \<le> g \<and> g < 65536"
  shows "ParseAddr (show6 gs) = Some (Addr6 (concat (map chunk gs)) [])"
proof -
  obtain g h hs where gs: "gs = g # h # hs" using assms(1) by (cases gs; cases "tl gs") auto
  have g: "0 \<le> g" using assms(2) gs by simp
  have k: "addr_kind (show6 gs) = Some (CHR '':'')"
    using addr_kind_hex [of "hex_str g"] hex_str_facts [OF g] by (simp add: gs)
  have z: "CHR ''%'' \<notin> set (show6 gs)" using show6_chars [of gs "CHR ''%''"] assms(2) not_hex_marks by auto
  have "show6 gs \<noteq> []" "hd (show6 gs) \<noteq> CHR '':''"
    using show6_hd [OF g, of "h # hs"] colon_not_hex unfolding gs by metis+
  then have t: "take 2 (show6 gs) \<noteq> ''::''" by (cases "show6 gs") auto
  have "ipv6_loop 8 [] None (show6 gs) = Some (concat (map chunk gs), None)"
    using ipv6_loop_show6 [of gs 8 "[]" None] assms gs by simp
  moreover have tw: "takeWhile (\<lambda>c. c \<noteq> CHR ''%'') (show6 gs) = show6 gs"
    using z by (auto simp: takeWhile_eq_all_conv)
  ultimately have "parseIPv6 (show6 gs) = Some (Addr6 (concat (map chunk gs)) [])"
    unfolding parseIPv6_def Let_def tw using z t assms(1) by (simp add: expand_ellipsis_def length_concat_chunk)
  with k show ?thesis by (simp add: ParseAddr_def)
qed

end
