(* ===== verification/Rawsock.thy ===== *)
theory Rawsock
  imports Go_Net
begin

text \<open>
  Raw TCP sockets, \<open>internal/rawsock/rawsock.go\<close>: listeners and blocking dials made of system calls
  only. The kernel is a function that answers each call, given everything that happened before; the
  log of calls and answers is threaded through, so what a function leaves open is read off the log.
\<close>

section \<open>System calls\<close>

datatype sockaddr = SockaddrInet4 int bytes | SockaddrInet6 int bytes

datatype call =
    Socket int int int
  | Setsockopt fd int int int
  | Bind fd sockaddr
  | ListenOn fd int
  | Getsockname fd
  | Getpeername fd
  | Connect fd sockaddr
  | CloseFd fd

datatype answer = Failed int | Val int | Name sockaddr

type_synonym log = "(call \<times> answer) list"

type_synonym kernel = "log \<Rightarrow> call \<Rightarrow> answer"

fun failed :: "answer \<Rightarrow> bool" where
  "failed (Failed e) = True"
| "failed _ = False"

fun errno :: "answer \<Rightarrow> int" where
  "errno (Failed e) = e"
| "errno _ = 0"

fun ret :: "answer \<Rightarrow> int" where
  "ret (Val n) = n"
| "ret _ = 0"

definition do_call :: "kernel \<Rightarrow> call \<Rightarrow> log \<Rightarrow> answer \<times> log" where
  "do_call k c lg = (let a = k lg c in (a, lg @ [(c, a)]))"

text \<open>The constants of \<open>syscall\<close> (linux/amd64) and of the package.\<close>

definition AF_INET :: int where "AF_INET = 2"
definition AF_INET6 :: int where "AF_INET6 = 10"
definition SOCK_STREAM :: int where "SOCK_STREAM = 1"
definition IPPROTO_IP :: int where "IPPROTO_IP = 0"
definition IPPROTO_TCP :: int where "IPPROTO_TCP = 6"
definition IPPROTO_IPV6 :: int where "IPPROTO_IPV6 = 41"
definition SOL_SOCKET :: int where "SOL_SOCKET = 1"
definition SO_REUSEADDR :: int where "SO_REUSEADDR = 2"
definition SO_RCVBUF :: int where "SO_RCVBUF = 8"
definition soReusePort :: int where "soReusePort = 15"
definition soMark :: int where "soMark = 36"
definition IP_TOS :: int where "IP_TOS = 1"
definition IPV6_TCLASS :: int where "IPV6_TCLASS = 67"
definition TCP_NODELAY :: int where "TCP_NODELAY = 1"

section \<open>Addresses\<close>

datatype sock_error =
    ParseIPError string | SocketError int | ReuseAddrError int | ReusePortError int | BindError int
  | ListenError int | GetsocknameError int | MarkError int | ConnectError string int int

definition ipOrLoopback :: "string \<Rightarrow> string" where
  "ipOrLoopback ip = (if ip = [] then ''127.0.0.1'' else ip)"

definition resolve :: "string \<Rightarrow> int \<Rightarrow> sock_error + (sockaddr \<times> int)" where
  "resolve ip port =
    (case ParseAddr (ipOrLoopback ip) of
       None \<Rightarrow> Inl (ParseIPError ip)
     | Some (Addr4 bs) \<Rightarrow> Inr (SockaddrInet4 port bs, AF_INET)
     | Some (Addr6 bs zone) \<Rightarrow> Inr (SockaddrInet6 port bs, AF_INET6))"

section \<open>Listening\<close>

record listener =
  FD :: fd
  LPort :: int

fun sockaddr_port :: "sockaddr \<Rightarrow> int" where
  "sockaddr_port (SockaddrInet4 p bs) = p"
| "sockaddr_port (SockaddrInet6 p bs) = p"

definition close_fd :: "kernel \<Rightarrow> fd \<Rightarrow> log \<Rightarrow> log" where
  "close_fd k f lg = snd (do_call k (CloseFd f) lg)"

definition Listen :: "kernel \<Rightarrow> string \<Rightarrow> int \<Rightarrow> int \<Rightarrow> log \<Rightarrow> (sock_error + listener) \<times> log" where
  "Listen k ip port backlog lg =
    (case resolve ip port of
       Inl e \<Rightarrow> (Inl e, lg)
     | Inr (sa, family) \<Rightarrow>
       (let (a, lg) = do_call k (Socket family SOCK_STREAM IPPROTO_TCP) lg in
        if failed a then (Inl (SocketError (errno a)), lg) else
        let f = ret a; (a, lg) = do_call k (Setsockopt f SOL_SOCKET SO_REUSEADDR 1) lg in
        if failed a then (Inl (ReuseAddrError (errno a)), close_fd k f lg) else
        let (a, lg) = do_call k (Setsockopt f SOL_SOCKET soReusePort 1) lg in
        if failed a then (Inl (ReusePortError (errno a)), close_fd k f lg) else
        let (a, lg) = do_call k (Bind f sa) lg in
        if failed a then (Inl (BindError (errno a)), close_fd k f lg) else
        let (a, lg) = do_call k (ListenOn f backlog) lg in
        if failed a then (Inl (ListenError (errno a)), close_fd k f lg) else
        if port = 0 then
          (let (a, lg) = do_call k (Getsockname f) lg in
           if failed a then (Inl (GetsocknameError (errno a)), close_fd k f lg)
           else (Inr \<lparr>FD = f, LPort = (case a of Name lsa \<Rightarrow> sockaddr_port lsa | _ \<Rightarrow> port)\<rparr>, lg))
        else (Inr \<lparr>FD = f, LPort = port\<rparr>, lg)))"

definition Close_listener :: "kernel \<Rightarrow> listener \<Rightarrow> log \<Rightarrow> log" where
  "Close_listener k l lg = close_fd k (FD l) lg"

section \<open>Dialling\<close>

text \<open>The calls of \<open>DialFP\<close> between \<open>socket\<close> and \<open>connect\<close> whose result is ignored.\<close>

definition set_rcvbuf :: "kernel \<Rightarrow> fd \<Rightarrow> int \<Rightarrow> log \<Rightarrow> log" where
  "set_rcvbuf k f rcvbuf lg =
    (if rcvbuf > 0 then snd (do_call k (Setsockopt f SOL_SOCKET SO_RCVBUF rcvbuf) lg) else lg)"

definition set_tos :: "kernel \<Rightarrow> fd \<Rightarrow> int \<Rightarrow> int \<Rightarrow> log \<Rightarrow> log" where
  "set_tos k f family tos lg =
    (if tos > 0 then
       (if family = AF_INET6 then snd (do_call k (Setsockopt f IPPROTO_IPV6 IPV6_TCLASS tos) lg)
        else snd (do_call k (Setsockopt f IPPROTO_IP IP_TOS tos) lg))
     else lg)"

text \<open>The connected descriptor, or the error (the code then returns -1 beside it).\<close>

definition DialFP ::
  "kernel \<Rightarrow> string \<Rightarrow> int \<Rightarrow> int \<Rightarrow> int \<Rightarrow> int \<Rightarrow> log \<Rightarrow> (sock_error + fd) \<times> log" where
  "DialFP k ip port mark rcvbuf tos lg =
    (case resolve ip port of
       Inl e \<Rightarrow> (Inl e, lg)
     | Inr (sa, family) \<Rightarrow>
       (let (a, lg) = do_call k (Socket family SOCK_STREAM IPPROTO_TCP) lg in
        if failed a then (Inl (SocketError (errno a)), lg) else
        let f = ret a;
            (a, lg) = (if mark > 0 then do_call k (Setsockopt f SOL_SOCKET soMark mark) lg else (Val 0, lg)) in
        if failed a then (Inl (MarkError (errno a)), close_fd k f lg) else
        let lg = set_rcvbuf k f rcvbuf lg;
            lg = set_tos k f family tos lg;
            (a, lg) = do_call k (Connect f sa) lg in
        if failed a then (Inl (ConnectError (ipOrLoopback ip) port (errno a)), close_fd k f lg)
        else (Inr f, lg)))"

definition Dial :: "kernel \<Rightarrow> string \<Rightarrow> int \<Rightarrow> log \<Rightarrow> (sock_error + fd) \<times> log" where
  "Dial k ip port lg = DialFP k ip port 0 0 0 lg"

definition DialMark :: "kernel \<Rightarrow> string \<Rightarrow> int \<Rightarrow> int \<Rightarrow> log \<Rightarrow> (sock_error + fd) \<times> log" where
  "DialMark k ip port mark lg = DialFP k ip port mark 0 0 lg"

definition SetNoDelay :: "kernel \<Rightarrow> fd \<Rightarrow> log \<Rightarrow> answer \<times> log" where
  "SetNoDelay k f lg = do_call k (Setsockopt f IPPROTO_TCP TCP_NODELAY 1) lg"

section \<open>What is open\<close>

text \<open>The descriptors a log leaves open; \<open>close\<close> releases its descriptor whatever it answers.\<close>

fun fds_step :: "fd set \<Rightarrow> call \<times> answer \<Rightarrow> fd set" where
  "fds_step F (Socket d t p, Val f) = insert f F"
| "fds_step F (CloseFd f, a) = F - {f}"
| "fds_step F _ = F"

definition fds_of :: "log \<Rightarrow> fd set" where
  "fds_of lg = foldl fds_step {} lg"

text \<open>The documented behaviour of \<open>socket\<close>: an answer that is no error is a descriptor not open before.\<close>

definition socket_fresh :: "kernel \<Rightarrow> bool" where
  "socket_fresh k \<longleftrightarrow> (\<forall>lg d t p. case k lg (Socket d t p) of Val f \<Rightarrow> f \<notin> fds_of lg | Failed e \<Rightarrow> True | Name sa \<Rightarrow> False)"

lemma fds_of_append [simp]: "fds_of (lg @ es) = foldl fds_step (fds_of lg) es"
  by (simp add: fds_of_def)

lemma fds_do_call:
  "snd (do_call k c lg) = lg @ [(c, fst (do_call k c lg))]"
  by (simp add: do_call_def Let_def)

lemma fds_close_fd [simp]: "fds_of (close_fd k f lg) = fds_of lg - {f}"
  by (simp add: close_fd_def do_call_def Let_def)

lemma fds_step_other:
  "fds_step F (Setsockopt f l n v, a) = F" "fds_step F (Bind f sa, a) = F" "fds_step F (ListenOn f b, a) = F"
  "fds_step F (Getsockname f, a) = F" "fds_step F (Getpeername f, a) = F" "fds_step F (Connect f sa, a) = F" "fds_step F (Socket d t p, Failed e) = F"
  by simp_all

lemma socket_cases:
  assumes "socket_fresh k"
  obtains e where "k lg (Socket d t p) = Failed e"
  | f where "k lg (Socket d t p) = Val f" and "f \<notin> fds_of lg"
  using assms unfolding socket_fresh_def by (metis answer.exhaust answer.simps(10-12))

lemma fds_Listen:
  assumes "socket_fresh k" and "Listen k ip port backlog lg = (r, lg')"
  shows "case r of Inl e \<Rightarrow> fds_of lg' = fds_of lg | Inr l \<Rightarrow> FD l \<notin> fds_of lg \<and> fds_of lg' = insert (FD l) (fds_of lg)"
proof (cases "resolve ip port")
  case (Inl e)
  then show ?thesis using assms(2) by (auto simp: Listen_def)
next
  case (Inr q)
  obtain sa family where q: "q = (sa, family)" by (cases q)
  show ?thesis
  proof (rule socket_cases [OF assms(1), of lg family SOCK_STREAM IPPROTO_TCP])
    fix e assume "k lg (Socket family SOCK_STREAM IPPROTO_TCP) = Failed e"
    then show ?thesis using assms(2) Inr q by (auto simp: Listen_def do_call_def Let_def)
  next
    fix f assume "k lg (Socket family SOCK_STREAM IPPROTO_TCP) = Val f" "f \<notin> fds_of lg"
    then show ?thesis using assms(2) Inr q
      by (auto simp: Listen_def do_call_def Let_def split: if_splits)
  qed
qed

lemma fds_set_rcvbuf [simp]: "fds_of (set_rcvbuf k f n lg) = fds_of lg"
  by (simp add: set_rcvbuf_def do_call_def Let_def)

lemma fds_set_tos [simp]: "fds_of (set_tos k f fam n lg) = fds_of lg"
  by (simp add: set_tos_def do_call_def Let_def)

lemma fds_DialFP:
  assumes "socket_fresh k" and "DialFP k ip port mark rcvbuf tos lg = (r, lg')"
  shows "case r of Inl e \<Rightarrow> fds_of lg' = fds_of lg | Inr f \<Rightarrow> f \<notin> fds_of lg \<and> fds_of lg' = insert f (fds_of lg)"
proof (cases "resolve ip port")
  case (Inl e)
  then show ?thesis using assms(2) by (auto simp: DialFP_def)
next
  case (Inr q)
  obtain sa family where q: "q = (sa, family)" by (cases q)
  show ?thesis
  proof (rule socket_cases [OF assms(1), of lg family SOCK_STREAM IPPROTO_TCP])
    fix e assume "k lg (Socket family SOCK_STREAM IPPROTO_TCP) = Failed e"
    then show ?thesis using assms(2) Inr q by (auto simp: DialFP_def do_call_def Let_def)
  next
    fix f assume "k lg (Socket family SOCK_STREAM IPPROTO_TCP) = Val f" "f \<notin> fds_of lg"
    then show ?thesis using assms(2) Inr q
      by (auto simp: DialFP_def do_call_def Let_def split: if_splits)
  qed
qed

end
