(* ===== verification/Server_Run.thy ===== *)
theory Server_Run
  imports Rawsock Engine_Api
begin

text \<open>
  What surrounds the ring workers in \<open>flashrelay\<close>: \<open>Server.Run\<close>, which creates the listeners, starts
  one worker on each and closes them when the workers are done; \<open>pinToCore\<close> and \<open>peerOf\<close> of
  \<open>worker.go\<close>; and the dials offered to hooks, with the fingerprint profiles.
\<close>

section \<open>Run\<close>

definition close_all :: "kernel \<Rightarrow> listener list \<Rightarrow> log \<Rightarrow> log" where
  "close_all k lns lg = fold (Close_listener k) lns lg"

text \<open>The first loop of \<open>Run\<close>; on an error the listeners so far are closed. The error keeps the index.\<close>

fun listen_all ::
  "kernel \<Rightarrow> string \<Rightarrow> int \<Rightarrow> nat \<Rightarrow> listener list \<Rightarrow> log \<Rightarrow> ((nat \<times> sock_error) + listener list) \<times> log" where
  "listen_all k ip port 0 lns lg = (Inr lns, lg)"
| "listen_all k ip port (Suc n) lns lg =
    (case Listen k ip port 4096 lg of
       (Inl e, lg) \<Rightarrow> (Inl (length lns, e), close_all k lns lg)
     | (Inr ln, lg) \<Rightarrow> listen_all k ip port n (lns @ [ln]) lg)"

definition worker_core :: "config \<Rightarrow> nat \<Rightarrow> int" where
  "worker_core c i = (if Pin c then StartCore c + int i else - 1)"

text \<open>
  \<open>workers\<close> stands for the run of all workers until the last one returns: it is given the id, the
  core and the listener of each, and extends the log by the calls they make.
\<close>

definition Run ::
  "kernel \<Rightarrow> ((nat \<times> int \<times> listener) list \<Rightarrow> log \<Rightarrow> log) \<Rightarrow> config \<Rightarrow> log \<Rightarrow> (nat \<times> sock_error) option \<times> log" where
  "Run k workers c lg =
    (case listen_all k (Addr c) (Port c) (nat (Workers c)) [] lg of
       (Inl e, lg) \<Rightarrow> (Some e, lg)
     | (Inr lns, lg) \<Rightarrow>
         let lg = workers (map (\<lambda>i. (i, worker_core c i, lns ! i)) [0..<nat (Workers c)]) lg
         in (None, close_all k lns lg))"

section \<open>Pinning and peer address\<close>

unbundle bit_operations_syntax

datatype pin = NoPin | SetAffinity bytes

text \<open>\<open>None\<close> is the run-time panic of an index beyond the 128 bytes of the mask.\<close>

definition pinToCore :: "int \<Rightarrow> pin option" where
  "pinToCore core =
    (if core < 0 then Some NoPin
     else
       let set' = replicate 128 (0 :: u8); i = nat (core div 8)
       in if i \<ge> 128 then None
          else Some (SetAffinity (set'[i := (set' ! i) OR push_bit (nat (core mod 8)) 1])))"

text \<open>\<open>netip.AddrPort\<close>; the zero value has no address.\<close>

definition peerOf :: "kernel \<Rightarrow> fd \<Rightarrow> log \<Rightarrow> (addr option \<times> u16) \<times> log" where
  "peerOf k f lg =
    (let (sa, lg) = do_call k (Getpeername f) lg in
     (case sa of
        Name (SockaddrInet4 p bs) \<Rightarrow> (Some (Addr4 bs), word_of_int p)
      | Name (SockaddrInet6 p bs) \<Rightarrow> (Some (Addr6 bs []), word_of_int p)
      | _ \<Rightarrow> (None, 0), lg))"

section \<open>Dials for hooks\<close>

definition FPWindows :: int where "FPWindows = 1"
definition FPMacOS :: int where "FPMacOS = 2"
definition FPAndroid :: int where "FPAndroid = 3"
definition FPiOS :: int where "FPiOS = 4"

record fpProfile =
  fp_mark :: int
  fp_rcvbuf :: int
  fp_tos :: int

text \<open>The map, with the zero value for a key that is missing.\<close>

definition fpProfiles :: "int \<Rightarrow> fpProfile" where
  "fpProfiles p =
    (if p = FPWindows then \<lparr>fp_mark = 1, fp_rcvbuf = 8 * 2 ^ 20, fp_tos = 0\<rparr>
     else if p = FPMacOS then \<lparr>fp_mark = 2, fp_rcvbuf = 2 * 2 ^ 20, fp_tos = 0\<rparr>
     else if p = FPAndroid then \<lparr>fp_mark = 3, fp_rcvbuf = 16 * 2 ^ 20, fp_tos = 0\<rparr>
     else if p = FPiOS then \<lparr>fp_mark = 4, fp_rcvbuf = 2 * 2 ^ 20, fp_tos = 0x50\<rparr>
     else \<lparr>fp_mark = 0, fp_rcvbuf = 0, fp_tos = 0\<rparr>)"

definition DialFingerprint :: "kernel \<Rightarrow> string \<Rightarrow> int \<Rightarrow> int \<Rightarrow> log \<Rightarrow> (sock_error + fd) \<times> log" where
  "DialFingerprint k host port profile lg =
    (let p = fpProfiles profile in DialFP k host port (fp_mark p) (fp_rcvbuf p) (fp_tos p) lg)"

section \<open>A kernel for concrete runs\<close>

text \<open>Hands out the descriptor after the largest so far; the calls of \<open>bad\<close> fail.\<close>

definition next_fd :: "log \<Rightarrow> fd" where
  "next_fd lg = foldl (\<lambda>m e. case snd e of Val f \<Rightarrow> max m f | _ \<Rightarrow> m) 2 lg + 1"

definition demo_kernel :: "(call \<Rightarrow> bool) \<Rightarrow> kernel" where
  "demo_kernel bad lg c =
    (if bad c then Failed 98
     else case c of
       Socket d t p \<Rightarrow> Val (next_fd lg)
     | Getsockname f \<Rightarrow> Name (SockaddrInet4 4242 [127, 0, 0, 1])
     | _ \<Rightarrow> Val 0)"

lemma fds_below_next: "f \<in> fds_of lg \<Longrightarrow> f < next_fd lg"
proof (induction lg rule: rev_induct)
  case (snoc e lg)
  obtain c a where e: "e = (c, a)" by (cases e)
  from snoc show ?case unfolding e
    by (cases c; cases a) (auto simp: next_fd_def split: if_splits)
qed (simp add: fds_of_def)

lemma demo_kernel_fresh: "socket_fresh (demo_kernel bad)"
  using fds_below_next by (auto simp: socket_fresh_def demo_kernel_def)

section \<open>Listeners of a server\<close>

lemma fds_close_all: "fds_of (close_all k lns lg) = fds_of lg - set (map FD lns)"
  unfolding close_all_def by (induction lns arbitrary: lg) (auto simp: Close_listener_def)

lemma fds_listen_all:
  assumes "socket_fresh k" and "listen_all k ip port n lns lg = (r, lg')"
    and "distinct (map FD lns)" and "fds_of lg = F \<union> set (map FD lns)" and "F \<inter> set (map FD lns) = {}"
  shows "case r of Inl e \<Rightarrow> fds_of lg' = F
    | Inr ls \<Rightarrow> length ls = length lns + n \<and> distinct (map FD ls) \<and> F \<inter> set (map FD ls) = {} \<and>
        fds_of lg' = F \<union> set (map FD ls)"
  using assms(2-)
proof (induction n arbitrary: lns lg)
  case (Suc n)
  obtain r1 lg1 where l: "Listen k ip port 4096 lg = (r1, lg1)" by fastforce
  note f = fds_Listen [OF assms(1) l]
  show ?case
  proof (cases r1)
    case (Inl e)
    have "(F \<union> set (map FD lns)) - set (map FD lns) = F" using Suc.prems(4) by blast
    with Inl l f Suc.prems show ?thesis by (auto simp: fds_close_all simp del: set_map list.set_map)
  next
    case (Inr ln)
    have "case r of Inl e \<Rightarrow> fds_of lg' = F
      | Inr ls \<Rightarrow> length ls = length (lns @ [ln]) + n \<and> distinct (map FD ls) \<and> F \<inter> set (map FD ls) = {} \<and>
          fds_of lg' = F \<union> set (map FD ls)"
      by (rule Suc.IH) (use l f Inr Suc.prems in auto)
    then show ?thesis by (simp split: sum.splits)
  qed
qed auto

end
