(* ===== verification/Host_Forms.thy ===== *)
theory Host_Forms
  imports Go_Net
begin

text \<open>
  Printed hosts and host-port pairs, and how the standard library's functions read them back: shared
  by the parsers of upstream targets and of relay specifications.
\<close>

datatype host = Host4 int int int int | Host6 "int list"

fun host_ok :: "host \<Rightarrow> bool" where
  "host_ok (Host4 a b c d) \<longleftrightarrow> (\<forall>x\<in>set [a, b, c, d]. 0 \<le> x \<and> x < 256)"
| "host_ok (Host6 gs) \<longleftrightarrow> length gs = 8 \<and> (\<forall>g\<in>set gs. 0 \<le> g \<and> g < 65536)"

fun show_host :: "host \<Rightarrow> string" where
  "show_host (Host4 a b c d) = show4 a b c d"
| "show_host (Host6 gs) = show6 gs"

lemma show_host_chars:
  "host_ok h \<Longrightarrow> c \<in> set (show_host h) \<Longrightarrow> is_hex c \<or> c = CHR '':'' \<or> c = CHR ''.''"
proof (cases h)
  case (Host4 a b x d)
  have hex: "is_digit c \<Longrightarrow> is_hex c" by (simp add: is_digit_def is_hex_def hex_val_def Let_def)
  assume "host_ok h" "c \<in> set (show_host h)"
  with Host4 hex dec_str_digits show ?thesis by (auto simp: show4_def)
next
  case (Host6 gs)
  assume "host_ok h" "c \<in> set (show_host h)"
  with Host6 show6_chars [of gs c] show ?thesis by auto
qed

lemma marks_not_hex:
  "\<not> is_hex (CHR ''['')" "\<not> is_hex (CHR '']'')" "\<not> is_hex (CHR '','')" "\<not> is_hex (CHR '' '')" "\<not> is_hex (CHR ''-'')"
  by code_simp+

lemma hex_not_space: "is_hex c \<Longrightarrow> \<not> is_space c"
  by (auto simp: is_hex_def hex_val_def is_space_def Let_def split: if_splits)

lemma show_host_plain: "host_ok h \<Longrightarrow> plain (show_host h)"
  using show_host_chars [of h] marks_not_hex by (auto simp: plain_def)

lemma mark_not_space: "\<not> is_space (CHR '':'')" "\<not> is_space (CHR ''.'')" "\<not> is_space (CHR ''['')" "\<not> is_space (CHR '']'')"
  by code_simp+

lemma digit_not_space: "is_digit c \<Longrightarrow> \<not> is_space c"
  by (auto simp: is_digit_def is_space_def)

lemma show_host_no_space: "host_ok h \<Longrightarrow> c \<in> set (show_host h) \<Longrightarrow> \<not> is_space c"
  using show_host_chars [of h c] hex_not_space mark_not_space by blast

lemma TrimSpace_no_space: "\<forall>c\<in>set s. \<not> is_space c \<Longrightarrow> TrimSpace s = s"
  by (cases "s = []") (simp_all add: TrimSpace_id, simp add: TrimSpace_def)

lemma show_host_not_Nil: "host_ok h \<Longrightarrow> show_host h \<noteq> []"
  by (cases h rule: show_host.cases) (auto simp: show4_def dest: show6_hd split: list.splits elim: show6.elims)

lemma ParseIP_show_host: "host_ok h \<Longrightarrow> ParseIP (show_host h) \<noteq> None"
  by (cases h) (simp_all add: ParseIP_def ParseAddr_show4 ParseAddr_show6)

section \<open>A bare host is not a host-port pair\<close>

lemma show6_last_colon:
  "2 \<le> length gs \<Longrightarrow> \<forall>g\<in>set gs. 0 \<le> g \<Longrightarrow>
   \<exists>pre l. show6 gs = pre @ CHR '':'' # l \<and> CHR '':'' \<notin> set l \<and> (3 \<le> length gs \<longrightarrow> CHR '':'' \<in> set pre)"
proof (induction gs rule: show6.induct)
  case (3 g h gs)
  have nc: "CHR '':'' \<notin> set (hex_str x)" if "0 \<le> x" for x
    using hex_str_facts [OF that] colon_not_hex by blast
  show ?case
  proof (cases gs)
    case Nil
    with 3 nc [of h] show ?thesis by fastforce
  next
    case (Cons k ks)
    then obtain pre l where "show6 (h # gs) = pre @ CHR '':'' # l" "CHR '':'' \<notin> set l"
      using 3 by auto
    then show ?thesis using Cons
      by (intro exI [of _ "hex_str g @ CHR '':'' # pre"] exI [of _ l]) simp
  qed
qed simp_all

lemma split_host_port_show_host: "host_ok h \<Longrightarrow> split_host_port (show_host h) = None"
proof (cases h)
  case (Host4 a b c d)
  assume "host_ok h"
  with Host4 have "CHR '':'' \<notin> set (show_host h)" by (auto simp: show4_def dec_str_plain)
  then show ?thesis by (simp add: split_host_port_def last_index_of_def)
next
  case (Host6 gs)
  assume ok: "host_ok h"
  with Host6 obtain pre l where s: "show_host h = pre @ CHR '':'' # l" "CHR '':'' \<notin> set l" "CHR '':'' \<in> set pre"
    using show6_last_colon [of gs] by auto
  moreover have "CHR ''['' \<notin> set (show_host h)" using show_host_plain [OF ok] by (simp add: plain_def)
  then have "hd (show_host h) \<noteq> CHR ''[''" using show_host_not_Nil [OF ok] by (metis hd_in_set)
  ultimately show ?thesis by (simp add: split_host_port_def last_index_of_sep Let_def)
qed

lemma split_host_port_join:
  "host_ok h \<Longrightarrow> 0 \<le> p \<Longrightarrow> split_host_port (join_host_port (show_host h) (Itoa p)) = Some (show_host h, Itoa p)"
  by (rule split_join_host_port) (simp_all add: show_host_plain Itoa_def dec_str_plain)

lemma join_no_space: "host_ok h \<Longrightarrow> 0 \<le> p \<Longrightarrow> \<forall>c\<in>set (join_host_port (show_host h) (Itoa p)). \<not> is_space c"
  using show_host_no_space dec_str_digits digit_not_space mark_not_space
  by (auto simp: join_host_port_def Itoa_def)

lemma join_not_Nil: "join_host_port h p \<noteq> []"
  by (simp add: join_host_port_def)

end
