(* ===== verification/Ip_Print.thy ===== *)
theory Ip_Print
  imports Host_Forms
begin

text \<open>
  How the standard library prints an IP address: \<open>net.IP.String\<close>, which is \<open>netip.Addr.String\<close> of its shortest
  form, with the first longest run of zero groups as an ellipsis. What is printed parses back.
\<close>

section \<open>Printing\<close>

text \<open>\<open>net.IP\<close>'s \<open>To4\<close>, on the four- and sixteen-byte forms.\<close>

definition To4 :: "bytes \<Rightarrow> bytes option" where
  "To4 ip =
    (if length ip = 4 then Some ip
     else if length ip = 16 \<and> take 12 ip = replicate 10 0 @ [0xff, 0xff] then Some (drop 12 ip)
     else None)"

fun groups_of :: "bytes \<Rightarrow> int list" where
  "groups_of (hi # lo # bs) = (uint hi * 256 + uint lo) # groups_of bs"
| "groups_of _ = []"

text \<open>The zero groups from position \<open>i\<close> on; the loop keeps a run of at least two that is longer than the one it has.\<close>

definition zero_run :: "int list \<Rightarrow> nat \<Rightarrow> nat" where
  "zero_run gs i = length (takeWhile (\<lambda>g. g = 0) (drop i gs))"

definition run_step :: "int list \<Rightarrow> nat \<times> nat \<Rightarrow> nat \<Rightarrow> nat \<times> nat" where
  "run_step gs r i = (if 2 \<le> zero_run gs i \<and> snd r < zero_run gs i then (i, zero_run gs i) else r)"

definition longest_run :: "int list \<Rightarrow> nat \<times> nat" where
  "longest_run gs = foldl (run_step gs) (0, 0) [0..<length gs]"

definition show_groups :: "int list \<Rightarrow> string" where
  "show_groups gs =
    (let (s, l) = longest_run gs
     in if l = 0 then show6 gs else show6 (take s gs) @ ''::'' @ show6 (drop (s + l) gs))"

fun show4_bytes :: "bytes \<Rightarrow> string" where
  "show4_bytes [a, b, c, d] = show4 (uint a) (uint b) (uint c) (uint d)"
| "show4_bytes _ = []"

text \<open>\<open>IP.String\<close> on addresses of four and sixteen bytes.\<close>

definition IP_String :: "bytes \<Rightarrow> string" where
  "IP_String ip = (case To4 ip of Some ip4 \<Rightarrow> show4_bytes ip4 | None \<Rightarrow> show_groups (groups_of ip))"

section \<open>The run of zeros\<close>

definition a_run :: "int list \<Rightarrow> nat \<times> nat \<Rightarrow> bool" where
  "a_run gs r \<longleftrightarrow> snd r = 0 \<or> 2 \<le> snd r \<and> snd r = zero_run gs (fst r)"

lemma a_run_fold: "a_run gs r \<Longrightarrow> a_run gs (foldl (run_step gs) r is)"
  by (induction "is" arbitrary: r) (simp_all add: run_step_def a_run_def)

lemma longest_run: "longest_run gs = (s, l) \<Longrightarrow> l \<noteq> 0 \<Longrightarrow> 2 \<le> l \<and> l = zero_run gs s"
  using a_run_fold [of gs "(0, 0)" "[0..<length gs]"] by (simp add: longest_run_def a_run_def)

lemma zeros_taken: "take (length (takeWhile P xs)) xs = takeWhile P xs"
  by (metis takeWhile_eq_take)

lemma run_splits:
  assumes "l = zero_run gs s"
  shows "gs = take s gs @ replicate l 0 @ drop (s + l) gs"
proof -
  have z: "take l (drop s gs) = takeWhile (\<lambda>g. g = 0) (drop s gs)"
    by (simp add: assms zero_run_def zeros_taken)
  have "takeWhile (\<lambda>g. g = 0) (drop s gs) = replicate l 0"
    unfolding assms zero_run_def by (rule replicate_eqI) (auto dest: set_takeWhileD)
  then have "take l (drop s gs) = replicate l 0" using z by simp
  then show ?thesis by (metis append_take_drop_id drop_drop add.commute)
qed

section \<open>Parsing what was printed\<close>

lemma length_chunk: "length (chunk g) = 2"
  by (simp add: chunk_def)

text \<open>Groups, the ellipsis, groups.\<close>

lemma ipv6_loop_ellipsis:
  "pre \<noteq> [] \<Longrightarrow> length pre + length post \<le> n \<Longrightarrow> \<forall>g\<in>set pre \<union> set post. 0 \<le> g \<and> g < 65536 \<Longrightarrow>
   ipv6_loop n ip None (show6 pre @ ''::'' @ show6 post) =
     Some (ip @ concat (map chunk (pre @ post)), Some (length ip + 2 * length pre))"
proof (induction pre arbitrary: n ip rule: show6.induct)
  case (2 g)
  obtain m where n: "n = Suc m" using "2.prems"(2) by (cases n) auto
  have g: "0 \<le> g" "g < 65536" using "2.prems"(3) by auto
  have len: "length (hex_str g) \<le> 4" using hex_str_short g by simp
  note f = hex_str_facts [OF g(1)]
  have sp: "takeWhile is_hex (hex_str g @ CHR '':'' # CHR '':'' # s) = hex_str g"
    "dropWhile is_hex (hex_str g @ CHR '':'' # CHR '':'' # s) = CHR '':'' # CHR '':'' # s" for s
    using hex_span(3,4) [OF g(1)] by simp_all
  show ?case
  proof (cases post)
    case Nil
    with len f show ?thesis by (simp add: n sp Let_def)
  next
    case (Cons h hs)
    then have "show6 post \<noteq> []" using show6_hd [of h hs] "2.prems"(3) by simp
    moreover have "ipv6_loop m (ip @ chunk g) (Some (length ip + 2)) (show6 post) =
        Some ((ip @ chunk g) @ concat (map chunk post), Some (length ip + 2))"
      using "2.prems" n Cons by (intro ipv6_loop_show6) auto
    ultimately show ?thesis using len f by (simp add: n sp Let_def)
  qed
next
  case (3 g h gs)
  obtain m where n: "n = Suc m" using "3.prems"(2) by (cases n) auto
  have g: "0 \<le> g" "g < 65536" and h: "0 \<le> h" using "3.prems"(3) by auto
  have len: "length (hex_str g) \<le> 4" using hex_str_short g by simp
  have hd: "show6 (h # gs) \<noteq> []" "hd (show6 (h # gs) @ s) \<noteq> CHR '':''" for s
    using show6_hd [OF h, of gs] colon_not_hex by (metis hd_append2)+
  have "ipv6_loop m (ip @ chunk g) None (show6 (h # gs) @ ''::'' @ show6 post) =
      Some ((ip @ chunk g) @ concat (map chunk ((h # gs) @ post)), Some (length (ip @ chunk g) + 2 * length (h # gs)))"
    using "3.prems" n by (intro "3.IH") auto
  then show ?case using len hd hex_str_facts [OF g(1)]
    by (simp add: n hex_span [OF g(1)] Let_def length_chunk)
qed simp

lemma expand_groups:
  assumes "length pre + l + length post = 8" and "2 \<le> l"
  shows "expand_ellipsis (concat (map chunk (pre @ post)), Some (2 * length pre)) =
    Some (concat (map chunk (pre @ replicate l 0 @ post)))"
proof -
  have z: "concat (map chunk (replicate k 0)) = replicate (2 * k) 0" for k
    by (induction k) (simp_all add: chunk_def)
  have "length (concat (map chunk (pre @ post))) + 2 * l = 16"
    using assms(1) length_concat_chunk [of "pre @ post"] by simp
  then show ?thesis
    using assms length_concat_chunk [of pre] z [of l]
    by (simp add: expand_ellipsis_def)
qed

lemma chars_plain_groups:
  assumes "\<forall>g\<in>set gs \<union> set hs. 0 \<le> g"
  shows "CHR ''%'' \<notin> set (show6 gs @ ''::'' @ show6 hs)"
  using show6_chars [of gs "CHR ''%''"] show6_chars [of hs "CHR ''%''"] assms not_hex_marks by auto

lemma kind_ellipsis: "\<forall>g\<in>set gs. 0 \<le> g \<Longrightarrow> addr_kind (show6 gs @ ''::'' @ s) = Some (CHR '':'')"
proof (induction gs rule: show6.induct)
  case (2 g)
  then show ?case using addr_kind_hex [of "hex_str g"] hex_str_facts [of g] by simp
next
  case (3 g h gs)
  then show ?case using addr_kind_hex [of "hex_str g"] hex_str_facts [of g] by simp
qed simp

lemma ParseAddr_ellipsis:
  assumes "length pre + l + length post = 8" and "2 \<le> l" and "\<forall>g\<in>set pre \<union> set post. 0 \<le> g \<and> g < 65536"
  shows "ParseAddr (show6 pre @ ''::'' @ show6 post) = Some (Addr6 (concat (map chunk (pre @ replicate l 0 @ post))) [])"
proof -
  let ?s = "show6 pre @ ''::'' @ show6 post"
  have tw: "takeWhile (\<lambda>c. c \<noteq> CHR ''%'') ?s = ?s" and z: "CHR ''%'' \<notin> set ?s"
    using chars_plain_groups [of pre post] assms(3) by (auto simp: takeWhile_eq_all_conv)
  have "parseIPv6 ?s = Some (Addr6 (concat (map chunk (pre @ replicate l 0 @ post))) [])"
  proof (cases "pre = []")
    case True
    show ?thesis
    proof (cases "post = []")
      case True
      with \<open>pre = []\<close> assms have "l = 8" by simp
      with True \<open>pre = []\<close> show ?thesis
        by (simp add: parseIPv6_def chunk_def numeral_eq_Suc)
    next
      case False
      then have "ipv6_loop 8 [] (Some 0) (show6 post) = Some (concat (map chunk post), Some 0)"
        using ipv6_loop_show6 [of post 8 "[]" "Some 0"] assms by simp
      moreover have "show6 post \<noteq> []" using show6_hd assms(3) False by (cases post) auto
      ultimately show ?thesis
        using True z tw expand_groups [OF assms(1,2)] unfolding parseIPv6_def Let_def tw by simp
    qed
  next
    case False
    then obtain g gs where p: "pre = g # gs" by (cases pre) auto
    then have "show6 pre \<noteq> []" "hd (show6 pre) \<noteq> CHR '':''"
      using show6_hd [of g gs] colon_not_hex assms(3) by auto
    then have "take 2 ?s \<noteq> ''::''" by (cases "show6 pre") auto
    moreover have "ipv6_loop 8 [] None ?s = Some (concat (map chunk (pre @ post)), Some (2 * length pre))"
      using ipv6_loop_ellipsis [of pre post 8 "[]"] False assms by simp
    ultimately show ?thesis
      using z expand_groups [OF assms(1,2)] unfolding parseIPv6_def Let_def tw by simp
  qed
  with kind_ellipsis [of pre "show6 post"] assms(3) show ?thesis by (simp add: ParseAddr_def)
qed

section \<open>Printed addresses\<close>

lemma byte_bound: "uint (b :: u8) < 256"
  using uint_lt2p [of b] by simp

lemma groups_of_props:
  "even (length bs) \<Longrightarrow> concat (map chunk (groups_of bs)) = bs \<and> 2 * length (groups_of bs) = length bs \<and>
    (\<forall>g\<in>set (groups_of bs). 0 \<le> g \<and> g < 65536)"
proof (induction bs rule: groups_of.induct)
  case (1 hi lo bs)
  have "(256 :: u8) = 0" by simp
  then have wrap: "hi * 256 = 0" by (simp only: mult_zero_right)
  have b: "0 \<le> uint hi" "uint hi < 256" "0 \<le> uint lo" "uint lo < 256"
    by (simp_all add: byte_bound)
  then have "chunk (uint hi * 256 + uint lo) = [hi, lo]" using wrap by (simp add: chunk_def)
  with 1 b show ?case by simp
qed simp_all

lemma show_groups_parse:
  assumes "length ip = 16"
  shows "ParseAddr (show_groups (groups_of ip)) = Some (Addr6 ip [])"
proof -
  let ?gs = "groups_of ip"
  have g: "concat (map chunk ?gs) = ip" "length ?gs = 8" "\<forall>g\<in>set ?gs. 0 \<le> g \<and> g < 65536"
    using groups_of_props [of ip] assms by auto
  obtain s l where r: "longest_run ?gs = (s, l)" by force
  show ?thesis
  proof (cases "l = 0")
    case True
    with r g show ?thesis by (simp add: show_groups_def ParseAddr_show6)
  next
    case False
    have l: "2 \<le> l" "l = zero_run ?gs s" using longest_run [OF r False] by auto
    have sp: "?gs = take s ?gs @ replicate l 0 @ drop (s + l) ?gs" by (rule run_splits [OF l(2)])
    then have "length (take s ?gs) + l + length (drop (s + l) ?gs) = 8"
      using g(2) by (metis add.assoc length_append length_replicate)
    moreover have "\<forall>g\<in>set (take s ?gs) \<union> set (drop (s + l) ?gs). 0 \<le> g \<and> g < 65536"
      using g(3) by (auto dest: in_set_takeD in_set_dropD)
    ultimately have "ParseAddr (show_groups ?gs) = Some (Addr6 (concat (map chunk ?gs)) [])"
      using ParseAddr_ellipsis [of "take s ?gs" l "drop (s + l) ?gs"] l(1) r False sp by (simp add: show_groups_def)
    with g(1) show ?thesis by simp
  qed
qed

lemma show4_bytes_parse: "length b = 4 \<Longrightarrow> ParseAddr (show4_bytes b) = Some (Addr4 b)"
  by (cases b rule: show4_bytes.cases) (auto simp: ParseAddr_show4 byte_bound)

lemma ParseAddr_IP_String:
  assumes "length ip = 4 \<or> length ip = 16"
  shows "ParseAddr (IP_String ip) = Some (case To4 ip of Some b \<Rightarrow> Addr4 b | None \<Rightarrow> Addr6 ip [])"
  using assms by (auto simp: IP_String_def To4_def show4_bytes_parse show_groups_parse)

end
