(* ===== verification/Server_Properties.thy ===== *)
theory Server_Properties
  imports Server_Run Ip_Print
begin

text \<open>
  Properties of the raw sockets, of the listeners a server creates, of the fingerprinted dials and of
  the CPU mask.
\<close>

section \<open>Addresses\<close>

text \<open>
  C30. Addresses: what \<open>net.IP.String\<close> prints of an address of four or sixteen bytes, with an ellipsis or
  without, resolves to that very address and its family, and so do the eight groups of an IPv6 address in
  full; the empty string resolves to the loopback address.
\<close>

theorem resolve_printed:
  "(\<forall>ip. length ip = 4 \<or> length ip = 16 \<longrightarrow>
      resolve (IP_String ip) port =
        Inr (case To4 ip of Some b \<Rightarrow> (SockaddrInet4 port b, AF_INET) | None \<Rightarrow> (SockaddrInet6 port ip, AF_INET6))) \<and>
   (\<forall>gs. length gs = 8 \<and> (\<forall>g\<in>set gs. 0 \<le> g \<and> g < 65536) \<longrightarrow>
      resolve (show6 gs) port = Inr (SockaddrInet6 port (concat (map chunk gs)), AF_INET6)) \<and>
   resolve [] port = Inr (SockaddrInet4 port [127, 0, 0, 1], AF_INET)"
proof (intro conjI allI impI)
  fix ip :: bytes
  assume "length ip = 4 \<or> length ip = 16"
  then have p: "ParseAddr (IP_String ip) = Some (case To4 ip of Some b \<Rightarrow> Addr4 b | None \<Rightarrow> Addr6 ip [])"
    by (rule ParseAddr_IP_String)
  then have "IP_String ip \<noteq> []" by (auto simp: ParseAddr_def)
  with p show "resolve (IP_String ip) port =
      Inr (case To4 ip of Some b \<Rightarrow> (SockaddrInet4 port b, AF_INET) | None \<Rightarrow> (SockaddrInet6 port ip, AF_INET6))"
    by (simp add: resolve_def ipOrLoopback_def split: option.splits)
next
  fix gs :: "int list"
  assume gs: "length gs = 8 \<and> (\<forall>g\<in>set gs. 0 \<le> g \<and> g < 65536)"
  then have "show6 gs \<noteq> []" using show6_hd by (cases gs) auto
  with gs show "resolve (show6 gs) port = Inr (SockaddrInet6 port (concat (map chunk gs)), AF_INET6)"
    by (simp add: resolve_def ipOrLoopback_def ParseAddr_show6)
next
  have "ParseAddr ''127.0.0.1'' = Some (Addr4 [127, 0, 0, 1])" by code_simp
  then show "resolve [] port = Inr (SockaddrInet4 port [127, 0, 0, 1], AF_INET)"
    by (simp add: resolve_def ipOrLoopback_def)
qed

lemma resolve_printed_witness:
  "resolve ''2001:db8::1'' 443 = Inr (SockaddrInet6 443 ([0x20, 1, 0xd, 0xb8] @ replicate 11 0 @ [1]), AF_INET6)"
proof -
  let ?ip = "[0x20, 1, 0xd, 0xb8] @ replicate 11 0 @ [1] :: bytes"
  have "IP_String ?ip = ''2001:db8::1''" "To4 ?ip = None" by code_simp+
  moreover have "length ?ip = 4 \<or> length ?ip = 16" by simp
  ultimately show ?thesis using resolve_printed [of 443] by (metis option.simps(4))
qed

section \<open>Descriptors\<close>

text \<open>
  C28. No descriptor leaks: whatever calls fail, a dial or a listen that returns an error leaves the
  open descriptors as they were, and one that succeeds has opened exactly the one it returns.
\<close>

theorem sockets_no_leak:
  assumes "socket_fresh k"
  shows "(case DialFP k ip port mrk rcvbuf tos lg of
      (Inl e, lg') \<Rightarrow> fds_of lg' = fds_of lg
    | (Inr f, lg') \<Rightarrow> f \<notin> fds_of lg \<and> fds_of lg' = insert f (fds_of lg)) \<and>
   (case Listen k ip port backlog lg of
      (Inl e, lg') \<Rightarrow> fds_of lg' = fds_of lg
    | (Inr l, lg') \<Rightarrow> FD l \<notin> fds_of lg \<and> fds_of lg' = insert (FD l) (fds_of lg))"
  using fds_DialFP [OF assms] fds_Listen [OF assms] by (auto split: prod.splits sum.splits)

lemma sockets_no_leak_witness:
  "fds_of (snd (Listen (demo_kernel (\<lambda>c. c = ListenOn 3 5)) ''10.0.0.1'' 80 5 [])) = {}"
proof -
  let ?r = "Listen (demo_kernel (\<lambda>c. c = ListenOn 3 5)) ''10.0.0.1'' 80 5 []"
  have "fst ?r = Inl (ListenError 98)" by code_simp
  then obtain lg where r: "?r = (Inl (ListenError 98), lg)" by (metis prod.collapse)
  have "fds_of [] = {}" by (simp add: fds_of_def)
  then show ?thesis
    using sockets_no_leak [OF demo_kernel_fresh [of "\<lambda>c. c = ListenOn 3 5"], where ip = "''10.0.0.1''" and port = 80
        and backlog = 5 and lg = "[]"] unfolding r by simp
qed

text \<open>
  C29. Listeners: when one cannot be created, \<open>Run\<close> fails with its index and leaves nothing open;
  else each worker gets its own id, core and listener, as many as configured and all different, and
  after the workers return exactly the listeners are closed.
\<close>

theorem run_listeners:
  assumes "socket_fresh k"
  shows "case Run k workers c lg of
      (Some (i, e), lg') \<Rightarrow> fds_of lg' = fds_of lg
    | (None, lg') \<Rightarrow> \<exists>lns lg1. length lns = nat (Workers c) \<and> distinct (map FD lns) \<and>
        fds_of lg \<inter> set (map FD lns) = {} \<and> fds_of lg1 = fds_of lg \<union> set (map FD lns) \<and>
        lg' = close_all k lns (workers (map (\<lambda>i. (i, worker_core c i, lns ! i)) [0..<nat (Workers c)]) lg1) \<and>
        fds_of lg' = fds_of (workers (map (\<lambda>i. (i, worker_core c i, lns ! i)) [0..<nat (Workers c)]) lg1) - set (map FD lns)"
proof -
  obtain r lg1 where l: "listen_all k (Addr c) (Port c) (nat (Workers c)) [] lg = (r, lg1)" by fastforce
  have f: "case r of Inl e \<Rightarrow> fds_of lg1 = fds_of lg
    | Inr ls \<Rightarrow> length ls = length ([] :: listener list) + nat (Workers c) \<and> distinct (map FD ls) \<and>
        fds_of lg \<inter> set (map FD ls) = {} \<and> fds_of lg1 = fds_of lg \<union> set (map FD ls)"
    by (rule fds_listen_all [OF assms l]) simp_all
  show ?thesis
  proof (cases r)
    case (Inl e)
    with l f show ?thesis by (cases e) (simp add: Run_def)
  next
    case (Inr lns)
    then have "Run k workers c lg =
        (None, close_all k lns (workers (map (\<lambda>i. (i, worker_core c i, lns ! i)) [0..<nat (Workers c)]) lg1))"
      by (simp add: Run_def l)
    moreover from f Inr have "length lns = nat (Workers c) \<and> distinct (map FD lns) \<and>
        fds_of lg \<inter> set (map FD lns) = {} \<and> fds_of lg1 = fds_of lg \<union> set (map FD lns)" by simp
    ultimately show ?thesis using fds_close_all by (simp only: prod.case option.case) blast
  qed
qed

definition run_cfg :: config where
  "run_cfg = \<lparr>Addr = ''::1'', Port = 443, Workers = 2, Pin = True, StartCore = 4, InitialReqLen = 64, MaxReqLen = 64,
     BufSize = 64, MaxConns = 1, AcceptBatch = 1, IdleTimeout = 0, HookWorkers = 1, RingSize = 8\<rparr>"

lemma run_listeners_witness:
  "fds_of (snd (Run (demo_kernel (\<lambda>c. c = ListenOn 4 4096)) (\<lambda>ws lg. lg) run_cfg [])) = {}"
proof -
  let ?r = "Run (demo_kernel (\<lambda>c. c = ListenOn 4 4096)) (\<lambda>ws lg. lg) run_cfg []"
  have "fst ?r = Some (1, ListenError 98)" by code_simp
  then obtain lg where r: "?r = (Some (1, ListenError 98), lg)" by (metis prod.collapse)
  have "fds_of [] = {}" by (simp add: fds_of_def)
  then show ?thesis
    using run_listeners [OF demo_kernel_fresh [of "\<lambda>c. c = ListenOn 4 4096"], where workers = "\<lambda>ws lg. lg" and c = run_cfg
        and lg = "[]"] unfolding r by simp
qed

section \<open>Fingerprints\<close>

text \<open>The socket options a profile asks for, by family.\<close>

definition profile_options :: "int \<Rightarrow> fd \<Rightarrow> int \<Rightarrow> call list" where
  "profile_options profile f family =
    (if profile = 1 then [Setsockopt f SOL_SOCKET soMark 1, Setsockopt f SOL_SOCKET SO_RCVBUF 8388608]
     else if profile = 2 then [Setsockopt f SOL_SOCKET soMark 2, Setsockopt f SOL_SOCKET SO_RCVBUF 2097152]
     else if profile = 3 then [Setsockopt f SOL_SOCKET soMark 3, Setsockopt f SOL_SOCKET SO_RCVBUF 16777216]
     else if profile = 4 then
       [Setsockopt f SOL_SOCKET soMark 4, Setsockopt f SOL_SOCKET SO_RCVBUF 2097152,
        (if family = AF_INET6 then Setsockopt f IPPROTO_IPV6 IPV6_TCLASS 80 else Setsockopt f IPPROTO_IP IP_TOS 80)]
     else [])"

text \<open>
  A fingerprinted dial that succeeds made exactly these calls: the socket of the address's
  family, the options of the profile in the order mark, receive buffer, type of service, and only
  then the connect; without a known profile it is the plain dial.
\<close>

theorem fingerprint_calls:
  assumes "DialFingerprint k host port profile lg = (Inr f, lg')" and "resolve host port = Inr (sa, family)"
  shows "map fst lg' = map fst lg @ [Socket family SOCK_STREAM IPPROTO_TCP] @ profile_options profile f family @ [Connect f sa] \<and>
    (profile \<notin> {1, 2, 3, 4} \<longrightarrow> DialFingerprint k host port profile lg = Dial k host port lg)"
proof
  show "map fst lg' = map fst lg @ [Socket family SOCK_STREAM IPPROTO_TCP] @ profile_options profile f family @ [Connect f sa]"
    using assms
    by (auto simp: DialFingerprint_def DialFP_def do_call_def Let_def fpProfiles_def set_rcvbuf_def set_tos_def
        profile_options_def FPWindows_def FPMacOS_def FPAndroid_def FPiOS_def split: if_splits)
  show "profile \<notin> {1, 2, 3, 4} \<longrightarrow> DialFingerprint k host port profile lg = Dial k host port lg"
    by (simp add: DialFingerprint_def Dial_def fpProfiles_def FPWindows_def FPMacOS_def FPAndroid_def FPiOS_def)
qed

lemma fingerprint_calls_witness:
  "map fst (snd (DialFingerprint (demo_kernel (\<lambda>c. False)) ''::1'' 443 4 [])) =
    [Socket 10 1 6, Setsockopt 3 1 36 4, Setsockopt 3 1 8 2097152, Setsockopt 3 41 67 80,
     Connect 3 (SockaddrInet6 443 (replicate 15 0 @ [1]))]"
proof -
  let ?r = "DialFingerprint (demo_kernel (\<lambda>c. False)) ''::1'' 443 4 []"
  have "fst ?r = Inr 3" by code_simp
  then have r: "?r = (Inr 3, snd ?r)" by (metis prod.collapse)
  have "resolve ''::1'' 443 = Inr (SockaddrInet6 443 (replicate 15 0 @ [1]), 10)" by code_simp
  from fingerprint_calls [OF r this] show ?thesis
    by (simp add: profile_options_def SOCK_STREAM_def IPPROTO_TCP_def SOL_SOCKET_def soMark_def SO_RCVBUF_def
        AF_INET6_def IPPROTO_IPV6_def IPV6_TCLASS_def)
qed

section \<open>Pinning\<close>

unbundle bit_operations_syntax

text \<open>
  The CPU mask of a worker: nothing is done for a negative core; below 1024 the mask of 128
  bytes has exactly the bit of the core set; from 1024 on the index is out of range and the worker
  panics (\<open>New\<close> does not bound \<open>StartCore\<close>).
\<close>

theorem pinToCore_mask:
  "(core < 0 \<longrightarrow> pinToCore core = Some NoPin) \<and> (1024 \<le> core \<longrightarrow> pinToCore core = None) \<and>
   (0 \<le> core \<and> core < 1024 \<longrightarrow>
     (\<exists>m. pinToCore core = Some (SetAffinity m) \<and> length m = 128 \<and>
       (\<forall>i<1024. bit (m ! (i div 8)) (i mod 8) \<longleftrightarrow> int i = core)))"
proof (intro conjI impI)
  assume c: "0 \<le> core \<and> core < 1024"
  define j where "j = nat core"
  have j: "core = int j" "j < 1024" "nat (core div 8) = j div 8" "nat (core mod 8) = j mod 8"
    using c by (auto simp: j_def nat_div_distrib nat_mod_distrib)
  let ?m = "(replicate 128 (0 :: u8))[j div 8 := push_bit (j mod 8) 1]"
  have "pinToCore core = Some (SetAffinity ?m)" using c j by (simp add: pinToCore_def Let_def)
  moreover have "bit (?m ! (i div 8)) (i mod 8) \<longleftrightarrow> int i = core" if "i < 1024" for i
  proof -
    have "i div 8 < 128" "i mod 8 < 8" using that by auto
    then have "bit (?m ! (i div 8)) (i mod 8) \<longleftrightarrow> i div 8 = j div 8 \<and> i mod 8 = j mod 8"
      by (cases "i div 8 = j div 8") (auto simp: bit_exp_iff possible_bit_word)
    also have "\<dots> \<longleftrightarrow> i = j" by (metis div_mult_mod_eq)
    finally show ?thesis using j(1) by simp
  qed
  ultimately show "\<exists>m. pinToCore core = Some (SetAffinity m) \<and> length m = 128 \<and>
      (\<forall>i<1024. bit (m ! (i div 8)) (i mod 8) \<longleftrightarrow> int i = core)" by (intro exI [of _ ?m]) simp
qed (auto simp: pinToCore_def Let_def)

lemma pinToCore_mask_witness: "\<exists>m. pinToCore 10 = Some (SetAffinity m) \<and> length m = 128"
  using pinToCore_mask [of 10] by auto

end
