(* ===== verification/Gate_Proto.thy ===== *)
theory Gate_Proto
  imports Prelude
begin

text \<open>
  The wire protocol of the benchmark gate, \<open>research/gate/internal/proto/proto.go\<close>: the request and
  reply patterns and the byte audit.
\<close>

definition DefaultReqLen :: nat where "DefaultReqLen = 64"
definition DefaultReplyLen :: nat where "DefaultReplyLen = 256"
definition reqSeed :: int where "reqSeed = 0xA5"
definition replySeed :: int where "replySeed = 0x3C"

text \<open>\<open>fill\<close>; the conversion to a byte takes the integer modulo 256.\<close>

definition fill_pattern :: "nat \<Rightarrow> int \<Rightarrow> bytes" where
  "fill_pattern n seed = map (\<lambda>i. word_of_int (int i * 131 + seed * 7 + 17)) [0..<n]"

definition Request_bytes :: "nat \<Rightarrow> bytes" where
  "Request_bytes n = fill_pattern n reqSeed"

definition Reply_bytes :: "nat \<Rightarrow> bytes" where
  "Reply_bytes n = fill_pattern n replySeed"

fun equal_from :: "bytes \<Rightarrow> bytes \<Rightarrow> nat list \<Rightarrow> bool" where
  "equal_from got want [] = True"
| "equal_from got want (i # is) = (if got ! i \<noteq> want ! i then False else equal_from got want is)"

definition Equal :: "bytes \<Rightarrow> bytes \<Rightarrow> bool" where
  "Equal got want =
    (if length got \<noteq> length want then False else equal_from got want [0..<length want])"

lemma equal_from_iff: "equal_from got want is \<longleftrightarrow> (\<forall>i\<in>set is. got ! i = want ! i)"
  by (induction "is") auto

lemma Equal_iff: "Equal got want \<longleftrightarrow> got = want"
  by (auto simp: Equal_def equal_from_iff intro: nth_equalityI)

lemma length_fill [simp]: "length (fill_pattern n seed) = n" "length (Request_bytes n) = n" "length (Reply_bytes n) = n"
  by (simp_all add: fill_pattern_def Request_bytes_def Reply_bytes_def)

lemma byte_eq_iff: "(word_of_int a :: u8) = word_of_int b \<longleftrightarrow> a mod 256 = b mod 256"
  by (simp add: word_of_int_eq_iff take_bit_eq_mod)

lemma fill_nth: "i < n \<Longrightarrow> fill_pattern n seed ! i = word_of_int (int i * 131 + seed * 7 + 17)"
  by (simp add: fill_pattern_def)

text \<open>Two positions of one pattern hold the same byte only when they are a multiple of 256 apart.\<close>

lemma fill_period:
  assumes "i < n" and "j < m"
  shows "fill_pattern n seed ! i = fill_pattern m seed ! j \<longleftrightarrow> int i mod 256 = int j mod 256"
proof -
  have cop: "coprime (256 :: int) 131" by code_simp
  have "(int i * 131 + (seed * 7 + 17)) mod 256 = (int j * 131 + (seed * 7 + 17)) mod 256 \<longleftrightarrow>
      256 dvd 131 * (int i - int j)"
    by (simp add: mod_eq_dvd_iff algebra_simps)
  also have "\<dots> \<longleftrightarrow> 256 dvd int i - int j" using cop by (rule coprime_dvd_mult_right_iff)
  also have "\<dots> \<longleftrightarrow> int i mod 256 = int j mod 256" by (rule mod_eq_dvd_iff [symmetric])
  finally show ?thesis using assms by (simp only: fill_nth byte_eq_iff add.assoc)
qed

lemma request_reply_differ: "i < n \<Longrightarrow> i < m \<Longrightarrow> Request_bytes n ! i \<noteq> Reply_bytes m ! i"
  by (simp add: Request_bytes_def Reply_bytes_def fill_nth byte_eq_iff reqSeed_def replySeed_def)

end
