(* ===== verification/Gate_Hook.thy ===== *)
theory Gate_Hook
  imports Rawsock
begin

text \<open>
  The decision hook of the gate, \<open>research/gate/internal/hook/hook.go\<close>: the configuration and the
  parsing of the upstream targets (\<open>Init\<close>), the walk over the grid of hosts and ports
  (\<open>sinkTargetFor\<close>), and \<open>Decide\<close>. The counter \<open>dialSeq\<close> is shared by pointer between the copies
  of a configuration; here it is threaded through, so concurrent draws are the interleavings of its
  atomic additions, which hand out the same sequence of numbers.
\<close>

section \<open>Configuration\<close>

record sinkTarget =
  t_ip :: string
  t_base :: int

text \<open>Durations are nanoseconds; \<open>Delay\<close> is the dial latency sampled for this call, \<open>None\<close> for a nil function.\<close>

record hook_config =
  AuthCPU :: int
  SinkIP :: string
  SinkPort :: int
  SinkPorts :: int
  SinkIPs :: "string list"
  Mark :: int
  dialSeq :: "u64 option"
  targets :: "sinkTarget list"

datatype hook_error = BadPort string string | NotAnIP string

section \<open>Init\<close>

text \<open>One entry of \<open>SinkIPs\<close>, already trimmed and not empty.\<close>

definition init_entry :: "int \<Rightarrow> string \<Rightarrow> hook_error + sinkTarget" where
  "init_entry sinkPort e =
    (let hb = (case split_host_port e of
                 Some (h, p) \<Rightarrow> (case Atoi p of None \<Rightarrow> Inl (BadPort e p) | Some n \<Rightarrow> Inr (h, n))
               | None \<Rightarrow> Inr (e, sinkPort))
     in case hb of
          Inl err \<Rightarrow> Inl err
        | Inr (ip, base) \<Rightarrow> if ParseIP ip = None then Inl (NotAnIP e) else Inr \<lparr>t_ip = ip, t_base = base\<rparr>)"

text \<open>The loop over \<open>SinkIPs\<close>: the targets appended, also those before an error.\<close>

fun init_loop :: "int \<Rightarrow> string list \<Rightarrow> sinkTarget list \<Rightarrow> hook_error option \<times> sinkTarget list" where
  "init_loop sinkPort [] ts = (None, ts)"
| "init_loop sinkPort (e # es) ts =
    (let e = TrimSpace e in
     if e = [] then init_loop sinkPort es ts
     else case init_entry sinkPort e of
       Inl err \<Rightarrow> (Some err, ts)
     | Inr t \<Rightarrow> init_loop sinkPort es (ts @ [t]))"

definition Init :: "hook_config \<Rightarrow> hook_error option \<times> hook_config" where
  "Init c =
    (let c = (if dialSeq c = None then c\<lparr>dialSeq := Some 0\<rparr> else c);
         (err, ts) = init_loop (SinkPort c) (SinkIPs c) []
     in case err of
          Some e \<Rightarrow> (Some e, c\<lparr>targets := ts\<rparr>)
        | None \<Rightarrow>
            (None, c\<lparr>targets := (if length ts = 0 then [\<lparr>t_ip = SinkIP c, t_base = SinkPort c\<rparr>] else ts)\<rparr>))"

section \<open>The target of a dial\<close>

definition sinkTargetFor :: "hook_config \<Rightarrow> (string \<times> int) \<times> hook_config" where
  "sinkTargetFor c =
    (let ts = targets c in
     if length ts = 0 then ((SinkIP c, SinkPort c), c)
     else
       let nports = SinkPorts c;
           nports = (if nports < 1 then 1 else nports)
       in case dialSeq c of
            None \<Rightarrow> ((t_ip (ts ! 0), t_base (ts ! 0)), c)
          | Some q \<Rightarrow>
              if length ts = 1 \<and> nports = 1 then ((t_ip (ts ! 0), t_base (ts ! 0)), c)
              else
                let n = q + 1;
                    t = ts ! unat (n mod of_nat (length ts))
                in ((t_ip t, t_base t + uint ((n div of_nat (length ts)) mod word_of_int nports)),
                    c\<lparr>dialSeq := Some n\<rparr>))"

section \<open>Decide\<close>

text \<open>The passage of time a call asks for: burning CPU, parking the goroutine.\<close>

datatype wait = Spun int | Slept int

definition Spin :: "int \<Rightarrow> wait list" where
  "Spin d = (if d \<le> 0 then [] else [Spun d])"

text \<open>\<open>delay\<close> is the latency drawn from \<open>Config.Delay\<close>, \<open>None\<close> when that is nil.\<close>

definition Decide ::
  "kernel \<Rightarrow> int option \<Rightarrow> hook_config \<Rightarrow> log \<Rightarrow> wait list \<times> (sock_error + fd) \<times> hook_config \<times> log" where
  "Decide k delay c lg =
    (let ws = Spin (AuthCPU c);
         ws = ws @ (case delay of None \<Rightarrow> [] | Some d \<Rightarrow> if d > 0 then [Slept d] else []);
         ((ip, port), c') = sinkTargetFor c;
         (r, lg') = DialMark k ip port (Mark c) lg
     in (ws, r, c', lg'))"

section \<open>Lemmas on the grid walk\<close>

text \<open>The draw of counter value \<open>n\<close>: the host and port index.\<close>

definition draw :: "nat \<Rightarrow> nat \<Rightarrow> nat \<Rightarrow> nat \<times> nat" where
  "draw L P n = (n mod L, (n div L) mod P)"

lemma draw_code: "L * snd (draw L P n) + fst (draw L P n) = n mod (L * P)"
  by (simp add: draw_def mod_mult2_eq)

lemma inj_on_draw: "inj_on (draw L P) {s..<s + L * P}"
proof (rule inj_onI)
  fix a b
  assume ab: "a \<in> {s..<s + L * P}" "b \<in> {s..<s + L * P}" and "draw L P a = draw L P b"
  then have "a mod (L * P) = b mod (L * P)" by (metis draw_code)
  moreover have "a \<le> b \<Longrightarrow> b - a < L * P" "b \<le> a \<Longrightarrow> a - b < L * P" using ab by auto
  ultimately show "a = b"
    by (metis dvd_imp_le leD le_antisym mod_eq_dvd_iff_nat nat_le_linear zero_less_diff le_neq_implies_less)
qed

lemma draw_grid: "0 < L \<Longrightarrow> 0 < P \<Longrightarrow> draw L P ` {s..<s + L * P} = {..<L} \<times> {..<P}"
proof (rule card_subset_eq)
  show "draw L P ` {s..<s + L * P} \<subseteq> {..<L} \<times> {..<P}" if "0 < L" "0 < P"
    using that by (auto simp: draw_def)
  show "card (draw L P ` {s..<s + L * P}) = card ({..<L} \<times> {..<P})"
    by (simp add: card_image [OF inj_on_draw] card_cartesian_product)
qed simp_all

lemma mset_draws: "0 < L \<Longrightarrow> 0 < P \<Longrightarrow> mset (map (draw L P) [s..<s + L * P]) = mset_set ({..<L} \<times> {..<P})"
proof -
  assume "0 < L" "0 < P"
  have "mset (map (draw L P) [s..<s + L * P]) = image_mset (draw L P) (mset_set {s..<s + L * P})"
    by (simp only: mset_map mset_upt)
  also have "\<dots> = mset_set (draw L P ` {s..<s + L * P})" by (rule image_mset_mset_set [OF inj_on_draw])
  finally show ?thesis using draw_grid [OF \<open>0 < L\<close> \<open>0 < P\<close>] by simp
qed

lemma mset_grid: "mset_set ({..<L} \<times> {..<P}) = mset (concat (map (\<lambda>j. map (Pair j) [0..<P]) [0..<L]))"
proof -
  have d: "distinct (concat (map (\<lambda>j. map (Pair j) [0..<P]) [0..<L]))"
    by (induction L) (auto simp: distinct_map inj_on_def)
  have "set (concat (map (\<lambda>j. map (Pair j) [0..<P]) [0..<L])) = {..<L} \<times> {..<P}" by auto
  then show ?thesis using mset_set_set [OF d] by simp
qed

definition ports_of :: "hook_config \<Rightarrow> nat" where
  "ports_of c = (if SinkPorts c < 1 then 1 else nat (SinkPorts c))"

definition grid_addr :: "hook_config \<Rightarrow> nat \<times> nat \<Rightarrow> string \<times> int" where
  "grid_addr c jp = (t_ip (targets c ! fst jp), t_base (targets c ! fst jp) + int (snd jp))"

lemma sinkTargetFor_draw:
  assumes "targets c \<noteq> []" and "dialSeq c = Some q" and "\<not> (length (targets c) = 1 \<and> ports_of c = 1)"
    and "unat q + 1 < 2 ^ 64" and "length (targets c) < 2 ^ 64" and "ports_of c < 2 ^ 64"
  shows "sinkTargetFor c = (grid_addr c (draw (length (targets c)) (ports_of c) (unat q + 1)), c\<lparr>dialSeq := Some (q + 1)\<rparr>)"
proof -
  let ?L = "length (targets c)" and ?P = "ports_of c"
  have q: "unat (q + 1) = unat q + 1" using assms(4) by (simp add: unat_word_ariths unat_1)
  have L: "unat (of_nat ?L :: u64) = ?L" and P: "unat (of_nat ?P :: u64) = ?P"
    using assms(5,6) by (simp_all add: unat_of_nat)
  have ports: "(if SinkPorts c < 1 then 1 else SinkPorts c) = int ?P" by (simp add: ports_of_def)
  have "unat ((q + 1) mod of_nat ?L) = (unat q + 1) mod ?L" by (simp only: unat_mod_distrib q L)
  moreover have "unat (((q + 1) div of_nat ?L) mod of_nat ?P) = ((unat q + 1) div ?L) mod ?P"
    by (simp only: unat_mod_distrib unat_div_distrib q L P)
  then have "uint (((q + 1) div of_nat ?L) mod word_of_int (int ?P)) = int (((unat q + 1) div ?L) mod ?P)"
    by (simp add: uint_nat)
  ultimately show ?thesis
    unfolding sinkTargetFor_def Let_def ports using assms(1-3) by (auto simp: grid_addr_def draw_def)
qed

end
