(* ===== verification/Gate_Properties.thy ===== *)
theory Gate_Properties
  imports Gate_Proto Gate_Hook Server_Run
begin

text \<open>
  Properties of the gate's byte audit and of its decision hook.
\<close>

section \<open>The byte audit\<close>

text \<open>
  The audit is exact and the patterns tell apart: \<open>Equal\<close> is equality; request and reply differ at
  every position, so a relay that echoes the request is never taken for one that reached the
  upstream; and bytes missing or inserted are noticed, a pattern shifted by anything but a multiple
  of 256 differing at every position.
\<close>

theorem proto_audit:
  "(Equal got want \<longleftrightarrow> got = want) \<and>
   (\<forall>i<n. i < m \<longrightarrow> Request_bytes n ! i \<noteq> Reply_bytes m ! i) \<and>
   (Equal (Request_bytes n) (Reply_bytes m) \<longleftrightarrow> n = 0 \<and> m = 0) \<and>
   (\<forall>i k. i + k < n \<and> i < m \<and> k mod 256 \<noteq> 0 \<longrightarrow> Reply_bytes n ! (i + k) \<noteq> Reply_bytes m ! i)"
proof (intro conjI allI impI)
  show "Equal (Request_bytes n) (Reply_bytes m) \<longleftrightarrow> n = 0 \<and> m = 0"
  proof (cases "n = m \<and> 0 < n")
    case True
    then have "Request_bytes n \<noteq> Reply_bytes m" using request_reply_differ [of 0 n m] by auto
    with True show ?thesis by (simp add: Equal_iff)
  next
    case False
    then show ?thesis
      by (auto simp: Equal_iff Request_bytes_def Reply_bytes_def fill_pattern_def dest: map_eq_imp_length_eq)
  qed
next
  fix i k
  assume h: "i + k < n \<and> i < m \<and> k mod 256 \<noteq> 0"
  have "int (i + k) mod 256 = int i mod 256 \<longleftrightarrow> k mod 256 = 0"
    by (simp add: mod_eq_dvd_iff dvd_eq_mod_eq_0 [symmetric]) (metis of_nat_dvd_iff of_nat_numeral)
  then show "Reply_bytes n ! (i + k) \<noteq> Reply_bytes m ! i"
    using h fill_period [of "i + k" n i m replySeed] by (simp add: Reply_bytes_def)
qed (simp_all add: Equal_iff request_reply_differ)

lemma proto_audit_witness: "\<not> Equal (Request_bytes 64) (Reply_bytes 64) \<and> Reply_bytes 256 ! (0 + 1) \<noteq> Reply_bytes 255 ! 0"
proof
  show "\<not> Equal (Request_bytes 64) (Reply_bytes 64)"
    using proto_audit [of "[]" "[]" 64 64] by (elim conjE) simp
  have "\<forall>i k. i + k < 256 \<and> i < 255 \<and> k mod 256 \<noteq> 0 \<longrightarrow> Reply_bytes 256 ! (i + k) \<noteq> Reply_bytes 255 ! i"
    using proto_audit [of "[]" "[]" 256 255] by (elim conjE)
  from this [THEN spec, THEN spec, of 0 1] show "Reply_bytes 256 ! (0 + 1) \<noteq> Reply_bytes 255 ! 0" by simp
qed

section \<open>The walk over the upstream grid\<close>

text \<open>\<open>n\<close> draws in a row.\<close>

fun draws :: "nat \<Rightarrow> hook_config \<Rightarrow> (string \<times> int) list \<times> hook_config" where
  "draws 0 c = ([], c)"
| "draws (Suc n) c =
    (let (a, c) = sinkTargetFor c; (as, c) = draws n c in (a # as, c))"

lemma draws_grid:
  assumes "targets c \<noteq> []" and "dialSeq c = Some q" and "\<not> (length (targets c) = 1 \<and> ports_of c = 1)"
    and "unat q + n < 2 ^ 64" and "length (targets c) < 2 ^ 64" and "ports_of c < 2 ^ 64"
  shows "fst (draws n c) = map (\<lambda>i. grid_addr c (draw (length (targets c)) (ports_of c) i)) [unat q + 1..<unat q + 1 + n]"
  using assms
proof (induction n arbitrary: c q)
  case (Suc n)
  let ?c = "c\<lparr>dialSeq := Some (q + 1)\<rparr>"
  have s: "sinkTargetFor c = (grid_addr c (draw (length (targets c)) (ports_of c) (unat q + 1)), ?c)"
    using Suc.prems by (intro sinkTargetFor_draw) simp_all
  have q: "unat (q + 1) = unat q + 1" using Suc.prems(4) by (simp add: unat_word_ariths unat_1)
  have same: "ports_of ?c = ports_of c" "grid_addr ?c = grid_addr c" "targets ?c = targets c"
    by (simp_all add: ports_of_def grid_addr_def fun_eq_iff)
  have "fst (draws n ?c) = map (\<lambda>i. grid_addr ?c (draw (length (targets ?c)) (ports_of ?c) i)) [unat (q + 1) + 1..<unat (q + 1) + 1 + n]"
    by (rule Suc.IH) (use Suc.prems q same in simp_all)
  moreover have "[Suc (unat q)..<Suc (Suc (unat q + n))] = Suc (unat q) # [Suc (Suc (unat q))..<Suc (Suc (unat q + n))]"
    by (simp add: upt_conv_Cons del: upt_Suc)
  ultimately show ?case using s same q by (simp add: split_beta Let_def del: upt_Suc)
qed simp

text \<open>
  The walk is even: over any window of as many draws as the grid has points (hosts times ports),
  starting from any value of the counter that does not wrap in between, every host and port is drawn
  exactly once.
\<close>

theorem grid_walk_even:
  assumes "targets c \<noteq> []" and "dialSeq c = Some q" and "n = length (targets c) * ports_of c" and "unat q + n < 2 ^ 64"
  shows "mset (fst (draws n c)) =
    mset (concat (map (\<lambda>j. map (\<lambda>p. (t_ip (targets c ! j), t_base (targets c ! j) + int p)) [0..<ports_of c])
      [0..<length (targets c)]))"
proof (cases "length (targets c) = 1 \<and> ports_of c = 1")
  case True
  moreover from True have "SinkPorts c < 1 \<or> SinkPorts c = 1" by (auto simp: ports_of_def split: if_splits)
  ultimately have "sinkTargetFor c = ((t_ip (targets c ! 0), t_base (targets c ! 0)), c)"
    using assms(2) by (auto simp: sinkTargetFor_def Let_def)
  with True assms(3) show ?thesis by (simp add: Let_def)
next
  case False
  let ?L = "length (targets c)" and ?P = "ports_of c"
  have pos: "0 < ?L" "0 < ?P" using assms(1) by (auto simp: ports_of_def)
  then have "?L \<le> n" "?P \<le> n" using assms(3) Suc_leI [OF pos(1)] Suc_leI [OF pos(2)] by simp_all
  then have lt: "?L < 2 ^ 64" "?P < 2 ^ 64" using assms(4) by linarith+
  have "mset (fst (draws n c)) = image_mset (grid_addr c) (mset (map (draw ?L ?P) [unat q + 1..<unat q + 1 + ?L * ?P]))"
    using draws_grid [OF assms(1,2) False assms(4) lt] assms(3) by (simp add: image_mset.compositionality comp_def)
  also have "\<dots> = image_mset (grid_addr c) (mset (concat (map (\<lambda>j. map (Pair j) [0..<?P]) [0..<?L])))"
    by (simp only: mset_draws [OF pos] mset_grid)
  also have "\<dots> = mset (map (grid_addr c) (concat (map (\<lambda>j. map (Pair j) [0..<?P]) [0..<?L])))"
    by (rule mset_map [symmetric])
  finally show ?thesis by (simp only: map_concat map_map comp_def) (simp add: grid_addr_def)
qed

definition demo_hook :: hook_config where
  "demo_hook = \<lparr>AuthCPU = 5000, SinkIP = ''10.0.0.1'', SinkPort = 9000, SinkPorts = 3, SinkIPs = [],
     Mark = 0, dialSeq = Some 17, targets = [\<lparr>t_ip = ''10.0.0.1'', t_base = 9000\<rparr>, \<lparr>t_ip = ''10.0.0.2'', t_base = 9500\<rparr>]\<rparr>"

lemma grid_walk_even_witness:
  "mset (fst (draws 6 demo_hook)) =
    {# (''10.0.0.1'', 9000), (''10.0.0.1'', 9001), (''10.0.0.1'', 9002), (''10.0.0.2'', 9500), (''10.0.0.2'', 9501), (''10.0.0.2'', 9502) #}"
proof -
  have "concat (map (\<lambda>j. map (\<lambda>p. (t_ip (targets demo_hook ! j), t_base (targets demo_hook ! j) + int p)) [0..<ports_of demo_hook])
      [0..<length (targets demo_hook)]) =
    [(''10.0.0.1'', 9000), (''10.0.0.1'', 9001), (''10.0.0.1'', 9002), (''10.0.0.2'', 9500), (''10.0.0.2'', 9501), (''10.0.0.2'', 9502)]"
    by code_simp
  moreover have "targets demo_hook \<noteq> []" "dialSeq demo_hook = Some 17" "6 = length (targets demo_hook) * ports_of demo_hook"
    by (simp_all add: demo_hook_def ports_of_def)
  ultimately show ?thesis using grid_walk_even [of demo_hook 17 6] by simp
qed

end
