(* ===== verification/Gate_Storm.thy ===== *)
theory Gate_Storm
  imports Rawsock Gate_Proto Ip_Print
begin

text \<open>
  The connection storm of the gate, \<open>research/gate/internal/storm\<close>: the parsing of relay
  specifications and source addresses, the raw junk connections, and the classification and counting
  of every attempt; and the upstream server that answers it, \<open>research/gate/internal/sinksrv\<close>.
\<close>

section \<open>Targets and sources\<close>

datatype storm_error =
    EmptyTarget | BadRelay string | BadRelayPort string string | SpanBelow string int int | InvalidSourceIP string
  | NoGlobalIPs | UnusableIP bytes | BadSource string

definition ExpandTargets :: "string \<Rightarrow> storm_error + string list" where
  "ExpandTargets spec =
    (let spec = TrimSpace spec in
     if spec = [] then Inl EmptyTarget
     else case split_host_port spec of
       None \<Rightarrow> Inl (BadRelay spec)
     | Some (hst, portPart) \<Rightarrow>
         (let (lo, hi) = (case index_of (CHR ''-'') portPart of
                            Some i \<Rightarrow> (take i portPart, drop (i + 1) portPart)
                          | None \<Rightarrow> (portPart, portPart))
          in case Atoi lo of
               None \<Rightarrow> Inl (BadRelayPort spec lo)
             | Some a \<Rightarrow>
                 (case Atoi hi of
                    None \<Rightarrow> Inl (BadRelayPort spec hi)
                  | Some b \<Rightarrow>
                      if b < a then Inl (SpanBelow spec b a)
                      else Inr (map (\<lambda>p. join_host_port hst (Itoa p)) [a..b]))))"

fun src_loop :: "string list \<Rightarrow> string list \<Rightarrow> storm_error + string list" where
  "src_loop [] out = Inr out"
| "src_loop (p # ps) out =
    (let p = TrimSpace p in
     if p = [] then src_loop ps out
     else if ParseIP p = None then Inl (InvalidSourceIP p)
     else src_loop ps (out @ [p]))"

text \<open>\<open>auto\<close> is what \<open>localGlobalIPs\<close> returns for the interfaces of the host.\<close>

definition ResolveSrcIPs :: "storm_error + string list \<Rightarrow> string \<Rightarrow> storm_error + string list" where
  "ResolveSrcIPs auto spec =
    (let spec = TrimSpace spec in
     if spec = '''' then Inr []
     else if spec = ''auto'' then auto
     else src_loop (split_on (CHR '','') spec) [])"

definition sockAddr :: "bytes \<Rightarrow> int \<Rightarrow> storm_error + (sockaddr \<times> int)" where
  "sockAddr ip port =
    (case To4 ip of
       Some ip4 \<Rightarrow> Inr (SockaddrInet4 port ip4, AF_INET)
     | None \<Rightarrow> if length ip = 16 then Inr (SockaddrInet6 port ip, AF_INET6) else Inl (UnusableIP ip))"

definition resolveSource :: "string \<Rightarrow> storm_error + (sockaddr \<times> int)" where
  "resolveSource ip = (case ParseIP ip of None \<Rightarrow> Inl (BadSource ip) | Some pip \<Rightarrow> sockAddr pip 0)"

section \<open>Junk connections\<close>

definition SOCK_CLOEXEC :: int where "SOCK_CLOEXEC = 0x80000"

unbundle bit_operations_syntax

text \<open>The deferred close runs on every path after the socket exists.\<close>

definition junkDial :: "kernel \<Rightarrow> int \<Rightarrow> sockaddr \<Rightarrow> sockaddr option \<Rightarrow> log \<Rightarrow> int option \<times> log" where
  "junkDial k domain dst src lg =
    (let (a, lg) = do_call k (Socket domain (SOCK_STREAM OR SOCK_CLOEXEC) IPPROTO_TCP) lg in
     if failed a then (Some (errno a), lg) else
     let f = ret a;
         (a, lg) = (case src of
                      None \<Rightarrow> (Val 0, lg)
                    | Some s \<Rightarrow>
                        let lg = snd (do_call k (Setsockopt f SOL_SOCKET SO_REUSEADDR 1) lg)
                        in do_call k (Bind f s) lg) in
     if failed a then (Some (errno a), close_fd k f lg) else
     let (a, lg) = do_call k (Connect f dst) lg
     in (if failed a then Some (errno a) else None, close_fd k f lg))"

section \<open>Attempts\<close>

record storm_config =
  ReqLen :: nat
  ReplyLen :: nat
  InFlight :: nat
  JunkPct :: int

text \<open>
  What one pass of a worker's loop meets: the random number drawn, whether the junk dial, the dial
  and the write of the request fail, the bytes \<open>ReadFull\<close> delivers (\<open>None\<close> when it fails), the time
  taken, and whether the measured window is on at the end.
\<close>

record outcome =
  draw_r :: int
  junk_err :: bool
  dial_err :: bool
  write_err :: bool
  got :: "bytes option"
  elapsed :: int
  measuring :: bool

record storm =
  completed_s :: u64
  junk_s :: u64
  errs_s :: u64
  auditFail_s :: u64
  lat :: "nat \<Rightarrow> int list"

definition storm_start :: storm where
  "storm_start = \<lparr>completed_s = 0, junk_s = 0, errs_s = 0, auditFail_s = 0, lat = (\<lambda>_. [])\<rparr>"

definition is_junk :: "storm_config \<Rightarrow> outcome \<Rightarrow> bool" where
  "is_junk c o' \<longleftrightarrow> JunkPct c > 0 \<and> draw_r o' < JunkPct c"

definition storm_pass :: "storm_config \<Rightarrow> nat \<Rightarrow> outcome \<Rightarrow> storm \<Rightarrow> storm" where
  "storm_pass c w o' s =
    (if is_junk c o' then
       (if junk_err o' then s\<lparr>errs_s := errs_s s + 1\<rparr>
        else if measuring o' then s\<lparr>junk_s := junk_s s + 1\<rparr> else s)
     else if dial_err o' then s\<lparr>errs_s := errs_s s + 1\<rparr>
     else if write_err o' then s\<lparr>errs_s := errs_s s + 1\<rparr>
     else case got o' of
       None \<Rightarrow> s\<lparr>errs_s := errs_s s + 1\<rparr>
     | Some buf \<Rightarrow>
         if \<not> Equal buf (Reply_bytes (ReplyLen c)) then s\<lparr>auditFail_s := auditFail_s s + 1\<rparr>
         else if measuring o' then
           s\<lparr>completed_s := completed_s s + 1, lat := (lat s)(w := lat s w @ [elapsed o'])\<rparr>
         else s)"

text \<open>The passes of all workers, in the order their counter updates take effect.\<close>

definition storm_run :: "storm_config \<Rightarrow> (nat \<times> outcome) list \<Rightarrow> storm" where
  "storm_run c ps = fold (\<lambda>(w, o'). storm_pass c w o') ps storm_start"

text \<open>The destination and source of worker \<open>w\<close>.\<close>

definition worker_target :: "'a list \<Rightarrow> nat \<Rightarrow> 'a" where
  "worker_target ts w = ts ! (w mod length ts)"

definition worker_source :: "'a list \<Rightarrow> nat \<Rightarrow> 'a option" where
  "worker_source srcs w = (if length srcs > 0 then Some (srcs ! (w mod length srcs)) else None)"

record storm_result =
  r_InFlight :: nat
  r_ReqLen :: nat
  r_ReplyLen :: nat
  r_Completed :: u64
  r_Junk :: u64
  r_Errors :: u64
  r_AuditFail :: u64
  r_sorted :: "int list"
  r_Samples :: nat

text \<open>The merge of the latencies and the counters of the result (the rates and percentiles are floating point).\<close>

definition storm_result_of :: "storm_config \<Rightarrow> storm \<Rightarrow> storm_result" where
  "storm_result_of c s =
    (let all = sort (concat (map (lat s) [0..<InFlight c]))
     in \<lparr>r_InFlight = InFlight c, r_ReqLen = ReqLen c, r_ReplyLen = ReplyLen c, r_Completed = completed_s s,
         r_Junk = junk_s s, r_Errors = errs_s s, r_AuditFail = auditFail_s s, r_sorted = all, r_Samples = length all\<rparr>)"

section \<open>The upstream server\<close>

record sink =
  served :: u64
  auditFail_k :: u64
  errs_k :: u64

text \<open>
  One accepted connection: \<open>received\<close> is what arrives before the end of stream or the deadline; the write of the
  reply succeeds when \<open>werr\<close> is \<open>None\<close>, and fails after \<open>n\<close> bytes when it is \<open>Some n\<close>. The bytes sent back are
  returned too.
\<close>

definition sink_conn :: "nat \<Rightarrow> nat \<Rightarrow> bytes \<Rightarrow> nat option \<Rightarrow> sink \<Rightarrow> bytes \<times> sink" where
  "sink_conn reqLen replyLen received werr s =
    (let want = Request_bytes reqLen; reply = Reply_bytes replyLen in
     if length received < length want then ([], s\<lparr>errs_k := errs_k s + 1\<rparr>)
     else
       let buf = take (length want) received;
           s = (if \<not> Equal buf want then s\<lparr>auditFail_k := auditFail_k s + 1\<rparr> else s)
       in case werr of
            Some n \<Rightarrow> (take n reply, s\<lparr>errs_k := errs_k s + 1\<rparr>)
          | None \<Rightarrow> (reply, s\<lparr>served := served s + 1\<rparr>))"

text \<open>The echo server's \<open>countingWriter\<close>: the count of bytes written, \<open>n\<close> of them accepted by the socket.\<close>

definition counting_write :: "nat \<Rightarrow> u64 \<Rightarrow> u64" where
  "counting_write n echoed = echoed + of_nat n"

text \<open>\<open>io.ReadFull\<close> into a buffer of \<open>n\<close> bytes, of what arrives before the end of stream.\<close>

definition ReadFull :: "nat \<Rightarrow> bytes \<Rightarrow> bytes option" where
  "ReadFull n received = (if length received < n then None else Some (take n received))"

section \<open>Lemmas\<close>

lemma fds_junkDial:
  assumes "socket_fresh k"
  shows "fds_of (snd (junkDial k domain dst src lg)) = fds_of lg"
proof (rule socket_cases [OF assms, of lg domain "SOCK_STREAM OR SOCK_CLOEXEC" IPPROTO_TCP])
  fix e assume "k lg (Socket domain (SOCK_STREAM OR SOCK_CLOEXEC) IPPROTO_TCP) = Failed e"
  then show ?thesis by (auto simp: junkDial_def do_call_def Let_def)
next
  fix f assume "k lg (Socket domain (SOCK_STREAM OR SOCK_CLOEXEC) IPPROTO_TCP) = Val f" "f \<notin> fds_of lg"
  then show ?thesis by (cases src) (auto simp: junkDial_def do_call_def Let_def)
qed

end
