(* ===== verification/Storm_Run.thy ===== *)
theory Storm_Run
  imports Gate_Storm Machines
begin

text \<open>
  One run of the connection storm, \<open>Run\<close> of \<open>research/gate/internal/storm/storm.go\<close>: the addresses prepared
  for the workers, and the workers as concurrent goroutines under the main one, which opens and closes the
  measured window, closes the channel \<open>stop\<close>, waits for the workers and merges their results.
\<close>

section \<open>Addresses\<close>

text \<open>
  \<open>tcp\<close> stands for \<open>net.ResolveTCPAddr\<close>, which may ask a name server: \<open>None\<close> is an error, and the address
  may be missing.
\<close>

type_synonym resolver = "string \<Rightarrow> (bytes option \<times> int) option"

datatype target_error = Unresolved string | NoTargetIP string | Unusable storm_error

definition resolveTarget :: "resolver \<Rightarrow> string \<Rightarrow> target_error + (sockaddr \<times> int)" where
  "resolveTarget tcp target =
    (case tcp target of
       None \<Rightarrow> Inl (Unresolved target)
     | Some (None, port) \<Rightarrow> Inl (NoTargetIP target)
     | Some (Some ip, port) \<Rightarrow> (case sockAddr ip port of Inl e \<Rightarrow> Inl (Unusable e) | Inr r \<Rightarrow> Inr r))"

definition relayIsV4 :: "resolver \<Rightarrow> string \<Rightarrow> bool" where
  "relayIsV4 tcp target = (case tcp target of Some (Some ip, port) \<Rightarrow> To4 ip \<noteq> None | _ \<Rightarrow> True)"

text \<open>\<open>laddrs\<close> and \<open>rawSrc\<close>: source addresses that do not parse or are of the other family are skipped.\<close>

fun source_loop ::
  "bool \<Rightarrow> string list \<Rightarrow> bytes list \<Rightarrow> sockaddr list \<Rightarrow> storm_error + (bytes list \<times> sockaddr list)" where
  "source_loop v4 [] laddrs rawSrc = Inr (laddrs, rawSrc)"
| "source_loop v4 (ip # ips) laddrs rawSrc =
    (case ParseIP ip of
       None \<Rightarrow> source_loop v4 ips laddrs rawSrc
     | Some pip \<Rightarrow>
         if (To4 pip \<noteq> None) \<noteq> v4 then source_loop v4 ips laddrs rawSrc
         else (case resolveSource ip of
                 Inl e \<Rightarrow> Inl e
               | Inr (sa, dom') \<Rightarrow> source_loop v4 ips (laddrs @ [pip]) (rawSrc @ [sa])))"

fun target_loop :: "resolver \<Rightarrow> string list \<Rightarrow> (sockaddr \<times> int) list \<Rightarrow> target_error + (sockaddr \<times> int) list" where
  "target_loop tcp [] raw = Inr raw"
| "target_loop tcp (t # ts) raw =
    (case resolveTarget tcp t of Inl e \<Rightarrow> Inl e | Inr r \<Rightarrow> target_loop tcp ts (raw @ [r]))"

record addresses =
  dial_targets :: "string list"
  dial_sources :: "bytes list"
  raw_targets :: "(sockaddr \<times> int) list"
  raw_sources :: "sockaddr list"

text \<open>\<open>None\<close> is the result \<open>Result{Errors: 1}\<close>, returned before any worker starts.\<close>

definition prepare :: "resolver \<Rightarrow> string \<Rightarrow> string list \<Rightarrow> addresses option" where
  "prepare tcp relay srcs =
    (case ExpandTargets relay of
       Inl e \<Rightarrow> None
     | Inr ts \<Rightarrow>
         if ts = [] then None
         else case source_loop (relayIsV4 tcp (ts ! 0)) srcs [] [] of
           Inl e \<Rightarrow> None
         | Inr (ls, rs) \<Rightarrow>
             (case target_loop tcp ts [] of
                Inl e \<Rightarrow> None
              | Inr raw \<Rightarrow> Some \<lparr>dial_targets = ts, dial_sources = ls, raw_targets = raw, raw_sources = rs\<rparr>))"

text \<open>The addresses of worker \<open>w\<close>: dial target and source, then those of its junk connections.\<close>

definition endpoints ::
  "addresses \<Rightarrow> nat \<Rightarrow> string \<times> bytes option \<times> (sockaddr \<times> int) \<times> sockaddr option" where
  "endpoints a w =
    (worker_target (dial_targets a) w, worker_source (dial_sources a) w,
     raw_targets a ! (w mod length (dial_targets a)), worker_source (raw_sources a) w)"

section \<open>The goroutines\<close>

text \<open>
  \<open>Unmeasured\<close> is between \<open>measuring.Store(false)\<close> and \<open>close(stop)\<close>. A worker looks at \<open>stop\<close>, is in
  the middle of a pass of its loop, or has returned. The log keeps the passes that ended, with what each met.
\<close>

datatype storm_phase = Warming | Measured | Unmeasured | Draining | Finished

datatype storm_worker = Looking | Passing | Gone

record storm_sys =
  phase :: storm_phase
  workers :: "storm_worker list"
  tally_s :: storm
  passes :: "(nat \<times> outcome) list"

definition storm_boot :: "storm_config \<Rightarrow> storm_sys" where
  "storm_boot c = \<lparr>phase = Warming, workers = replicate (InFlight c) Looking, tally_s = storm_start, passes = []\<rparr>"

datatype storm_event = Looks nat | Ends nat outcome | Advances

text \<open>
  \<open>Ends w o'\<close>: the pass of worker \<open>w\<close> ends, having met \<open>o'\<close>; it reads \<open>measuring\<close> now. The counters are
  atomic and read only when all workers have returned, so that the reading and the update are one step loses
  nothing. \<open>Advances\<close> is the main goroutine: a timer has fired or the run was cancelled, or all workers are done.
\<close>

fun storm_enabled :: "storm_event \<Rightarrow> storm_sys \<Rightarrow> bool" where
  "storm_enabled (Looks w) S \<longleftrightarrow> w < length (workers S) \<and> workers S ! w = Looking"
| "storm_enabled (Ends w o') S \<longleftrightarrow> w < length (workers S) \<and> workers S ! w = Passing \<and> measuring o' = (phase S = Measured)"
| "storm_enabled Advances S \<longleftrightarrow> (case phase S of Draining \<Rightarrow> \<forall>x\<in>set (workers S). x = Gone | Finished \<Rightarrow> False | _ \<Rightarrow> True)"

fun next_phase :: "storm_phase \<Rightarrow> storm_phase" where
  "next_phase Warming = Measured"
| "next_phase Measured = Unmeasured"
| "next_phase Unmeasured = Draining"
| "next_phase Draining = Finished"
| "next_phase Finished = Finished"

definition stop_closed :: "storm_phase \<Rightarrow> bool" where
  "stop_closed p \<longleftrightarrow> p = Draining \<or> p = Finished"

fun storm_step :: "storm_config \<Rightarrow> storm_event \<Rightarrow> storm_sys \<Rightarrow> storm_sys" where
  "storm_step c (Looks w) S = S\<lparr>workers := (workers S)[w := if stop_closed (phase S) then Gone else Passing]\<rparr>"
| "storm_step c (Ends w o') S =
    S\<lparr>workers := (workers S)[w := Looking], tally_s := storm_pass c w o' (tally_s S), passes := passes S @ [(w, o')]\<rparr>"
| "storm_step c Advances S = S\<lparr>phase := next_phase (phase S)\<rparr>"

definition storm_trans :: "storm_config \<Rightarrow> storm_sys \<Rightarrow> storm_event \<Rightarrow> storm_sys \<Rightarrow> bool" where
  "storm_trans c S e S' \<longleftrightarrow> storm_enabled e S \<and> S' = storm_step c e S"

abbreviation storm_reachable :: "storm_config \<Rightarrow> storm_sys \<Rightarrow> bool" where
  "storm_reachable c \<equiv> reachable (\<lambda>S. S = storm_boot c) (storm_trans c)"

text \<open>What \<open>Run\<close> returns.\<close>

definition Run_result :: "storm_config \<Rightarrow> storm_sys \<Rightarrow> storm_result" where
  "Run_result c S = storm_result_of c (tally_s S)"

section \<open>What holds while a storm runs\<close>

definition storm_inv :: "storm_config \<Rightarrow> storm_sys \<Rightarrow> bool" where
  "storm_inv c S \<longleftrightarrow> length (workers S) = InFlight c \<and> tally_s S = storm_run c (passes S) \<and>
     (\<forall>p\<in>set (passes S). fst p < InFlight c) \<and> (phase S = Finished \<longrightarrow> (\<forall>x\<in>set (workers S). x = Gone)) \<and>
     (phase S = Warming \<longrightarrow> (\<forall>p\<in>set (passes S). \<not> measuring (snd p)))"

lemma all_gone: "\<forall>x\<in>set ws. x = Gone \<Longrightarrow> w < length ws \<Longrightarrow> ws ! w = Gone"
  by simp

lemma storm_inv_step: "storm_inv c S \<Longrightarrow> storm_trans c S e S' \<Longrightarrow> storm_inv c S'"
  by (cases e; cases "phase S") (auto simp: storm_trans_def storm_inv_def storm_run_def stop_closed_def all_gone)

lemma storm_inv_boot: "storm_inv c (storm_boot c)"
  by (simp add: storm_boot_def storm_inv_def storm_run_def)

interpretation storm_runs: inductive_invariant "\<lambda>S. S = storm_boot c" "storm_trans c" "storm_inv c" for c
  by unfold_locales (simp add: storm_inv_boot, rule storm_inv_step)

section \<open>The end of a storm\<close>

fun worker_rank :: "storm_worker \<Rightarrow> nat" where
  "worker_rank Looking = 1"
| "worker_rank Passing = 2"
| "worker_rank Gone = 0"

definition storm_rank :: "storm_sys \<Rightarrow> nat" where
  "storm_rank S = sum_list (map worker_rank (workers S)) + (if phase S = Finished then 0 else 1)"

definition storm_draining :: "storm_sys \<Rightarrow> bool" where
  "storm_draining S \<longleftrightarrow> stop_closed (phase S) \<and> (phase S = Finished \<longrightarrow> (\<forall>x\<in>set (workers S). x = Gone))"

lemma rank_worker:
  "w < length (workers S) \<Longrightarrow>
   sum_list (map worker_rank ((workers S)[w := x])) + worker_rank (workers S ! w) =
   sum_list (map worker_rank (workers S)) + worker_rank x"
  using sum_list_update_nat [of w "map worker_rank (workers S)" "worker_rank x"] by (simp add: map_update)

lemma storm_drains:
  assumes d: "storm_draining S" and t: "storm_trans c S e S'"
  shows "storm_draining S' \<and> storm_rank S' < storm_rank S"
proof -
  have nf: "phase S = Draining" using d t
    by (cases e) (auto simp: storm_draining_def stop_closed_def storm_trans_def all_gone)
  show ?thesis
  proof (cases e)
    case (Looks w)
    then show ?thesis using nf t rank_worker [of w S Gone]
      by (auto simp: storm_trans_def storm_draining_def storm_rank_def stop_closed_def)
  next
    case (Ends w o')
    then show ?thesis using nf t rank_worker [of w S Looking]
      by (auto simp: storm_trans_def storm_draining_def storm_rank_def stop_closed_def)
  next
    case Advances
    then show ?thesis using nf t by (auto simp: storm_trans_def storm_draining_def storm_rank_def stop_closed_def)
  qed
qed

lemma storm_moves:
  assumes d: "storm_draining S" and r: "0 < storm_rank S"
  shows "\<exists>e S'. storm_trans c S e S'"
proof (cases "\<forall>x\<in>set (workers S). x = Gone")
  case True
  then have z: "sum_list (map worker_rank (workers S)) = 0" by (auto simp: sum_list_eq_0_iff)
  have "phase S \<noteq> Finished" using r unfolding storm_rank_def z by (simp split: if_splits)
  then have "phase S = Draining" using d by (auto simp: storm_draining_def stop_closed_def)
  then have "storm_trans c S Advances (storm_step c Advances S)" using True by (simp add: storm_trans_def)
  then show ?thesis by blast
next
  case False
  then obtain w where w: "w < length (workers S)" "workers S ! w \<noteq> Gone" by (metis in_set_conv_nth)
  show ?thesis
  proof (cases "workers S ! w")
    case Looking
    then have "storm_trans c S (Looks w) (storm_step c (Looks w) S)" using w by (simp add: storm_trans_def)
    then show ?thesis by blast
  next
    case Passing
    let ?o = "\<lparr>draw_r = 0, junk_err = False, dial_err = True, write_err = False, got = None, elapsed = 0, measuring = phase S = Measured\<rparr>"
    have "storm_trans c S (Ends w ?o) (storm_step c (Ends w ?o) S)" using w Passing by (simp add: storm_trans_def)
    then show ?thesis by blast
  qed (use w in simp)
qed

interpretation storm_end: ranked "storm_trans c" storm_draining storm_rank for c
  by unfold_locales (use storm_drains storm_moves in blast)+

section \<open>The addresses\<close>

lemma source_loop_family:
  assumes "source_loop v4 ips ls rs = Inr (ls', rs')" and "length ls = length rs"
    and "\<forall>k < length ls. sockAddr (ls ! k) 0 = Inr (rs ! k, if v4 then AF_INET else AF_INET6)"
  shows "length ls' = length rs' \<and> (\<forall>k < length ls'. sockAddr (ls' ! k) 0 = Inr (rs' ! k, if v4 then AF_INET else AF_INET6))"
  using assms
proof (induction v4 ips ls rs rule: source_loop.induct)
  case (2 v4 ip ips ls rs)
  show ?case
  proof (cases "ParseIP ip")
    case None
    then show ?thesis using 2 by simp
  next
    case (Some pip)
    show ?thesis
    proof (cases "(To4 pip \<noteq> None) \<noteq> v4")
      case True
      then show ?thesis using 2 Some by simp
    next
      case False
      then obtain sa dom' where r: "sockAddr pip 0 = Inr (sa, dom')" "source_loop v4 ips (ls @ [pip]) (rs @ [sa]) = Inr (ls', rs')"
        using "2.prems"(1) Some by (auto simp: resolveSource_def split: sum.splits)
      then have "dom' = (if v4 then AF_INET else AF_INET6)" using False
        by (auto simp: sockAddr_def split: option.splits if_splits)
      then show ?thesis using "2.IH"(3) [OF Some False _ _ r(2)] r(1) "2.prems"(2,3) Some
        by (auto simp: resolveSource_def nth_append less_Suc_eq)
    qed
  qed
qed simp

lemma target_loop_nth:
  "target_loop tcp ts raw = Inr raw' \<Longrightarrow>
   length raw' = length raw + length ts \<and> (\<forall>k < length raw. raw' ! k = raw ! k) \<and>
   (\<forall>k < length ts. resolveTarget tcp (ts ! k) = Inr (raw' ! (length raw + k)))"
proof (induction tcp ts raw rule: target_loop.induct)
  case (2 tcp t ts raw)
  then obtain r where r: "resolveTarget tcp t = Inr r" "target_loop tcp ts (raw @ [r]) = Inr raw'" by (auto split: sum.splits)
  note ih = "2.IH" [OF r]
  have "resolveTarget tcp ((t # ts) ! k) = Inr (raw' ! (length raw + k))" if "k < Suc (length ts)" for k
    using ih that r(1) by (cases k) (auto simp: nth_append)
  then show ?case using ih by (auto simp: nth_append split: if_splits)
qed simp

end
