(* ===== verification/Storm_Properties.thy ===== *)
theory Storm_Properties
  imports Storm_Run Gate_Hook Server_Run "HOL-Library.Sublist"
begin

text \<open>
  Properties of the parsers of the gate (relay specifications, upstream targets), of the accounting of
  a storm, and of storm, relay and upstream server together.
\<close>

section \<open>Relay specifications\<close>

lemma Itoa_span:
  assumes "0 \<le> a" and "0 \<le> b"
  shows "index_of (CHR ''-'') (Itoa a @ CHR ''-'' # Itoa b) = Some (length (Itoa a))" "index_of (CHR ''-'') (Itoa a) = None"
  using dec_str_plain(3) [OF assms(1)] assms by (simp_all add: Itoa_def index_of_sep) (simp add: index_of_def)

lemma split_host_port_span:
  "host_ok h \<Longrightarrow> 0 \<le> a \<Longrightarrow> 0 \<le> b \<Longrightarrow>
   split_host_port (join_host_port (show_host h) (Itoa a @ CHR ''-'' # Itoa b)) = Some (show_host h, Itoa a @ CHR ''-'' # Itoa b)"
  using dec_str_plain [of a] dec_str_plain [of b] show_host_plain [of h]
  by (intro split_join_host_port) (simp_all add: Itoa_def plain_def)

lemma span_no_space:
  "host_ok h \<Longrightarrow> 0 \<le> a \<Longrightarrow> 0 \<le> b \<Longrightarrow>
   TrimSpace (join_host_port (show_host h) (Itoa a @ CHR ''-'' # Itoa b)) = join_host_port (show_host h) (Itoa a @ CHR ''-'' # Itoa b)"
proof (rule TrimSpace_no_space, rule ballI)
  fix c assume "host_ok h" "0 \<le> a" "0 \<le> b" "c \<in> set (join_host_port (show_host h) (Itoa a @ CHR ''-'' # Itoa b))"
  then have "c \<in> set (show_host h) \<or> is_digit c \<or> c \<in> {CHR ''['', CHR '']'', CHR '':'', CHR ''-''}"
    using dec_str_digits by (auto simp: join_host_port_def Itoa_def split: if_splits)
  moreover have "\<not> is_space (CHR ''-'')" by code_simp
  ultimately show "\<not> is_space c"
    using show_host_no_space [OF \<open>host_ok h\<close>] digit_not_space mark_not_space by auto
qed

text \<open>
  Relay specifications: for any IPv4 or IPv6 host, the span form expands to the dial targets of
  the ports from the first to the last, in order, each of which splits back into the host and the
  port; the form with one port expands to that one; a span that runs backwards is an error.
\<close>

theorem expand_targets:
  assumes "host_ok h" and "0 \<le> a" and "a < 2 ^ 63" and "0 \<le> b" and "b < 2 ^ 63"
  shows "(a \<le> b \<longrightarrow> ExpandTargets (join_host_port (show_host h) (Itoa a @ CHR ''-'' # Itoa b)) =
      Inr (map (\<lambda>p. join_host_port (show_host h) (Itoa p)) [a..b])) \<and>
    (b < a \<longrightarrow> ExpandTargets (join_host_port (show_host h) (Itoa a @ CHR ''-'' # Itoa b)) =
      Inl (SpanBelow (join_host_port (show_host h) (Itoa a @ CHR ''-'' # Itoa b)) b a)) \<and>
    ExpandTargets (join_host_port (show_host h) (Itoa a)) = Inr [join_host_port (show_host h) (Itoa a)] \<and>
    (\<forall>p\<in>set [a..b]. split_host_port (join_host_port (show_host h) (Itoa p)) = Some (show_host h, Itoa p) \<and> Atoi (Itoa p) = Some p)"
proof (intro conjI impI ballI)
  let ?s = "join_host_port (show_host h) (Itoa a @ CHR ''-'' # Itoa b)"
  note span = span_no_space [OF assms(1,2,4)] split_host_port_span [OF assms(1,2,4)] Itoa_span [OF assms(2,4)]
    Atoi_Itoa [OF assms(2,3)] Atoi_Itoa [OF assms(4,5)]
  show "ExpandTargets ?s = Inr (map (\<lambda>p. join_host_port (show_host h) (Itoa p)) [a..b])" if "a \<le> b"
    using that by (simp add: ExpandTargets_def span join_not_Nil Let_def)
  show "ExpandTargets ?s = Inl (SpanBelow ?s b a)" if "b < a"
    using that by (simp add: ExpandTargets_def span join_not_Nil Let_def)
  have "TrimSpace (join_host_port (show_host h) (Itoa a)) = join_host_port (show_host h) (Itoa a)"
    by (rule TrimSpace_no_space) (rule join_no_space [OF assms(1,2)])
  then show "ExpandTargets (join_host_port (show_host h) (Itoa a)) = Inr [join_host_port (show_host h) (Itoa a)]"
    by (simp add: ExpandTargets_def span split_host_port_join [OF assms(1,2)] join_not_Nil Let_def)
  fix p assume "p \<in> set [a..b]"
  then show "split_host_port (join_host_port (show_host h) (Itoa p)) = Some (show_host h, Itoa p)" "Atoi (Itoa p) = Some p"
    using assms split_host_port_join Atoi_Itoa by auto
qed

lemma expand_targets_witness:
  "ExpandTargets (join_host_port (show4 10 0 0 1) (Itoa 18000 @ CHR ''-'' # Itoa 18001)) =
    Inr [join_host_port (show4 10 0 0 1) (Itoa 18000), join_host_port (show4 10 0 0 1) (Itoa 18001)]"
proof -
  have "[18000..18001] = [18000, 18001 :: int]" by (simp add: upto.simps)
  then show ?thesis using expand_targets [of "Host4 10 0 0 1" 18000 18001] by simp
qed

section \<open>Upstream targets\<close>

text \<open>An entry of \<open>SinkIPs\<close>: a host with or without a port, with blanks around it.\<close>

definition entry_str :: "host \<times> int option \<Rightarrow> string" where
  "entry_str e = (case snd e of None \<Rightarrow> show_host (fst e) | Some p \<Rightarrow> join_host_port (show_host (fst e)) (Itoa p))"

definition entry_ok :: "host \<times> int option \<Rightarrow> bool" where
  "entry_ok e \<longleftrightarrow> host_ok (fst e) \<and> (case snd e of None \<Rightarrow> True | Some p \<Rightarrow> 0 \<le> p \<and> p < 2 ^ 63)"

definition entry_target :: "int \<Rightarrow> host \<times> int option \<Rightarrow> sinkTarget" where
  "entry_target dp e = \<lparr>t_ip = show_host (fst e), t_base = (case snd e of None \<Rightarrow> dp | Some p \<Rightarrow> p)\<rparr>"

lemma entry_trim: "entry_ok e \<Longrightarrow> TrimSpace (entry_str e) = entry_str e \<and> entry_str e \<noteq> []"
  using show_host_no_space join_no_space
  by (cases "snd e") (auto simp: entry_ok_def entry_str_def show_host_not_Nil join_not_Nil intro!: TrimSpace_no_space)

lemma init_entry_str: "entry_ok e \<Longrightarrow> init_entry dp (entry_str e) = Inr (entry_target dp e)"
  by (cases "snd e")
    (simp_all add: entry_ok_def entry_str_def init_entry_def entry_target_def split_host_port_show_host
      split_host_port_join Atoi_Itoa ParseIP_show_host Let_def)

lemma init_loop_entries:
  "\<forall>e\<in>set es. entry_ok e \<Longrightarrow> init_loop dp (map entry_str es) ts = (None, ts @ map (entry_target dp) es)"
  by (induction es arbitrary: ts) (simp_all add: entry_trim init_entry_str Let_def)

lemma init_loop_error:
  "init_loop dp es ts = (Some err, ts') \<Longrightarrow>
   \<exists>e\<in>set es. TrimSpace e \<noteq> [] \<and> init_entry dp (TrimSpace e) = Inl err"
  by (induction es arbitrary: ts) (auto simp: Let_def split: if_splits sum.splits)

text \<open>
  Parsing the upstream list: any list of IPv4 and IPv6 hosts, each with or without its own base
  port, is read as exactly those targets in order (the default port where none is given, the single
  configured target for an empty list); an error is that of one of the entries; and after \<open>Init\<close> the
  counter exists.
\<close>

theorem init_targets:
  assumes "\<forall>e\<in>set es. entry_ok e" and "SinkIPs c = map entry_str es"
  shows "fst (Init c) = None \<and> dialSeq (snd (Init c)) \<noteq> None \<and>
    targets (snd (Init c)) =
      (if es = [] then [\<lparr>t_ip = SinkIP c, t_base = SinkPort c\<rparr>] else map (entry_target (SinkPort c)) es) \<and>
    (\<forall>c' err. fst (Init c') = Some err \<longrightarrow>
      (\<exists>e\<in>set (SinkIPs c'). TrimSpace e \<noteq> [] \<and> init_entry (SinkPort c') (TrimSpace e) = Inl err))"
proof (intro conjI allI impI)
  have l: "init_loop (SinkPort c) (SinkIPs c) [] = (None, map (entry_target (SinkPort c)) es)"
    using init_loop_entries [OF assms(1)] assms(2) by simp
  then show "fst (Init c) = None" "dialSeq (snd (Init c)) \<noteq> None"
    "targets (snd (Init c)) = (if es = [] then [\<lparr>t_ip = SinkIP c, t_base = SinkPort c\<rparr>] else map (entry_target (SinkPort c)) es)"
    by (auto simp: Init_def Let_def)
  fix c' err assume "fst (Init c') = Some err"
  then have "\<exists>ts. init_loop (SinkPort c') (SinkIPs c') [] = (Some err, ts)"
    by (auto simp: Init_def Let_def split: prod.splits option.splits if_splits)
  then show "\<exists>e\<in>set (SinkIPs c'). TrimSpace e \<noteq> [] \<and> init_entry (SinkPort c') (TrimSpace e) = Inl err"
    using init_loop_error by blast
qed

definition demo_hosts :: "(host \<times> int option) list" where
  "demo_hosts = [(Host4 10 0 0 1, None), (Host6 [0x2001, 0xdb8, 0, 0, 0, 0, 0, 1], Some 9500)]"

lemma init_targets_witness:
  "targets (snd (Init \<lparr>AuthCPU = 0, SinkIP = [], SinkPort = 9000, SinkPorts = 1, SinkIPs = map entry_str demo_hosts,
      Mark = 0, dialSeq = None, targets = []\<rparr>)) = map (entry_target 9000) demo_hosts"
proof -
  have "\<forall>e\<in>set demo_hosts. entry_ok e" by (simp add: demo_hosts_def entry_ok_def)
  moreover have "demo_hosts \<noteq> []" by (simp add: demo_hosts_def)
  ultimately show ?thesis
    using init_targets [of demo_hosts "\<lparr>AuthCPU = 0, SinkIP = [], SinkPort = 9000, SinkPorts = 1,
      SinkIPs = map entry_str demo_hosts, Mark = 0, dialSeq = None, targets = []\<rparr>"] by simp
qed

section \<open>The accounting of a storm\<close>

text \<open>The attempts that fall in each class.\<close>

definition is_success :: "storm_config \<Rightarrow> outcome \<Rightarrow> bool" where
  "is_success c o' \<longleftrightarrow> \<not> is_junk c o' \<and> \<not> dial_err o' \<and> \<not> write_err o' \<and> got o' = Some (Reply_bytes (ReplyLen c))"

definition is_quiet :: "storm_config \<Rightarrow> outcome \<Rightarrow> bool" where
  "is_quiet c o' \<longleftrightarrow> \<not> measuring o' \<and> (is_success c o' \<or> is_junk c o' \<and> \<not> junk_err o')"

text \<open>
  The passes of a storm and its counters: \<open>completed\<close> counts exactly the measured passes that read the
  whole reply pattern, and the latencies are theirs.
\<close>

lemma storm_passes:
  assumes "\<forall>(w, o') \<in> set ps. w < InFlight c"
  shows "of_nat (length ps) = completed_s (storm_run c ps) + junk_s (storm_run c ps) + errs_s (storm_run c ps) +
      auditFail_s (storm_run c ps) + of_nat (length (filter (\<lambda>p. is_quiet c (snd p)) ps)) \<and>
    completed_s (storm_run c ps) = of_nat (length (filter (\<lambda>p. measuring (snd p) \<and> is_success c (snd p)) ps)) \<and>
    sorted (r_sorted (storm_result_of c (storm_run c ps))) \<and>
    mset (r_sorted (storm_result_of c (storm_run c ps))) =
      mset (map (elapsed \<circ> snd) (filter (\<lambda>p. measuring (snd p) \<and> is_success c (snd p)) ps))"
proof (intro conjI)
  let ?ok = "\<lambda>p. measuring (snd p) \<and> is_success c (snd p)"
  have run: "storm_run c (ps @ [(w, o')]) = storm_pass c w o' (storm_run c ps)" for ps w o' by (simp add: storm_run_def)
  note pass = storm_pass_def is_success_def is_quiet_def Equal_iff
  show "of_nat (length ps) = completed_s (storm_run c ps) + junk_s (storm_run c ps) + errs_s (storm_run c ps) +
      auditFail_s (storm_run c ps) + of_nat (length (filter (\<lambda>p. is_quiet c (snd p)) ps))"
    by (induction ps rule: rev_induct) (auto simp: run pass storm_run_def [of c "[]"] storm_start_def split: option.splits)
  show "completed_s (storm_run c ps) = of_nat (length (filter ?ok ps))"
    by (induction ps rule: rev_induct) (auto simp: run pass storm_run_def [of c "[]"] storm_start_def split: option.splits)
  show "sorted (r_sorted (storm_result_of c (storm_run c ps)))" by (simp add: storm_result_of_def Let_def)
  have "mset (concat (map (lat (storm_run c ps)) [0..<InFlight c])) = mset (map (elapsed \<circ> snd) (filter ?ok ps))"
    using assms
  proof (induction ps rule: rev_induct)
    case Nil
    have "concat (map (\<lambda>_. []) [0..<n]) = []" for n by simp
    then show ?case by (simp add: storm_run_def storm_start_def)
  next
    case (snoc p ps)
    obtain w o' where p: "p = (w, o')" by (cases p)
    have w: "w \<in> set [0..<InFlight c]" using snoc.prems p by simp
    have split: "[0..<InFlight c] = [0..<w] @ w # [Suc w..<InFlight c]"
      using w by (metis atLeastLessThan_upt atLeastLessThan_iff upt_conv_Cons upt_add_eq_append le_add_diff_inverse less_imp_le zero_le)
    have upd: "concat (map (f(w := f w @ [x])) [0..<w]) = concat (map f [0..<w])"
      "concat (map (f(w := f w @ [x])) [Suc w..<n]) = concat (map f [Suc w..<n])" for f :: "nat \<Rightarrow> int list" and x n
      by (intro arg_cong [of _ _ concat] map_cong; simp)+
    have lat: "lat (storm_pass c w o' s) =
        (if ?ok p then (lat s)(w := lat s w @ [elapsed o']) else lat s)" for s
      by (auto simp: pass p split: option.splits)
    show ?case using snoc unfolding p run by (simp add: lat [unfolded p] split upd)
  qed
  then show "mset (r_sorted (storm_result_of c (storm_run c ps))) = mset (map (elapsed \<circ> snd) (filter ?ok ps))"
    by (simp add: storm_result_of_def Let_def)
qed

definition demo_passes :: "(nat \<times> outcome) list" where
  "demo_passes =
    [(1, \<lparr>draw_r = 90, junk_err = False, dial_err = False, write_err = False, got = Some (Reply_bytes 4), elapsed = 70, measuring = True\<rparr>),
     (0, \<lparr>draw_r = 90, junk_err = False, dial_err = False, write_err = False, got = Some (Request_bytes 4), elapsed = 9, measuring = True\<rparr>),
     (0, \<lparr>draw_r = 90, junk_err = False, dial_err = False, write_err = False, got = Some (Reply_bytes 4), elapsed = 50, measuring = True\<rparr>)]"

definition demo_storm :: storm_config where
  "demo_storm = \<lparr>ReqLen = 4, ReplyLen = 4, InFlight = 2, JunkPct = 10\<rparr>"

text \<open>
  C32. The ledger of a storm, at any time: the number of passes that ended is, in 64-bit arithmetic, the sum
  of the four counters and of the successful passes outside the measured window; \<open>Completed\<close> counts exactly
  the passes that read the whole reply pattern and ended inside the window; and the latencies reported are
  those of these passes, sorted, one for each.
\<close>

theorem storm_ledger:
  assumes "storm_reachable c S"
  shows "of_nat (length (passes S)) = r_Completed (Run_result c S) + r_Junk (Run_result c S) + r_Errors (Run_result c S) +
      r_AuditFail (Run_result c S) + of_nat (length (filter (\<lambda>p. is_quiet c (snd p)) (passes S))) \<and>
    r_Completed (Run_result c S) = of_nat (length (filter (\<lambda>p. measuring (snd p) \<and> is_success c (snd p)) (passes S))) \<and>
    sorted (r_sorted (Run_result c S)) \<and>
    mset (r_sorted (Run_result c S)) =
      mset (map (elapsed \<circ> snd) (filter (\<lambda>p. measuring (snd p) \<and> is_success c (snd p)) (passes S)))"
proof -
  have v: "tally_s S = storm_run c (passes S)" "\<forall>(w, o') \<in> set (passes S). w < InFlight c"
    using storm_runs.reachable_inv [OF assms] by (auto simp: storm_inv_def)
  show ?thesis using storm_passes [OF v(2)] by (simp add: Run_result_def v(1)) (simp add: storm_result_of_def Let_def)
qed

definition demo_storm_events :: "storm_event list" where
  "demo_storm_events = [Looks 0, Advances, Ends 0 (snd (demo_passes ! 0)), Looks 1, Ends 1 (snd (demo_passes ! 1)), Looks 0,
     Advances, Advances]"

definition demo_storm_run :: storm_sys where
  "demo_storm_run = fold (storm_step demo_storm) demo_storm_events (storm_boot demo_storm)"

lemma demo_storm_reachable: "storm_reachable demo_storm demo_storm_run"
  unfolding demo_storm_run_def
  by (rule runs_reachable [where guard = storm_enabled]) (code_simp, simp add: storm_trans_def)

lemma storm_ledger_witness:
  "length (passes demo_storm_run) = 2 \<and> r_Completed (Run_result demo_storm demo_storm_run) = 1"
proof -
  have "length (passes demo_storm_run) = 2"
    "length (filter (\<lambda>p. measuring (snd p) \<and> is_success demo_storm (snd p)) (passes demo_storm_run)) = 1" by code_simp+
  then show ?thesis using storm_ledger [OF demo_storm_reachable] by simp
qed

text \<open>
  C33. A storm ends: once \<open>stop\<close> is closed, whatever the workers do, at most two steps of each and one of the main
  goroutine are left, and until \<open>Run\<close> returns some goroutine can go on; when it returns, every worker has.
\<close>

theorem storm_ends:
  assumes "storm_reachable c S" and "stop_closed (phase S)" and "trace (storm_trans c) S es S'"
  shows "length es \<le> 2 * InFlight c + 1 \<and> (phase S' = Finished \<or> (\<exists>e S''. storm_trans c S' e S'')) \<and>
    (phase S' = Finished \<longrightarrow> (\<forall>x\<in>set (workers S'). x = Gone))"
proof -
  have v: "storm_inv c S" using assms(1) by (rule storm_runs.reachable_inv)
  then have d: "storm_draining S" using assms(2) by (simp add: storm_draining_def storm_inv_def)
  have "sum_list (map worker_rank ws) \<le> 2 * length ws" for ws
  proof (induction ws)
    case (Cons x ws)
    then show ?case by (cases x) simp_all
  qed simp
  then have "sum_list (map worker_rank (workers S)) \<le> 2 * InFlight c" using v unfolding storm_inv_def by metis
  then have "storm_rank S \<le> 2 * InFlight c + 1" by (simp add: storm_rank_def)
  moreover have "phase S' = Finished" if "storm_rank S' = 0" using that by (simp add: storm_rank_def split: if_splits)
  moreover have "storm_draining S'" using storm_end.bounded [OF assms(3) d] by blast
  ultimately show ?thesis using storm_end.comes_to_rest [OF assms(3) d] by (fastforce simp: storm_draining_def)
qed

lemma storm_ends_witness:
  "\<exists>e S''. storm_trans demo_storm demo_storm_run e S''"
proof -
  have "stop_closed (phase demo_storm_run)" "phase demo_storm_run \<noteq> Finished" by code_simp+
  then show ?thesis using storm_ends [OF demo_storm_reachable, of "[]"] by simp
qed

text \<open>
  The addresses of a storm: each worker dials one of the targets of the relay specification; its raw junk
  connections go to the resolved address of the same target, from the same source address as its dials, and
  every source is of the family of the relay.
\<close>

theorem storm_endpoints:
  assumes "prepare tcp relay srcs = Some a" and "endpoints a w = (target, src, dst, jsrc)"
  shows "target \<in> set (dial_targets a) \<and> resolveTarget tcp target = Inr dst \<and>
    (case src of None \<Rightarrow> jsrc = None
     | Some ip \<Rightarrow> \<exists>sa. jsrc = Some sa \<and>
         sockAddr ip 0 = Inr (sa, if relayIsV4 tcp (dial_targets a ! 0) then AF_INET else AF_INET6))"
proof -
  obtain ts ls rs raw where p: "ts \<noteq> []" "source_loop (relayIsV4 tcp (ts ! 0)) srcs [] [] = Inr (ls, rs)"
      "target_loop tcp ts [] = Inr raw"
      "a = \<lparr>dial_targets = ts, dial_sources = ls, raw_targets = raw, raw_sources = rs\<rparr>"
    using assms(1) by (auto simp: prepare_def split: sum.splits if_splits)
  let ?k = "w mod length ts"
  have k: "?k < length ts" using p(1) by simp
  have "resolveTarget tcp (ts ! ?k) = Inr (raw ! ?k)" using target_loop_nth [OF p(3)] k by simp
  moreover have "length ls = length rs \<and> (\<forall>k < length ls. sockAddr (ls ! k) 0 =
      Inr (rs ! k, if relayIsV4 tcp (ts ! 0) then AF_INET else AF_INET6))"
    using source_loop_family [OF p(2)] by simp
  moreover have "w mod length ls < length ls" if "ls \<noteq> []" using that by simp
  ultimately show ?thesis using assms(2) k unfolding p(4)
    by (auto simp: endpoints_def worker_target_def worker_source_def split: option.splits if_splits)
qed

definition literal_resolver :: resolver where
  "literal_resolver t = (if t = ''10.0.0.1:80'' then Some (Some [10, 0, 0, 1], 80)
     else if t = ''10.0.0.1:81'' then Some (Some [10, 0, 0, 1], 81) else None)"

lemma storm_endpoints_witness:
  "\<exists>a. prepare literal_resolver ''10.0.0.1:80-81'' [''10.0.0.9'', ''::1''] = Some a \<and>
    endpoints a 3 = (''10.0.0.1:81'', Some (replicate 10 0 @ [255, 255, 10, 0, 0, 9]), (SockaddrInet4 81 [10, 0, 0, 1], AF_INET), Some (SockaddrInet4 0 [10, 0, 0, 9])) \<and>
    resolveTarget literal_resolver ''10.0.0.1:81'' = Inr (SockaddrInet4 81 [10, 0, 0, 1], AF_INET)"
proof -
  let ?a = "the (prepare literal_resolver ''10.0.0.1:80-81'' [''10.0.0.9'', ''::1''])"
  have "prepare literal_resolver ''10.0.0.1:80-81'' [''10.0.0.9'', ''::1''] = Some ?a" by code_simp
  moreover have "endpoints ?a 3 = (''10.0.0.1:81'', Some (replicate 10 0 @ [255, 255, 10, 0, 0, 9]), (SockaddrInet4 81 [10, 0, 0, 1], AF_INET),
      Some (SockaddrInet4 0 [10, 0, 0, 9]))" by code_simp
  ultimately show ?thesis using storm_endpoints by blast
qed

section \<open>Storm, relay and upstream together\<close>

text \<open>A whole request that is not the pattern; a whole request, answered; an attempt that gets the whole reply.\<close>

definition wrong_request :: "nat \<Rightarrow> bytes \<Rightarrow> bool" where
  "wrong_request rl up \<longleftrightarrow> rl \<le> length up \<and> take rl up \<noteq> Request_bytes rl"

definition answered :: "nat \<Rightarrow> bytes \<Rightarrow> nat option \<Rightarrow> bool" where
  "answered rl up werr \<longleftrightarrow> rl \<le> length up \<and> werr = None"

definition replied :: "nat \<Rightarrow> outcome \<Rightarrow> bytes \<Rightarrow> bool" where
  "replied pl o' down \<longleftrightarrow> \<not> dial_err o' \<and> \<not> write_err o' \<and> prefix (Reply_bytes pl) down"

lemma sink_conn_counts:
  assumes "sink_conn rl pl up werr sk = (sent, sk')"
  shows "auditFail_k sk' = auditFail_k sk + of_bool (wrong_request rl up)"
    "served sk' = served sk + of_bool (answered rl up werr)"
    "errs_k sk' = errs_k sk + of_bool (\<not> answered rl up werr)"
    "sent = (if rl \<le> length up then (case werr of None \<Rightarrow> Reply_bytes pl | Some n \<Rightarrow> take n (Reply_bytes pl)) else [])"
  using assms
  by (auto simp: sink_conn_def wrong_request_def answered_def Equal_iff Let_def split: if_splits option.splits)

text \<open>The bytes sent back hold the whole reply only when the request was answered.\<close>

lemma sent_answered:
  assumes "sink_conn rl pl up werr sk = (sent, sk')" and "\<forall>n. werr = Some n \<longrightarrow> n < pl" and "0 < pl"
    and "prefix (Reply_bytes pl) sent"
  shows "answered rl up werr"
proof -
  have "pl \<le> length sent" using prefix_length_le [OF assms(4)] by simp
  then show ?thesis using assms(2,3) sink_conn_counts(4) [OF assms(1)]
    by (auto simp: answered_def split: if_splits option.splits)
qed

lemma prefix_take_iff: "prefix xs ys \<longleftrightarrow> length xs \<le> length ys \<and> take (length xs) ys = xs"
  by (metis prefix_def append_eq_conv_conj prefix_length_le take_is_prefix)

lemma storm_pass_counts:
  assumes "\<not> is_junk c o'" "measuring o'" "got o' = ReadFull (ReplyLen c) down"
  shows "completed_s (storm_pass c w o' s) = completed_s s + of_bool (replied (ReplyLen c) o' down)"
  using assms by (auto simp: storm_pass_def ReadFull_def Equal_iff replied_def prefix_take_iff)

text \<open>No stream that starts with the reply is a part of the request.\<close>

lemma reply_no_request:
  assumes "0 < rl" "0 < pl" and "prefix (Reply_bytes pl) down" "prefix down (Request_bytes rl)"
  shows False
proof -
  have "prefix (Reply_bytes pl) (Request_bytes rl)" using assms(3,4) by (rule prefix_order.trans)
  then have "Request_bytes rl ! 0 = Reply_bytes pl ! 0" using assms(2) by (auto simp: prefix_def nth_append)
  with request_reply_differ [of 0 rl pl] assms(1,2) show False by simp
qed

text \<open>
  C31. What the audits catch, whatever stands between the storm and the upstream: \<open>up\<close> are the bytes that reach the
  upstream, \<open>down\<close> those that reach the client. The upstream charges a whole wrong request to \<open>auditFail\<close>, serves
  every whole request it can answer, and charges the rest to \<open>errs\<close>; an attempt of the window counts as completed just
  when \<open>down\<close> starts with the reply. So, for positive lengths: if \<open>down\<close> is what the upstream sent or less, an attempt
  that counts was served; a relay that sends the client its own request back is never counted; but a relay that
  answers by itself is counted while the upstream has served nothing.
\<close>

theorem gate_audit:
  assumes "\<not> is_junk c o'" and "measuring o'" and "got o' = ReadFull (ReplyLen c) down"
    and "sink_conn (ReqLen c) (ReplyLen c) up werr sk = (sent, sk')" and "\<forall>n. werr = Some n \<longrightarrow> n < ReplyLen c"
    and "0 < ReqLen c" and "0 < ReplyLen c"
  shows "auditFail_k sk' = auditFail_k sk + of_bool (wrong_request (ReqLen c) up) \<and>
    served sk' = served sk + of_bool (answered (ReqLen c) up werr) \<and>
    errs_k sk' = errs_k sk + of_bool (\<not> answered (ReqLen c) up werr) \<and>
    completed_s (storm_pass c w o' s) = completed_s s + of_bool (replied (ReplyLen c) o' down) \<and>
    (prefix down sent \<and> replied (ReplyLen c) o' down \<longrightarrow> answered (ReqLen c) up werr) \<and>
    (prefix down (Request_bytes (ReqLen c)) \<longrightarrow> \<not> replied (ReplyLen c) o' down) \<and>
    (\<not> dial_err o' \<and> \<not> write_err o' \<and> down = Reply_bytes (ReplyLen c) \<longrightarrow>
       replied (ReplyLen c) o' down \<and> \<not> answered (ReqLen c) [] werr)"
proof (intro conjI impI)
  show "auditFail_k sk' = auditFail_k sk + of_bool (wrong_request (ReqLen c) up)"
    "served sk' = served sk + of_bool (answered (ReqLen c) up werr)"
    "errs_k sk' = errs_k sk + of_bool (\<not> answered (ReqLen c) up werr)"
    using assms(4) by (rule sink_conn_counts)+
  show "completed_s (storm_pass c w o' s) = completed_s s + of_bool (replied (ReplyLen c) o' down)"
    using assms(1-3) by (rule storm_pass_counts)
  show "answered (ReqLen c) up werr" if "prefix down sent \<and> replied (ReplyLen c) o' down"
    using that sent_answered [OF assms(4,5,7)] by (auto simp: replied_def intro: prefix_order.trans)
  show "\<not> replied (ReplyLen c) o' down" if "prefix down (Request_bytes (ReqLen c))"
    using that reply_no_request [OF assms(6,7)] by (auto simp: replied_def)
  show "replied (ReplyLen c) o' down" "\<not> answered (ReqLen c) [] werr"
    if "\<not> dial_err o' \<and> \<not> write_err o' \<and> down = Reply_bytes (ReplyLen c)"
    using that assms(6) by (simp_all add: replied_def answered_def)
qed

text \<open>A relay that answers by itself, and passes the upstream a wrong request: counted by the storm, and by the audit.\<close>

lemma gate_audit_witness:
  "completed_s (storm_pass demo_storm 0 (snd (demo_passes ! 2)) storm_start) = 1 \<and>
   auditFail_k (snd (sink_conn 4 4 [1, 2, 3, 4, 5] (Some 2) \<lparr>served = 0, auditFail_k = 0, errs_k = 0\<rparr>)) = 1 \<and>
   served (snd (sink_conn 4 4 [1, 2, 3, 4, 5] (Some 2) \<lparr>served = 0, auditFail_k = 0, errs_k = 0\<rparr>)) = 0"
proof -
  let ?o = "snd (demo_passes ! 2)" and ?k = "sink_conn 4 4 [1, 2, 3, 4, 5] (Some 2) \<lparr>served = 0, auditFail_k = 0, errs_k = 0\<rparr>"
  have p: "\<not> is_junk demo_storm ?o" "measuring ?o" "got ?o = ReadFull (ReplyLen demo_storm) (Reply_bytes 4)"
    "0 < ReqLen demo_storm" "0 < ReplyLen demo_storm" "ReqLen demo_storm = 4" "ReplyLen demo_storm = 4" by code_simp+
  have "sink_conn (ReqLen demo_storm) (ReplyLen demo_storm) [1, 2, 3, 4, 5] (Some 2)
      \<lparr>served = 0, auditFail_k = 0, errs_k = 0\<rparr> = (fst ?k, snd ?k)" by (simp add: p(6,7))
  note a = gate_audit [OF p(1-3) this _ p(4,5), unfolded p(6,7), of 0 storm_start]
  have "wrong_request 4 [1, 2, 3, 4, 5]" "\<not> answered 4 [1, 2, 3, 4, 5] (Some 2)" "replied 4 ?o (Reply_bytes 4)"
    "served \<lparr>served = 0, auditFail_k = 0, errs_k = 0\<rparr> = 0" by code_simp+
  then show ?thesis using a by (simp add: storm_start_def)
qed

end
