(* ===== verification/Gate_Relay.thy ===== *)
theory Gate_Relay
  imports Bridge
begin

text \<open>
  The benchmark relay on io_uring, \<open>research/gate/cmd/relay-uring/main.go\<close>: one worker, with its three
  modes. Without \<open>-duplex\<close> a connection is one request and one reply and its structure is recycled
  through a free list; with \<open>-duplex\<close> it is relayed in both directions, by receive and send or, with
  \<open>-splice\<close>, through kernel pipes.

  Because connections share recycled buffers, byte slices are addresses into an explicit store
  \<open>mem\<close>; address 0 is the nil slice. As in the engine, a handler returns \<open>None\<close> for a run-time panic.
\<close>

section \<open>Operations, entries, state\<close>

datatype gate_op =
    GAccept | GEventfd | GRecvReq | GSendUp | GRecvResp | GSendClient | GClose
  | GC2URecv | GC2USend | GU2CRecv | GU2CSend
  | GC2USpliceIn | GC2USpliceOut | GU2CSpliceIn | GU2CSpliceOut | GTimeout

record relayCfg =
  cfg_addr :: string
  cfg_port :: int
  reqLen :: int
  replyLen :: int
  duplex :: bool
  splice :: bool
  bufSize :: int
  maxConns :: int
  acceptBatch :: int

record gate_conn =
  cid :: nat
  clientFD :: fd
  upstreamFD :: fd
  reqBuf :: nat
  respBuf :: nat
  reqN :: nat
  closing :: bool
  closesLeft :: int
  c2uBuf :: nat
  u2cBuf :: nat
  c2uOff :: nat
  c2uEnd :: nat
  u2cOff :: nat
  u2cEnd :: nat
  clientReadDone :: bool
  upstreamReadDone :: bool
  bytesC2U :: u64
  bytesU2C :: u64
  c2uPipe :: "fd \<times> fd"
  u2cPipe :: "fd \<times> fd"

text \<open>\<open>conn{reqBuf: rb, respBuf: sb}\<close>: everything else zero.\<close>

definition blank_conn :: "nat \<Rightarrow> nat \<Rightarrow> gate_conn" where
  "blank_conn rb sb = \<lparr>cid = 0, clientFD = 0, upstreamFD = 0, reqBuf = rb, respBuf = sb, reqN = 0, closing = False,
     closesLeft = 0, c2uBuf = 0, u2cBuf = 0, c2uOff = 0, c2uEnd = 0, u2cOff = 0, u2cEnd = 0, clientReadDone = False,
     upstreamReadDone = False, bytesC2U = 0, bytesU2C = 0, c2uPipe = (0, 0), u2cPipe = (0, 0)\<rparr>"

record gate_result =
  rid :: nat
  rfd :: fd
  ok :: bool

text \<open>
  Entries name the slice of the store they fill or send: address, offset, length. The bytes of a send
  are read when it completes.
\<close>

datatype gate_req =
    QAccept fd
  | QRead fd
  | QRecv fd nat nat nat
  | QSend fd nat nat nat
  | QSplice fd fd int
  | QClose fd
  | QTimeout

record gate_sqe =
  q_req :: gate_req
  q_id :: nat
  q_op :: gate_op

datatype gate_call = DClose fd | DShutdown fd

record gate_worker =
  conns :: "(nat \<times> gate_conn) list"
  connFree :: "gate_conn list"
  mem :: "nat \<Rightarrow> bytes"
  nextAddr :: nat
  nextID :: nat
  acceptInflight :: "int list"
  totalAccepts :: int
  accepted :: u64
  completed :: u64
  shed :: u64
  errs :: u64
  gCompleted :: u64
  gAccepted :: u64
  br :: "gate_result bridge"
  sq :: "gate_sqe list"
  jobs :: "nat list"
  calls :: "gate_call list"
  lns :: "fd list"
  efd :: fd

section \<open>Helpers\<close>

definition gpost :: "gate_req \<Rightarrow> nat \<Rightarrow> gate_op \<Rightarrow> gate_worker \<Rightarrow> gate_worker" where
  "gpost q i o' s = s\<lparr>sq := sq s @ [\<lparr>q_req = q, q_id = i, q_op = o'\<rparr>]\<rparr>"

definition gput :: "gate_conn \<Rightarrow> gate_worker \<Rightarrow> gate_worker" where
  "gput cc s = s\<lparr>conns := AList.update (cid cc) cc (conns s)\<rparr>"

definition gcall :: "gate_call \<Rightarrow> gate_worker \<Rightarrow> gate_worker" where
  "gcall c s = s\<lparr>calls := calls s @ [c]\<rparr>"

text \<open>\<open>make([]byte, n)\<close>: a fresh address; a negative length panics.\<close>

definition galloc :: "int \<Rightarrow> gate_worker \<Rightarrow> (nat \<times> gate_worker) option" where
  "galloc n s =
    (if n < 0 then None
     else Some (nextAddr s, s\<lparr>mem := (mem s)(nextAddr s := replicate (nat n) 0), nextAddr := nextAddr s + 1\<rparr>))"

text \<open>Preparing a receive into, or a send of, \<open>buf[i:j]\<close>.\<close>

definition gpost_recv :: "fd \<Rightarrow> nat \<Rightarrow> nat \<Rightarrow> nat \<Rightarrow> nat \<Rightarrow> gate_op \<Rightarrow> gate_worker \<Rightarrow> gate_worker option" where
  "gpost_recv f a i j n o' s =
    (if i < j \<and> j \<le> length (mem s a) then Some (gpost (QRecv f a i (j - i)) n o' s) else None)"

definition gpost_send :: "fd \<Rightarrow> nat \<Rightarrow> nat \<Rightarrow> nat \<Rightarrow> nat \<Rightarrow> gate_op \<Rightarrow> gate_worker \<Rightarrow> gate_worker option" where
  "gpost_send f a i j n o' s =
    (if i < j \<and> j \<le> length (mem s a) then Some (gpost (QSend f a i (j - i)) n o' s) else None)"

definition getConn :: "relayCfg \<Rightarrow> gate_worker \<Rightarrow> (gate_conn \<times> gate_worker) option" where
  "getConn c s =
    (if \<not> duplex c \<and> connFree s \<noteq> [] then Some (last (connFree s), s\<lparr>connFree := butlast (connFree s)\<rparr>)
     else case galloc (reqLen c) s of
       None \<Rightarrow> None
     | Some (rb, s) \<Rightarrow>
         (case galloc (replyLen c) s of
            None \<Rightarrow> None
          | Some (sb, s) \<Rightarrow> Some (blank_conn rb sb, s)))"

definition putConn :: "relayCfg \<Rightarrow> gate_conn \<Rightarrow> gate_worker \<Rightarrow> gate_worker" where
  "putConn c cc s =
    (if duplex c then s
     else let cc = blank_conn (reqBuf cc) (respBuf cc) in s\<lparr>connFree := connFree s @ [cc]\<rparr>)"

definition close_pipe :: "fd \<times> fd \<Rightarrow> gate_worker \<Rightarrow> gate_worker" where
  "close_pipe p s =
    (let s = (if fst p > 0 then gcall (DClose (fst p)) s else s)
     in if snd p > 0 then gcall (DClose (snd p)) s else s)"

definition gcloseConn :: "relayCfg \<Rightarrow> gate_conn \<Rightarrow> gate_worker \<Rightarrow> gate_worker" where
  "gcloseConn c cc s =
    (if closing cc then gput cc s
     else
       let cc = cc\<lparr>closing := True, closesLeft := 0\<rparr>;
           s = (if splice c then close_pipe (u2cPipe cc) (close_pipe (c2uPipe cc) s) else s);
           (cc, s) = (if clientFD cc > 0
                      then (cc\<lparr>closesLeft := closesLeft cc + 1\<rparr>, gpost (QClose (clientFD cc)) (cid cc) GClose s)
                      else (cc, s));
           (cc, s) = (if upstreamFD cc > 0
                      then (cc\<lparr>closesLeft := closesLeft cc + 1\<rparr>, gpost (QClose (upstreamFD cc)) (cid cc) GClose s)
                      else (cc, s));
           s = gput cc s
       in if closesLeft cc = 0 then putConn c cc (s\<lparr>conns := AList.delete (cid cc) (conns s)\<rparr>) else s)"

definition gpostAccept :: "nat \<Rightarrow> gate_worker \<Rightarrow> gate_worker" where
  "gpostAccept k s =
    (let s = gpost (QAccept (lns s ! k)) k GAccept s;
         s = s\<lparr>acceptInflight := (acceptInflight s)[k := acceptInflight s ! k + 1]\<rparr>
     in s\<lparr>totalAccepts := totalAccepts s + 1\<rparr>)"

definition perLn :: "relayCfg \<Rightarrow> gate_worker \<Rightarrow> int" where
  "perLn c s = (let n = acceptBatch c div int (length (lns s)) in if n < 1 then 1 else n)"

definition gpostEventfd :: "gate_worker \<Rightarrow> gate_worker" where
  "gpostEventfd s = gpost (QRead (efd s)) 0 GEventfd s"

definition gpostTimeout :: "gate_worker \<Rightarrow> gate_worker" where
  "gpostTimeout s = gpost QTimeout 0 GTimeout s"

definition gcount_err :: "gate_worker \<Rightarrow> gate_worker" where
  "gcount_err s = s\<lparr>errs := errs s + 1\<rparr>"

section \<open>Completion handlers\<close>

text \<open>\<open>cc := conns[cid]; if cc == nil { break }\<close>, and the same with \<open>|| cc.closing\<close>.\<close>

definition gwith :: "nat \<Rightarrow> gate_worker \<Rightarrow> (gate_conn \<Rightarrow> gate_worker option) \<Rightarrow> gate_worker option" where
  "gwith i s f = (case map_of (conns s) i of None \<Rightarrow> Some s | Some cc \<Rightarrow> f cc)"

definition gwith_open :: "nat \<Rightarrow> gate_worker \<Rightarrow> (gate_conn \<Rightarrow> gate_worker option) \<Rightarrow> gate_worker option" where
  "gwith_open i s f = gwith i s (\<lambda>cc. if closing cc then Some s else f cc)"

definition g_accept :: "relayCfg \<Rightarrow> nat \<Rightarrow> int \<Rightarrow> gate_worker \<Rightarrow> gate_worker option" where
  "g_accept c i res s =
    (let s = (if i < length (acceptInflight s)
              then s\<lparr>acceptInflight := (acceptInflight s)[i := acceptInflight s ! i - 1]\<rparr> else s);
         s = s\<lparr>totalAccepts := totalAccepts s - 1\<rparr>
     in if res < 0 then Some (gcount_err s)
     else
       let s = s\<lparr>accepted := accepted s + 1, gAccepted := gAccepted s + 1\<rparr>
       in if int (length (conns s)) \<ge> maxConns c
       then Some (gpost (QClose res) 0 GClose (s\<lparr>shed := shed s + 1\<rparr>))
       else
         let s = s\<lparr>nextID := nextID s + 1\<rparr>
         in case getConn c s of
              None \<Rightarrow> None
            | Some (cc, s) \<Rightarrow>
                (let cc = cc\<lparr>cid := nextID s, clientFD := res\<rparr>
                 in gpost_recv (clientFD cc) (reqBuf cc) 0 (length (mem s (reqBuf cc))) (cid cc) GRecvReq (gput cc s)))"

definition g_result :: "relayCfg \<Rightarrow> gate_result \<Rightarrow> gate_worker \<Rightarrow> gate_worker option" where
  "g_result c r s =
    (case map_of (conns s) (rid r) of
       None \<Rightarrow> Some (if ok r \<and> rfd r > 0 then gcall (DClose (rfd r)) s else s)
     | Some cc \<Rightarrow>
         if \<not> ok r then Some (gcloseConn c cc (gcount_err s))
         else
           let cc = cc\<lparr>upstreamFD := rfd r\<rparr>
           in if reqN cc \<le> length (mem s (reqBuf cc))
              then gpost_send (upstreamFD cc) (reqBuf cc) 0 (reqN cc) (cid cc) GSendUp (gput cc s) else None)"

fun g_results :: "relayCfg \<Rightarrow> gate_result list \<Rightarrow> gate_worker \<Rightarrow> gate_worker option" where
  "g_results c [] s = Some s"
| "g_results c (r # rs) s = (case g_result c r s of None \<Rightarrow> None | Some s \<Rightarrow> g_results c rs s)"

definition g_eventfd :: "relayCfg \<Rightarrow> gate_worker \<Rightarrow> gate_worker option" where
  "g_eventfd c s =
    (let s = gpostEventfd s;
         s = s\<lparr>br := (br s)\<lparr>notified := 0\<rparr>\<rparr>;
         (rs, b) = drain (br s)
     in g_results c rs (s\<lparr>br := b\<rparr>))"

definition g_recvReq :: "relayCfg \<Rightarrow> nat \<Rightarrow> int \<Rightarrow> gate_worker \<Rightarrow> gate_worker option" where
  "g_recvReq c i res s = gwith i s (\<lambda>cc.
    if res \<le> 0 then Some (gcloseConn c cc (gcount_err s))
    else
      let cc = cc\<lparr>reqN := nat res\<rparr>; s = gput cc s
      in Some (s\<lparr>jobs := jobs s @ [cid cc]\<rparr>))"

definition gpost_splice :: "relayCfg \<Rightarrow> fd \<Rightarrow> fd \<Rightarrow> nat \<Rightarrow> gate_op \<Rightarrow> gate_worker \<Rightarrow> gate_worker" where
  "gpost_splice c fin fout i o' s = gpost (QSplice fin fout (bufSize c)) i o' s"

text \<open>
  The start of the relay after the request was sent. \<open>pipes\<close> are the descriptors the two \<open>pipe\<close> calls
  return, \<open>None\<close> for one that fails; the second is made only when the first succeeded.
\<close>

definition start_splice :: "relayCfg \<Rightarrow> (fd \<times> fd) option \<times> (fd \<times> fd) option \<Rightarrow> gate_conn \<Rightarrow> gate_worker \<Rightarrow> gate_worker" where
  "start_splice c pipes cc s =
    (case fst pipes of
       None \<Rightarrow> gcloseConn c cc (gcount_err s)
     | Some p \<Rightarrow>
         let cc = cc\<lparr>c2uPipe := p\<rparr>
         in case snd pipes of
              None \<Rightarrow> gcloseConn c cc (gcount_err s)
            | Some p' \<Rightarrow>
                let cc = cc\<lparr>u2cPipe := p'\<rparr>;
                    s = gput cc s;
                    s = gpost_splice c (clientFD cc) (snd (c2uPipe cc)) (cid cc) GC2USpliceIn s;
                    s = gpost_splice c (fst (c2uPipe cc)) (upstreamFD cc) (cid cc) GC2USpliceOut s;
                    s = gpost_splice c (upstreamFD cc) (snd (u2cPipe cc)) (cid cc) GU2CSpliceIn s
                in gpost_splice c (fst (u2cPipe cc)) (clientFD cc) (cid cc) GU2CSpliceOut s)"

definition start_duplex :: "relayCfg \<Rightarrow> gate_conn \<Rightarrow> gate_worker \<Rightarrow> gate_worker option" where
  "start_duplex c cc s =
    (case galloc (bufSize c) s of
       None \<Rightarrow> None
     | Some (b1, s) \<Rightarrow>
         (case galloc (bufSize c) s of
            None \<Rightarrow> None
          | Some (b2, s) \<Rightarrow>
              let cc = cc\<lparr>c2uBuf := b1, u2cBuf := b2\<rparr>; s = gput cc s
              in case gpost_recv (clientFD cc) (c2uBuf cc) 0 (length (mem s (c2uBuf cc))) (cid cc) GC2URecv s of
                   None \<Rightarrow> None
                 | Some s \<Rightarrow>
                     gpost_recv (upstreamFD cc) (u2cBuf cc) 0 (length (mem s (u2cBuf cc))) (cid cc) GU2CRecv s))"

definition g_sendUp ::
  "relayCfg \<Rightarrow> (fd \<times> fd) option \<times> (fd \<times> fd) option \<Rightarrow> nat \<Rightarrow> int \<Rightarrow> gate_worker \<Rightarrow> gate_worker option" where
  "g_sendUp c pipes i res s = gwith i s (\<lambda>cc.
    if res < 0 then Some (gcloseConn c cc (gcount_err s))
    else if duplex c \<and> splice c then Some (start_splice c pipes cc s)
    else if duplex c then start_duplex c cc s
    else gpost_recv (upstreamFD cc) (respBuf cc) 0 (length (mem s (respBuf cc))) (cid cc) GRecvResp s)"

definition g_recvResp :: "relayCfg \<Rightarrow> nat \<Rightarrow> int \<Rightarrow> gate_worker \<Rightarrow> gate_worker option" where
  "g_recvResp c i res s = gwith i s (\<lambda>cc.
    if res \<le> 0 then Some (gcloseConn c cc (gcount_err s))
    else gpost_send (clientFD cc) (respBuf cc) 0 (nat res) (cid cc) GSendClient s)"

definition g_sendClient :: "relayCfg \<Rightarrow> nat \<Rightarrow> int \<Rightarrow> gate_worker \<Rightarrow> gate_worker option" where
  "g_sendClient c i res s = gwith i s (\<lambda>cc.
    let s = (if res < 0 then gcount_err s
             else s\<lparr>completed := completed s + 1, gCompleted := gCompleted s + 1\<rparr>)
    in Some (gcloseConn c cc s))"

definition g_close :: "relayCfg \<Rightarrow> nat \<Rightarrow> gate_worker \<Rightarrow> gate_worker option" where
  "g_close c i s = gwith i s (\<lambda>cc.
    let cc = cc\<lparr>closesLeft := closesLeft cc - 1\<rparr>; s = gput cc s
    in if closesLeft cc \<le> 0 then Some (putConn c cc (s\<lparr>conns := AList.delete i (conns s)\<rparr>)) else Some s)"

section \<open>Duplex and splice handlers\<close>

definition g_c2uRecv :: "relayCfg \<Rightarrow> nat \<Rightarrow> int \<Rightarrow> gate_worker \<Rightarrow> gate_worker option" where
  "g_c2uRecv c i res s = gwith_open i s (\<lambda>cc.
    if res < 0 then Some (gcloseConn c cc s)
    else if res = 0 then
      let s = gcall (DShutdown (upstreamFD cc)) s;
          cc = cc\<lparr>clientReadDone := True\<rparr>
      in Some (if upstreamReadDone cc then gcloseConn c cc s else gput cc s)
    else
      let cc = cc\<lparr>bytesC2U := bytesC2U cc + word_of_int res\<rparr>;
          cc = cc\<lparr>c2uOff := 0, c2uEnd := nat res\<rparr>
      in gpost_send (upstreamFD cc) (c2uBuf cc) (c2uOff cc) (c2uEnd cc) (cid cc) GC2USend (gput cc s))"

definition g_c2uSend :: "relayCfg \<Rightarrow> nat \<Rightarrow> int \<Rightarrow> gate_worker \<Rightarrow> gate_worker option" where
  "g_c2uSend c i res s = gwith_open i s (\<lambda>cc.
    if res \<le> 0 then Some (gcloseConn c cc s)
    else
      let cc = cc\<lparr>c2uOff := c2uOff cc + nat res\<rparr>; s = gput cc s
      in if c2uOff cc < c2uEnd cc
         then gpost_send (upstreamFD cc) (c2uBuf cc) (c2uOff cc) (c2uEnd cc) (cid cc) GC2USend s
         else if \<not> clientReadDone cc
         then gpost_recv (clientFD cc) (c2uBuf cc) 0 (length (mem s (c2uBuf cc))) (cid cc) GC2URecv s
         else Some s)"

definition g_u2cRecv :: "relayCfg \<Rightarrow> nat \<Rightarrow> int \<Rightarrow> gate_worker \<Rightarrow> gate_worker option" where
  "g_u2cRecv c i res s = gwith_open i s (\<lambda>cc.
    if res < 0 then Some (gcloseConn c cc s)
    else if res = 0 then
      let s = gcall (DShutdown (clientFD cc)) s;
          cc = cc\<lparr>upstreamReadDone := True\<rparr>
      in Some (if clientReadDone cc then gcloseConn c cc s else gput cc s)
    else
      let cc = cc\<lparr>bytesU2C := bytesU2C cc + word_of_int res\<rparr>;
          cc = cc\<lparr>u2cOff := 0, u2cEnd := nat res\<rparr>
      in gpost_send (clientFD cc) (u2cBuf cc) (u2cOff cc) (u2cEnd cc) (cid cc) GU2CSend (gput cc s))"

definition g_u2cSend :: "relayCfg \<Rightarrow> nat \<Rightarrow> int \<Rightarrow> gate_worker \<Rightarrow> gate_worker option" where
  "g_u2cSend c i res s = gwith_open i s (\<lambda>cc.
    if res \<le> 0 then Some (gcloseConn c cc s)
    else
      let cc = cc\<lparr>u2cOff := u2cOff cc + nat res\<rparr>; s = gput cc s
      in if u2cOff cc < u2cEnd cc
         then gpost_send (clientFD cc) (u2cBuf cc) (u2cOff cc) (u2cEnd cc) (cid cc) GU2CSend s
         else if \<not> upstreamReadDone cc
         then gpost_recv (upstreamFD cc) (u2cBuf cc) 0 (length (mem s (u2cBuf cc))) (cid cc) GU2CRecv s
         else Some s)"

text \<open>Each splice posts itself again; at the end of a stream or an error the connection is torn down.\<close>

definition g_c2uSpliceIn :: "relayCfg \<Rightarrow> nat \<Rightarrow> int \<Rightarrow> gate_worker \<Rightarrow> gate_worker option" where
  "g_c2uSpliceIn c i res s = gwith_open i s (\<lambda>cc.
    if res \<le> 0 then Some (gcloseConn c cc s)
    else Some (gpost_splice c (clientFD cc) (snd (c2uPipe cc)) (cid cc) GC2USpliceIn s))"

definition g_c2uSpliceOut :: "relayCfg \<Rightarrow> nat \<Rightarrow> int \<Rightarrow> gate_worker \<Rightarrow> gate_worker option" where
  "g_c2uSpliceOut c i res s = gwith_open i s (\<lambda>cc.
    if res \<le> 0 then Some (gcloseConn c cc s)
    else
      let cc = cc\<lparr>bytesC2U := bytesC2U cc + word_of_int res\<rparr>
      in Some (gpost_splice c (fst (c2uPipe cc)) (upstreamFD cc) (cid cc) GC2USpliceOut (gput cc s)))"

definition g_u2cSpliceIn :: "relayCfg \<Rightarrow> nat \<Rightarrow> int \<Rightarrow> gate_worker \<Rightarrow> gate_worker option" where
  "g_u2cSpliceIn c i res s = gwith_open i s (\<lambda>cc.
    if res \<le> 0 then Some (gcloseConn c cc s)
    else Some (gpost_splice c (upstreamFD cc) (snd (u2cPipe cc)) (cid cc) GU2CSpliceIn s))"

definition g_u2cSpliceOut :: "relayCfg \<Rightarrow> nat \<Rightarrow> int \<Rightarrow> gate_worker \<Rightarrow> gate_worker option" where
  "g_u2cSpliceOut c i res s = gwith_open i s (\<lambda>cc.
    if res \<le> 0 then Some (gcloseConn c cc s)
    else
      let cc = cc\<lparr>bytesU2C := bytesU2C cc + word_of_int res\<rparr>
      in Some (gpost_splice c (fst (u2cPipe cc)) (clientFD cc) (cid cc) GU2CSpliceOut (gput cc s)))"

definition gate_cqe ::
  "relayCfg \<Rightarrow> (fd \<times> fd) option \<times> (fd \<times> fd) option \<Rightarrow> gate_op \<Rightarrow> nat \<Rightarrow> int \<Rightarrow> gate_worker \<Rightarrow> gate_worker option" where
  "gate_cqe c pipes o' i res s =
    (case o' of
       GAccept \<Rightarrow> g_accept c i res s
     | GEventfd \<Rightarrow> g_eventfd c s
     | GRecvReq \<Rightarrow> g_recvReq c i res s
     | GSendUp \<Rightarrow> g_sendUp c pipes i res s
     | GC2URecv \<Rightarrow> g_c2uRecv c i res s
     | GC2USend \<Rightarrow> g_c2uSend c i res s
     | GU2CRecv \<Rightarrow> g_u2cRecv c i res s
     | GU2CSend \<Rightarrow> g_u2cSend c i res s
     | GC2USpliceIn \<Rightarrow> g_c2uSpliceIn c i res s
     | GC2USpliceOut \<Rightarrow> g_c2uSpliceOut c i res s
     | GU2CSpliceIn \<Rightarrow> g_u2cSpliceIn c i res s
     | GU2CSpliceOut \<Rightarrow> g_u2cSpliceOut c i res s
     | GRecvResp \<Rightarrow> g_recvResp c i res s
     | GSendClient \<Rightarrow> g_sendClient c i res s
     | GClose \<Rightarrow> g_close c i s
     | GTimeout \<Rightarrow> Some (gpostTimeout s))"

section \<open>Topping up the accepts; the start\<close>

definition room :: "relayCfg \<Rightarrow> gate_worker \<Rightarrow> int" where
  "room c s = maxConns c - (int (length (conns s)) + totalAccepts s)"

function top_listener :: "relayCfg \<Rightarrow> nat \<Rightarrow> gate_worker \<Rightarrow> gate_worker" where
  "top_listener c k s =
    (if acceptInflight s ! k < perLn c s \<and> int (length (conns s)) + totalAccepts s < maxConns c
     then top_listener c k (gpostAccept k s) else s)"
  by pat_completeness auto
termination
  by (relation "measure (\<lambda>(c, k, s). nat (room c s))") (auto simp: room_def gpostAccept_def gpost_def Let_def)

declare top_listener.simps [simp del]

definition top_up :: "relayCfg \<Rightarrow> gate_worker \<Rightarrow> gate_worker" where
  "top_up c s = fold (top_listener c) [0..<length (lns s)] s"

definition gate_start :: "fd list \<Rightarrow> fd \<Rightarrow> gate_worker" where
  "gate_start ls e =
    (let s = \<lparr>conns = [], connFree = [], mem = (\<lambda>_. []), nextAddr = 1, nextID = 0,
              acceptInflight = replicate (length ls) 0, totalAccepts = 0, accepted = 0, completed = 0, shed = 0,
              errs = 0, gCompleted = 0, gAccepted = 0, br = new_bridge, sq = [], jobs = [], calls = [], lns = ls, efd = e\<rparr>;
         s = fold gpostAccept [0..<length ls] s
     in gpostTimeout (gpostEventfd s))"

end
