(* ===== verification/Gate_System.thy ===== *)
theory Gate_System
  imports Gate_Relay "HOL-Library.Sublist"
begin

text \<open>
  The benchmark relay together with its environment: the kernel completes any outstanding entry, in any
  order, with any result it may give; the hook pool finishes any running job with any answer; a batch
  ends at any point. The log records what moved; the byte streams of a connection are read off it.
\<close>

section \<open>Events\<close>

type_synonym two_pipes = "(fd \<times> fd) option \<times> (fd \<times> fd) option"

datatype gate_event =
    GComplete nat int bytes two_pipes
  | GHook nat fd bool
  | GBatchEnd

text \<open>
  \<open>GComplete i res data pipes\<close>: the \<open>i\<close>-th outstanding entry completes with \<open>res\<close>, having stored
  \<open>data\<close>; \<open>pipes\<close> is what the \<open>pipe\<close> calls return, should the handler make them. \<open>GHook j f b\<close>: the
  \<open>j\<close>-th running job ends with descriptor \<open>f\<close>, without an error iff \<open>b\<close>.
\<close>

record gate_entry =
  le_sqe :: gate_sqe
  le_res :: int
  le_moved :: bytes

record gate_sys =
  gw :: gate_worker
  glog :: "gate_entry list"

fun gcompletion_ok :: "gate_worker \<Rightarrow> gate_req \<Rightarrow> int \<Rightarrow> bytes \<Rightarrow> bool" where
  "gcompletion_ok s (QAccept f) res data \<longleftrightarrow> data = []"
| "gcompletion_ok s (QRead f) res data \<longleftrightarrow> data = [] \<and> 0 < wakes (br s)"
| "gcompletion_ok s (QRecv f a off n) res data \<longleftrightarrow> length data = nat res \<and> res \<le> int n"
| "gcompletion_ok s (QSend f a off n) res data \<longleftrightarrow> data = [] \<and> res \<le> int n"
| "gcompletion_ok s (QSplice f f' n) res data \<longleftrightarrow> data = [] \<and> res \<le> n"
| "gcompletion_ok s (QClose f) res data \<longleftrightarrow> data = []"
| "gcompletion_ok s QTimeout res data \<longleftrightarrow> data = []"

fun gevent_ok :: "gate_sys \<Rightarrow> gate_event \<Rightarrow> bool" where
  "gevent_ok S (GComplete i res data pipes) \<longleftrightarrow>
     i < length (sq (gw S)) \<and> gcompletion_ok (gw S) (q_req (sq (gw S) ! i)) res data"
| "gevent_ok S (GHook j f b) \<longleftrightarrow> j < length (jobs (gw S))"
| "gevent_ok S GBatchEnd \<longleftrightarrow> True"

section \<open>Steps\<close>

text \<open>What the kernel has done when an entry completes: stored the received bytes, reset the eventfd.\<close>

fun gkernel :: "gate_req \<Rightarrow> bytes \<Rightarrow> gate_worker \<Rightarrow> gate_worker" where
  "gkernel (QRecv f a off n) data s = s\<lparr>mem := (mem s)(a := write_at off data (mem s a))\<rparr>"
| "gkernel (QRead f) data s = s\<lparr>br := (br s)\<lparr>wakes := 0\<rparr>\<rparr>"
| "gkernel _ data s = s"

text \<open>The bytes an entry moved: those stored by a receive, those a send took from the buffer.\<close>

fun gmoved :: "gate_req \<Rightarrow> int \<Rightarrow> bytes \<Rightarrow> gate_worker \<Rightarrow> bytes" where
  "gmoved (QRecv f a off n) res data s = data"
| "gmoved (QSend f a off n) res data s = take (nat res) (slice (mem s a) off (off + n))"
| "gmoved _ res data s = []"

fun gate_step :: "relayCfg \<Rightarrow> gate_sys \<Rightarrow> gate_event \<Rightarrow> gate_sys option" where
  "gate_step c S (GComplete i res data pipes) =
    (let s = gw S; q = sq s ! i;
         s0 = gkernel (q_req q) data (s\<lparr>sq := drop_nth i (sq s)\<rparr>)
     in map_option
          (\<lambda>s'. \<lparr>gw = s', glog = glog S @ [\<lparr>le_sqe = q, le_res = res, le_moved = gmoved (q_req q) res data s\<rparr>]\<rparr>)
          (gate_cqe c pipes (q_op q) (q_id q) res s0))"
| "gate_step c S (GHook j f b) =
    (let s = gw S; i = jobs s ! j
     in Some (S\<lparr>gw := s\<lparr>jobs := drop_nth j (jobs s), br := push \<lparr>rid = i, rfd = f, ok = b\<rparr> (br s)\<rparr>\<rparr>))"
| "gate_step c S GBatchEnd = Some (S\<lparr>gw := top_up c (gw S)\<rparr>)"

definition gate_boot :: "gate_sys \<Rightarrow> bool" where
  "gate_boot S \<longleftrightarrow> (\<exists>ls e. ls \<noteq> [] \<and> S = \<lparr>gw = gate_start ls e, glog = []\<rparr>)"

definition gate_trans :: "relayCfg \<Rightarrow> gate_sys \<Rightarrow> gate_event \<Rightarrow> gate_sys \<Rightarrow> bool" where
  "gate_trans c S e S' \<longleftrightarrow> gevent_ok S e \<and> gate_step c S e = Some S'"

abbreviation gate_reachable :: "relayCfg \<Rightarrow> gate_sys \<Rightarrow> bool" where
  "gate_reachable c \<equiv> reachable gate_boot (gate_trans c)"

fun gate_run :: "relayCfg \<Rightarrow> gate_sys \<Rightarrow> gate_event list \<Rightarrow> gate_sys option" where
  "gate_run c S [] = Some S"
| "gate_run c S (e # es) =
    (if gevent_ok S e then (case gate_step c S e of None \<Rightarrow> None | Some S' \<Rightarrow> gate_run c S' es) else None)"

lemma gate_run_reachable: "gate_reachable c S \<Longrightarrow> gate_run c S es = Some S' \<Longrightarrow> gate_reachable c S'"
proof (induction es arbitrary: S)
  case (Cons e es)
  then obtain S1 where "gate_trans c S e S1" and "gate_run c S1 es = Some S'"
    by (auto simp: gate_trans_def split: if_splits option.splits)
  with Cons show ?case by (blast intro: reach_step)
qed simp

section \<open>Byte streams\<close>

record flow =
  recvd_c :: bytes
  sent_u :: bytes
  recvd_u :: bytes
  sent_c :: bytes

definition no_flow :: flow where
  "no_flow = \<lparr>recvd_c = [], sent_u = [], recvd_u = [], sent_c = []\<rparr>"

definition flow_add :: "gate_op \<Rightarrow> bytes \<Rightarrow> flow \<Rightarrow> flow" where
  "flow_add o' bs h =
    (if o' \<in> {GRecvReq, GC2URecv} then h\<lparr>recvd_c := recvd_c h @ bs\<rparr>
     else if o' \<in> {GSendUp, GC2USend} then h\<lparr>sent_u := sent_u h @ bs\<rparr>
     else if o' \<in> {GRecvResp, GU2CRecv} then h\<lparr>recvd_u := recvd_u h @ bs\<rparr>
     else if o' \<in> {GSendClient, GU2CSend} then h\<lparr>sent_c := sent_c h @ bs\<rparr>
     else h)"

definition flow_step :: "gate_entry \<Rightarrow> (nat \<Rightarrow> flow) \<Rightarrow> nat \<Rightarrow> flow" where
  "flow_step e H = (let q = le_sqe e in H(q_id q := flow_add (q_op q) (le_moved e) (H (q_id q))))"

definition flows :: "gate_entry list \<Rightarrow> nat \<Rightarrow> flow" where
  "flows es = fold flow_step es (\<lambda>_. no_flow)"

lemma flows_Nil [simp]: "flows [] = (\<lambda>_. no_flow)"
  by (simp add: flows_def)

lemma flows_snoc: "flows (es @ [e]) = flow_step e (flows es)"
  by (simp add: flows_def)

end
