(* ===== verification/Gate_Invariant.thy ===== *)
theory Gate_Invariant
  imports Gate_System
begin

text \<open>
  The invariant of the benchmark relay without \<open>-duplex\<close>. Everything that may still happen to a
  connection is a token: an outstanding entry, a queued job, a hook result. An open connection holds
  exactly one token, which fixes what has moved so far; a closing connection holds its closes; no other
  id holds any. The buffers of the table and of the free list are pairwise distinct.
\<close>

section \<open>Tokens\<close>

datatype token = TSqe gate_sqe | TJob nat | TRes gate_result

definition conn_op :: "gate_op \<Rightarrow> bool" where
  "conn_op o' \<longleftrightarrow> o' \<notin> {GAccept, GEventfd, GTimeout}"

fun tok_id :: "token \<Rightarrow> nat" where
  "tok_id (TSqe q) = (if conn_op (q_op q) then q_id q else 0)"
| "tok_id (TJob i) = i"
| "tok_id (TRes r) = rid r"

definition tokens :: "gate_result list \<Rightarrow> gate_worker \<Rightarrow> token multiset" where
  "tokens rs s = image_mset TSqe (mset (sq s)) + image_mset TJob (mset (jobs s)) + image_mset TRes (mset rs)"

definition toks :: "nat \<Rightarrow> gate_result list \<Rightarrow> gate_worker \<Rightarrow> token multiset" where
  "toks i rs s = filter_mset (\<lambda>t. tok_id t = i) (tokens rs s)"

definition close_tok :: "token \<Rightarrow> bool" where
  "close_tok t \<longleftrightarrow> (case t of TSqe q \<Rightarrow> q_op q = GClose \<and> (\<exists>f. q_req q = QClose f) | _ \<Rightarrow> False)"

section \<open>What a token says of its connection\<close>

definition faithful :: "flow \<Rightarrow> bool" where
  "faithful h \<longleftrightarrow> prefix (sent_u h) (recvd_c h) \<and> prefix (sent_c h) (recvd_u h)"

definition has_request :: "relayCfg \<Rightarrow> (nat \<Rightarrow> bytes) \<Rightarrow> flow \<Rightarrow> gate_conn \<Rightarrow> bool" where
  "has_request c m h cc \<longleftrightarrow> 0 < reqN cc \<and> reqN cc \<le> nat (reqLen c) \<and>
     h = no_flow\<lparr>recvd_c := take (reqN cc) (m (reqBuf cc))\<rparr>"

definition sqe_phase :: "relayCfg \<Rightarrow> (nat \<Rightarrow> bytes) \<Rightarrow> flow \<Rightarrow> gate_conn \<Rightarrow> gate_req \<Rightarrow> gate_op \<Rightarrow> bool" where
  "sqe_phase c m h cc q o' \<longleftrightarrow>
    (o' = GRecvReq \<and> q = QRecv (clientFD cc) (reqBuf cc) 0 (nat (reqLen c)) \<and> h = no_flow) \<or>
    (o' = GSendUp \<and> q = QSend (upstreamFD cc) (reqBuf cc) 0 (reqN cc) \<and> has_request c m h cc) \<or>
    (o' = GRecvResp \<and> q = QRecv (upstreamFD cc) (respBuf cc) 0 (nat (replyLen c)) \<and>
       faithful h \<and> recvd_u h = []) \<or>
    (o' = GSendClient \<and> (\<exists>n. q = QSend (clientFD cc) (respBuf cc) 0 n \<and> n \<le> nat (replyLen c) \<and>
       faithful h \<and> sent_c h = [] \<and> recvd_u h = take n (m (respBuf cc))))"

fun phase_ok :: "relayCfg \<Rightarrow> (nat \<Rightarrow> bytes) \<Rightarrow> flow \<Rightarrow> gate_conn \<Rightarrow> token \<Rightarrow> bool" where
  "phase_ok c m h cc (TSqe q) = sqe_phase c m h cc (q_req q) (q_op q)"
| "phase_ok c m h cc (TJob i) = has_request c m h cc"
| "phase_ok c m h cc (TRes r) = has_request c m h cc"

text \<open>\<open>slot_ok c m h oc T\<close>: what holds of an id with streams \<open>h\<close>, entry \<open>oc\<close> in the table and tokens \<open>T\<close>.\<close>

fun slot_ok :: "relayCfg \<Rightarrow> (nat \<Rightarrow> bytes) \<Rightarrow> flow \<Rightarrow> gate_conn option \<Rightarrow> token multiset \<Rightarrow> bool" where
  "slot_ok c m h None T \<longleftrightarrow> T = {#} \<and> faithful h"
| "slot_ok c m h (Some cc) T \<longleftrightarrow>
     (if closing cc
      then faithful h \<and> closesLeft cc = int (size T) \<and> T \<noteq> {#} \<and> (\<forall>t\<in>#T. close_tok t)
      else \<exists>t. T = {#t#} \<and> phase_ok c m h cc t)"

section \<open>Buffers\<close>

definition bufs_of :: "gate_conn \<Rightarrow> nat multiset" where
  "bufs_of cc = {#reqBuf cc, respBuf cc#}"

definition held :: "gate_worker \<Rightarrow> nat multiset" where
  "held s = tally bufs_of (conns s) + sum_list (map bufs_of (connFree s))"

definition sized :: "relayCfg \<Rightarrow> (nat \<Rightarrow> bytes) \<Rightarrow> gate_conn \<Rightarrow> bool" where
  "sized c m cc \<longleftrightarrow> length (m (reqBuf cc)) = nat (reqLen c) \<and> length (m (respBuf cc)) = nat (replyLen c)"

definition is_blank :: "gate_conn \<Rightarrow> bool" where
  "is_blank cc \<longleftrightarrow> cc = blank_conn (reqBuf cc) (respBuf cc)"

definition bufs_ok :: "relayCfg \<Rightarrow> gate_worker \<Rightarrow> bool" where
  "bufs_ok c s \<longleftrightarrow>
     (\<forall>a. count (held s) a \<le> 1) \<and> (\<forall>a\<in>#held s. a < nextAddr s) \<and>
     (\<forall>i cc. map_of (conns s) i = Some cc \<longrightarrow> sized c (mem s) cc) \<and>
     (\<forall>cc\<in>set (connFree s). sized c (mem s) cc \<and> is_blank cc)"

definition table_ok :: "gate_worker \<Rightarrow> bool" where
  "table_ok s \<longleftrightarrow> keys_distinct (conns s) \<and>
     (\<forall>i cc. map_of (conns s) i = Some cc \<longrightarrow> cid cc = i \<and> 0 < i \<and> i \<le> nextID s)"

text \<open>Entries that belong to no connection: accepts, the eventfd, the timeout, the close of a shed client.\<close>

definition entry_ok :: "gate_sqe \<Rightarrow> bool" where
  "entry_ok q \<longleftrightarrow> tok_id (TSqe q) \<noteq> 0 \<or>
     (case q_req q of QAccept f \<Rightarrow> q_op q = GAccept | QRead f \<Rightarrow> q_op q = GEventfd | QTimeout \<Rightarrow> q_op q = GTimeout
      | QClose f \<Rightarrow> q_op q = GClose | _ \<Rightarrow> False)"

section \<open>The invariant\<close>

text \<open>
  \<open>ginv E c H rs s\<close>: the invariant with streams \<open>H\<close>, while the results \<open>rs\<close> are still to be handled
  and the ids in \<open>E\<close> are being worked on.
\<close>

definition ginv :: "nat set \<Rightarrow> relayCfg \<Rightarrow> (nat \<Rightarrow> flow) \<Rightarrow> gate_result list \<Rightarrow> gate_worker \<Rightarrow> bool" where
  "ginv E c H rs s \<longleftrightarrow> table_ok s \<and> bufs_ok c s \<and> (\<forall>i > nextID s. H i = no_flow) \<and>
     (\<forall>q\<in>set (sq s). entry_ok q) \<and>
     (\<forall>i > 0. i \<notin> E \<longrightarrow> slot_ok c (mem s) (H i) (map_of (conns s) i) (toks i rs s))"

section \<open>Tokens under the helpers\<close>

lemma toks_gpost [simp]:
  "toks i rs (gpost q n o' s) =
    (if tok_id (TSqe \<lparr>q_req = q, q_id = n, q_op = o'\<rparr>) = i
     then add_mset (TSqe \<lparr>q_req = q, q_id = n, q_op = o'\<rparr>) (toks i rs s) else toks i rs s)"
  by (simp add: toks_def tokens_def gpost_def)

lemma toks_job: "toks i rs (s\<lparr>jobs := jobs s @ [n]\<rparr>) = (if n = i then add_mset (TJob n) (toks i rs s) else toks i rs s)"
  by (simp add: toks_def tokens_def)

lemma toks_res_Cons: "toks i (r # rs) s = (if rid r = i then add_mset (TRes r) (toks i rs s) else toks i rs s)"
  by (simp add: toks_def tokens_def)

lemma toks_cong: "sq s' = sq s \<Longrightarrow> jobs s' = jobs s \<Longrightarrow> toks i rs s' = toks i rs s"
  by (simp add: toks_def tokens_def)

lemma gput_simps [simp]:
  "sq (gput cc s) = sq s" "jobs (gput cc s) = jobs s" "mem (gput cc s) = mem s" "nextID (gput cc s) = nextID s"
  "nextAddr (gput cc s) = nextAddr s" "connFree (gput cc s) = connFree s" "br (gput cc s) = br s"
  "conns (gput cc s) = AList.update (cid cc) cc (conns s)"
  by (simp_all add: gput_def)

lemma gpost_simps [simp]:
  "jobs (gpost q n o' s) = jobs s" "mem (gpost q n o' s) = mem s" "nextID (gpost q n o' s) = nextID s"
  "nextAddr (gpost q n o' s) = nextAddr s" "connFree (gpost q n o' s) = connFree s" "br (gpost q n o' s) = br s"
  "conns (gpost q n o' s) = conns s" "sq (gpost q n o' s) = sq s @ [\<lparr>q_req = q, q_id = n, q_op = o'\<rparr>]"
  by (simp_all add: gpost_def)

lemma gcall_simps [simp]:
  "sq (gcall d s) = sq s" "jobs (gcall d s) = jobs s" "mem (gcall d s) = mem s" "nextID (gcall d s) = nextID s"
  "nextAddr (gcall d s) = nextAddr s" "connFree (gcall d s) = connFree s" "br (gcall d s) = br s"
  "conns (gcall d s) = conns s"
  by (simp_all add: gcall_def)

lemma gcount_err_simps [simp]:
  "sq (gcount_err s) = sq s" "jobs (gcount_err s) = jobs s" "mem (gcount_err s) = mem s"
  "nextID (gcount_err s) = nextID s" "nextAddr (gcount_err s) = nextAddr s"
  "connFree (gcount_err s) = connFree s" "br (gcount_err s) = br s" "conns (gcount_err s) = conns s"
  by (simp_all add: gcount_err_def)

end
