(* ===== verification/Gate_Preserve.thy ===== *)
theory Gate_Preserve
  imports Gate_Invariant
begin

text \<open>
  The helpers and handlers of the benchmark relay preserve the invariant: first the primitive steps
  (post, store, delete, write of the kernel) while one id is exempt, then each handler.
\<close>

section \<open>Primitive steps\<close>

lemma ginv_cong:
  assumes "ginv E c H rs s" and "conns s' = conns s" "connFree s' = connFree s" "mem s' = mem s"
    "nextAddr s' = nextAddr s" "nextID s' = nextID s" "sq s' = sq s" "jobs s' = jobs s"
  shows "ginv E c H rs s'"
  using assms by (simp add: ginv_def table_ok_def bufs_ok_def held_def toks_cong [of s' s])

lemma ginv_restore:
  "ginv {i} c H rs s \<Longrightarrow> slot_ok c (mem s) (H i) (map_of (conns s) i) (toks i rs s) \<Longrightarrow> ginv {} c H rs s"
  unfolding ginv_def by (metis empty_iff singletonD)

lemma ginv_exempt: "ginv {} c H rs s \<Longrightarrow> ginv {i} c H rs s"
  by (simp add: ginv_def)

lemma held_gpost [simp]: "held (gpost q n o' s) = held s"
  by (simp add: held_def)

lemma ginv_post:
  "ginv E c H rs s \<Longrightarrow> tok_id (TSqe \<lparr>q_req = q, q_id = n, q_op = o'\<rparr>) \<in> insert 0 E \<Longrightarrow>
   entry_ok \<lparr>q_req = q, q_id = n, q_op = o'\<rparr> \<Longrightarrow>
   ginv E c H rs (gpost q n o' s)"
  by (auto simp: ginv_def table_ok_def bufs_ok_def)

lemma held_gput:
  assumes "keys_distinct (conns s)" and "map_of (conns s) (cid cc) = Some cc0" and "bufs_of cc = bufs_of cc0"
  shows "held (gput cc s) = held s"
  using tally_store_old [OF assms(1,2), of bufs_of cc] assms(3) by (simp add: held_def)

lemma ginv_put:
  assumes g: "ginv {i} c H rs s" and cc: "map_of (conns s) i = Some cc0" "cid cc = i"
    and bf: "reqBuf cc = reqBuf cc0" "respBuf cc = respBuf cc0"
  shows "ginv {i} c H rs (gput cc s)"
proof -
  have h: "held (gput cc s) = held s"
    using g cc bf by (intro held_gput) (auto simp: ginv_def table_ok_def bufs_of_def)
  have k: "toks j rs (gput cc s) = toks j rs s" for j by (rule toks_cong) simp_all
  have "sized c (mem s) cc0" using g cc by (auto simp: ginv_def bufs_ok_def)
  then have z: "sized c (mem s) cc" by (simp add: sized_def bf)
  show ?thesis
    using g cc z by (auto simp: ginv_def table_ok_def bufs_ok_def h k update_conv' distinct_update keys_distinct_def)
qed

lemma putConn_simps [simp]:
  "\<not> duplex c \<Longrightarrow> putConn c cc s = s\<lparr>connFree := connFree s @ [blank_conn (reqBuf cc) (respBuf cc)]\<rparr>"
  by (simp add: putConn_def Let_def)

lemma blank_conn_bufs [simp]: "reqBuf (blank_conn a b) = a" "respBuf (blank_conn a b) = b" "closing (blank_conn a b) = False"
  by (simp_all add: blank_conn_def)

lemma is_blank_blank [simp]: "is_blank (blank_conn a b)"
  by (simp add: is_blank_def)

lemma is_blank_open: "is_blank cc \<Longrightarrow> \<not> closing cc"
  unfolding is_blank_def by (metis blank_conn_bufs(3))

lemma ginv_drop:
  assumes g: "ginv {i} c H rs s" and cc: "map_of (conns s) i = Some cc0"
    and bf: "reqBuf cc = reqBuf cc0" "respBuf cc = respBuf cc0" and nd: "\<not> duplex c"
  shows "ginv {i} c H rs (putConn c cc (s\<lparr>conns := AList.delete i (conns s)\<rparr>))" (is "ginv _ _ _ _ ?s")
proof -
  have kd: "keys_distinct (conns s)" using g by (simp add: ginv_def table_ok_def)
  have b: "bufs_of (blank_conn (reqBuf cc) (respBuf cc)) = bufs_of cc0" by (simp add: bufs_of_def bf)
  have h: "held ?s = held s"
    using tally_remove [OF kd cc, of bufs_of] by (simp add: held_def nd b ac_simps)
  have k: "toks j rs ?s = toks j rs s" for j by (rule toks_cong) (simp_all add: nd)
  have z: "sized c (mem s) cc0" using g cc by (auto simp: ginv_def bufs_ok_def)
  have "table_ok ?s"
    using g by (auto simp: ginv_def table_ok_def nd delete_conv' keys_distinct_def distinct_delete split: if_splits)
  moreover have "bufs_ok c ?s"
    using g z unfolding ginv_def bufs_ok_def h by (auto simp: nd delete_conv' sized_def bf split: if_splits)
  ultimately show ?thesis using g unfolding ginv_def k by (auto simp: nd delete_conv')
qed

section \<open>Buffers have one owner\<close>

lemma held_owner:
  assumes "bufs_ok c s" "keys_distinct (conns s)" "map_of (conns s) i = Some cc" "a \<in># bufs_of cc"
    and "map_of (conns s) j = Some cc'" "j \<noteq> i"
  shows "a \<notin># bufs_of cc'"
proof
  assume "a \<in># bufs_of cc'"
  let ?t = "AList.delete i (conns s)"
  have "map_of ?t j = Some cc'" using assms by (simp add: delete_conv')
  then have "tally bufs_of (AList.delete j ?t) + bufs_of cc' = tally bufs_of ?t"
    using assms by (intro tally_remove) (simp add: keys_distinct_def distinct_delete)
  with tally_remove [OF assms(2,3), of bufs_of]
  have e: "held s = tally bufs_of (AList.delete j ?t) + bufs_of cc' + bufs_of cc + sum_list (map bufs_of (connFree s))"
    by (simp add: held_def)
  have "0 < count (bufs_of cc) a" "0 < count (bufs_of cc') a"
    using assms(4) \<open>a \<in># bufs_of cc'\<close> by (simp_all only: count_greater_zero_iff)
  then have "2 \<le> count (held s) a" unfolding e count_union by linarith
  then show False using assms(1) unfolding bufs_ok_def by (metis not_less_eq_eq numeral_2_eq_2 One_nat_def)
qed

lemma held_free:
  assumes "bufs_ok c s" "keys_distinct (conns s)" "map_of (conns s) i = Some cc" "a \<in># bufs_of cc"
    and "cc' \<in> set (connFree s)"
  shows "a \<notin># bufs_of cc'"
proof
  assume a: "a \<in># bufs_of cc'"
  obtain xs ys where fr: "connFree s = xs @ cc' # ys" using assms(5) by (meson split_list)
  have e: "held s = tally bufs_of (AList.delete i (conns s)) + bufs_of cc + sum_list (map bufs_of xs) + bufs_of cc' + sum_list (map bufs_of ys)"
    using tally_remove [OF assms(2,3), of bufs_of] by (simp add: held_def fr ac_simps)
  have "0 < count (bufs_of cc) a" "0 < count (bufs_of cc') a"
    using assms(4) a by (simp_all only: count_greater_zero_iff)
  then have "2 \<le> count (held s) a" unfolding e count_union by linarith
  then show False using assms(1) unfolding bufs_ok_def by (metis not_less_eq_eq numeral_2_eq_2 One_nat_def)
qed

lemma own_bufs_distinct:
  assumes "bufs_ok c s" "keys_distinct (conns s)" "map_of (conns s) i = Some cc"
  shows "reqBuf cc \<noteq> respBuf cc"
proof
  assume "reqBuf cc = respBuf cc"
  then have "2 \<le> count (bufs_of cc) (reqBuf cc)" by (simp add: bufs_of_def)
  moreover have "held s = tally bufs_of (AList.delete i (conns s)) + bufs_of cc + sum_list (map bufs_of (connFree s))"
    using tally_remove [OF assms(2,3), of bufs_of] by (simp add: held_def)
  ultimately have "2 \<le> count (held s) (reqBuf cc)" by simp
  then show False using assms(1) unfolding bufs_ok_def by (metis not_less_eq_eq numeral_2_eq_2 One_nat_def)
qed

section \<open>The kernel stores into a buffer of the connection\<close>

lemma phase_mem:
  "phase_ok c m h cc t \<Longrightarrow> m' (reqBuf cc) = m (reqBuf cc) \<Longrightarrow> m' (respBuf cc) = m (respBuf cc) \<Longrightarrow> phase_ok c m' h cc t"
  by (cases t) (auto simp: sqe_phase_def has_request_def)

lemma slot_mem:
  assumes "slot_ok c m h oc T" and "\<And>cc. oc = Some cc \<Longrightarrow> m' (reqBuf cc) = m (reqBuf cc) \<and> m' (respBuf cc) = m (respBuf cc)"
  shows "slot_ok c m' h oc T"
  proof (cases oc)
  case (Some cc)
  then have "phase_ok c m' h cc t" if "phase_ok c m h cc t" for t
    using phase_mem [OF that] assms(2) by blast
  then show ?thesis using assms(1) Some by auto
qed (use assms(1) in simp)

lemma ginv_write:
  assumes g: "ginv {i} c H rs s" and cc: "map_of (conns s) i = Some cc" and a: "a \<in># bufs_of cc"
    and l: "length bs = length (mem s a)"
  shows "ginv {i} c H rs (s\<lparr>mem := (mem s)(a := bs)\<rparr>)" (is "ginv _ _ _ _ ?s")
proof -
  have b: "bufs_ok c s" "keys_distinct (conns s)" "table_ok s" using g by (auto simp: ginv_def table_ok_def)
  have k: "toks j rs ?s = toks j rs s" for j by (rule toks_cong) simp_all
  have "slot_ok c (mem ?s) (H j) (map_of (conns s) j) (toks j rs s)" if "0 < j" "j \<noteq> i" for j
  proof (rule slot_mem)
    show "slot_ok c (mem s) (H j) (map_of (conns s) j) (toks j rs s)" using g that by (simp add: ginv_def)
    show "mem ?s (reqBuf cc') = mem s (reqBuf cc') \<and> mem ?s (respBuf cc') = mem s (respBuf cc')"
      if "map_of (conns s) j = Some cc'" for cc'
      using held_owner [OF b(1,2) cc a that \<open>j \<noteq> i\<close>] by (auto simp: bufs_of_def)
  qed
  moreover have "length (mem ?s a') = length (mem s a')" for a' using l by simp
  then have "bufs_ok c ?s" using b(1) by (simp add: bufs_ok_def held_def sized_def del: fun_upd_apply)
  ultimately show ?thesis using g b(3) by (simp add: ginv_def table_ok_def k)
qed

end
