(* ===== verification/Gate_Handlers.thy ===== *)
theory Gate_Handlers
  imports Gate_Preserve
begin

text \<open>Each handler of the benchmark relay, without \<open>-duplex\<close>, does not panic and restores the invariant.\<close>

section \<open>Tear-down\<close>

lemma close_pipe_simps [simp]:
  "sq (close_pipe p s) = sq s" "jobs (close_pipe p s) = jobs s" "mem (close_pipe p s) = mem s"
  "nextID (close_pipe p s) = nextID s" "nextAddr (close_pipe p s) = nextAddr s"
  "connFree (close_pipe p s) = connFree s" "br (close_pipe p s) = br s" "conns (close_pipe p s) = conns s"
  by (simp_all add: close_pipe_def Let_def)

definition post_close :: "fd \<Rightarrow> nat \<Rightarrow> gate_worker \<Rightarrow> gate_worker" where
  "post_close f i s = (if f > 0 then gpost (QClose f) i GClose s else s)"

definition close_count :: "gate_conn \<Rightarrow> int" where
  "close_count cc = (if clientFD cc > 0 then 1 else 0) + (if upstreamFD cc > 0 then 1 else 0)"

lemma post_close_simps [simp]:
  "conns (post_close f i s) = conns s" "connFree (post_close f i s) = connFree s" "mem (post_close f i s) = mem s"
  "nextID (post_close f i s) = nextID s"
  by (simp_all add: post_close_def)

lemma gcloseConn_open:
  "\<not> closing cc \<Longrightarrow> gcloseConn c cc s =
    (let s = (if splice c then close_pipe (u2cPipe cc) (close_pipe (c2uPipe cc) s) else s);
         s = post_close (upstreamFD cc) (cid cc) (post_close (clientFD cc) (cid cc) s);
         cc = cc\<lparr>closing := True, closesLeft := close_count cc\<rparr>;
         s = gput cc s
     in if closesLeft cc = 0 then putConn c cc (s\<lparr>conns := AList.delete (cid cc) (conns s)\<rparr>) else s)"
  by (simp add: gcloseConn_def post_close_def close_count_def Let_def)

lemma conn_op_close [simp]: "conn_op GClose" "conn_op GRecvReq" "conn_op GSendUp" "conn_op GRecvResp" "conn_op GSendClient"
  by (simp_all add: conn_op_def)

lemma ginv_post_close: "ginv {i} c H rs s \<Longrightarrow> ginv {i} c H rs (post_close f i s)"
  by (auto simp: post_close_def entry_ok_def intro!: ginv_post)

lemma close_toks:
  assumes "toks i rs s = {#}" and "T = toks i rs (post_close (upstreamFD cc) i (post_close (clientFD cc) i s))"
  shows "int (size T) = close_count cc \<and> (\<forall>t\<in>#T. close_tok t)"
  using assms by (auto simp: post_close_def close_count_def close_tok_def)

lemma gcloseConn_ginv:
  assumes g: "ginv {i} c H rs s" and cc0: "map_of (conns s) i = Some cc0" and cc: "cid cc = i" "\<not> closing cc"
    and bf: "reqBuf cc = reqBuf cc0" "respBuf cc = respBuf cc0"
    and T: "toks i rs s = {#}" and h: "faithful (H i)" and nd: "\<not> duplex c"
  shows "ginv {} c H rs (gcloseConn c cc s)"
proof -
  define s1 where "s1 = (if splice c then close_pipe (u2cPipe cc) (close_pipe (c2uPipe cc) s) else s)"
  define s2 where "s2 = post_close (upstreamFD cc) i (post_close (clientFD cc) i s1)"
  define cc1 where "cc1 = cc\<lparr>closing := True, closesLeft := close_count cc\<rparr>"
  define s3 where "s3 = gput cc1 s2"
  have c1: "cid cc1 = i" "reqBuf cc1 = reqBuf cc0" "respBuf cc1 = respBuf cc0" "closing cc1" "closesLeft cc1 = close_count cc"
    using cc bf by (simp_all add: cc1_def)
  have g1: "ginv {i} c H rs s1" by (rule ginv_cong [OF g]) (simp_all add: s1_def)
  have g2: "ginv {i} c H rs s2" by (simp only: s2_def ginv_post_close g1)
  have T1: "toks i rs s1 = {#}" using T toks_cong [of s1 s i rs] by (simp add: s1_def)
  have g3: "ginv {i} c H rs s3" unfolding s3_def
    by (rule ginv_put [where ?cc0.0 = cc0]) (use g2 in \<open>simp_all add: s2_def cc0 c1 s1_def\<close>)
  have T3: "toks i rs s3 = toks i rs s2" by (rule toks_cong) (simp_all add: s3_def)
  have k: "int (size (toks i rs s3)) = close_count cc \<and> (\<forall>t\<in>#toks i rs s3. close_tok t)"
    unfolding T3 s2_def by (rule close_toks [OF T1 refl])
  have m3: "map_of (conns s3) i = Some cc1" by (simp add: s3_def c1 update_conv')
  have e: "gcloseConn c cc s = (if close_count cc = 0 then putConn c cc1 (s3\<lparr>conns := AList.delete i (conns s3)\<rparr>) else s3)"
    by (simp add: gcloseConn_open [OF cc(2)] Let_def s1_def s2_def s3_def cc1_def cc(1))
  show ?thesis
  proof (cases "close_count cc = 0")
    case True
    let ?s = "putConn c cc1 (s3\<lparr>conns := AList.delete i (conns s3)\<rparr>)"
    have "toks i rs ?s = toks i rs s3" by (rule toks_cong) (simp_all add: nd)
    then have "toks i rs ?s = {#}" using k True by simp
    then have "ginv {} c H rs ?s"
      by (intro ginv_restore [OF ginv_drop [OF g3 m3 refl refl nd]]) (simp_all add: nd delete_conv' h)
    then show ?thesis using e True by simp
  next
    case False
    then have "toks i rs s3 \<noteq> {#}" using k by auto
    then have "ginv {} c H rs s3" using g3 k by (intro ginv_restore) (auto simp: m3 c1 h)
    then show ?thesis using e False by simp
  qed
qed

section \<open>Request, hook, reply\<close>

lemma gwith_Some: "map_of (conns s) i = Some cc \<Longrightarrow> gwith i s f = f cc"
  by (simp add: gwith_def)

lemma ginv_ids:
  "ginv E c H rs s \<Longrightarrow> map_of (conns s) i = Some cc \<Longrightarrow> cid cc = i \<and> 0 < i \<and> i \<le> nextID s \<and> sized c (mem s) cc"
  by (auto simp: ginv_def table_ok_def bufs_ok_def)

text \<open>The situation a handler finds: its connection is open and its token has just been taken.\<close>

definition serving :: "nat \<Rightarrow> gate_conn \<Rightarrow> relayCfg \<Rightarrow> (nat \<Rightarrow> flow) \<Rightarrow> gate_result list \<Rightarrow> gate_worker \<Rightarrow> bool" where
  "serving i cc c H rs s \<longleftrightarrow> ginv {i} c H rs s \<and> map_of (conns s) i = Some cc \<and> \<not> closing cc \<and>
     toks i rs s = {#} \<and> \<not> duplex c \<and> 0 < reqLen c \<and> 0 < replyLen c"

lemma serving_closeConn:
  assumes v: "serving i cc c H rs s" and h: "faithful (H i)"
    and s': "conns s' = conns s" "connFree s' = connFree s" "mem s' = mem s" "nextAddr s' = nextAddr s"
      "nextID s' = nextID s" "sq s' = sq s" "jobs s' = jobs s"
  shows "ginv {} c H rs (gcloseConn c cc s')"
proof -
  have g: "ginv {i} c H rs s'" using v s' by (auto simp: serving_def intro: ginv_cong)
  have "toks i rs s' = {#}" using v toks_cong [OF s'(6,7)] by (simp add: serving_def)
  with v s' ginv_ids [OF g] show ?thesis
    by (intro gcloseConn_ginv [OF g _ _ _ refl refl]) (auto simp: serving_def h)
qed

lemma serving_put:
  assumes v: "serving i cc c H rs s" and "cid cc' = i" "reqBuf cc' = reqBuf cc" "respBuf cc' = respBuf cc" "\<not> closing cc'"
  shows "serving i cc' c H rs (gput cc' s)"
proof -
  have "toks i rs (gput cc' s) = toks i rs s" by (rule toks_cong) simp_all
  with assms show ?thesis by (auto simp: serving_def update_conv' intro!: ginv_put)
qed

text \<open>Posting the connection's next entry, or queueing its job, ends the handler.\<close>

lemma serving_post:
  assumes v: "serving i cc c H rs s" and p: "sqe_phase c (mem s) (H i) cc q o'" and o': "conn_op o'"
  shows "ginv {} c H rs (gpost q i o' s)"
proof (rule ginv_restore)
  have "0 < i" using v ginv_ids unfolding serving_def by blast
  then show "ginv {i} c H rs (gpost q i o' s)" using v o' by (auto simp: serving_def entry_ok_def intro!: ginv_post)
  show "slot_ok c (mem (gpost q i o' s)) (H i) (map_of (conns (gpost q i o' s)) i) (toks i rs (gpost q i o' s))"
    using v p o' by (simp add: serving_def)
qed

lemma serving_job:
  assumes v: "serving i cc c H rs s" and p: "has_request c (mem s) (H i) cc"
  shows "ginv {} c H rs (s\<lparr>jobs := jobs s @ [i]\<rparr>)" (is "ginv _ _ _ _ ?s")
proof -
  have k: "toks j rs ?s = (if i = j then add_mset (TJob i) (toks j rs s) else toks j rs s)" for j
    by (rule toks_job)
  have b: "table_ok ?s = table_ok s" "bufs_ok c ?s = bufs_ok c s"
    by (simp_all add: table_ok_def bufs_ok_def held_def)
  have "ginv {i} c H rs ?s" using v by (simp add: serving_def ginv_def b k)
  moreover have "slot_ok c (mem ?s) (H i) (map_of (conns ?s) i) (toks i rs ?s)" using v p by (simp add: serving_def k)
  ultimately show ?thesis by (rule ginv_restore)
qed

lemma g_recvReq_ginv:
  assumes v: "serving i cc c H rs s" and h: "H i = no_flow\<lparr>recvd_c := take (nat res) (mem s (reqBuf cc))\<rparr>"
    and r: "res \<le> reqLen c"
  shows "\<exists>s'. g_recvReq c i res s = Some s' \<and> ginv {} c H rs s'"
proof (cases "res \<le> 0")
  case True
  then have "faithful (H i)" by (simp add: h faithful_def no_flow_def)
  with v True show ?thesis
    by (auto simp: serving_def g_recvReq_def gwith_Some intro!: serving_closeConn [OF v])
next
  case False
  let ?cc = "cc\<lparr>reqN := nat res\<rparr>"
  have i: "cid cc = i" using v ginv_ids unfolding serving_def by blast
  have "serving i ?cc c H rs (gput ?cc s)" using v i by (intro serving_put [OF v]) (auto simp: serving_def)
  moreover have "has_request c (mem (gput ?cc s)) (H i) ?cc" using False h r by (simp add: has_request_def)
  ultimately have "ginv {} c H rs (gput ?cc s\<lparr>jobs := jobs (gput ?cc s) @ [i]\<rparr>)" by (rule serving_job)
  with v False i show ?thesis by (simp add: serving_def g_recvReq_def gwith_Some Let_def)
qed

lemma g_result_ginv:
  assumes v: "serving (rid r) cc c H rs s" and p: "has_request c (mem s) (H (rid r)) cc"
  shows "\<exists>s'. g_result c r s = Some s' \<and> ginv {} c H rs s'"
proof (cases "ok r")
  case False
  have "faithful (H (rid r))" using p by (simp add: has_request_def faithful_def no_flow_def)
  with v False show ?thesis
    by (auto simp: serving_def g_result_def intro!: serving_closeConn [OF v])
next
  case True
  let ?cc = "cc\<lparr>upstreamFD := rfd r\<rparr>"
  have i: "cid cc = rid r" and z: "sized c (mem s) cc" using v ginv_ids unfolding serving_def by blast+
  have "serving (rid r) ?cc c H rs (gput ?cc s)" using v i by (intro serving_put [OF v]) (auto simp: serving_def)
  moreover have "sqe_phase c (mem (gput ?cc s)) (H (rid r)) ?cc (QSend (rfd r) (reqBuf cc) 0 (reqN cc)) GSendUp"
    using p by (auto simp: sqe_phase_def has_request_def)
  ultimately have "ginv {} c H rs (gpost (QSend (rfd r) (reqBuf cc) 0 (reqN cc)) (rid r) GSendUp (gput ?cc s))"
    by (rule serving_post) simp
  with v True i z p show ?thesis
    by (auto simp: serving_def g_result_def gpost_send_def sized_def has_request_def)
qed

lemma g_sendUp_ginv:
  assumes v: "serving i cc c H rs s" and h: "faithful (H i)" "recvd_u (H i) = []"
  shows "\<exists>s'. g_sendUp c pipes i res s = Some s' \<and> ginv {} c H rs s'"
proof (cases "res < 0")
  case True
  with v h show ?thesis
    by (auto simp: serving_def g_sendUp_def gwith_Some intro!: serving_closeConn [OF v])
next
  case False
  have i: "cid cc = i" and z: "sized c (mem s) cc" using v ginv_ids unfolding serving_def by blast+
  have "ginv {} c H rs (gpost (QRecv (upstreamFD cc) (respBuf cc) 0 (nat (replyLen c))) i GRecvResp s)"
    by (rule serving_post [OF v]) (simp_all add: sqe_phase_def h)
  with v False i z show ?thesis
    by (auto simp: serving_def g_sendUp_def gwith_Some gpost_recv_def sized_def)
qed

lemma g_recvResp_ginv:
  assumes v: "serving i cc c H rs s" and h: "faithful (H i)" "sent_c (H i) = []" "recvd_u (H i) = take (nat res) (mem s (respBuf cc))"
    and r: "res \<le> replyLen c"
  shows "\<exists>s'. g_recvResp c i res s = Some s' \<and> ginv {} c H rs s'"
proof (cases "res \<le> 0")
  case True
  with v h show ?thesis
    by (auto simp: serving_def g_recvResp_def gwith_Some intro!: serving_closeConn [OF v])
next
  case False
  have i: "cid cc = i" and z: "sized c (mem s) cc" using v ginv_ids unfolding serving_def by blast+
  have "ginv {} c H rs (gpost (QSend (clientFD cc) (respBuf cc) 0 (nat res)) i GSendClient s)"
    by (rule serving_post [OF v]) (use r h in \<open>simp_all add: sqe_phase_def nat_mono\<close>)
  with v False i z r show ?thesis
    by (simp add: serving_def g_recvResp_def gwith_Some gpost_send_def sized_def nat_mono)
qed

lemma g_sendClient_ginv:
  assumes v: "serving i cc c H rs s" and h: "faithful (H i)"
  shows "\<exists>s'. g_sendClient c i res s = Some s' \<and> ginv {} c H rs s'"
  using v h by (auto simp: serving_def g_sendClient_def gwith_Some Let_def intro!: serving_closeConn [OF v])

section \<open>A close completes\<close>

lemma g_close_ginv:
  assumes g: "ginv {i} c H rs s" and cc: "map_of (conns s) i = Some cc" "closing cc" and nd: "\<not> duplex c"
    and k: "closesLeft cc = int (size (toks i rs s)) + 1" "\<forall>t\<in>#toks i rs s. close_tok t" and h: "faithful (H i)"
  shows "\<exists>s'. g_close c i s = Some s' \<and> ginv {} c H rs s'"
proof -
  define cc1 where "cc1 = cc\<lparr>closesLeft := closesLeft cc - 1\<rparr>"
  define s1 where "s1 = gput cc1 s"
  have i: "cid cc1 = i" using ginv_ids [OF g cc(1)] by (simp add: cc1_def)
  have g1: "ginv {i} c H rs s1" unfolding s1_def by (rule ginv_put [OF g cc(1) i]) (simp_all add: cc1_def)
  have m1: "map_of (conns s1) i = Some cc1" by (simp add: s1_def i update_conv')
  have T1: "toks i rs s1 = toks i rs s" by (rule toks_cong) (simp_all add: s1_def)
  have e: "g_close c i s = Some (if closesLeft cc1 \<le> 0 then putConn c cc1 (s1\<lparr>conns := AList.delete i (conns s1)\<rparr>) else s1)"
    by (simp add: g_close_def gwith_Some [OF cc(1)] Let_def cc1_def s1_def)
  show ?thesis
  proof (cases "toks i rs s = {#}")
    case True
    let ?s = "putConn c cc1 (s1\<lparr>conns := AList.delete i (conns s1)\<rparr>)"
    have "toks i rs ?s = toks i rs s1" by (rule toks_cong) (simp_all add: nd)
    then have "ginv {} c H rs ?s"
      using True by (intro ginv_restore [OF ginv_drop [OF g1 m1 refl refl nd]]) (simp_all add: T1 nd delete_conv' h)
    then show ?thesis using e True k by (simp add: cc1_def)
  next
    case False
    then have "0 < size (toks i rs s)" by (simp add: nonempty_has_size)
    with False k cc h have "ginv {} c H rs s1" by (intro ginv_restore [OF g1]) (simp_all add: m1 T1 cc1_def)
    then show ?thesis using e k False by (simp add: cc1_def)
  qed
qed

end
