(* ===== verification/Gate_Reach.thy ===== *)
theory Gate_Reach
  imports Gate_Handlers
begin

text \<open>
  The invariant of the benchmark relay holds in every reachable state: the start, accepts, the hook
  results, every completion, and the end of a batch.
\<close>

section \<open>An accepted connection\<close>

lemma ginv_new_slot:
  assumes "ginv {} c H rs s" and "n = Suc (nextID s)"
  shows "map_of (conns s) n = None" "toks n rs s = {#}" "H n = no_flow"
proof -
  show m: "map_of (conns s) n = None"
    using assms ginv_ids [OF assms(1), of n] by (cases "map_of (conns s) n") auto
  show "H n = no_flow" using assms by (simp add: ginv_def)
  have "0 < n" using assms by simp
  then have "slot_ok c (mem s) (H n) (map_of (conns s) n) (toks n rs s)" using assms(1) unfolding ginv_def by blast
  with m show "toks n rs s = {#}" by simp
qed

text \<open>
  Storing a new connection, with buffers that came from the free list (\<open>s'\<close> has a shorter one) or
  were just made.
\<close>

lemma ginv_new:
  assumes g: "ginv {} c H rs s" and n: "n = Suc (nextID s)" and cc: "cid cc = n" "sized c (mem s) cc"
    and s': "conns s' = conns s" "mem s' = mem s" "nextAddr s' = nextAddr s" "nextID s' = n"
      "sq s' = sq s" "jobs s' = jobs s" "set (connFree s') \<subseteq> set (connFree s)"
    and h: "\<forall>a. count (tally bufs_of (conns s) + bufs_of cc + sum_list (map bufs_of (connFree s'))) a \<le> 1"
      "\<forall>a\<in>#tally bufs_of (conns s) + bufs_of cc + sum_list (map bufs_of (connFree s')). a < nextAddr s"
  shows "ginv {n} c H rs (gput cc s')" and "map_of (conns (gput cc s')) n = Some cc" and "toks n rs (gput cc s') = {#}"
proof -
  note new = ginv_new_slot [OF g n]
  have kd: "keys_distinct (conns s)" using g by (simp add: ginv_def table_ok_def)
  have k: "toks j rs (gput cc s') = toks j rs s" for j by (rule toks_cong) (simp_all add: s')
  show "map_of (conns (gput cc s')) n = Some cc" by (simp add: s' cc update_conv')
  show "toks n rs (gput cc s') = {#}" by (simp add: k new)
  have hh: "held (gput cc s') = tally bufs_of (conns s) + bufs_of cc + sum_list (map bufs_of (connFree s'))"
    using tally_store_new [OF kd new(1), of bufs_of cc] by (simp add: held_def s' cc)
  have B: "map_of (conns s) i = Some cc' \<Longrightarrow> sized c (mem s) cc'" "cc' \<in> set (connFree s) \<Longrightarrow> sized c (mem s) cc' \<and> is_blank cc'"
    for i cc' using g by (auto simp: ginv_def bufs_ok_def)
  have "sized c (mem s) cc'" if "map_of (conns (gput cc s')) i = Some cc'" for i cc'
    using that B(1) cc s' by (auto simp: update_conv' split: if_splits)
  then have "bufs_ok c (gput cc s')"
    unfolding bufs_ok_def hh using B(2) h s' by (simp only: gput_simps) blast
  moreover have "table_ok (gput cc s')"
    using g n cc by (auto simp: ginv_def table_ok_def s' update_conv' keys_distinct_def distinct_update intro!: le_SucI)
  ultimately show "ginv {n} c H rs (gput cc s')"
    using g n cc s' by (auto simp: ginv_def k update_conv')
qed

lemma serving_new:
  assumes "ginv {} c H rs s" "n = Suc (nextID s)" "cid cc = n" "sized c (mem s) cc"
    "conns s' = conns s" "mem s' = mem s" "nextAddr s' = nextAddr s" "nextID s' = n"
    "sq s' = sq s" "jobs s' = jobs s" "set (connFree s') \<subseteq> set (connFree s)"
    "\<forall>a. count (tally bufs_of (conns s) + bufs_of cc + sum_list (map bufs_of (connFree s'))) a \<le> 1"
    "\<forall>a\<in>#tally bufs_of (conns s) + bufs_of cc + sum_list (map bufs_of (connFree s')). a < nextAddr s"
    and "\<not> closing cc" "\<not> duplex c" "0 < reqLen c" "0 < replyLen c"
  shows "serving n cc c H rs (gput cc s')"
  using ginv_new [OF assms(1-13)] assms(14-) unfolding serving_def by blast

text \<open>Two fresh buffers change nothing else.\<close>

lemma ginv_alloc:
  fixes x y :: bytes
  assumes g: "ginv {} c H rs s"
  defines "a \<equiv> nextAddr s"
  defines "s' \<equiv> s\<lparr>mem := (mem s)(a := x, Suc a := y), nextAddr := Suc (Suc a)\<rparr>"
  shows "ginv {} c H rs s'"
proof -
  have b: "\<forall>a'\<in>#held s. a' < a" using g by (simp add: ginv_def bufs_ok_def a_def)
  have tab: "reqBuf cc < a" "respBuf cc < a" if "map_of (conns s) i = Some cc" for i cc
  proof -
    have kd: "keys_distinct (conns s)" using g by (simp add: ginv_def table_ok_def)
    have "held s = tally bufs_of (AList.delete i (conns s)) + bufs_of cc + sum_list (map bufs_of (connFree s))"
      using tally_remove [OF kd that, of bufs_of] by (simp add: held_def)
    with b show "reqBuf cc < a" "respBuf cc < a" by (auto simp: bufs_of_def)
  qed
  have fr: "reqBuf cc < a \<and> respBuf cc < a" if cc: "cc \<in> set (connFree s)" for cc
    using b cc by (auto simp: held_def bufs_of_def)
  have m: "a' < a \<Longrightarrow> mem s' a' = mem s a'" for a' by (simp add: s'_def)
  have k: "toks j rs s' = toks j rs s" for j by (rule toks_cong) (simp_all add: s'_def)
  have f: "conns s' = conns s" "connFree s' = connFree s" "nextID s' = nextID s" "nextAddr s' = Suc (Suc a)" "sq s' = sq s"
    by (simp_all add: s'_def)
  have h: "held s' = held s" by (simp add: held_def f)
  have "\<forall>a'\<in>#held s. a' < Suc (Suc a)" using b by (meson less_SucI)
  moreover have "sized c (mem s') cc = sized c (mem s) cc" if "reqBuf cc < a" "respBuf cc < a" for cc
    using that by (simp add: sized_def m)
  ultimately have z: "\<forall>i cc. map_of (conns s) i = Some cc \<longrightarrow> sized c (mem s') cc"
      "\<forall>cc\<in>set (connFree s). sized c (mem s') cc \<and> is_blank cc"
      "\<forall>a'\<in>#held s. a' < Suc (Suc a)" "\<forall>a. count (held s) a \<le> 1"
    using g tab fr by (simp_all add: ginv_def bufs_ok_def)
  then have "bufs_ok c s'" unfolding bufs_ok_def h f by blast
  moreover have "slot_ok c (mem s') (H j) (map_of (conns s) j) (toks j rs s)" if "0 < j" for j
  proof (rule slot_mem)
    show "slot_ok c (mem s) (H j) (map_of (conns s) j) (toks j rs s)" using g that unfolding ginv_def by blast
    show "mem s' (reqBuf cc) = mem s (reqBuf cc) \<and> mem s' (respBuf cc) = mem s (respBuf cc)"
      if "map_of (conns s) j = Some cc" for cc
      using tab [OF that] m by blast
  qed
  ultimately show ?thesis using g unfolding ginv_def table_ok_def f k by blast
qed

lemma getConn_free:
  "\<not> duplex c \<Longrightarrow> connFree s \<noteq> [] \<Longrightarrow> getConn c s = Some (last (connFree s), s\<lparr>connFree := butlast (connFree s)\<rparr>)"
  by (simp add: getConn_def)

lemma getConn_new:
  "connFree s = [] \<Longrightarrow> 0 \<le> reqLen c \<Longrightarrow> 0 \<le> replyLen c \<Longrightarrow> getConn c s =
    Some (blank_conn (nextAddr s) (Suc (nextAddr s)),
      s\<lparr>mem := (mem s)(nextAddr s := replicate (nat (reqLen c)) 0, Suc (nextAddr s) := replicate (nat (replyLen c)) 0),
        nextAddr := Suc (Suc (nextAddr s))\<rparr>)"
  by (simp add: getConn_def galloc_def)

text \<open>What \<open>getConn\<close> and the store of the accept handler do, in both cases.\<close>

lemma getConn_ginv:
  assumes g: "ginv {} c H rs s" and nd: "\<not> duplex c" and len: "0 < reqLen c" "0 < replyLen c"
    and n: "n = Suc (nextID s)"
  shows "\<exists>cc s'. getConn c (s\<lparr>nextID := n\<rparr>) = Some (cc, s') \<and> nextID s' = n \<and>
    serving n (cc\<lparr>cid := n, clientFD := f\<rparr>) c H rs (gput (cc\<lparr>cid := n, clientFD := f\<rparr>) s')"
proof (cases "connFree s = []")
  case False
  define cc where "cc = last (connFree s)"
  define s' where "s' = s\<lparr>nextID := n, connFree := butlast (connFree s)\<rparr>"
  have fr: "connFree s = butlast (connFree s) @ [cc]" using False by (simp add: cc_def)
  have in_fr: "cc \<in> set (connFree s)" using False by (simp add: cc_def)
  have e: "getConn c (s\<lparr>nextID := n\<rparr>) = Some (cc, s')" using nd False by (simp add: getConn_free cc_def s'_def)
  have z: "sized c (mem s) cc" "\<not> closing cc"
    using g in_fr is_blank_open by (auto simp: ginv_def bufs_ok_def)
  have "held s = tally bufs_of (conns s) + bufs_of cc + sum_list (map bufs_of (butlast (connFree s)))"
    unfolding held_def by (subst fr) (simp add: ac_simps)
  moreover have "bufs_of (cc\<lparr>cid := n, clientFD := f\<rparr>) = bufs_of cc" by (simp add: bufs_of_def)
  ultimately have h: "held s = tally bufs_of (conns s) + bufs_of (cc\<lparr>cid := n, clientFD := f\<rparr>) + sum_list (map bufs_of (connFree s'))"
    by (simp add: s'_def)
  have "serving n (cc\<lparr>cid := n, clientFD := f\<rparr>) c H rs (gput (cc\<lparr>cid := n, clientFD := f\<rparr>) s')"
  proof (rule serving_new [OF g n])
    show "\<forall>a. count (tally bufs_of (conns s) + bufs_of (cc\<lparr>cid := n, clientFD := f\<rparr>) + sum_list (map bufs_of (connFree s'))) a \<le> 1"
      "\<forall>a\<in>#tally bufs_of (conns s) + bufs_of (cc\<lparr>cid := n, clientFD := f\<rparr>) + sum_list (map bufs_of (connFree s')). a < nextAddr s"
      unfolding h [symmetric] using g by (auto simp: ginv_def bufs_ok_def)
    show "set (connFree s') \<subseteq> set (connFree s)" by (auto simp: s'_def dest: in_set_butlastD)
    show "sized c (mem s) (cc\<lparr>cid := n, clientFD := f\<rparr>)" using z by (simp add: sized_def)
  qed (use z nd len in \<open>simp_all add: s'_def\<close>)
  with e show ?thesis by (auto simp: s'_def)
next
  case True
  let ?a = "nextAddr s"
  define cc where "cc = (blank_conn ?a (Suc ?a))\<lparr>cid := n, clientFD := f\<rparr>"
  define s1 where "s1 = s\<lparr>mem := (mem s)(?a := replicate (nat (reqLen c)) 0, Suc ?a := replicate (nat (replyLen c)) 0),
                          nextAddr := Suc (Suc ?a)\<rparr>"
  have e: "getConn c (s\<lparr>nextID := n\<rparr>) = Some (blank_conn ?a (Suc ?a), s1\<lparr>nextID := n\<rparr>)"
    using True len by (simp add: getConn_new s1_def)
  have g1: "ginv {} c H rs s1" unfolding s1_def by (rule ginv_alloc [OF g])
  have b: "\<forall>a. count (held s) a \<le> 1" "\<forall>a\<in>#held s. a < ?a" using g by (auto simp: ginv_def bufs_ok_def)
  have old: "count (held s) ?a = 0" "count (held s) (Suc ?a) = 0"
    using b(2) by (metis count_inI less_irrefl, metis count_inI Suc_n_not_le_n less_imp_le)
  have "held s = tally bufs_of (conns s)" by (simp add: held_def True)
  then have "\<forall>a. count (tally bufs_of (conns s) + bufs_of cc) a \<le> 1" "\<forall>a\<in>#tally bufs_of (conns s) + bufs_of cc. a < Suc (Suc ?a)"
    using b old by (auto simp: bufs_of_def cc_def blank_conn_def less_SucI)
  then have "serving n cc c H rs (gput cc (s1\<lparr>nextID := n\<rparr>))"
    using n nd len True by (intro serving_new [OF g1]) (simp_all add: cc_def s1_def sized_def blank_conn_def)
  with e show ?thesis by (simp add: cc_def)
qed

lemma g_accept_ginv:
  assumes g: "ginv {} c H rs s" and nd: "\<not> duplex c" and len: "0 < reqLen c" "0 < replyLen c"
  shows "\<exists>s'. g_accept c k res s = Some s' \<and> ginv {} c H rs s'"
proof -
  define s0 where "s0 = (if k < length (acceptInflight s)
    then s\<lparr>acceptInflight := (acceptInflight s)[k := acceptInflight s ! k - 1]\<rparr> else s)"
  define s1 where "s1 = s0\<lparr>totalAccepts := totalAccepts s0 - 1\<rparr>"
  define s2 where "s2 = s1\<lparr>accepted := accepted s1 + 1, gAccepted := gAccepted s1 + 1\<rparr>"
  have g2: "ginv {} c H rs s2" and ge: "ginv {} c H rs (gcount_err s1)"
    and gs: "ginv {} c H rs (gpost (QClose res) 0 GClose (s2\<lparr>shed := shed s2 + 1\<rparr>))"
    by (auto intro!: ginv_post ginv_cong [OF g] simp: s0_def s1_def s2_def entry_ok_def)
  obtain cc s' where e: "getConn c (s2\<lparr>nextID := Suc (nextID s2)\<rparr>) = Some (cc, s')" "nextID s' = Suc (nextID s2)"
    and v: "serving (Suc (nextID s2)) (cc\<lparr>cid := Suc (nextID s2), clientFD := res\<rparr>) c H rs
              (gput (cc\<lparr>cid := Suc (nextID s2), clientFD := res\<rparr>) s')"
    using getConn_ginv [OF g2 nd len refl] by blast
  let ?cc = "cc\<lparr>cid := Suc (nextID s2), clientFD := res\<rparr>" and ?n = "Suc (nextID s2)"
  have "ginv {?n} c H rs (gput ?cc s')" "map_of (conns (gput ?cc s')) ?n = Some ?cc" using v by (auto simp: serving_def)
  then have z: "sized c (mem s') ?cc" using ginv_ids by fastforce
  have "ginv {} c H rs (gpost (QRecv res (reqBuf cc) 0 (nat (reqLen c))) ?n GRecvReq (gput ?cc s'))"
    by (rule serving_post [OF v]) (use ginv_new_slot [OF g2 refl] in \<open>simp_all add: sqe_phase_def\<close>)
  then have "\<exists>s''. gpost_recv res (reqBuf cc) 0 (length (mem s' (reqBuf cc))) ?n GRecvReq (gput ?cc s') = Some s'' \<and> ginv {} c H rs s''"
    using z len by (simp add: gpost_recv_def sized_def) 
  moreover have "g_accept c k res s = (if res < 0 then Some (gcount_err s1) else if int (length (conns s2)) \<ge> maxConns c
      then Some (gpost (QClose res) 0 GClose (s2\<lparr>shed := shed s2 + 1\<rparr>))
      else case getConn c (s2\<lparr>nextID := nextID s2 + 1\<rparr>) of None \<Rightarrow> None
        | Some (cc, s) \<Rightarrow> gpost_recv res (reqBuf cc) 0 (length (mem s (reqBuf cc))) (nextID s) GRecvReq
            (gput (cc\<lparr>cid := nextID s, clientFD := res\<rparr>) s))"
    unfolding g_accept_def Let_def s0_def [symmetric] s1_def [symmetric] s2_def [symmetric] by (simp split: option.splits prod.splits)
  ultimately show ?thesis using ge gs e by auto
qed

section \<open>Hook results\<close>

lemma slot_open:
  assumes "ginv {} c H rs s" "0 < i" "t \<in># toks i rs s"
  shows "\<exists>cc. map_of (conns s) i = Some cc \<and> (closing cc \<longrightarrow> close_tok t \<and> closesLeft cc = int (size (toks i rs s))
      \<and> (\<forall>t\<in>#toks i rs s. close_tok t) \<and> faithful (H i))
    \<and> (\<not> closing cc \<longrightarrow> toks i rs s = {#t#} \<and> phase_ok c (mem s) (H i) cc t)"
proof -
  have "slot_ok c (mem s) (H i) (map_of (conns s) i) (toks i rs s)" using assms(1,2) unfolding ginv_def by blast
  with assms(3) show ?thesis by (cases "map_of (conns s) i") (auto split: if_splits)
qed

lemma ginv_drop_result:
  assumes g: "ginv {} c H (r # rs) s"
  shows "ginv {rid r} c H rs s"
proof -
  have "toks i rs s = toks i (r # rs) s" if "i \<noteq> rid r" for i using that by (simp add: toks_res_Cons)
  with g show ?thesis by (simp add: ginv_def)
qed

lemma ginv_zero: "ginv {0} c H rs s = ginv {} c H rs s"
  by (auto simp: ginv_def)

lemma g_result_step:
  assumes g: "ginv {} c H (r # rs) s" and nd: "\<not> duplex c" and len: "0 < reqLen c" "0 < replyLen c"
  shows "\<exists>s'. g_result c r s = Some s' \<and> ginv {} c H rs s'"
proof (cases "rid r = 0")
  case True
  then have g0: "ginv {} c H rs s" using ginv_drop_result [OF g] by (simp add: ginv_zero)
  have "map_of (conns s) (rid r) = None" using ginv_ids [OF g, of 0] True by (cases "map_of (conns s) 0") auto
  then show ?thesis using g0 by (auto simp: g_result_def intro: ginv_cong [OF g0])
next
  case False
  have "TRes r \<in># toks (rid r) (r # rs) s" by (simp add: toks_res_Cons)
  from slot_open [OF g _ this] False obtain cc where cc: "map_of (conns s) (rid r) = Some cc"
      "\<not> closing cc" "toks (rid r) (r # rs) s = {#TRes r#}" "has_request c (mem s) (H (rid r)) cc"
    by (auto simp: close_tok_def)
  then have "toks (rid r) rs s = {#}" by (simp add: toks_res_Cons)
  then show ?thesis using cc nd len ginv_drop_result [OF g] by (intro g_result_ginv) (auto simp: serving_def)
qed

lemma g_results_step:
  "ginv {} c H rs s \<Longrightarrow> \<not> duplex c \<Longrightarrow> 0 < reqLen c \<Longrightarrow> 0 < replyLen c \<Longrightarrow>
   \<exists>s'. g_results c rs s = Some s' \<and> ginv {} c H [] s'"
proof (induction rs arbitrary: s)
  case (Cons r rs)
  then obtain s1 where "g_result c r s = Some s1" "ginv {} c H rs s1" using g_result_step by blast
  with Cons show ?case by simp
qed simp

section \<open>The bridge is touched by the eventfd handler only\<close>

lemma putConn_br [simp]: "br (putConn c cc s) = br s"
  by (simp add: putConn_def Let_def)

lemma gcloseConn_br [simp]: "br (gcloseConn c cc s) = br s"
  by (cases "closing cc") (simp_all add: gcloseConn_open Let_def post_close_def, simp add: gcloseConn_def)

lemma gpost_recv_br: "gpost_recv f a i j n o' s = Some s' \<Longrightarrow> br s' = br s"
  by (auto simp: gpost_recv_def split: if_splits)

lemma gpost_send_br: "gpost_send f a i j n o' s = Some s' \<Longrightarrow> br s' = br s"
  by (auto simp: gpost_send_def split: if_splits)

lemma galloc_br: "galloc n s = Some (a, s') \<Longrightarrow> br s' = br s"
  by (auto simp: galloc_def split: if_splits)

lemma getConn_br: "getConn c s = Some (cc, s') \<Longrightarrow> br s' = br s"
  by (auto simp: getConn_def galloc_br split: if_splits option.splits prod.splits dest!: galloc_br)

lemmas br_keep = gpost_recv_br gpost_send_br galloc_br getConn_br

lemma g_accept_br: "g_accept c k res s = Some s' \<Longrightarrow> br s' = br s"
  by (auto simp: g_accept_def Let_def split: if_splits option.splits prod.splits dest!: br_keep)

lemma g_result_br: "g_result c r s = Some s' \<Longrightarrow> br s' = br s"
  by (auto simp: g_result_def Let_def split: if_splits option.splits dest!: br_keep)

lemma g_results_br: "g_results c rs s = Some s' \<Longrightarrow> br s' = br s"
  by (induction rs arbitrary: s) (auto split: option.splits dest: g_result_br)

lemma served_br:
  assumes "\<not> duplex c"
  shows "g_recvReq c i res s = Some s' \<Longrightarrow> br s' = br s"
    and "g_sendUp c pipes i res s = Some s' \<Longrightarrow> br s' = br s"
    and "g_recvResp c i res s = Some s' \<Longrightarrow> br s' = br s"
    and "g_sendClient c i res s = Some s' \<Longrightarrow> br s' = br s"
    and "g_close c i s = Some s' \<Longrightarrow> br s' = br s"
  using assms
  by (auto simp: g_recvReq_def g_sendUp_def g_recvResp_def g_sendClient_def g_close_def gwith_def Let_def
      split: if_splits option.splits dest!: br_keep)

section \<open>Completions\<close>

lemma ginv_take:
  assumes g: "ginv {} c H rs s" and n: "n < length (sq s)" and i: "i = tok_id (TSqe (sq s ! n))"
  defines "s1 \<equiv> s\<lparr>sq := drop_nth n (sq s)\<rparr>"
  shows "ginv {i} c H rs s1" and "toks i rs s = add_mset (TSqe (sq s ! n)) (toks i rs s1)"
proof -
  have m: "mset (sq s) = add_mset (sq s ! n) (mset (drop_nth n (sq s)))" by (rule mset_drop_nth [OF n])
  show "toks i rs s = add_mset (TSqe (sq s ! n)) (toks i rs s1)"
    using i by (simp add: toks_def tokens_def m s1_def)
  have k: "toks j rs s1 = toks j rs s" if "j \<noteq> i" for j
    using i that by (simp add: toks_def tokens_def m s1_def)
  have h: "held s1 = held s" by (simp add: held_def s1_def)
  have "\<forall>q\<in>set (sq s1). entry_ok q" using g set_drop_nth [of n "sq s"] by (auto simp: ginv_def s1_def)
  then show "ginv {i} c H rs s1" using g k by (simp add: ginv_def table_ok_def bufs_ok_def h) (simp add: s1_def)
qed

lemma ginv_flow: "ginv {i} c H rs s \<Longrightarrow> i \<le> nextID s \<Longrightarrow> ginv {i} c (H(i := h)) rs s"
  by (simp add: ginv_def)

lemma prefix_take_min: "prefix (take (min a b) xs) (take b xs)"
  by (metis take_is_prefix take_take)

text \<open>The step of an open connection, by the operation that completes.\<close>

lemma open_completion:
  assumes g: "ginv {i} c H rs s1" and cc: "map_of (conns s1) i = Some cc" "\<not> closing cc"
    and T: "toks i rs s1 = {#}" and nd: "\<not> duplex c" and len: "0 < reqLen c" "0 < replyLen c"
    and ph: "sqe_phase c (mem s1) (H i) cc q o'" and k: "gcompletion_ok s q res data"
    and m: "mem s = mem s1"
  defines "H' \<equiv> H(i := flow_add o' (gmoved q res data s) (H i))"
  shows "\<exists>s'. gate_cqe c pipes o' i res (gkernel q data s1) = Some s' \<and> ginv {} c H' rs s'"
proof -
  note ids = ginv_ids [OF g cc(1)]
  have z: "sized c (mem s1) cc" using ids by blast
  have g': "ginv {i} c (H(i := h)) rs s1" for h using ginv_flow [OF g] ids by blast
  have put: "ginv {i} c (H(i := h)) rs (s1\<lparr>mem := (mem s1)(a := write_at 0 data (mem s1 a))\<rparr>)"
    if "a \<in># bufs_of cc" "length data \<le> length (mem s1 a)" for a h
    by (rule ginv_write [OF g' cc(1) that(1)]) (use that in simp)
  have T': "toks i rs (s1\<lparr>mem := m'\<rparr>) = {#}" for m' using T toks_cong [of "s1\<lparr>mem := m'\<rparr>" s1 i rs] by simp
  have v: "serving i cc c (H(i := h)) rs s1" for h using g' cc T nd len by (simp add: serving_def)
  consider "o' = GRecvReq" "q = QRecv (clientFD cc) (reqBuf cc) 0 (nat (reqLen c))" "H i = no_flow"
    | "o' = GSendUp" "q = QSend (upstreamFD cc) (reqBuf cc) 0 (reqN cc)" "has_request c (mem s1) (H i) cc"
    | "o' = GRecvResp" "q = QRecv (upstreamFD cc) (respBuf cc) 0 (nat (replyLen c))" "faithful (H i)" "recvd_u (H i) = []"
    | n where "o' = GSendClient" "q = QSend (clientFD cc) (respBuf cc) 0 n" "faithful (H i)" "sent_c (H i) = []"
        "recvd_u (H i) = take n (mem s1 (respBuf cc))"
    using ph unfolding sqe_phase_def by blast
  then show ?thesis
  proof cases
    case 1
    let ?s = "s1\<lparr>mem := (mem s1)(reqBuf cc := write_at 0 data (mem s1 (reqBuf cc)))\<rparr>"
    have d: "length data = nat res" "nat res \<le> length (mem s1 (reqBuf cc))" "res \<le> reqLen c"
      using k z len 1 by (auto simp: sized_def)
    have "H' i = no_flow\<lparr>recvd_c := take (nat res) (mem ?s (reqBuf cc))\<rparr>"
      using d by (simp add: H'_def 1 flow_add_def no_flow_def write_at_0_take flip: d(1))
    moreover have "serving i cc c H' rs ?s"
      using put [of "reqBuf cc"] d T' cc nd len by (simp add: serving_def bufs_of_def H'_def)
    ultimately have "\<exists>s'. g_recvReq c i res ?s = Some s' \<and> ginv {} c H' rs s'" by (intro g_recvReq_ginv d(3))
    then show ?thesis by (simp add: 1 gate_cqe_def)
  next
    case 2
    have "faithful (H' i) \<and> recvd_u (H' i) = []"
      using 2 by (simp add: H'_def flow_add_def has_request_def no_flow_def faithful_def m prefix_take_min)
    then have "\<exists>s'. g_sendUp c pipes i res s1 = Some s' \<and> ginv {} c H' rs s'"
      using v by (intro g_sendUp_ginv) (auto simp: H'_def)
    then show ?thesis by (simp add: 2 gate_cqe_def)
  next
    case 3
    let ?s = "s1\<lparr>mem := (mem s1)(respBuf cc := write_at 0 data (mem s1 (respBuf cc)))\<rparr>"
    have d: "length data = nat res" "nat res \<le> length (mem s1 (respBuf cc))" "res \<le> replyLen c"
      using k z len 3 by (auto simp: sized_def)
    have h: "faithful (H' i)" "sent_c (H' i) = []" "recvd_u (H' i) = take (nat res) (mem ?s (respBuf cc))"
      using d 3 by (auto simp: H'_def flow_add_def write_at_0_take faithful_def simp flip: d(1))
    have "serving i cc c H' rs ?s"
      using put [of "respBuf cc"] d T' cc nd len by (simp add: serving_def bufs_of_def H'_def)
    then have "\<exists>s'. g_recvResp c i res ?s = Some s' \<and> ginv {} c H' rs s'" using h d(3) by (intro g_recvResp_ginv)
    then show ?thesis by (simp add: 3 gate_cqe_def)
  next
    case 4
    have "faithful (H' i)"
      using 4 by (simp add: H'_def flow_add_def faithful_def m prefix_take_min)
    then have "\<exists>s'. g_sendClient c i res s1 = Some s' \<and> ginv {} c H' rs s'"
      using v by (intro g_sendClient_ginv) (auto simp: H'_def)
    then show ?thesis by (simp add: 4 gate_cqe_def)
  qed
qed

lemma gkernel_frame [simp]:
  "sq (gkernel q data s) = sq s" "jobs (gkernel q data s) = jobs s" "conns (gkernel q data s) = conns s"
  "connFree (gkernel q data s) = connFree s" "nextID (gkernel q data s) = nextID s"
  "nextAddr (gkernel q data s) = nextAddr s" "ready (br (gkernel q data s)) = ready (br s)"
  by (cases q; simp)+

text \<open>An entry of no connection: an accept, the eventfd, the timeout, the close of a shed client.\<close>

lemma idle_completion:
  assumes g: "ginv {} c H (ready (br s)) s" and e: "entry_ok q" "tok_id (TSqe q) = 0"
    and nd: "\<not> duplex c" and len: "0 < reqLen c" "0 < replyLen c"
  shows "\<exists>s'. gate_cqe c pipes (q_op q) (q_id q) res (gkernel (q_req q) data s) = Some s' \<and> ginv {} c H (ready (br s')) s'"
proof -
  consider f where "q_req q = QAccept f" "q_op q = GAccept" | f where "q_req q = QRead f" "q_op q = GEventfd"
    | "q_req q = QTimeout" "q_op q = GTimeout" | f where "q_req q = QClose f" "q_op q = GClose" "q_id q = 0"
    using e by (auto simp: entry_ok_def split: gate_req.splits)
  then show ?thesis
  proof cases
    case 1
    then show ?thesis using g_accept_ginv [OF g nd len, of "q_id q" res] g_accept_br [of c "q_id q" res s]
      by (fastforce simp: gate_cqe_def)
  next
    case 2
    define s1 where "s1 = gpostEventfd (s\<lparr>br := (br s)\<lparr>wakes := 0\<rparr>\<rparr>)"
    define s2 where "s2 = s1\<lparr>br := (br s1)\<lparr>notified := 0, ready := []\<rparr>\<rparr>"
    have g1: "ginv {} c H (ready (br s)) (s\<lparr>br := (br s)\<lparr>wakes := 0\<rparr>\<rparr>)" by (rule ginv_cong [OF g]) simp_all
    have "ginv {} c H (ready (br s)) s1" unfolding s1_def gpostEventfd_def
      by (rule ginv_post [OF g1]) (simp_all add: conn_op_def entry_ok_def)
    then have "ginv {} c H (ready (br s)) s2" by (rule ginv_cong) (simp_all add: s2_def)
    then obtain s' where "g_results c (ready (br s)) s2 = Some s'" "ginv {} c H [] s'"
      using g_results_step [OF _ nd len] by blast
    moreover from this have "ready (br s') = []" using g_results_br by (fastforce simp: s2_def)
    ultimately show ?thesis
      by (simp add: 2 gate_cqe_def g_eventfd_def Let_def drain_def s2_def s1_def gpostEventfd_def)
  next
    case 3
    have "ginv {} c H (ready (br s)) (gpostTimeout s)" unfolding gpostTimeout_def
      by (rule ginv_post [OF g]) (simp_all add: conn_op_def entry_ok_def)
    then show ?thesis by (simp add: 3 gate_cqe_def gpostTimeout_def)
  next
    case 4
    have "map_of (conns s) 0 = None" using ginv_ids [OF g, of 0] by (cases "map_of (conns s) 0") auto
    then show ?thesis using 4 g by (simp add: gate_cqe_def g_close_def gwith_def)
  qed
qed

definition gate_ok :: "relayCfg \<Rightarrow> gate_sys \<Rightarrow> bool" where
  "gate_ok c S \<longleftrightarrow> ginv {} c (flows (glog S)) (ready (br (gw S))) (gw S)"

lemma gate_cqe_br:
  assumes "gate_cqe c pipes o' i res s = Some s'" "o' \<in> {GRecvReq, GSendUp, GRecvResp, GSendClient, GClose}" "\<not> duplex c"
  shows "br s' = br s"
  using assms by (auto simp: gate_cqe_def dest: served_br [OF assms(3)])

lemma flow_add_idle: "o' \<in> {GAccept, GEventfd, GTimeout, GClose} \<Longrightarrow> flow_add o' bs h = h"
  by (auto simp: flow_add_def)

lemma gate_complete_ok:
  assumes S: "gate_ok c S" and ev: "gevent_ok S (GComplete n res data pipes)"
    and nd: "\<not> duplex c" and len: "0 < reqLen c" "0 < replyLen c"
  shows "\<exists>S'. gate_step c S (GComplete n res data pipes) = Some S' \<and> gate_ok c S'"
proof -
  define s where "s = gw S"
  define q where "q = sq s ! n"
  define s1 where "s1 = s\<lparr>sq := drop_nth n (sq s)\<rparr>"
  define i where "i = tok_id (TSqe q)"
  define H where "H = flows (glog S)"
  let ?bs = "gmoved (q_req q) res data s"
  have n: "n < length (sq s)" and k: "gcompletion_ok s (q_req q) res data" using ev by (auto simp: s_def q_def)
  have g: "ginv {} c H (ready (br s)) s" using S by (simp add: gate_ok_def H_def s_def)
  have b: "ready (br s1) = ready (br s)" "mem s = mem s1" by (simp_all add: s1_def)
  have g1: "ginv {i} c H (ready (br s)) s1" and T: "toks i (ready (br s)) s = add_mset (TSqe q) (toks i (ready (br s)) s1)"
    using ginv_take [OF g n, of i] by (simp_all add: i_def q_def s1_def)
  have e: "entry_ok q" using g n by (auto simp: ginv_def q_def)
  have "\<exists>s'. gate_cqe c pipes (q_op q) (q_id q) res (gkernel (q_req q) data s1) = Some s' \<and>
      ginv {} c (H(q_id q := flow_add (q_op q) ?bs (H (q_id q)))) (ready (br s')) s'"
  proof (cases "i = 0")
    case True
    then have "flow_add (q_op q) ?bs h = h" for h
      using e by (intro flow_add_idle) (auto simp: entry_ok_def i_def split: gate_req.splits)
    then show ?thesis using idle_completion [OF _ e _ nd len, of H s1] g1 True b by (simp add: ginv_zero i_def)
  next
    case False
    then have i: "q_id q = i" "conn_op (q_op q)" by (auto simp: i_def split: if_splits)
    obtain cc where cc: "map_of (conns s) i = Some cc"
        "closing cc \<Longrightarrow> close_tok (TSqe q) \<and> closesLeft cc = int (size (toks i (ready (br s)) s))
          \<and> (\<forall>t\<in>#toks i (ready (br s)) s. close_tok t) \<and> faithful (H i)"
        "\<not> closing cc \<Longrightarrow> toks i (ready (br s)) s = {#TSqe q#} \<and> sqe_phase c (mem s) (H i) cc (q_req q) (q_op q)"
      using slot_open [OF g, of i "TSqe q"] False T by auto
    have cc1: "map_of (conns s1) i = Some cc" using cc by (simp add: s1_def)
    show ?thesis
    proof (cases "closing cc")
      case True
      obtain f where q: "q_op q = GClose" "q_req q = QClose f" using cc(2) [OF True] by (auto simp: close_tok_def)
      have "\<exists>s'. g_close c i s1 = Some s' \<and> ginv {} c H (ready (br s)) s'"
        using cc(2) [OF True] T by (intro g_close_ginv [OF g1 cc1 True nd]) auto
      then show ?thesis using served_br(5) [OF nd] b by (fastforce simp: q i gate_cqe_def flow_add_idle)
    next
      case False
      have "q_op q \<in> {GRecvReq, GSendUp, GRecvResp, GSendClient, GClose}" using cc(3) [OF False] by (auto simp: sqe_phase_def)
      note br = gate_cqe_br [OF _ this nd]
      have "\<exists>s'. gate_cqe c pipes (q_op q) i res (gkernel (q_req q) data s1) = Some s' \<and>
          ginv {} c (H(i := flow_add (q_op q) ?bs (H i))) (ready (br s)) s'"
        using cc(3) [OF False] T k b by (intro open_completion [OF g1 cc1 False _ nd len]) auto
      then show ?thesis using br b by (fastforce simp: i)
    qed
  qed
  then show ?thesis
    by (auto simp: gate_ok_def flows_snoc flow_step_def Let_def H_def s_def q_def s1_def simp del: fun_upd_apply)
qed

section \<open>Hooks, batches, the start\<close>

lemma ginv_push:
  assumes g: "ginv {} c H (ready (br s)) s" and j: "j < length (jobs s)" and r: "rid r = jobs s ! j"
  defines "s' \<equiv> s\<lparr>jobs := drop_nth j (jobs s), br := push r (br s)\<rparr>"
  shows "ginv {} c H (ready (br s')) s'"
proof -
  let ?R = "ready (br s)" and ?i = "rid r"
  have m: "mset (jobs s) = add_mset ?i (mset (drop_nth j (jobs s)))" using mset_drop_nth [OF j] r by simp
  have T: "toks k ?R s = (if ?i = k then add_mset (TJob ?i) (toks k ?R (s\<lparr>jobs := drop_nth j (jobs s)\<rparr>))
      else toks k ?R (s\<lparr>jobs := drop_nth j (jobs s)\<rparr>))" for k
    by (simp add: toks_def tokens_def m)
  have T': "toks k (ready (br s')) s' = (if ?i = k then add_mset (TRes r) (toks k ?R (s\<lparr>jobs := drop_nth j (jobs s)\<rparr>))
      else toks k ?R (s\<lparr>jobs := drop_nth j (jobs s)\<rparr>))" for k
    by (simp add: s'_def toks_def tokens_def)
  have f: "conns s' = conns s" "mem s' = mem s" "nextID s' = nextID s" "sq s' = sq s" "connFree s' = connFree s" "nextAddr s' = nextAddr s"
    by (simp_all add: s'_def)
  have "slot_ok c (mem s) (H k) (map_of (conns s) k) (toks k (ready (br s')) s')" if k: "0 < k" for k
  proof (cases "?i = k")
    case False
    then have "toks k (ready (br s')) s' = toks k ?R s" using T [of k] T' [of k] by simp
    then show ?thesis using g k by (simp add: ginv_def)
  next
    case True
    have "TJob ?i \<in># toks k ?R s" using True by (simp add: T)
    from slot_open [OF g k this] True T [of k] obtain cc where "map_of (conns s) k = Some cc" "\<not> closing cc"
        "toks k ?R (s\<lparr>jobs := drop_nth j (jobs s)\<rparr>) = {#}" "has_request c (mem s) (H k) cc"
      by (auto simp: close_tok_def)
    then show ?thesis by (simp add: T' True)
  qed
  then show ?thesis using g by (simp add: ginv_def table_ok_def bufs_ok_def held_def f)
qed

lemma ginv_postAccept: "ginv {} c H rs s \<Longrightarrow> ginv {} c H rs (gpostAccept k s)"
  unfolding gpostAccept_def Let_def
  by (rule ginv_cong [where s = "gpost (QAccept (lns s ! k)) k GAccept s"])
    (auto intro!: ginv_post simp: conn_op_def entry_ok_def)

lemma gpostAccept_br [simp]: "br (gpostAccept k s) = br s"
  by (simp add: gpostAccept_def Let_def)

lemma top_listener_ginv:
  "ginv {} c H rs s \<Longrightarrow> ginv {} c H rs (top_listener c k s) \<and> br (top_listener c k s) = br s"
proof (induction c k s rule: top_listener.induct)
  case (1 c k s)
  then show ?case by (subst (1 2) top_listener.simps) (simp add: ginv_postAccept)
qed

lemma fold_keeps:
  fixes f :: "nat \<Rightarrow> gate_worker \<Rightarrow> gate_worker"
  assumes "\<And>k s. P s \<Longrightarrow> P (f k s) \<and> br (f k s) = br s" and "P s"
  shows "P (fold f ks s) \<and> br (fold f ks s) = br s"
  using assms(2)
proof (induction ks arbitrary: s)
  case (Cons k ks)
  then show ?case using assms(1) by (metis fold_simps(2))
qed simp

lemma top_up_ginv: "ginv {} c H rs s \<Longrightarrow> ginv {} c H rs (top_up c s) \<and> br (top_up c s) = br s"
  unfolding top_up_def by (rule fold_keeps [OF top_listener_ginv])

lemma gate_start_ginv: "ginv {} c (\<lambda>_. no_flow) (ready (br (gate_start ls e))) (gate_start ls e)"
proof -
  define s where "s = \<lparr>conns = [], connFree = [], mem = (\<lambda>_. []), nextAddr = 1, nextID = 0,
      acceptInflight = replicate (length ls) 0, totalAccepts = 0, accepted = 0, completed = 0, shed = 0,
      errs = 0, gCompleted = 0, gAccepted = 0, br = new_bridge, sq = [], jobs = [], calls = [], lns = ls, efd = e\<rparr>"
  have "ginv {} c (\<lambda>_. no_flow) [] s"
    by (simp add: ginv_def table_ok_def keys_distinct_def bufs_ok_def held_def tally_def toks_def tokens_def
        s_def faithful_def no_flow_def)
  then have "ginv {} c (\<lambda>_. no_flow) [] (fold gpostAccept [0..<length ls] s) \<and> br (fold gpostAccept [0..<length ls] s) = br s"
    by (intro fold_keeps) (simp_all add: ginv_postAccept)
  moreover have "gate_start ls e = gpostTimeout (gpostEventfd (fold gpostAccept [0..<length ls] s))"
    by (simp add: gate_start_def Let_def s_def)
  moreover have "br s = new_bridge" by (simp add: s_def)
  ultimately show ?thesis
    by (simp add: new_bridge_def gpostTimeout_def gpostEventfd_def) (auto intro!: ginv_post simp: conn_op_def entry_ok_def)
qed

section \<open>Every step\<close>

lemma gate_step_ok:
  assumes S: "gate_ok c S" and ev: "gevent_ok S e"
    and nd: "\<not> duplex c" and len: "0 < reqLen c" "0 < replyLen c"
  shows "\<exists>S'. gate_step c S e = Some S' \<and> gate_ok c S'"
proof (cases e)
  case (GComplete n res data pipes)
  then show ?thesis using gate_complete_ok [OF S _ nd len] ev by blast
next
  case (GHook j f b)
  then show ?thesis using S ev ginv_push [of c _ "gw S" j "\<lparr>rid = jobs (gw S) ! j, rfd = f, ok = b\<rparr>"]
    by (simp add: gate_ok_def Let_def)
next
  case GBatchEnd
  then show ?thesis using S top_up_ginv by (simp add: gate_ok_def)
qed

interpretation gate_inv: inductive_invariant gate_boot "gate_trans c"
  "\<lambda>S. \<not> duplex c \<longrightarrow> 0 < reqLen c \<longrightarrow> 0 < replyLen c \<longrightarrow> gate_ok c S" for c
proof
  show "\<not> duplex c \<longrightarrow> 0 < reqLen c \<longrightarrow> 0 < replyLen c \<longrightarrow> gate_ok c S" if "gate_boot S" for S
    using that gate_start_ginv by (auto simp: gate_boot_def gate_ok_def)
  show "\<not> duplex c \<longrightarrow> 0 < reqLen c \<longrightarrow> 0 < replyLen c \<longrightarrow> gate_ok c S'"
    if "\<not> duplex c \<longrightarrow> 0 < reqLen c \<longrightarrow> 0 < replyLen c \<longrightarrow> gate_ok c S" "gate_trans c S e S'" for S e S'
    using that gate_step_ok by (fastforce simp: gate_trans_def)
qed

lemma gate_reach_ok:
  "gate_reachable c S \<Longrightarrow> \<not> duplex c \<Longrightarrow> 0 < reqLen c \<Longrightarrow> 0 < replyLen c \<Longrightarrow> gate_ok c S"
  using gate_inv.reachable_inv by blast

end
