(* ===== verification/Gate_Accepts.thy ===== *)
theory Gate_Accepts
  imports Gate_Reach
begin

text \<open>
  Accepts, the eventfd read and the timeout of the benchmark relay, in all of its modes: every handler
  of a connection leaves them alone (\<open>gframe\<close>), so the counters of accepts in flight are exact, and the
  table never outgrows its limit.
\<close>

section \<open>What a handler of a connection leaves alone\<close>

fun is_read :: "gate_req \<Rightarrow> bool" where
  "is_read (QRead f) = True"
| "is_read _ = False"

definition idle_entry :: "gate_sqe \<Rightarrow> bool" where
  "idle_entry q \<longleftrightarrow> \<not> conn_op (q_op q) \<or> is_read (q_req q)"

definition idle_entries :: "gate_worker \<Rightarrow> gate_sqe list" where
  "idle_entries s = filter idle_entry (sq s)"

definition gframe :: "gate_worker \<Rightarrow> gate_worker \<Rightarrow> bool" where
  "gframe s s' \<longleftrightarrow> idle_entries s' = idle_entries s \<and> acceptInflight s' = acceptInflight s \<and>
     totalAccepts s' = totalAccepts s \<and> lns s' = lns s \<and> shed s' = shed s \<and> br s' = br s \<and>
     (table_ok s \<longrightarrow> table_ok s' \<and> dom (map_of (conns s')) \<subseteq> dom (map_of (conns s)))"

lemma gframe_refl [simp]: "gframe s s"
  by (simp add: gframe_def)

lemma gframe_trans [trans]: "gframe s s' \<Longrightarrow> gframe s' s'' \<Longrightarrow> gframe s s''"
  unfolding gframe_def by (metis subset_trans)

lemma gframe_cong:
  "conns s' = conns s \<Longrightarrow> nextID s' = nextID s \<Longrightarrow> idle_entries s' = idle_entries s \<Longrightarrow>
   acceptInflight s' = acceptInflight s \<Longrightarrow> totalAccepts s' = totalAccepts s \<Longrightarrow> lns s' = lns s \<Longrightarrow>
   shed s' = shed s \<Longrightarrow> br s' = br s \<Longrightarrow> gframe s s'"
  by (simp add: gframe_def table_ok_def)

lemma gframe_post: "conn_op o' \<Longrightarrow> \<not> is_read q \<Longrightarrow> gframe s (gpost q n o' s)"
  by (rule gframe_cong) (simp_all add: gpost_def idle_entries_def idle_entry_def)

lemma gframe_call [simp]: "gframe s (gcall d s)"
  by (rule gframe_cong) (simp_all add: gcall_def idle_entries_def)

lemma gframe_err [simp]: "gframe s (gcount_err s)"
  by (rule gframe_cong) (simp_all add: gcount_err_def idle_entries_def)

lemma gframe_put:
  assumes "map_of (conns s) (cid cc) \<noteq> None"
  shows "gframe s (gput cc s)"
proof -
  have "table_ok s \<longrightarrow> table_ok (gput cc s) \<and> dom (map_of (conns (gput cc s))) \<subseteq> dom (map_of (conns s))"
    using assms by (auto simp: table_ok_def update_conv' keys_distinct_def distinct_update)
  then show ?thesis by (simp add: gframe_def idle_entries_def gput_def)
qed

lemma gframe_delete: "gframe s (s\<lparr>conns := AList.delete i (conns s)\<rparr>)"
proof -
  have "table_ok s \<longrightarrow> table_ok (s\<lparr>conns := AList.delete i (conns s)\<rparr>)"
    by (auto simp: table_ok_def delete_conv' keys_distinct_def distinct_delete split: if_splits)
  then show ?thesis by (auto simp: gframe_def idle_entries_def delete_conv')
qed

lemma gframe_putConn [simp]: "gframe s (putConn c cc s)"
  by (rule gframe_cong) (simp_all add: putConn_def Let_def idle_entries_def)

lemma gframe_forget: "gframe s s1 \<Longrightarrow> gframe s (putConn c cc (s1\<lparr>conns := AList.delete i (conns s1)\<rparr>))"
  using gframe_delete gframe_putConn by (blast intro: gframe_trans)

lemma gframe_close_pipe [simp]: "gframe s (close_pipe p s)"
  by (rule gframe_cong) (simp_all add: close_pipe_def Let_def gcall_def idle_entries_def)

lemma gframe_close_pipes [simp]: "gframe s (close_pipe p (close_pipe p' s))"
  by (rule gframe_trans) (rule gframe_close_pipe)+

lemma gframe_post_close [simp]: "gframe s (post_close f i s)"
  by (simp add: post_close_def gframe_post)

lemma gframe_closeConn:
  assumes "map_of (conns s) (cid cc) \<noteq> None"
  shows "gframe s (gcloseConn c cc s)"
proof (cases "closing cc")
  case True
  then show ?thesis using gframe_put [OF assms] by (simp add: gcloseConn_def)
next
  case False
  define s1 where "s1 = (if splice c then close_pipe (u2cPipe cc) (close_pipe (c2uPipe cc) s) else s)"
  define s2 where "s2 = post_close (upstreamFD cc) (cid cc) (post_close (clientFD cc) (cid cc) s1)"
  define cc' where "cc' = cc\<lparr>closing := True, closesLeft := close_count cc\<rparr>"
  have "gframe s s1" by (simp add: s1_def)
  also have "gframe s1 s2" unfolding s2_def by (rule gframe_trans [OF gframe_post_close gframe_post_close])
  also have "gframe s2 (gput cc' s2)" by (rule gframe_put) (use assms in \<open>simp add: cc'_def s2_def s1_def\<close>)
  finally have f: "gframe s (gput cc' s2)" .
  have e: "gcloseConn c cc s = (if close_count cc = 0 then putConn c cc' ((gput cc' s2)\<lparr>conns := AList.delete (cid cc) (conns (gput cc' s2))\<rparr>)
      else gput cc' s2)"
    by (simp add: gcloseConn_open [OF False] Let_def s1_def s2_def cc'_def)
  show ?thesis unfolding e using f gframe_forget [OF f] by simp
qed

lemma gframe_recv: "gpost_recv f a i j n o' s = Some s' \<Longrightarrow> conn_op o' \<Longrightarrow> gframe s s'"
  by (auto simp: gpost_recv_def gframe_post split: if_splits)

lemma gframe_send: "gpost_send f a i j n o' s = Some s' \<Longrightarrow> conn_op o' \<Longrightarrow> gframe s s'"
  by (auto simp: gpost_send_def gframe_post split: if_splits)

lemma gframe_splice: "conn_op o' \<Longrightarrow> gframe s (gpost_splice c f f' i o' s)"
  by (simp add: gpost_splice_def gframe_post)

lemma gframe_alloc: "galloc n s = Some (a, s') \<Longrightarrow> gframe s s'"
  by (auto simp: galloc_def idle_entries_def intro!: gframe_cong split: if_splits)

lemma conn_ops [simp]:
  "conn_op GC2URecv" "conn_op GC2USend" "conn_op GU2CRecv" "conn_op GU2CSend" "conn_op GC2USpliceIn"
  "conn_op GC2USpliceOut" "conn_op GU2CSpliceIn" "conn_op GU2CSpliceOut"
  by (simp_all add: conn_op_def)

section \<open>Every handler of a connection\<close>

lemma table_cid: "table_ok s \<Longrightarrow> map_of (conns s) i = Some cc \<Longrightarrow> cid cc = i"
  by (simp add: table_ok_def)

lemma gframe_call_close:
  "map_of (conns s) (cid cc) \<noteq> None \<Longrightarrow> gframe s (gcloseConn c cc (gcall d s))"
  by (rule gframe_trans [OF gframe_call gframe_closeConn]) simp

lemma gframe_err_close:
  "map_of (conns s) (cid cc) \<noteq> None \<Longrightarrow> gframe s (gcloseConn c cc (gcount_err s))"
  by (rule gframe_trans [OF gframe_err gframe_closeConn]) simp

lemma gframe_call_put: "map_of (conns s) (cid cc) \<noteq> None \<Longrightarrow> gframe s (gput cc (gcall d s))"
  by (rule gframe_trans [OF gframe_call gframe_put]) simp

lemma gframe_unput: "gframe (gput cc s) s' \<Longrightarrow> map_of (conns s) (cid cc) \<noteq> None \<Longrightarrow> gframe s s'"
  by (rule gframe_trans [OF gframe_put])

lemma gframe_put_splice:
  "conn_op o' \<Longrightarrow> map_of (conns s) (cid cc) \<noteq> None \<Longrightarrow> gframe s (gpost_splice c f f' i o' (gput cc s))"
  by (rule gframe_trans [OF gframe_put gframe_splice])

lemmas gframe_intros = gframe_closeConn gframe_call_close gframe_err_close gframe_call_put gframe_put gframe_splice
  gframe_put_splice
lemmas gframe_dests = gframe_unput gframe_send gframe_recv

lemma gframe_relay:
  assumes "table_ok s"
  shows "g_c2uRecv c i res s = Some s' \<Longrightarrow> gframe s s'" and "g_c2uSend c i res s = Some s' \<Longrightarrow> gframe s s'"
    and "g_u2cRecv c i res s = Some s' \<Longrightarrow> gframe s s'" and "g_u2cSend c i res s = Some s' \<Longrightarrow> gframe s s'"
  using assms unfolding g_c2uRecv_def g_c2uSend_def g_u2cRecv_def g_u2cSend_def gwith_open_def gwith_def
  by (auto simp: Let_def table_cid split: option.splits if_splits intro!: gframe_intros dest!: gframe_dests)

lemma gframe_splices:
  assumes "table_ok s"
  shows "g_c2uSpliceIn c i res s = Some s' \<Longrightarrow> gframe s s'" and "g_c2uSpliceOut c i res s = Some s' \<Longrightarrow> gframe s s'"
    and "g_u2cSpliceIn c i res s = Some s' \<Longrightarrow> gframe s s'" and "g_u2cSpliceOut c i res s = Some s' \<Longrightarrow> gframe s s'"
  using assms unfolding g_c2uSpliceIn_def g_c2uSpliceOut_def g_u2cSpliceIn_def g_u2cSpliceOut_def gwith_open_def gwith_def
  by (auto simp: Let_def table_cid split: option.splits if_splits intro!: gframe_intros)

lemma gframe_start_splice:
  assumes "map_of (conns s) (cid cc) \<noteq> None"
  shows "gframe s (start_splice c pipes cc s)"
proof (cases "fst pipes = None \<or> snd pipes = None")
  case True
  then show ?thesis using assms by (auto simp: start_splice_def Let_def split: option.splits intro!: gframe_err_close)
next
  case False
  then obtain p p' where p: "fst pipes = Some p" "snd pipes = Some p'" by auto
  have "gframe (gput cc' s) (gpost_splice c a1 b1 i1 GU2CSpliceOut (gpost_splice c a2 b2 i2 GU2CSpliceIn
      (gpost_splice c a3 b3 i3 GC2USpliceOut (gpost_splice c a4 b4 i4 GC2USpliceIn (gput cc' s)))))"
    for cc' a1 b1 i1 a2 b2 i2 a3 b3 i3 a4 b4 i4
    by (intro gframe_trans [OF _ gframe_splice] gframe_refl) simp_all
  moreover have "gframe s (gput (cc\<lparr>c2uPipe := p, u2cPipe := p'\<rparr>) s)" using assms by (intro gframe_put) simp
  ultimately show ?thesis using p by (auto simp: start_splice_def Let_def intro: gframe_trans)
qed

lemma galloc_conns: "galloc n s = Some (a, s') \<Longrightarrow> conns s' = conns s"
  by (auto simp: galloc_def split: if_splits)

lemma gframe_start_duplex:
  assumes "start_duplex c cc s = Some s'" and "map_of (conns s) (cid cc) \<noteq> None"
  shows "gframe s s'"
proof -
  obtain b1 s1 b2 s2 s3 where st: "galloc (bufSize c) s = Some (b1, s1)" "galloc (bufSize c) s1 = Some (b2, s2)"
    and s3: "gpost_recv (clientFD cc) b1 0 (length (mem s2 b1)) (cid cc) GC2URecv (gput (cc\<lparr>c2uBuf := b1, u2cBuf := b2\<rparr>) s2) = Some s3"
    and s': "gpost_recv (upstreamFD cc) b2 0 (length (mem s3 b2)) (cid cc) GU2CRecv s3 = Some s'"
    using assms(1) by (auto simp: start_duplex_def Let_def split: option.splits prod.splits)
  have "gframe s s2" using gframe_alloc [OF st(1)] gframe_alloc [OF st(2)] by (rule gframe_trans)
  also have "gframe s2 s3" using gframe_unput [OF gframe_recv [OF s3]] assms(2) galloc_conns [OF st(1)] galloc_conns [OF st(2)] by simp
  also have "gframe s3 s'" using gframe_recv [OF s'] by simp
  finally show ?thesis .
qed

lemma gframe_jobs: "gframe s s' \<Longrightarrow> gframe s (s'\<lparr>jobs := j\<rparr>)"
  by (rule gframe_trans [OF _ gframe_cong]) (simp_all add: idle_entries_def)

lemma gframe_served:
  assumes "table_ok s"
  shows "g_recvReq c i res s = Some s' \<Longrightarrow> gframe s s'" and "g_sendUp c pipes i res s = Some s' \<Longrightarrow> gframe s s'"
    and "g_recvResp c i res s = Some s' \<Longrightarrow> gframe s s'"
  using assms unfolding g_recvReq_def g_sendUp_def g_recvResp_def gwith_def
  by (auto simp: Let_def table_cid split: option.splits if_splits
      intro!: gframe_intros gframe_jobs gframe_start_splice dest!: gframe_dests gframe_start_duplex)

lemma gframe_sendClient:
  assumes "table_ok s" "g_sendClient c i res s = Some s'"
  shows "gframe s s'"
proof (cases "map_of (conns s) i")
  case (Some cc)
  define s1 where "s1 = (if res < 0 then gcount_err s else s\<lparr>completed := completed s + 1, gCompleted := gCompleted s + 1\<rparr>)"
  have "gframe s s1" by (auto simp: s1_def idle_entries_def intro: gframe_cong)
  moreover have "gframe s1 (gcloseConn c cc s1)"
    using assms(1) Some by (intro gframe_closeConn) (auto simp: s1_def table_cid)
  moreover have "s' = gcloseConn c cc s1" using assms(2) Some by (simp add: g_sendClient_def gwith_def Let_def s1_def)
  ultimately show ?thesis by (auto intro: gframe_trans)
qed (use assms in \<open>simp add: g_sendClient_def gwith_def\<close>)

lemma gframe_close:
  assumes "table_ok s" "g_close c i s = Some s'"
  shows "gframe s s'"
proof (cases "map_of (conns s) i")
  case (Some cc)
  let ?cc = "cc\<lparr>closesLeft := closesLeft cc - 1\<rparr>"
  have "gframe s (gput ?cc s)" using assms(1) Some by (intro gframe_put) (simp add: table_cid)
  moreover have "gframe s (putConn c cc' (gput ?cc s\<lparr>conns := AList.delete i (conns (gput ?cc s))\<rparr>))" for cc'
    using calculation by (rule gframe_forget)
  ultimately show ?thesis using assms(2) Some by (auto simp: g_close_def gwith_def Let_def split: if_splits)
qed (use assms in \<open>simp add: g_close_def gwith_def\<close>)

lemma gframe_result:
  assumes "table_ok s" "g_result c r s = Some s'"
  shows "gframe s s'"
  using assms by (auto simp: g_result_def Let_def table_cid split: option.splits if_splits
      intro!: gframe_intros dest!: gframe_dests)

lemma gframe_results: "g_results c rs s = Some s' \<Longrightarrow> table_ok s \<Longrightarrow> gframe s s'"
proof (induction rs arbitrary: s)
  case (Cons r rs)
  then obtain s1 where s1: "g_result c r s = Some s1" "g_results c rs s1 = Some s'" by (auto split: option.splits)
  have f: "gframe s s1" using gframe_result [OF Cons.prems(2) s1(1)] .
  then have "table_ok s1" using Cons.prems(2) by (simp add: gframe_def)
  then show ?case using gframe_trans [OF f Cons.IH [OF s1(2)]] by blast
qed simp

section \<open>The counters\<close>

definition accepts_on :: "nat \<Rightarrow> gate_sqe list \<Rightarrow> nat" where
  "accepts_on k qs = length (filter (\<lambda>q. q_op q = GAccept \<and> q_id q = k) qs)"

definition all_accepts :: "gate_sqe list \<Rightarrow> nat" where
  "all_accepts qs = length (filter (\<lambda>q. q_op q = GAccept) qs)"

definition armed :: "gate_op \<Rightarrow> gate_sqe list \<Rightarrow> bool" where
  "armed o' qs \<longleftrightarrow> (\<exists>q\<in>set qs. q_op q = o')"

definition room_limit :: "relayCfg \<Rightarrow> gate_worker \<Rightarrow> int" where
  "room_limit c s = max (maxConns c) (int (length (lns s)))"

definition counts_ok :: "gate_worker \<Rightarrow> bool" where
  "counts_ok s \<longleftrightarrow> table_ok s \<and> length (acceptInflight s) = length (lns s) \<and>
     (\<forall>k < length (lns s). acceptInflight s ! k = int (accepts_on k (idle_entries s))) \<and>
     totalAccepts s = int (all_accepts (idle_entries s)) \<and>
     (\<forall>q\<in>set (idle_entries s). (q_op q = GAccept \<longrightarrow> q_id q < length (lns s) \<and> \<not> is_read (q_req q)) \<and>
        (is_read (q_req q) \<longrightarrow> q_op q = GEventfd))"

definition accepts_ok :: "relayCfg \<Rightarrow> gate_worker \<Rightarrow> bool" where
  "accepts_ok c s \<longleftrightarrow> counts_ok s \<and> int (length (conns s)) + totalAccepts s \<le> room_limit c s \<and>
     (int (length (lns s)) \<le> maxConns c \<longrightarrow> shed s = 0) \<and>
     armed GEventfd (idle_entries s) \<and> armed GTimeout (idle_entries s) \<and> bridge_ok (br s)"

lemma length_conns: "table_ok s \<Longrightarrow> length (conns s) = card (dom (map_of (conns s)))"
  by (simp add: table_ok_def ctab.size_dom)

lemma gframe_length: "gframe s s' \<Longrightarrow> table_ok s \<Longrightarrow> length (conns s') \<le> length (conns s)"
  by (simp add: gframe_def length_conns card_mono finite_dom_map_of)

lemma gframe_accepts_ok:
  assumes f: "gframe s s'" and a: "accepts_ok c s"
  shows "accepts_ok c s'"
proof -
  have "table_ok s" using a by (simp add: accepts_ok_def counts_ok_def)
  with f gframe_length [OF f] have "table_ok s'" "int (length (conns s')) \<le> int (length (conns s))" by (auto simp: gframe_def)
  with a f show ?thesis by (auto simp: accepts_ok_def counts_ok_def gframe_def room_limit_def)
qed

lemma filter_drop_nth: "n < length xs \<Longrightarrow> \<not> P (xs ! n) \<Longrightarrow> filter P (drop_nth n xs) = filter P xs"
  unfolding drop_nth_def by (metis Cons_eq_appendI append_Nil filter.simps(2) filter_append id_take_nth_drop)

lemma idle_split:
  assumes "n < length (sq s)" and "idle_entry (sq s ! n)"
  shows "mset (idle_entries s) = add_mset (sq s ! n) (mset (idle_entries (s\<lparr>sq := drop_nth n (sq s)\<rparr>)))"
  using assms mset_drop_nth [OF assms(1)] by (simp add: idle_entries_def)

lemma accepts_on_mset: "accepts_on k qs = size (filter_mset (\<lambda>q. q_op q = GAccept \<and> q_id q = k) (mset qs))"
  by (simp add: accepts_on_def flip: size_mset mset_filter)

lemma all_accepts_mset: "all_accepts qs = size (filter_mset (\<lambda>q. q_op q = GAccept) (mset qs))"
  by (simp add: all_accepts_def flip: size_mset mset_filter)

section \<open>The accept handler\<close>

text \<open>The rest of the handler once the counters are decremented.\<close>

definition admit :: "relayCfg \<Rightarrow> int \<Rightarrow> gate_worker \<Rightarrow> gate_worker option" where
  "admit c res s =
    (if res < 0 then Some (gcount_err s)
     else
       let s = s\<lparr>accepted := accepted s + 1, gAccepted := gAccepted s + 1\<rparr>
       in if int (length (conns s)) \<ge> maxConns c
       then Some (gpost (QClose res) 0 GClose (s\<lparr>shed := shed s + 1\<rparr>))
       else
         let s = s\<lparr>nextID := nextID s + 1\<rparr>
         in case getConn c s of
              None \<Rightarrow> None
            | Some (cc, s) \<Rightarrow>
                (let cc = cc\<lparr>cid := nextID s, clientFD := res\<rparr>
                 in gpost_recv (clientFD cc) (reqBuf cc) 0 (length (mem s (reqBuf cc))) (cid cc) GRecvReq (gput cc s)))"

definition taken :: "nat \<Rightarrow> gate_worker \<Rightarrow> gate_worker" where
  "taken i s =
    (let s = (if i < length (acceptInflight s)
              then s\<lparr>acceptInflight := (acceptInflight s)[i := acceptInflight s ! i - 1]\<rparr> else s)
     in s\<lparr>totalAccepts := totalAccepts s - 1\<rparr>)"

lemma g_accept_admit: "g_accept c i res s = admit c res (taken i s)"
  by (simp only: g_accept_def admit_def taken_def Let_def)

lemma getConn_keeps:
  "getConn c s = Some (cc, s') \<Longrightarrow> gframe s s' \<and> conns s' = conns s \<and> nextID s' = nextID s"
  by (auto simp: getConn_def galloc_def idle_entries_def split: if_splits option.splits prod.splits intro!: gframe_cong)

lemma table_ok_new:
  assumes "table_ok s" and "cid cc = nextID s + 1"
  shows "table_ok (gput cc (s\<lparr>nextID := nextID s + 1\<rparr>))" and "length (AList.update (cid cc) cc (conns s)) = Suc (length (conns s))"
proof -
  have "map_of (conns s) (nextID s + 1) = None"
    using assms(1) by (cases "map_of (conns s) (nextID s + 1)") (fastforce simp: table_ok_def)+
  then show "length (AList.update (cid cc) cc (conns s)) = Suc (length (conns s))"
    using assms by (simp add: table_ok_def ctab.size_store_new)
  show "table_ok (gput cc (s\<lparr>nextID := nextID s + 1\<rparr>))"
    using assms by (auto simp: table_ok_def update_conv' keys_distinct_def distinct_update intro!: le_SucI)
qed

lemma admit_keeps:
  assumes "admit c res s = Some s'" and "table_ok s"
  shows "table_ok s' \<and> idle_entries s' = idle_entries s \<and> acceptInflight s' = acceptInflight s \<and>
    totalAccepts s' = totalAccepts s \<and> lns s' = lns s \<and> br s' = br s \<and>
    (if int (length (conns s)) \<ge> maxConns c then length (conns s') = length (conns s)
     else length (conns s') \<le> Suc (length (conns s)) \<and> shed s' = shed s)"
proof (cases "res < 0 \<or> int (length (conns s)) \<ge> maxConns c")
  case True
  then show ?thesis using assms
    by (auto simp: admit_def Let_def idle_entries_def idle_entry_def gcount_err_def gpost_def table_ok_def split: if_splits)
next
  case False
  define s1 where "s1 = s\<lparr>accepted := accepted s + 1, gAccepted := gAccepted s + 1\<rparr>"
  obtain cc0 s2 where e: "getConn c (s1\<lparr>nextID := nextID s1 + 1\<rparr>) = Some (cc0, s2)"
    and p: "gpost_recv res (reqBuf cc0) 0 (length (mem s2 (reqBuf cc0))) (nextID s2) GRecvReq
        (gput (cc0\<lparr>cid := nextID s2, clientFD := res\<rparr>) s2) = Some s'"
    using assms(1) False by (auto simp: admit_def Let_def s1_def split: option.splits prod.splits)
  let ?cc = "cc0\<lparr>cid := nextID s2, clientFD := res\<rparr>"
  note k = getConn_keeps [OF e]
  have n: "nextID s2 = nextID s1 + 1" using k by simp
  have t1: "table_ok s1" using assms(2) by (simp add: table_ok_def s1_def)
  have "table_ok (gput ?cc (s1\<lparr>nextID := nextID s1 + 1\<rparr>))" using n by (intro table_ok_new [OF t1]) simp
  then have t2: "table_ok (gput ?cc s2)" using k by (simp add: table_ok_def)
  have f: "gframe (gput ?cc s2) s'" using gframe_recv [OF p] by simp
  have "length (conns s') \<le> Suc (length (conns s1))"
    using gframe_length [OF f t2] k table_ok_new(2) [OF t1, of ?cc] by simp
  then show ?thesis using False t2 f k
    by (auto simp: gframe_def s1_def idle_entries_def gput_def)
qed

lemma taken_keeps:
  "idle_entries (taken i s) = idle_entries s" "lns (taken i s) = lns s" "br (taken i s) = br s"
  "conns (taken i s) = conns s" "shed (taken i s) = shed s" "table_ok (taken i s) = table_ok s"
  "totalAccepts (taken i s) = totalAccepts s - 1"
  "length (acceptInflight (taken i s)) = length (acceptInflight s)"
  "k < length (acceptInflight s) \<Longrightarrow> acceptInflight (taken i s) ! k = acceptInflight s ! k - (if k = i then 1 else 0)"
  by (auto simp: taken_def idle_entries_def table_ok_def Let_def nth_list_update)

section \<open>Every step\<close>

lemma accepted_ok:
  assumes a: "accepts_ok c s" and n: "n < length (sq s)" and q: "q_op (sq s ! n) = GAccept"
    and h: "g_accept c (q_id (sq s ! n)) res (gkernel (q_req (sq s ! n)) data (s\<lparr>sq := drop_nth n (sq s)\<rparr>)) = Some s'"
  shows "accepts_ok c s'"
proof -
  define k where "k = q_id (sq s ! n)"
  define s0 where "s0 = gkernel (q_req (sq s ! n)) data (s\<lparr>sq := drop_nth n (sq s)\<rparr>)"
  have iq: "idle_entry (sq s ! n)" by (simp add: idle_entry_def q conn_op_def)
  have m: "mset (idle_entries s) = add_mset (sq s ! n) (mset (idle_entries s0))"
    using idle_split [OF n iq] by (simp add: s0_def idle_entries_def)
  have "sq s ! n \<in> set (idle_entries s)" using n iq by (simp add: idle_entries_def)
  then have k: "k < length (lns s)" "\<not> is_read (q_req (sq s ! n))" using a q by (auto simp: accepts_ok_def counts_ok_def k_def)
  have f0: "acceptInflight s0 = acceptInflight s" "totalAccepts s0 = totalAccepts s" "lns s0 = lns s" "br s0 = br s"
    "shed s0 = shed s" "conns s0 = conns s" "nextID s0 = nextID s"
    using k(2) by (cases "q_req (sq s ! n)"; simp add: s0_def)+
  have t0: "table_ok s0" using a by (simp add: accepts_ok_def counts_ok_def table_ok_def f0)
  have ad: "admit c res (taken k s0) = Some s'" using h by (simp add: g_accept_admit k_def s0_def)
  note A = admit_keeps [OF ad, unfolded taken_keeps, OF t0]
  have on: "accepts_on j (idle_entries s) = accepts_on j (idle_entries s0) + (if j = k then 1 else 0)" for j
    using q by (simp add: accepts_on_mset m k_def)
  have all: "all_accepts (idle_entries s) = Suc (all_accepts (idle_entries s0))" using q by (simp add: all_accepts_mset m)
  have sub: "set (idle_entries s0) \<subseteq> set (idle_entries s)" using arg_cong [OF m, of set_mset] by auto
  have "counts_ok s'" using A a on all sub k(1) by (auto simp: accepts_ok_def counts_ok_def f0 taken_keeps)
  moreover have "armed o' (idle_entries s')" if "armed o' (idle_entries s)" "o' \<noteq> GAccept" for o'
    using that A arg_cong [OF m, of set_mset] q by (auto simp: armed_def)
  moreover have "room_limit c s' = room_limit c s" using A by (simp add: room_limit_def f0)
  moreover have "int (length (conns s')) + totalAccepts s' \<le> room_limit c s \<and> (int (length (lns s)) \<le> maxConns c \<longrightarrow> shed s' = 0)"
    using A a all by (auto simp: accepts_ok_def counts_ok_def f0 room_limit_def split: if_splits)
  ultimately show ?thesis using A a by (auto simp: accepts_ok_def f0)
qed

text \<open>The eventfd read and the timeout are replaced by an entry of their own kind.\<close>

lemma rearmed_ok:
  assumes a: "accepts_ok c s" and n: "n < length (sq s)" and q: "q_op (sq s ! n) = o'" "o' \<in> {GEventfd, GTimeout}"
    and i1: "idle_entries s1 = idle_entries (s\<lparr>sq := drop_nth n (sq s)\<rparr>) @ [q']"
    and q': "q_op q' = o'" "is_read (q_req q') \<longrightarrow> o' = GEventfd"
    and f1: "acceptInflight s1 = acceptInflight s" "totalAccepts s1 = totalAccepts s" "lns s1 = lns s"
      "shed s1 = shed s" "conns s1 = conns s" "nextID s1 = nextID s" and b: "bridge_ok (br s1)"
  shows "accepts_ok c s1"
proof -
  have "idle_entry (sq s ! n)" using q by (auto simp: idle_entry_def conn_op_def)
  from idle_split [OF n this] have m: "add_mset q' (mset (idle_entries s)) = add_mset (sq s ! n) (mset (idle_entries s1))"
    by (simp add: i1)
  have on: "accepts_on j (idle_entries s1) = accepts_on j (idle_entries s)" for j
    using arg_cong [OF m, of "\<lambda>M. size (filter_mset (\<lambda>q. q_op q = GAccept \<and> q_id q = j) M)"] q q'
    by (auto simp: accepts_on_mset)
  have all: "all_accepts (idle_entries s1) = all_accepts (idle_entries s)"
    using arg_cong [OF m, of "\<lambda>M. size (filter_mset (\<lambda>q. q_op q = GAccept) M)"] q q'
    by (auto simp: all_accepts_mset)
  have si: "insert q' (set (idle_entries s)) = insert (sq s ! n) (set (idle_entries s1))"
    using arg_cong [OF m, of set_mset] by simp
  have "q'' \<in> set (idle_entries s1) \<Longrightarrow> q'' = q' \<or> q'' \<in> set (idle_entries s)" for q'' using si by blast
  then have "counts_ok s1" using a q' q(2) by (fastforce simp: accepts_ok_def counts_ok_def table_ok_def f1 on all)
  moreover have "armed o'' (idle_entries s1)" if "armed o'' (idle_entries s)" for o''
    using that si q q'(1) i1 unfolding armed_def by (metis insert_iff in_set_conv_decomp)
  ultimately show ?thesis using a b by (simp add: accepts_ok_def room_limit_def f1)
qed

lemma idle_gkernel [simp]: "idle_entries (gkernel q data s) = idle_entries s"
  by (simp add: idle_entries_def)

lemma gkernel_same:
  "acceptInflight (gkernel q data s) = acceptInflight s" "totalAccepts (gkernel q data s) = totalAccepts s"
  "lns (gkernel q data s) = lns s" "shed (gkernel q data s) = shed s" "efd (gkernel q data s) = efd s"
  "\<not> is_read q \<Longrightarrow> br (gkernel q data s) = br s"
  by (cases q; simp)+

lemma rang_ok:
  assumes a: "accepts_ok c s" and n: "n < length (sq s)" and q: "q_op (sq s ! n) = GEventfd"
    and h: "g_eventfd c (gkernel (q_req (sq s ! n)) data (s\<lparr>sq := drop_nth n (sq s)\<rparr>)) = Some s'"
  shows "accepts_ok c s'"
proof -
  define s0 where "s0 = gkernel (q_req (sq s ! n)) data (s\<lparr>sq := drop_nth n (sq s)\<rparr>)"
  define s1 where "s1 = (gpostEventfd s0)\<lparr>br := (br s0)\<lparr>notified := 0, ready := []\<rparr>\<rparr>"
  have a1: "accepts_ok c s1"
    by (rule rearmed_ok [OF a n q, where q' = "\<lparr>q_req = QRead (efd s), q_id = 0, q_op = GEventfd\<rparr>"])
      (simp_all add: s1_def s0_def gpostEventfd_def gpost_def idle_entries_def idle_entry_def gkernel_same bridge_ok_def)
  have "g_results c (ready (br s0)) s1 = Some s'"
    using h by (simp add: g_eventfd_def Let_def drain_def s0_def s1_def gpostEventfd_def gpost_def)
  then have "gframe s1 s'" by (rule gframe_results) (use a1 in \<open>simp add: accepts_ok_def counts_ok_def\<close>)
  then show ?thesis using a1 by (rule gframe_accepts_ok)
qed

lemma timed_ok:
  assumes a: "accepts_ok c s" and n: "n < length (sq s)" and q: "q_op (sq s ! n) = GTimeout"
  shows "accepts_ok c (gpostTimeout (gkernel (q_req (sq s ! n)) data (s\<lparr>sq := drop_nth n (sq s)\<rparr>)))"
proof -
  have "sq s ! n \<in> set (idle_entries s)" using n q by (simp add: idle_entries_def idle_entry_def conn_op_def)
  then have nr: "\<not> is_read (q_req (sq s ! n))" using a q by (auto simp: accepts_ok_def counts_ok_def)
  show ?thesis
    by (rule rearmed_ok [OF a n q, where q' = "\<lparr>q_req = QTimeout, q_id = 0, q_op = GTimeout\<rparr>"])
      (use a nr in \<open>simp_all add: gpostTimeout_def gpost_def idle_entries_def idle_entry_def conn_op_def gkernel_same accepts_ok_def\<close>)
qed

lemma gframe_cqe:
  assumes "table_ok s" and "conn_op o'" and "gate_cqe c pipes o' i res s = Some s'"
  shows "gframe s s'"
  using assms unfolding gate_cqe_def
  by (cases o') (auto simp: conn_op_def intro: gframe_relay [OF assms(1)] gframe_splices [OF assms(1)]
      gframe_served [OF assms(1)] gframe_sendClient [OF assms(1)] gframe_close [OF assms(1)])

lemma served_ok:
  assumes a: "accepts_ok c s" and n: "n < length (sq s)" and q: "conn_op (q_op (sq s ! n))"
    and h: "gate_cqe c pipes (q_op (sq s ! n)) i res (gkernel (q_req (sq s ! n)) data (s\<lparr>sq := drop_nth n (sq s)\<rparr>)) = Some s'"
  shows "accepts_ok c s'"
proof -
  define s0 where "s0 = gkernel (q_req (sq s ! n)) data (s\<lparr>sq := drop_nth n (sq s)\<rparr>)"
  have nr: "\<not> is_read (q_req (sq s ! n))"
  proof
    assume r: "is_read (q_req (sq s ! n))"
    then have "sq s ! n \<in> set (idle_entries s)" using n by (simp add: idle_entries_def idle_entry_def)
    then have "q_op (sq s ! n) = GEventfd" using a r by (auto simp: accepts_ok_def counts_ok_def)
    then show False using q by (simp add: conn_op_def)
  qed
  then have "\<not> idle_entry (sq s ! n)" using q by (simp add: idle_entry_def)
  then have f0: "gframe s s0" using nr
    by (intro gframe_cong) (simp_all add: s0_def gkernel_same idle_entries_def filter_drop_nth n)
  then have t0: "table_ok s0" using a by (simp add: gframe_def accepts_ok_def counts_ok_def)
  have "gframe s0 s'" by (rule gframe_cqe [OF t0 q h [folded s0_def]])
  with f0 show ?thesis using a by (blast intro: gframe_accepts_ok gframe_trans)
qed

lemma completed_ok:
  assumes a: "accepts_ok c s" and n: "n < length (sq s)"
    and h: "gate_cqe c pipes (q_op (sq s ! n)) (q_id (sq s ! n)) res
      (gkernel (q_req (sq s ! n)) data (s\<lparr>sq := drop_nth n (sq s)\<rparr>)) = Some s'"
  shows "accepts_ok c s'"
proof -
  consider "q_op (sq s ! n) = GAccept" | "q_op (sq s ! n) = GEventfd" | "q_op (sq s ! n) = GTimeout" | "conn_op (q_op (sq s ! n))"
    by (auto simp: conn_op_def)
  then show ?thesis
  proof cases
    case 1
    then show ?thesis using accepted_ok [OF a n] h by (simp add: gate_cqe_def)
  next
    case 2
    then show ?thesis using rang_ok [OF a n] h by (simp add: gate_cqe_def)
  next
    case 3
    then show ?thesis using timed_ok [OF a n, of data] h by (simp add: gate_cqe_def)
  qed (use served_ok [OF a n _ h] in blast)
qed

section \<open>Topping up\<close>

lemma gpostAccept_simps:
  "conns (gpostAccept k s) = conns s" "nextID (gpostAccept k s) = nextID s" "lns (gpostAccept k s) = lns s"
  "shed (gpostAccept k s) = shed s" "totalAccepts (gpostAccept k s) = totalAccepts s + 1"
  "acceptInflight (gpostAccept k s) = (acceptInflight s)[k := acceptInflight s ! k + 1]"
  "idle_entries (gpostAccept k s) = idle_entries s @ [\<lparr>q_req = QAccept (lns s ! k), q_id = k, q_op = GAccept\<rparr>]"
  by (simp_all add: gpostAccept_def gpost_def Let_def idle_entries_def idle_entry_def conn_op_def)

lemma gpostAccept_counts:
  assumes "counts_ok s" "k < length (lns s)"
  shows "counts_ok (gpostAccept k s)"
proof -
  have l: "length (acceptInflight s) = length (lns s)" using assms(1) by (simp add: counts_ok_def)
  have "acceptInflight (gpostAccept k s) ! j = int (accepts_on j (idle_entries (gpostAccept k s)))" if "j < length (lns s)" for j
  proof -
    have "acceptInflight s ! j = int (accepts_on j (idle_entries s))" using that assms(1) unfolding counts_ok_def by blast
    then show ?thesis using that l unfolding gpostAccept_simps by (cases "j = k") (simp_all add: accepts_on_def)
  qed
  moreover have "totalAccepts (gpostAccept k s) = int (all_accepts (idle_entries (gpostAccept k s)))"
    using assms(1) unfolding gpostAccept_simps counts_ok_def by (simp add: all_accepts_def)
  moreover have "table_ok (gpostAccept k s)" using assms(1) by (simp add: table_ok_def gpostAccept_simps counts_ok_def)
  moreover have "\<forall>q\<in>set (idle_entries (gpostAccept k s)). (q_op q = GAccept \<longrightarrow> q_id q < length (lns s) \<and> \<not> is_read (q_req q)) \<and>
      (is_read (q_req q) \<longrightarrow> q_op q = GEventfd)"
    using assms by (simp add: gpostAccept_simps counts_ok_def)
  moreover have "length (acceptInflight (gpostAccept k s)) = length (lns s)" "lns (gpostAccept k s) = lns s"
    using l by (simp_all add: gpostAccept_simps)
  ultimately show ?thesis unfolding counts_ok_def by (simp only:) blast
qed

lemma gpostAccept_ok:
  "accepts_ok c s \<Longrightarrow> k < length (lns s) \<Longrightarrow> int (length (conns s)) + totalAccepts s < maxConns c \<Longrightarrow>
   accepts_ok c (gpostAccept k s)"
  by (auto simp: accepts_ok_def gpostAccept_counts gpostAccept_simps room_limit_def armed_def)

lemma top_listener_ok:
  "accepts_ok c s \<Longrightarrow> k < length (lns s) \<Longrightarrow>
   accepts_ok c (top_listener c k s) \<and> lns (top_listener c k s) = lns s \<and> conns (top_listener c k s) = conns s \<and>
   totalAccepts s \<le> totalAccepts (top_listener c k s) \<and>
   (\<forall>j < length (lns s). acceptInflight s ! j \<le> acceptInflight (top_listener c k s) ! j) \<and>
   (perLn c s \<le> acceptInflight (top_listener c k s) ! k \<or>
    maxConns c \<le> int (length (conns s)) + totalAccepts (top_listener c k s))"
proof (induction c k s rule: top_listener.induct)
  case (1 c k s)
  show ?case
  proof (cases "acceptInflight s ! k < perLn c s \<and> int (length (conns s)) + totalAccepts s < maxConns c")
    case True
    have a: "accepts_ok c (gpostAccept k s)" "length (acceptInflight s) = length (lns s)"
      using gpostAccept_ok [OF 1(2,3)] True 1(2) by (auto simp: accepts_ok_def counts_ok_def)
    have p: "perLn c (gpostAccept k s) = perLn c s" by (simp add: perLn_def gpostAccept_simps)
    have m: "acceptInflight s ! j \<le> acceptInflight (gpostAccept k s) ! j" if "j < length (lns s)" for j
      using that a(2) by (cases "j = k") (simp_all add: gpostAccept_simps)
    note IH = 1(1) [OF True a(1), unfolded gpostAccept_simps p, OF 1(3)]
    have e: "top_listener c k s = top_listener c k (gpostAccept k s)" using True by (subst top_listener.simps) simp
    show ?thesis unfolding e using IH m by (fastforce intro: order_trans simp: gpostAccept_simps(6))
  next
    case False
    then have "top_listener c k s = s" by (subst top_listener.simps) (simp only: if_False)
    then show ?thesis using False 1(2) by auto
  qed
qed

definition topped :: "relayCfg \<Rightarrow> gate_worker \<Rightarrow> nat \<Rightarrow> bool" where
  "topped c s k \<longleftrightarrow> perLn c s \<le> acceptInflight s ! k \<or> maxConns c \<le> int (length (conns s)) + totalAccepts s"

definition grown :: "gate_worker \<Rightarrow> gate_worker \<Rightarrow> bool" where
  "grown s s' \<longleftrightarrow> lns s' = lns s \<and> conns s' = conns s \<and> totalAccepts s \<le> totalAccepts s' \<and>
     (\<forall>j < length (lns s). acceptInflight s ! j \<le> acceptInflight s' ! j)"

lemma grown_trans: "grown s s' \<Longrightarrow> grown s' s'' \<Longrightarrow> grown s s''"
  unfolding grown_def by (metis order_trans)

lemma topped_grown: "topped c s k \<Longrightarrow> grown s s' \<Longrightarrow> k < length (lns s) \<Longrightarrow> topped c s' k"
  unfolding topped_def grown_def perLn_def by (metis add_left_mono order_trans)

lemma top_listener_grown:
  assumes "accepts_ok c s" "k < length (lns s)"
  shows "accepts_ok c (top_listener c k s) \<and> grown s (top_listener c k s) \<and> topped c (top_listener c k s) k"
  using top_listener_ok [OF assms] by (simp add: grown_def topped_def perLn_def)

lemma fold_top:
  "accepts_ok c s \<Longrightarrow> \<forall>k\<in>set ks. k < length (lns s) \<Longrightarrow>
   accepts_ok c (fold (top_listener c) ks s) \<and> grown s (fold (top_listener c) ks s) \<and>
   (\<forall>k\<in>set ks. topped c (fold (top_listener c) ks s) k)"
proof (induction ks arbitrary: s)
  case Nil
  then show ?case by (simp add: grown_def)
next
  case (Cons k ks)
  let ?s1 = "top_listener c k s" and ?s2 = "fold (top_listener c) ks (top_listener c k s)"
  have 1: "accepts_ok c ?s1" "grown s ?s1" "topped c ?s1 k" using top_listener_grown [of c s k] Cons.prems by auto
  have l: "lns ?s1 = lns s" using 1(2) by (simp add: grown_def)
  have 2: "accepts_ok c ?s2" "grown ?s1 ?s2" "\<forall>k\<in>set ks. topped c ?s2 k" using Cons.IH [OF 1(1)] Cons.prems(2) by (simp_all add: l)
  have "topped c ?s2 k" using topped_grown [OF 1(3) 2(2)] Cons.prems(2) by (simp add: l)
  moreover have "grown s ?s2" using 1(2) 2(2) by (rule grown_trans)
  ultimately show ?case using 2 by simp
qed

lemma top_up_topped:
  assumes "accepts_ok c s"
  shows "accepts_ok c (top_up c s) \<and> grown s (top_up c s) \<and> (\<forall>k < length (lns s). topped c (top_up c s) k)"
  using fold_top [OF assms, of "[0..<length (lns s)]"] by (simp add: top_up_def)

section \<open>Reachable states\<close>

lemma start_counts:
  "counts_ok s \<Longrightarrow> \<forall>k\<in>set ks. k < length (lns s) \<Longrightarrow>
   counts_ok (fold gpostAccept ks s) \<and> lns (fold gpostAccept ks s) = lns s \<and> conns (fold gpostAccept ks s) = conns s \<and>
   shed (fold gpostAccept ks s) = shed s \<and> br (fold gpostAccept ks s) = br s \<and>
   totalAccepts (fold gpostAccept ks s) = totalAccepts s + int (length ks)"
proof (induction ks arbitrary: s)
  case (Cons k ks)
  then have "counts_ok (gpostAccept k s)" by (simp add: gpostAccept_counts)
  with Cons show ?case by (simp add: gpostAccept_simps)
qed simp

lemma start_accepts_ok:
  assumes "ls \<noteq> []"
  shows "accepts_ok c (gate_start ls e)"
proof -
  define s where "s = \<lparr>conns = [], connFree = [], mem = (\<lambda>_. []), nextAddr = 1, nextID = 0,
      acceptInflight = replicate (length ls) 0, totalAccepts = 0, accepted = 0, completed = 0, shed = 0,
      errs = 0, gCompleted = 0, gAccepted = 0, br = new_bridge, sq = [], jobs = [], calls = [], lns = ls, efd = e\<rparr>"
  let ?s = "fold gpostAccept [0..<length ls] s"
  have "counts_ok s" by (simp add: s_def counts_ok_def table_ok_def keys_distinct_def idle_entries_def accepts_on_def all_accepts_def)
  then have f: "counts_ok ?s \<and> lns ?s = ls \<and> conns ?s = [] \<and> shed ?s = 0 \<and> br ?s = new_bridge \<and> totalAccepts ?s = int (length ls)"
    using start_counts [of s "[0..<length ls]"] by (simp add: s_def)
  have e: "gate_start ls e = gpostTimeout (gpostEventfd ?s)" by (simp add: gate_start_def Let_def s_def)
  have i: "idle_entries (gate_start ls e) = idle_entries ?s @
      [\<lparr>q_req = QRead (efd ?s), q_id = 0, q_op = GEventfd\<rparr>, \<lparr>q_req = QTimeout, q_id = 0, q_op = GTimeout\<rparr>]"
    unfolding e by (simp add: gpostTimeout_def gpostEventfd_def gpost_def idle_entries_def idle_entry_def conn_op_def)
  have g: "acceptInflight (gate_start ls e) = acceptInflight ?s" "totalAccepts (gate_start ls e) = totalAccepts ?s"
    "lns (gate_start ls e) = lns ?s" "conns (gate_start ls e) = conns ?s" "nextID (gate_start ls e) = nextID ?s"
    "shed (gate_start ls e) = shed ?s" "br (gate_start ls e) = br ?s"
    unfolding e by (simp_all add: gpostTimeout_def gpostEventfd_def gpost_def)
  have "counts_ok ?s" using f by blast
  then have "counts_ok (gate_start ls e)" unfolding counts_ok_def i g
    by (auto simp: accepts_on_def all_accepts_def table_ok_def g)
  then show ?thesis using f by (simp add: accepts_ok_def i g armed_def room_limit_def bridge_ok_def new_bridge_def)
qed

lemma step_accepts_ok:
  assumes a: "accepts_ok c (gw S)" and ev: "gevent_ok S e" and st: "gate_step c S e = Some S'"
  shows "accepts_ok c (gw S')"
proof (cases e)
  case (GComplete n res data pipes)
  then show ?thesis using ev st by (auto simp: Let_def intro: completed_ok [OF a])
next
  case (GHook j f b)
  then have "gw S' = (gw S)\<lparr>jobs := drop_nth j (jobs (gw S)), br := push \<lparr>rid = jobs (gw S) ! j, rfd = f, ok = b\<rparr> (br (gw S))\<rparr>"
    using st by (auto simp: Let_def)
  then show ?thesis using a bridge_ok_push
    by (auto simp: accepts_ok_def counts_ok_def table_ok_def room_limit_def idle_entries_def)
next
  case GBatchEnd
  then show ?thesis using st top_up_topped [OF a] by auto
qed

interpretation gate_accepts: inductive_invariant gate_boot "gate_trans c" "\<lambda>S. accepts_ok c (gw S)" for c
proof
  show "accepts_ok c (gw S)" if "gate_boot S" for S using that start_accepts_ok by (auto simp: gate_boot_def)
  show "accepts_ok c (gw S')" if "accepts_ok c (gw S)" "gate_trans c S e S'" for S e S'
    using that step_accepts_ok by (auto simp: gate_trans_def)
qed

end
