(* ===== verification/Gate_Duplex.thy ===== *)
theory Gate_Duplex
  imports Gate_Accepts
begin

text \<open>
  The benchmark relay with \<open>-duplex\<close> (and without \<open>-splice\<close>): both directions are relayed at once, and a
  connection that is torn down may leave a receive or a send of the other direction behind. Nothing is
  recycled, so every buffer belongs to one id for ever. What was received is what was sent followed by the
  bytes of the send under way; what the kernel did not take of the first request is left out, since the code
  does not continue that send.
\<close>

section \<open>The two directions\<close>

fun up_op :: "token \<Rightarrow> bool" where
  "up_op (TSqe q) = (q_op q \<in> {GC2URecv, GC2USend})"
| "up_op _ = False"

fun down_op :: "token \<Rightarrow> bool" where
  "down_op (TSqe q) = (q_op q \<in> {GU2CRecv, GU2CSend})"
| "down_op _ = False"

definition stale :: "token \<Rightarrow> bool" where
  "stale t \<longleftrightarrow> up_op t \<or> down_op t"

fun q_addr :: "gate_req \<Rightarrow> nat set" where
  "q_addr (QRecv f a off n) = {a}"
| "q_addr (QSend f a off n) = {a}"
| "q_addr _ = {}"

fun t_addr :: "token \<Rightarrow> nat set" where
  "t_addr (TSqe q) = q_addr (q_req q)"
| "t_addr _ = {}"

text \<open>The bytes a relaying entry still has to move: none for a receive.\<close>

fun pending :: "(nat \<Rightarrow> bytes) \<Rightarrow> gate_req \<Rightarrow> bytes" where
  "pending m (QSend f a off n) = slice (m a) off (off + n)"
| "pending m _ = []"

definition relay_entry :: "gate_op \<Rightarrow> gate_op \<Rightarrow> gate_sqe \<Rightarrow> bool" where
  "relay_entry r w q \<longleftrightarrow>
     (q_op q = r \<and> (\<exists>f a n. q_req q = QRecv f a 0 n)) \<or> (q_op q = w \<and> (\<exists>f a off n. q_req q = QSend f a off n))"

definition up_dir :: "(nat \<Rightarrow> bytes) \<Rightarrow> flow \<Rightarrow> token multiset \<Rightarrow> bool" where
  "up_dir m h T \<longleftrightarrow> (T = {#} \<and> prefix (sent_u h) (recvd_c h)) \<or>
     (\<exists>q. T = {#TSqe q#} \<and> relay_entry GC2URecv GC2USend q \<and> recvd_c h = sent_u h @ pending m (q_req q))"

definition down_dir :: "(nat \<Rightarrow> bytes) \<Rightarrow> flow \<Rightarrow> token multiset \<Rightarrow> bool" where
  "down_dir m h T \<longleftrightarrow> (T = {#} \<and> prefix (sent_c h) (recvd_u h)) \<or>
     (\<exists>q. T = {#TSqe q#} \<and> relay_entry GU2CRecv GU2CSend q \<and> recvd_u h = sent_c h @ pending m (q_req q))"

definition dirs_ok :: "(nat \<Rightarrow> bytes) \<Rightarrow> flow \<Rightarrow> token multiset \<Rightarrow> bool" where
  "dirs_ok m h T \<longleftrightarrow> up_dir m h (filter_mset up_op T) \<and> down_dir m h (filter_mset down_op T) \<and>
     (\<forall>t\<in>#T. \<forall>t'\<in>#T. up_op t \<longrightarrow> down_op t' \<longrightarrow> t_addr t \<inter> t_addr t' = {})"

section \<open>The phases of a connection\<close>

fun begin_phase :: "relayCfg \<Rightarrow> (nat \<Rightarrow> bytes) \<Rightarrow> flow \<Rightarrow> gate_conn \<Rightarrow> token \<Rightarrow> bool" where
  "begin_phase c m h cc (TSqe q) \<longleftrightarrow>
     (q_op q = GRecvReq \<and> q_req q = QRecv (clientFD cc) (reqBuf cc) 0 (nat (reqLen c)) \<and> h = no_flow) \<or>
     (q_op q = GSendUp \<and> q_req q = QSend (upstreamFD cc) (reqBuf cc) 0 (reqN cc) \<and> has_request c m h cc)"
| "begin_phase c m h cc (TJob i) \<longleftrightarrow> has_request c m h cc"
| "begin_phase c m h cc (TRes r) \<longleftrightarrow> has_request c m h cc"

definition fresh_conn :: "relayCfg \<Rightarrow> (nat \<Rightarrow> bytes) \<Rightarrow> gate_conn \<Rightarrow> bool" where
  "fresh_conn c m cc \<longleftrightarrow> 0 < reqBuf cc \<and> length (m (reqBuf cc)) = nat (reqLen c) \<and>
     \<not> clientReadDone cc \<and> \<not> upstreamReadDone cc"

text \<open>
  While relaying, each direction has one entry, or has seen the end of its stream with everything sent.
\<close>

definition up_phase :: "relayCfg \<Rightarrow> (nat \<Rightarrow> bytes) \<Rightarrow> flow \<Rightarrow> gate_conn \<Rightarrow> token multiset \<Rightarrow> bool" where
  "up_phase c m h cc T \<longleftrightarrow>
     (clientReadDone cc \<and> T = {#} \<and> recvd_c h = sent_u h) \<or>
     (\<not> clientReadDone cc \<and>
       ((\<exists>i. T = {#TSqe \<lparr>q_req = QRecv (clientFD cc) (c2uBuf cc) 0 (nat (bufSize c)), q_id = i, q_op = GC2URecv\<rparr>#} \<and> recvd_c h = sent_u h) \<or>
       (\<exists>i. T = {#TSqe \<lparr>q_req = QSend (upstreamFD cc) (c2uBuf cc) (c2uOff cc) (c2uEnd cc - c2uOff cc), q_id = i, q_op = GC2USend\<rparr>#} \<and>
          c2uOff cc < c2uEnd cc \<and> c2uEnd cc \<le> nat (bufSize c) \<and>
          recvd_c h = sent_u h @ slice (m (c2uBuf cc)) (c2uOff cc) (c2uEnd cc))))"

definition down_phase :: "relayCfg \<Rightarrow> (nat \<Rightarrow> bytes) \<Rightarrow> flow \<Rightarrow> gate_conn \<Rightarrow> token multiset \<Rightarrow> bool" where
  "down_phase c m h cc T \<longleftrightarrow>
     (upstreamReadDone cc \<and> T = {#} \<and> recvd_u h = sent_c h) \<or>
     (\<not> upstreamReadDone cc \<and>
       ((\<exists>i. T = {#TSqe \<lparr>q_req = QRecv (upstreamFD cc) (u2cBuf cc) 0 (nat (bufSize c)), q_id = i, q_op = GU2CRecv\<rparr>#} \<and> recvd_u h = sent_c h) \<or>
       (\<exists>i. T = {#TSqe \<lparr>q_req = QSend (clientFD cc) (u2cBuf cc) (u2cOff cc) (u2cEnd cc - u2cOff cc), q_id = i, q_op = GU2CSend\<rparr>#} \<and>
          u2cOff cc < u2cEnd cc \<and> u2cEnd cc \<le> nat (bufSize c) \<and>
          recvd_u h = sent_c h @ slice (m (u2cBuf cc)) (u2cOff cc) (u2cEnd cc))))"

definition relay_phase :: "relayCfg \<Rightarrow> (nat \<Rightarrow> bytes) \<Rightarrow> flow \<Rightarrow> gate_conn \<Rightarrow> token multiset \<Rightarrow> bool" where
  "relay_phase c m h cc T \<longleftrightarrow>
     (\<forall>t\<in>#T. stale t) \<and> up_phase c m h cc (filter_mset up_op T) \<and> down_phase c m h cc (filter_mset down_op T) \<and>
     \<not> (clientReadDone cc \<and> upstreamReadDone cc) \<and> c2uBuf cc \<noteq> u2cBuf cc \<and> 0 < c2uBuf cc \<and> 0 < u2cBuf cc \<and>
     length (m (c2uBuf cc)) = nat (bufSize c) \<and> length (m (u2cBuf cc)) = nat (bufSize c)"

fun dslot :: "relayCfg \<Rightarrow> (nat \<Rightarrow> bytes) \<Rightarrow> flow \<Rightarrow> gate_conn option \<Rightarrow> token multiset \<Rightarrow> bool" where
  "dslot c m h None T \<longleftrightarrow> (\<forall>t\<in>#T. stale t) \<and> dirs_ok m h T"
| "dslot c m h (Some cc) T \<longleftrightarrow>
     (if closing cc
      then (\<forall>t\<in>#T. stale t \<or> close_tok t) \<and> dirs_ok m h T \<and>
        closesLeft cc = int (size (filter_mset close_tok T)) \<and> 0 < closesLeft cc
      else (fresh_conn c m cc \<and> (\<exists>t. T = {#t#} \<and> begin_phase c m h cc t)) \<or> relay_phase c m h cc T)"

text \<open>The mode: \<open>-duplex\<close> without \<open>-splice\<close>, with buffers of a sensible length.\<close>

definition two_way :: "relayCfg \<Rightarrow> bool" where
  "two_way c \<longleftrightarrow> duplex c \<and> \<not> splice c \<and> 0 < reqLen c \<and> 0 \<le> replyLen c \<and> 0 < bufSize c"

section \<open>Ownership of buffers\<close>

definition conn_bufs :: "gate_conn \<Rightarrow> nat set" where
  "conn_bufs cc = {reqBuf cc, respBuf cc, c2uBuf cc, u2cBuf cc} - {0}"

definition owned :: "gate_worker \<Rightarrow> bool" where
  "owned s \<longleftrightarrow> 0 < nextAddr s \<and> (\<exists>ow.
     (\<forall>i cc. map_of (conns s) i = Some cc \<longrightarrow> (\<forall>a\<in>conn_bufs cc. a < nextAddr s \<and> ow a = i)) \<and>
     (\<forall>q\<in>set (sq s). \<forall>a\<in>q_addr (q_req q). 0 < a \<and> a < nextAddr s \<and> ow a = q_id q \<and> 0 < q_id q))"

definition dinv :: "nat set \<Rightarrow> relayCfg \<Rightarrow> (nat \<Rightarrow> flow) \<Rightarrow> gate_result list \<Rightarrow> gate_worker \<Rightarrow> bool" where
  "dinv E c H rs s \<longleftrightarrow> table_ok s \<and> connFree s = [] \<and> (\<forall>i > nextID s. H i = no_flow \<and> toks i rs s = {#}) \<and>
     (\<forall>q\<in>set (sq s). entry_ok q) \<and> owned s \<and>
     (\<forall>i > 0. i \<notin> E \<longrightarrow> dslot c (mem s) (H i) (map_of (conns s) i) (toks i rs s))"

end
