(* ===== verification/Gate_Duplex_Preserve.thy ===== *)
theory Gate_Duplex_Preserve
  imports Gate_Duplex
begin

text \<open>The primitive steps of the relay preserve the invariant of theory \<open>Gate_Duplex\<close> while one id is exempt.\<close>

section \<open>What a slot reads of the store\<close>

fun slot_bufs :: "gate_conn option \<Rightarrow> nat set" where
  "slot_bufs None = {}"
| "slot_bufs (Some cc) = {reqBuf cc, respBuf cc, c2uBuf cc, u2cBuf cc}"

definition slot_reads :: "gate_conn option \<Rightarrow> token multiset \<Rightarrow> nat set" where
  "slot_reads oc T = slot_bufs oc \<union> (\<Union>t\<in>set_mset T. t_addr t)"

lemma pending_cong: "\<forall>a\<in>q_addr q. m' a = m a \<Longrightarrow> pending m' q = pending m q"
  by (cases q) simp_all

lemma up_dir_cong: "\<forall>t\<in>#T. \<forall>a\<in>t_addr t. m' a = m a \<Longrightarrow> up_dir m' h T = up_dir m h T"
  unfolding up_dir_def by (intro disj_cong ex_cong1 conj_cong refl) (auto simp: pending_cong [of _ m' m])

lemma down_dir_cong: "\<forall>t\<in>#T. \<forall>a\<in>t_addr t. m' a = m a \<Longrightarrow> down_dir m' h T = down_dir m h T"
  unfolding down_dir_def by (intro disj_cong ex_cong1 conj_cong refl) (auto simp: pending_cong [of _ m' m])

lemma dirs_ok_cong:
  "\<forall>t\<in>#T. \<forall>a\<in>t_addr t. m' a = m a \<Longrightarrow> dirs_ok m' h T = dirs_ok m h T"
proof -
  assume h: "\<forall>t\<in>#T. \<forall>a\<in>t_addr t. m' a = m a"
  have "up_dir m' h (filter_mset up_op T) = up_dir m h (filter_mset up_op T)"
    by (rule up_dir_cong) (use h in auto)
  moreover have "down_dir m' h (filter_mset down_op T) = down_dir m h (filter_mset down_op T)"
    by (rule down_dir_cong) (use h in auto)
  ultimately show ?thesis by (simp only: dirs_ok_def)
qed

lemma begin_phase_cong:
  "m' (reqBuf cc) = m (reqBuf cc) \<Longrightarrow> begin_phase c m' h cc t = begin_phase c m h cc t"
  by (cases t) (simp_all add: has_request_def)

lemma relay_phase_cong:
  "m' (c2uBuf cc) = m (c2uBuf cc) \<Longrightarrow> m' (u2cBuf cc) = m (u2cBuf cc) \<Longrightarrow> relay_phase c m' h cc T = relay_phase c m h cc T"
  by (simp add: relay_phase_def up_phase_def down_phase_def)

lemma dslot_cong:
  assumes "\<forall>a\<in>slot_reads oc T. m' a = m a"
  shows "dslot c m' h oc T = dslot c m h oc T"
proof (cases oc)
  case None
  then show ?thesis using assms dirs_ok_cong [of T m' m h] by (simp add: slot_reads_def)
next
  case (Some cc)
  have "dirs_ok m' h T = dirs_ok m h T" using assms by (intro dirs_ok_cong) (auto simp: slot_reads_def)
  moreover have "relay_phase c m' h cc T = relay_phase c m h cc T"
    using assms Some by (intro relay_phase_cong) (auto simp: slot_reads_def)
  moreover have q: "m' (reqBuf cc) = m (reqBuf cc)" using assms Some by (simp add: slot_reads_def)
  moreover from q have "fresh_conn c m' cc = fresh_conn c m cc" by (simp add: fresh_conn_def)
  moreover have "begin_phase c m' h cc = begin_phase c m h cc" using begin_phase_cong [of m' cc m] q by blast
  ultimately show ?thesis using Some by simp
qed

section \<open>Primitive steps\<close>

lemma dinv_cong:
  assumes "dinv E c H rs s" and "conns s' = conns s" "connFree s' = connFree s" "mem s' = mem s"
    "nextAddr s' = nextAddr s" "nextID s' = nextID s" "sq s' = sq s" "jobs s' = jobs s"
  shows "dinv E c H rs s'"
  using assms by (simp add: dinv_def table_ok_def owned_def toks_cong [of s' s])

lemma dinv_restore:
  "dinv {i} c H rs s \<Longrightarrow> dslot c (mem s) (H i) (map_of (conns s) i) (toks i rs s) \<Longrightarrow> dinv {} c H rs s"
  unfolding dinv_def by (metis empty_iff singletonD)

lemma dinv_zero: "dinv {0} c H rs s = dinv {} c H rs s"
  by (auto simp: dinv_def)

lemma dinv_ids: "dinv E c H rs s \<Longrightarrow> map_of (conns s) i = Some cc \<Longrightarrow> cid cc = i \<and> 0 < i \<and> i \<le> nextID s"
  by (auto simp: dinv_def table_ok_def)

lemma owned_post:
  assumes o: "owned s" and q: "q_addr q = {} \<or> (map_of (conns s) i = Some cc \<and> 0 < i \<and> q_addr q \<subseteq> conn_bufs cc)"
  shows "owned (gpost q i o' s)"
proof -
  obtain ow where ow: "0 < nextAddr s" "\<forall>i cc. map_of (conns s) i = Some cc \<longrightarrow> (\<forall>a\<in>conn_bufs cc. a < nextAddr s \<and> ow a = i)"
      "\<forall>q\<in>set (sq s). \<forall>a\<in>q_addr (q_req q). 0 < a \<and> a < nextAddr s \<and> ow a = q_id q \<and> 0 < q_id q"
    using o unfolding owned_def by blast
  have "0 < a \<and> a < nextAddr s \<and> ow a = i \<and> 0 < i" if "a \<in> q_addr q" for a
    using that q ow(2) by (auto simp: conn_bufs_def)
  then show ?thesis using ow unfolding owned_def gpost_simps by (intro conjI exI [of _ ow]) auto
qed

lemma dinv_post:
  assumes "dinv {i} c H rs s" and "conn_op o'" and "0 < i" "i \<le> nextID s"
    and "q_addr q = {} \<or> (map_of (conns s) i = Some cc \<and> q_addr q \<subseteq> conn_bufs cc)"
  shows "dinv {i} c H rs (gpost q i o' s)"
  using assms owned_post [of s q i cc o'] by (auto simp: dinv_def table_ok_def entry_ok_def)

lemma dinv_post_idle:
  assumes "dinv E c H rs s" and "\<not> conn_op o' \<or> n = 0" and "q_addr q = {}" and "entry_ok \<lparr>q_req = q, q_id = n, q_op = o'\<rparr>"
  shows "dinv E c H rs (gpost q n o' s)"
  using assms owned_post [of s q n undefined o'] by (auto simp: dinv_def table_ok_def)

lemma dinv_mem:
  assumes g: "dinv {i} c H rs s" and "conns s' = conns s" "connFree s' = connFree s" "owned s'" "nextID s' = nextID s"
    "sq s' = sq s" "jobs s' = jobs s"
    and m: "\<And>j. 0 < j \<Longrightarrow> j \<noteq> i \<Longrightarrow> \<forall>b\<in>slot_reads (map_of (conns s) j) (toks j rs s). mem s' b = mem s b"
  shows "dinv {i} c H rs s'"
proof -
  have k: "toks j rs s' = toks j rs s" for j using assms by (intro toks_cong) simp_all
  have "dslot c (mem s') (H j) (map_of (conns s) j) (toks j rs s)" if j: "0 < j" "j \<noteq> i" for j
    unfolding dslot_cong [OF m [OF j]] using g j by (simp add: dinv_def)
  then show ?thesis using assms by (simp add: dinv_def table_ok_def k)
qed

lemma ownedE:
  assumes "owned s"
  obtains ow where "0 < nextAddr s"
    and "\<And>i cc a. map_of (conns s) i = Some cc \<Longrightarrow> a \<in> conn_bufs cc \<Longrightarrow> a < nextAddr s \<and> ow a = i"
    and "\<And>q a. q \<in> set (sq s) \<Longrightarrow> a \<in> q_addr (q_req q) \<Longrightarrow> 0 < a \<and> a < nextAddr s \<and> ow a = q_id q \<and> 0 < q_id q"
  using assms unfolding owned_def by blast

lemma owned_mono:
  assumes o: "owned s" and c: "\<And>i cc. map_of (conns s') i = Some cc \<Longrightarrow> map_of (conns s) i = Some cc"
    and q: "set (sq s') \<subseteq> set (sq s)" and n: "nextAddr s \<le> nextAddr s'"
  shows "owned s'"
proof -
  obtain ow where p: "0 < nextAddr s"
      and C: "\<And>i cc a. map_of (conns s) i = Some cc \<Longrightarrow> a \<in> conn_bufs cc \<Longrightarrow> a < nextAddr s \<and> ow a = i"
      and Q: "\<And>q a. q \<in> set (sq s) \<Longrightarrow> a \<in> q_addr (q_req q) \<Longrightarrow> 0 < a \<and> a < nextAddr s \<and> ow a = q_id q \<and> 0 < q_id q"
    using o unfolding owned_def by blast
  have "a < nextAddr s' \<and> ow a = i" if "map_of (conns s') i = Some cc" "a \<in> conn_bufs cc" for i cc a
    using C [OF c [OF that(1)] that(2)] n by simp
  moreover have "0 < a \<and> a < nextAddr s' \<and> ow a = q_id x \<and> 0 < q_id x" if "x \<in> set (sq s')" "a \<in> q_addr (q_req x)" for x a
    using Q [of x a] that q n by (simp add: subset_iff)
  ultimately show ?thesis unfolding owned_def using p n by (intro conjI exI [of _ ow]) simp_all
qed

lemma dinv_drop:
  assumes g: "dinv {i} c H rs s" and "duplex c"
  shows "dinv {i} c H rs (putConn c cc (s\<lparr>conns := AList.delete i (conns s)\<rparr>))" (is "dinv _ _ _ _ ?s")
proof -
  have e: "?s = s\<lparr>conns := AList.delete i (conns s)\<rparr>" using assms(2) by (simp add: putConn_def)
  have k: "toks j rs ?s = toks j rs s" for j by (rule toks_cong) (simp_all add: e)
  have "owned s" using g by (simp add: dinv_def)
  then have "owned ?s" by (rule owned_mono) (auto simp: e delete_conv' split: if_splits)
  moreover have "table_ok ?s"
    using g unfolding e by (auto simp: dinv_def table_ok_def delete_conv' keys_distinct_def distinct_delete split: if_splits)
  ultimately show ?thesis using g unfolding dinv_def k by (simp add: e delete_conv')
qed

lemma toks_addr: "t \<in># toks j rs s \<Longrightarrow> a \<in> t_addr t \<Longrightarrow> \<exists>q\<in>set (sq s). t = TSqe q \<and> a \<in> q_addr (q_req q)"
  by (cases t) (auto simp: toks_def tokens_def)

text \<open>The kernel stores into a buffer of the id that is being worked on.\<close>

lemma dinv_write:
  assumes g: "dinv {i} c H rs s" and ow: "\<And>j t. j \<noteq> i \<Longrightarrow> 0 < j \<Longrightarrow> t \<in># toks j rs s \<Longrightarrow> a \<notin> t_addr t"
    and cw: "\<And>j cc. j \<noteq> i \<Longrightarrow> map_of (conns s) j = Some cc \<Longrightarrow> a \<notin> conn_bufs cc" and a: "0 < a"
  shows "dinv {i} c H rs (s\<lparr>mem := (mem s)(a := bs)\<rparr>)" (is "dinv _ _ _ _ ?s")
proof -
  have "\<forall>b\<in>slot_reads (map_of (conns s) j) (toks j rs s). mem ?s b = mem s b" if j: "0 < j" "j \<noteq> i" for j
  proof -
    have "b \<noteq> a" if "b \<in> slot_bufs (map_of (conns s) j)" for b
      using that cw [OF j(2)] a by (cases "map_of (conns s) j") (auto simp: conn_bufs_def)
    then show ?thesis using ow [OF j(2,1)] by (auto simp: slot_reads_def)
  qed
  then show ?thesis using g by (intro dinv_mem [OF g]) (simp_all add: owned_def dinv_def)
qed

text \<open>A fresh buffer, and a connection that gets it.\<close>

definition unused :: "gate_worker \<Rightarrow> nat \<Rightarrow> bool" where
  "unused s b \<longleftrightarrow> 0 < b \<and> b < nextAddr s \<and> (\<forall>i cc. map_of (conns s) i = Some cc \<longrightarrow> b \<notin> conn_bufs cc) \<and>
     (\<forall>q\<in>set (sq s). b \<notin> q_addr (q_req q))"

lemma galloc_eq:
  "galloc n s = Some (b, s') \<longleftrightarrow> 0 \<le> n \<and> b = nextAddr s \<and>
     s' = s\<lparr>mem := (mem s)(nextAddr s := replicate (nat n) 0), nextAddr := Suc (nextAddr s)\<rparr>"
  by (auto simp: galloc_def)

lemma owned_lt_conn: "owned s \<Longrightarrow> map_of (conns s) i = Some cc \<Longrightarrow> a \<in> conn_bufs cc \<Longrightarrow> a < nextAddr s"
  by (erule ownedE) simp

lemma owned_lt_sq: "owned s \<Longrightarrow> q \<in> set (sq s) \<Longrightarrow> a \<in> q_addr (q_req q) \<Longrightarrow> a < nextAddr s"
  by (erule ownedE) simp

lemma owned_pos: "owned s \<Longrightarrow> 0 < nextAddr s"
  by (simp add: owned_def)

lemma owned_lt:
  assumes o: "owned s" and b: "b \<in> slot_reads (map_of (conns s) j) (toks j rs s)"
  shows "b < nextAddr s"
proof (cases "b \<in> slot_bufs (map_of (conns s) j)")
  case True
  then obtain cc where c: "map_of (conns s) j = Some cc" "b = 0 \<or> b \<in> conn_bufs cc"
    by (cases "map_of (conns s) j") (auto simp: conn_bufs_def)
  show ?thesis using c(2) owned_lt_conn [OF o c(1)] owned_pos [OF o] by (elim disjE) simp_all
next
  case False
  then obtain t where "t \<in># toks j rs s" "b \<in> t_addr t" using b unfolding slot_reads_def by blast
  then obtain q where q: "q \<in> set (sq s)" "b \<in> q_addr (q_req q)" using toks_addr by blast
  show ?thesis by (rule owned_lt_sq [OF o q])
qed

lemma dinv_alloc:
  assumes g: "dinv {i} c H rs s" and a: "galloc n s = Some (b, s')"
  shows "dinv {i} c H rs s'" and "unused s' b"
proof -
  note s' = a [unfolded galloc_eq]
  have o: "owned s" using g by (simp add: dinv_def)
  then obtain ow where ow: "0 < nextAddr s"
      and c: "\<forall>i cc. map_of (conns s) i = Some cc \<longrightarrow> (\<forall>a\<in>conn_bufs cc. a < nextAddr s \<and> ow a = i)"
      and q: "\<forall>q\<in>set (sq s). \<forall>a\<in>q_addr (q_req q). 0 < a \<and> a < nextAddr s \<and> ow a = q_id q \<and> 0 < q_id q"
    unfolding owned_def by blast
  have "owned s'" by (rule owned_mono [OF o]) (use s' in auto)
  moreover have "mem s' x = mem s x" if "x \<in> slot_reads (map_of (conns s) j) (toks j rs s)" for x j
    using owned_lt [OF o that] s' by simp
  ultimately show "dinv {i} c H rs s'" using s' by (intro dinv_mem [OF g]) simp_all
  have "b \<notin> conn_bufs cc" if "map_of (conns s') j = Some cc" for j cc
    using c that s' by fastforce
  moreover have "b \<notin> q_addr (q_req x)" if "x \<in> set (sq s')" for x
    using q that s' by fastforce
  ultimately show "unused s' b" using ow s' unfolding unused_def by simp
qed

lemma unused_alloc: "unused s x \<Longrightarrow> galloc n s = Some (b, s') \<Longrightarrow> unused s' x \<and> x \<noteq> b \<and> mem s' x = mem s x"
  by (auto simp: galloc_eq unused_def)

lemma dinv_put_new:
  assumes g: "dinv {i} c H rs s" and i: "cid cc = i" "0 < i" "i \<le> nextID s" and B: "\<forall>b\<in>B. unused s b"
    and bf: "conn_bufs cc \<subseteq> B \<union> (case map_of (conns s) i of None \<Rightarrow> {} | Some cc0 \<Rightarrow> conn_bufs cc0)"
  shows "dinv {i} c H rs (gput cc s)"
proof -
  have k: "toks j rs (gput cc s) = toks j rs s" for j by (rule toks_cong) simp_all
  obtain ow where ow: "0 < nextAddr s"
      and c: "\<forall>i cc. map_of (conns s) i = Some cc \<longrightarrow> (\<forall>a\<in>conn_bufs cc. a < nextAddr s \<and> ow a = i)"
      and q: "\<forall>q\<in>set (sq s). \<forall>a\<in>q_addr (q_req q). 0 < a \<and> a < nextAddr s \<and> ow a = q_id q \<and> 0 < q_id q"
    using g unfolding dinv_def owned_def by blast
  let ?ow = "\<lambda>a. if a \<in> B then i else ow a"
  have "a < nextAddr s \<and> ?ow a = j" if m: "map_of (conns (gput cc s)) j = Some cc'" and a: "a \<in> conn_bufs cc'" for j cc' a
  proof (cases "a \<in> B")
    case True
    then have "unused s a" using B by blast
    then show ?thesis using True m a i by (auto simp: update_conv' unused_def split: if_splits)
  next
    case False
    then show ?thesis using m a i bf c by (fastforce simp: update_conv' split: if_splits option.splits)
  qed
  moreover have "0 < a \<and> a < nextAddr s \<and> ?ow a = q_id x \<and> 0 < q_id x" if "x \<in> set (sq s)" "a \<in> q_addr (q_req x)" for x a
  proof -
    have "a \<notin> B" using B that unfolding unused_def by blast
    then show ?thesis using q that by simp
  qed
  ultimately have "owned (gput cc s)" using ow unfolding owned_def by (intro conjI exI [of _ ?ow]) auto
  moreover have "table_ok (gput cc s)"
    using g i by (auto simp: dinv_def table_ok_def update_conv' distinct_update keys_distinct_def)
  ultimately show ?thesis using g i by (simp add: dinv_def k update_conv')
qed

lemma dinv_put:
  assumes "dinv {i} c H rs s" and "map_of (conns s) i = Some cc0" "cid cc = i" and "conn_bufs cc \<subseteq> conn_bufs cc0"
  shows "dinv {i} c H rs (gput cc s)"
  using assms dinv_ids [OF assms(1,2)] by (intro dinv_put_new [where B = "{}"]) simp_all

end
