(* ===== verification/Gate_Duplex_Handlers.thy ===== *)
theory Gate_Duplex_Handlers
  imports Gate_Duplex_Preserve
begin

text \<open>Each handler of the benchmark relay, with \<open>-duplex\<close>, does not panic and restores the invariant.\<close>

section \<open>A relaying entry completes\<close>

lemma up_not_down: "up_op t \<Longrightarrow> \<not> down_op t"
  by (cases t) auto

lemma down_not_up: "down_op t \<Longrightarrow> \<not> up_op t"
  using up_not_down by blast

lemma close_not_stale: "close_tok t \<Longrightarrow> \<not> up_op t \<and> \<not> down_op t"
  by (cases t) (auto simp: close_tok_def)

lemma stale_not_close: "stale t \<Longrightarrow> \<not> close_tok t"
  using close_not_stale by (auto simp: stale_def)

lemma dirs_ok_close: "close_tok t \<Longrightarrow> dirs_ok m h (add_mset t T) = dirs_ok m h T"
  using close_not_stale [of t] by (auto simp: dirs_ok_def)

lemma up_moved:
  assumes "relay_entry GC2URecv GC2USend q" and "recvd_c h = sent_u h @ pending (mem s) (q_req q)"
  shows "let h' = flow_add (q_op q) (gmoved (q_req q) res data s) h
    in prefix (sent_u h') (recvd_c h') \<and> recvd_u h' = recvd_u h \<and> sent_c h' = sent_c h"
  using assms by (auto simp: relay_entry_def flow_add_def Let_def take_is_prefix)

lemma down_moved:
  assumes "relay_entry GU2CRecv GU2CSend q" and "recvd_u h = sent_c h @ pending (mem s) (q_req q)"
  shows "let h' = flow_add (q_op q) (gmoved (q_req q) res data s) h
    in prefix (sent_c h') (recvd_u h') \<and> recvd_c h' = recvd_c h \<and> sent_u h' = sent_u h"
  using assms by (auto simp: relay_entry_def flow_add_def Let_def take_is_prefix)

lemma gkernel_mem: "a \<notin> q_addr q \<Longrightarrow> mem (gkernel q data s) a = mem s a"
  by (cases q) auto

text \<open>A left-over entry completes: nothing is sent that was not received, and the other direction is not touched.\<close>

lemma dirs_ok_complete:
  assumes d: "dirs_ok (mem s) h (add_mset (TSqe q) T)" and st: "stale (TSqe q)"
  shows "dirs_ok (mem (gkernel (q_req q) data s)) (flow_add (q_op q) (gmoved (q_req q) res data s) h) T"
    (is "dirs_ok ?m ?h T")
proof (cases "up_op (TSqe q)")
  case True
  then have nd: "\<not> down_op (TSqe q)" by (rule up_not_down)
  with d True have u: "filter_mset up_op T = {#}" "relay_entry GC2URecv GC2USend q"
      "recvd_c h = sent_u h @ pending (mem s) (q_req q)" and dn: "down_dir (mem s) h (filter_mset down_op T)"
      and a: "\<And>t. t \<in># T \<Longrightarrow> down_op t \<Longrightarrow> q_addr (q_req q) \<inter> t_addr t = {}"
    by (auto simp: dirs_ok_def up_dir_def)
  note mv = up_moved [OF u(2,3), unfolded Let_def]
  have "down_dir ?m h (filter_mset down_op T) = down_dir (mem s) h (filter_mset down_op T)"
    by (rule down_dir_cong) (use a gkernel_mem in fastforce)
  with dn mv have "down_dir ?m ?h (filter_mset down_op T)" by (simp add: down_dir_def)
  moreover have "\<not> up_op t" if "t \<in># T" for t using u(1) that by auto
  ultimately show ?thesis using u(1) mv by (simp add: dirs_ok_def up_dir_def)
next
  case False
  with st have dq: "down_op (TSqe q)" by (simp add: stale_def)
  with d False have u: "filter_mset down_op T = {#}" "relay_entry GU2CRecv GU2CSend q"
      "recvd_u h = sent_c h @ pending (mem s) (q_req q)" and up: "up_dir (mem s) h (filter_mset up_op T)"
      and a: "\<And>t. t \<in># T \<Longrightarrow> up_op t \<Longrightarrow> t_addr t \<inter> q_addr (q_req q) = {}"
    by (auto simp: dirs_ok_def down_dir_def)
  note mv = down_moved [OF u(2,3), unfolded Let_def]
  have "up_dir ?m h (filter_mset up_op T) = up_dir (mem s) h (filter_mset up_op T)"
    by (rule up_dir_cong) (use a gkernel_mem in fastforce)
  with up mv have "up_dir ?m ?h (filter_mset up_op T)" by (simp add: up_dir_def)
  moreover have "\<not> down_op t" if "t \<in># T" for t using u(1) that by auto
  ultimately show ?thesis using u(1) mv by (simp add: dirs_ok_def down_dir_def)
qed

section \<open>Tear-down\<close>

lemma dinv_post_close:
  "dinv {i} c H rs s \<Longrightarrow> 0 < i \<Longrightarrow> i \<le> nextID s \<Longrightarrow> dinv {i} c H rs (post_close f i s)"
  by (auto simp: post_close_def intro!: dinv_post)

lemma post_close_toks:
  assumes st: "\<forall>t\<in>#toks i rs s. stale t" and s': "s' = post_close (upstreamFD cc) i (post_close (clientFD cc) i s)"
  shows "int (size (filter_mset close_tok (toks i rs s'))) = close_count cc" and "\<forall>t\<in>#toks i rs s'. stale t \<or> close_tok t"
    and "dirs_ok m h (toks i rs s') = dirs_ok m h (toks i rs s)"
proof -
  have k: "close_tok (TSqe \<lparr>q_req = QClose f, q_id = i, q_op = GClose\<rparr>)" for f by (simp add: close_tok_def)
  have z: "filter_mset close_tok (toks i rs s) = {#}" using st stale_not_close by auto
  show "int (size (filter_mset close_tok (toks i rs s'))) = close_count cc"
    by (simp add: s' post_close_def close_count_def k z)
  show "\<forall>t\<in>#toks i rs s'. stale t \<or> close_tok t" using st by (auto simp: s' post_close_def k)
  show "dirs_ok m h (toks i rs s') = dirs_ok m h (toks i rs s)" by (simp add: s' post_close_def dirs_ok_close k)
qed

lemma dinv_closeConn:
  assumes g: "dinv {i} c H rs s" and cc0: "map_of (conns s) i = Some cc0" and cc: "cid cc = i" "\<not> closing cc"
    and bf: "conn_bufs cc \<subseteq> conn_bufs cc0" and c: "two_way c"
    and st: "\<forall>t\<in>#toks i rs s. stale t" and d: "dirs_ok (mem s) (H i) (toks i rs s)"
  shows "dinv {} c H rs (gcloseConn c cc s)"
proof -
  define s2 where "s2 = post_close (upstreamFD cc) i (post_close (clientFD cc) i s)"
  define cc1 where "cc1 = cc\<lparr>closing := True, closesLeft := close_count cc\<rparr>"
  define s3 where "s3 = gput cc1 s2"
  note ids = dinv_ids [OF g cc0]
  have m: "duplex c" "\<not> splice c" using c by (simp_all add: two_way_def)
  have c1: "cid cc1 = i" "conn_bufs cc1 = conn_bufs cc" "closing cc1" "closesLeft cc1 = close_count cc"
    using cc by (simp_all add: cc1_def conn_bufs_def)
  have g2: "dinv {i} c H rs s2" unfolding s2_def using ids by (intro dinv_post_close g) simp_all
  have g3: "dinv {i} c H rs s3" unfolding s3_def
    by (rule dinv_put [OF g2, where ?cc0.0 = cc0]) (use cc0 c1 bf in \<open>simp_all add: s2_def\<close>)
  have T3: "toks i rs s3 = toks i rs s2" by (rule toks_cong) (simp_all add: s3_def)
  note k = post_close_toks [OF st s2_def]
  have m3: "map_of (conns s3) i = Some cc1" "mem s3 = mem s" by (simp_all add: s3_def s2_def c1 update_conv')
  have e: "gcloseConn c cc s = (if close_count cc = 0 then putConn c cc1 (s3\<lparr>conns := AList.delete i (conns s3)\<rparr>) else s3)"
    by (simp add: gcloseConn_open [OF cc(2)] Let_def s2_def s3_def cc1_def cc(1) m)
  show ?thesis
  proof (cases "close_count cc = 0")
    case True
    let ?s = "putConn c cc1 (s3\<lparr>conns := AList.delete i (conns s3)\<rparr>)"
    have p: "?s = s3\<lparr>conns := AList.delete i (conns s3)\<rparr>" using m by (simp add: putConn_def)
    have T: "toks i rs ?s = toks i rs s2" using T3 toks_cong [of ?s s3] by (simp add: p)
    have "filter_mset close_tok (toks i rs s2) = {#}" using k(1) True by simp
    then have "\<forall>t\<in>#toks i rs s2. stale t" using k(2) by auto
    then have "dinv {} c H rs ?s"
      using k(3) [of "mem s" "H i"] d by (intro dinv_restore [OF dinv_drop [OF g3 m(1)]]) (simp add: T, simp add: p delete_conv' m3)
    then show ?thesis using e True by simp
  next
    case False
    moreover have "0 \<le> close_count cc" by (simp add: close_count_def)
    ultimately have "dinv {} c H rs s3"
      using k(1,2) k(3) [of "mem s" "H i"] d by (intro dinv_restore [OF g3]) (simp add: m3 T3 c1)
    then show ?thesis using e False by simp
  qed
qed

section \<open>The situation a handler finds\<close>

definition dserving :: "nat \<Rightarrow> gate_conn \<Rightarrow> relayCfg \<Rightarrow> (nat \<Rightarrow> flow) \<Rightarrow> gate_result list \<Rightarrow> gate_worker \<Rightarrow> bool" where
  "dserving i cc c H rs s \<longleftrightarrow> dinv {i} c H rs s \<and> map_of (conns s) i = Some cc \<and> \<not> closing cc \<and> two_way c"

lemma dserving_ids: "dserving i cc c H rs s \<Longrightarrow> cid cc = i \<and> 0 < i \<and> i \<le> nextID s"
  using dinv_ids unfolding dserving_def by blast

lemma dserving_cong:
  assumes "dserving i cc c H rs s" and "conns s' = conns s" "connFree s' = connFree s" "mem s' = mem s"
    "nextAddr s' = nextAddr s" "nextID s' = nextID s" "sq s' = sq s" "jobs s' = jobs s"
  shows "dserving i cc c H rs s'"
  using assms dinv_cong [of "{i}" c H rs s s'] by (simp add: dserving_def)

lemma dserving_close:
  assumes v: "dserving i cc0 c H rs s" and st: "\<forall>t\<in>#toks i rs s. stale t" and d: "dirs_ok (mem s) (H i) (toks i rs s)"
    and cc: "cid cc = i" "\<not> closing cc" "conn_bufs cc \<subseteq> conn_bufs cc0"
  shows "dinv {} c H rs (gcloseConn c cc s)"
  using v cc st d unfolding dserving_def by (intro dinv_closeConn [where ?cc0.0 = cc0 and i = i]) auto

lemma dserving_put:
  assumes v: "dserving i cc0 c H rs s" and cc: "cid cc = i" "\<not> closing cc" "conn_bufs cc \<subseteq> conn_bufs cc0"
  shows "dserving i cc c H rs (gput cc s)" and "toks j rs (gput cc s) = toks j rs s"
proof -
  show "dserving i cc c H rs (gput cc s)" using v cc by (auto simp: dserving_def update_conv' intro: dinv_put)
  show "toks j rs (gput cc s) = toks j rs s" by (rule toks_cong) simp_all
qed

lemma dserving_end:
  assumes v: "dserving i cc c H rs s" and s: "dslot c (mem s) (H i) (Some cc) (toks i rs s)"
  shows "dinv {} c H rs s"
proof -
  have g: "dinv {i} c H rs s" and m: "map_of (conns s) i = Some cc" using v unfolding dserving_def by blast+
  show ?thesis by (rule dinv_restore [OF g]) (unfold m, rule s)
qed

lemma dserving_post:
  assumes v: "dserving i cc c H rs s" and "conn_op o'" and "q_addr q \<subseteq> conn_bufs cc"
  shows "dserving i cc c H rs (gpost q i o' s)"
    and "toks i rs (gpost q i o' s) = add_mset (TSqe \<lparr>q_req = q, q_id = i, q_op = o'\<rparr>) (toks i rs s)"
  using assms dserving_ids [OF v] by (auto simp: dserving_def intro: dinv_post)

lemma dserving_job:
  assumes v: "dserving i cc c H rs s"
  shows "dserving i cc c H rs (s\<lparr>jobs := jobs s @ [i]\<rparr>)" (is "dserving _ _ _ _ _ ?s")
    and "toks i rs (s\<lparr>jobs := jobs s @ [i]\<rparr>) = add_mset (TJob i) (toks i rs s)"
proof -
  have k: "toks j rs ?s = (if i = j then add_mset (TJob i) (toks j rs s) else toks j rs s)" for j by (rule toks_job)
  then show "toks i rs ?s = add_mset (TJob i) (toks i rs s)" by simp
  have "owned ?s = owned s" "table_ok ?s = table_ok s" by (simp_all add: owned_def table_ok_def)
  then show "dserving i cc c H rs ?s" using v dserving_ids [OF v] by (auto simp: dserving_def dinv_def k)
qed

section \<open>Request, hook, start of the relay\<close>

lemma dirs_ok_none: "prefix (sent_u h) (recvd_c h) \<Longrightarrow> prefix (sent_c h) (recvd_u h) \<Longrightarrow> dirs_ok m h {#}"
  by (simp add: dirs_ok_def up_dir_def down_dir_def)

lemma d_recvReq:
  assumes v: "dserving i cc c H rs s" and T: "toks i rs s = {#}" and z: "fresh_conn c (mem s) cc"
    and h: "H i = no_flow\<lparr>recvd_c := take (nat res) (mem s (reqBuf cc))\<rparr>" and r: "res \<le> reqLen c"
  shows "\<exists>s'. g_recvReq c i res s = Some s' \<and> dinv {} c H rs s'"
proof -
  have m: "map_of (conns s) i = Some cc" and i: "cid cc = i" using v dserving_ids [OF v] by (auto simp: dserving_def)
  show ?thesis
  proof (cases "res \<le> 0")
    case True
    have "dserving i cc c H rs (gcount_err s)" by (rule dserving_cong [OF v]) simp_all
    moreover have "toks i rs (gcount_err s) = {#}" using T toks_cong [of "gcount_err s" s] by simp
    ultimately have "dinv {} c H rs (gcloseConn c cc (gcount_err s))"
      using v i True h by (intro dserving_close) (auto simp: dserving_def no_flow_def intro!: dirs_ok_none)
    then show ?thesis using True by (simp add: g_recvReq_def gwith_Some [OF m])
  next
    case False
    let ?cc = "cc\<lparr>reqN := nat res\<rparr>"
    have p: "dserving i ?cc c H rs (gput ?cc s)" "toks i rs (gput ?cc s) = {#}"
      using dserving_put [OF v, of ?cc] i v T by (auto simp: dserving_def conn_bufs_def)
    have "dslot c (mem s) (H i) (Some ?cc) {#TJob i#}"
      using False r h z v by (simp add: dserving_def has_request_def fresh_conn_def nat_mono)
    then have "dslot c (mem s) (H i) (Some ?cc) (toks i rs (gput ?cc s\<lparr>jobs := jobs (gput ?cc s) @ [i]\<rparr>))"
      by (simp only: dserving_job(2) [OF p(1)] p(2))
    then have "dinv {} c H rs (gput ?cc s\<lparr>jobs := jobs (gput ?cc s) @ [i]\<rparr>)"
      by (intro dserving_end [OF dserving_job(1) [OF p(1)]]) simp
    then show ?thesis using False i by (simp add: g_recvReq_def gwith_Some [OF m] Let_def)
  qed
qed

lemma d_result:
  assumes v: "dserving (rid r) cc c H rs s" and T: "toks (rid r) rs s = {#}" and z: "fresh_conn c (mem s) cc"
    and p: "has_request c (mem s) (H (rid r)) cc"
  shows "\<exists>s'. g_result c r s = Some s' \<and> dinv {} c H rs s'"
proof -
  have m: "map_of (conns s) (rid r) = Some cc" and i: "cid cc = rid r" using v dserving_ids [OF v] by (auto simp: dserving_def)
  show ?thesis
  proof (cases "ok r")
    case False
    have "dserving (rid r) cc c H rs (gcount_err s)" by (rule dserving_cong [OF v]) simp_all
    moreover have "toks (rid r) rs (gcount_err s) = {#}" using T toks_cong [of "gcount_err s" s] by simp
    ultimately have "dinv {} c H rs (gcloseConn c cc (gcount_err s))"
      using v i p by (intro dserving_close) (auto simp: dserving_def has_request_def no_flow_def intro!: dirs_ok_none)
    then show ?thesis using False m by (simp add: g_result_def)
  next
    case True
    let ?cc = "cc\<lparr>upstreamFD := rfd r\<rparr>" and ?q = "QSend (rfd r) (reqBuf cc) 0 (reqN cc)"
    have p1: "dserving (rid r) ?cc c H rs (gput ?cc s)" "toks (rid r) rs (gput ?cc s) = {#}"
      using dserving_put [OF v, of ?cc] i v T by (auto simp: dserving_def conn_bufs_def)
    have p2: "dserving (rid r) ?cc c H rs (gpost ?q (rid r) GSendUp (gput ?cc s))"
        "toks (rid r) rs (gpost ?q (rid r) GSendUp (gput ?cc s)) = {#TSqe \<lparr>q_req = ?q, q_id = rid r, q_op = GSendUp\<rparr>#}"
      using dserving_post [OF p1(1), of GSendUp ?q] p1(2) z by (simp_all add: conn_bufs_def fresh_conn_def)
    have "dslot c (mem s) (H (rid r)) (Some ?cc) {#TSqe \<lparr>q_req = ?q, q_id = rid r, q_op = GSendUp\<rparr>#}"
      using v p z by (simp add: dserving_def has_request_def fresh_conn_def)
    then have "dinv {} c H rs (gpost ?q (rid r) GSendUp (gput ?cc s))"
      using p2 by (intro dserving_end [OF p2(1)]) (simp del: dslot.simps)
    then show ?thesis using True m i p z by (simp add: g_result_def gpost_send_def has_request_def fresh_conn_def)
  qed
qed

definition relaying :: "relayCfg \<Rightarrow> (nat \<Rightarrow> bytes) \<Rightarrow> gate_conn \<Rightarrow> token multiset \<Rightarrow> bool" where
  "relaying c m cc T \<longleftrightarrow> (\<forall>t\<in>#T. stale t) \<and> c2uBuf cc \<noteq> u2cBuf cc \<and> 0 < c2uBuf cc \<and> 0 < u2cBuf cc \<and>
     length (m (c2uBuf cc)) = nat (bufSize c) \<and> length (m (u2cBuf cc)) = nat (bufSize c)"

lemma dslot_relay:
  "\<not> closing cc \<Longrightarrow> relaying c m cc T \<Longrightarrow> up_phase c m h cc (filter_mset up_op T) \<Longrightarrow> down_phase c m h cc (filter_mset down_op T) \<Longrightarrow>
   \<not> (clientReadDone cc \<and> upstreamReadDone cc) \<Longrightarrow> dslot c m h (Some cc) T"
  by (simp add: relay_phase_def relaying_def)

lemma start_duplex_two_way:
  assumes c: "two_way c"
  shows "start_duplex c cc s =
    (let b1 = nextAddr s; b2 = Suc b1; n = replicate (nat (bufSize c)) 0; cc = cc\<lparr>c2uBuf := b1, u2cBuf := b2\<rparr>;
         s = gput cc (s\<lparr>mem := (mem s)(b1 := n, b2 := n), nextAddr := Suc b2\<rparr>);
         s = gpost (QRecv (clientFD cc) b1 0 (nat (bufSize c))) (cid cc) GC2URecv s
     in Some (gpost (QRecv (upstreamFD cc) b2 0 (nat (bufSize c))) (cid cc) GU2CRecv s))"
  using c by (simp add: start_duplex_def two_way_def galloc_def gpost_recv_def Let_def)

text \<open>Two fresh buffers for the connection that is served.\<close>

lemma dserving_new_bufs:
  assumes v: "dserving i cc0 c H rs s" and n: "0 \<le> n" and cc: "cid cc = i" "\<not> closing cc"
    and bf: "conn_bufs cc \<subseteq> {nextAddr s, Suc (nextAddr s)} \<union> conn_bufs cc0"
  defines "s' \<equiv> gput cc (s\<lparr>mem := (mem s)(nextAddr s := replicate (nat n) 0, Suc (nextAddr s) := replicate (nat n) 0),
      nextAddr := Suc (Suc (nextAddr s))\<rparr>)"
  shows "dserving i cc c H rs s'" and "toks i rs s' = toks i rs s" and "0 < nextAddr s"
proof -
  have g: "dinv {i} c H rs s" and m: "map_of (conns s) i = Some cc0" using v by (auto simp: dserving_def)
  obtain s1 where a1: "galloc n s = Some (nextAddr s, s1)" using n by (simp add: galloc_def)
  obtain s2 where a2: "galloc n s1 = Some (nextAddr s1, s2)" using n by (simp add: galloc_def)
  note g1 = dinv_alloc [OF g a1]
  note g2 = dinv_alloc [OF g1(1) a2]
  have s2: "s' = gput cc s2" "conns s2 = conns s" "nextID s2 = nextID s" "nextAddr s1 = Suc (nextAddr s)"
    using a1 a2 by (auto simp: galloc_eq s'_def)
  have "dinv {i} c H rs (gput cc s2)"
    by (rule dinv_put_new [OF g2(1), where B = "{nextAddr s, Suc (nextAddr s)}"])
      (use cc dserving_ids [OF v] s2 m bf g2(2) unused_alloc [OF g1(2) a2] in auto)
  then show "dserving i cc c H rs s'" using v cc s2 by (simp add: dserving_def update_conv')
  show "toks i rs s' = toks i rs s" by (rule toks_cong) (simp_all add: s'_def)
  show "0 < nextAddr s" using g by (simp add: dinv_def owned_pos)
qed

lemma d_sendUp:
  assumes v: "dserving i cc c H rs s" and T: "toks i rs s = {#}"
    and h: "prefix (sent_u (H i)) (recvd_c (H i))" "recvd_u (H i) = []" "sent_c (H i) = []"
    and w: "0 \<le> res \<Longrightarrow> recvd_c (H i) = sent_u (H i)" and nc: "\<not> clientReadDone cc" "\<not> upstreamReadDone cc"
  shows "\<exists>s'. g_sendUp c pipes i res s = Some s' \<and> dinv {} c H rs s'"
proof (cases "res < 0")
  case True
  have m: "map_of (conns s) i = Some cc" and i: "cid cc = i" using v dserving_ids [OF v] by (auto simp: dserving_def)
  have "dserving i cc c H rs (gcount_err s)" by (rule dserving_cong [OF v]) simp_all
  moreover have "toks i rs (gcount_err s) = {#}" using T toks_cong [of "gcount_err s" s] by simp
  ultimately have "dinv {} c H rs (gcloseConn c cc (gcount_err s))"
    using v i h by (intro dserving_close) (auto simp: dserving_def intro!: dirs_ok_none)
  then show ?thesis using True by (simp add: g_sendUp_def gwith_Some [OF m])
next
  case False
  have m: "map_of (conns s) i = Some cc" and i: "cid cc = i" and c: "two_way c" and n: "\<not> closing cc"
    using v dserving_ids [OF v] by (auto simp: dserving_def)
  let ?b1 = "nextAddr s" and ?b2 = "Suc (nextAddr s)" and ?n = "replicate (nat (bufSize c)) (0 :: u8)"
  define cc1 where "cc1 = cc\<lparr>c2uBuf := ?b1, u2cBuf := ?b2\<rparr>"
  define s1 where "s1 = gput cc1 (s\<lparr>mem := (mem s)(?b1 := ?n, ?b2 := ?n), nextAddr := Suc ?b2\<rparr>)"
  define q1 where "q1 = QRecv (clientFD cc1) ?b1 0 (nat (bufSize c))"
  define q2 where "q2 = QRecv (upstreamFD cc1) ?b2 0 (nat (bufSize c))"
  have c1: "cid cc1 = i" "\<not> closing cc1" "conn_bufs cc1 \<subseteq> {?b1, ?b2} \<union> conn_bufs cc"
    using i n by (auto simp: cc1_def conn_bufs_def)
  have v1: "dserving i cc1 c H rs s1" "toks i rs s1 = {#}" and p: "0 < ?b1"
    using dserving_new_bufs [OF v _ c1, of "bufSize c"] T c by (simp_all add: s1_def two_way_def)
  have qs: "q_addr q1 \<subseteq> conn_bufs cc1" "q_addr q2 \<subseteq> conn_bufs cc1"
    using p by (simp_all add: q1_def q2_def conn_bufs_def cc1_def)
  note v2 = dserving_post [OF v1(1) _ qs(1), of GC2URecv, simplified]
  note v3 = dserving_post [OF v2(1) _ qs(2), of GU2CRecv, simplified]
  have "dinv {} c H rs (gpost q2 i GU2CRecv (gpost q1 i GC2URecv s1))"
  proof (rule dserving_end [OF v3(1)], rule dslot_relay)
    have T3: "toks i rs (gpost q2 i GU2CRecv (gpost q1 i GC2URecv s1)) =
        {#TSqe \<lparr>q_req = q1, q_id = i, q_op = GC2URecv\<rparr>, TSqe \<lparr>q_req = q2, q_id = i, q_op = GU2CRecv\<rparr>#}"
      using v1(2) by simp
    have M: "mem (gpost q2 i GU2CRecv (gpost q1 i GC2URecv s1)) = (mem s)(?b1 := ?n, ?b2 := ?n)" by (simp add: s1_def)
    show "relaying c (mem (gpost q2 i GU2CRecv (gpost q1 i GC2URecv s1))) cc1 (toks i rs (gpost q2 i GU2CRecv (gpost q1 i GC2URecv s1)))"
      unfolding T3 M using p by (simp add: relaying_def stale_def cc1_def)
    show "up_phase c (mem (gpost q2 i GU2CRecv (gpost q1 i GC2URecv s1))) (H i) cc1
        (filter_mset up_op (toks i rs (gpost q2 i GU2CRecv (gpost q1 i GC2URecv s1))))"
      unfolding T3 M using w False nc by (simp add: up_phase_def q1_def cc1_def)
    show "down_phase c (mem (gpost q2 i GU2CRecv (gpost q1 i GC2URecv s1))) (H i) cc1
        (filter_mset down_op (toks i rs (gpost q2 i GU2CRecv (gpost q1 i GC2URecv s1))))"
      unfolding T3 M using h nc by (simp add: down_phase_def q2_def cc1_def)
  qed (use c1 nc in \<open>simp_all add: cc1_def\<close>)
  moreover have "g_sendUp c pipes i res s = Some (gpost q2 i GU2CRecv (gpost q1 i GC2URecv s1))"
    using False c i by (simp add: g_sendUp_def gwith_Some [OF m] start_duplex_two_way Let_def s1_def q1_def q2_def cc1_def two_way_def)
  ultimately show ?thesis by blast
qed

section \<open>Client to upstream\<close>

text \<open>The client's direction has just lost its entry: the upstream's direction is as it was.\<close>

definition up_turn :: "nat \<Rightarrow> gate_conn \<Rightarrow> relayCfg \<Rightarrow> (nat \<Rightarrow> flow) \<Rightarrow> gate_result list \<Rightarrow> gate_worker \<Rightarrow> bool" where
  "up_turn i cc c H rs s \<longleftrightarrow> dserving i cc c H rs s \<and> relaying c (mem s) cc (toks i rs s) \<and> \<not> clientReadDone cc \<and>
     filter_mset up_op (toks i rs s) = {#} \<and> down_phase c (mem s) (H i) cc (filter_mset down_op (toks i rs s))"

lemma down_phase_dir: "down_phase c m h cc T \<Longrightarrow> down_dir m h T"
  by (auto simp: down_phase_def down_dir_def relay_entry_def)

lemma up_phase_dir: "up_phase c m h cc T \<Longrightarrow> up_dir m h T"
  by (auto simp: up_phase_def up_dir_def relay_entry_def)

lemma up_turn_close:
  assumes v: "up_turn i cc c H rs s" and p: "prefix (sent_u (H i)) (recvd_c (H i))"
    and s': "conns s' = conns s" "connFree s' = connFree s" "mem s' = mem s" "nextAddr s' = nextAddr s"
      "nextID s' = nextID s" "sq s' = sq s" "jobs s' = jobs s"
    and cc': "cid cc' = i" "\<not> closing cc'" "conn_bufs cc' \<subseteq> conn_bufs cc"
  shows "dinv {} c H rs (gcloseConn c cc' s')"
proof -
  have t: "toks i rs s' = toks i rs s" by (rule toks_cong [OF s'(6,7)])
  have "dirs_ok (mem s) (H i) (toks i rs s)"
    using v p down_phase_dir by (auto simp: up_turn_def dirs_ok_def up_dir_def)
  moreover have "dserving i cc c H rs s'" using v s' by (auto simp: up_turn_def intro: dserving_cong)
  ultimately show ?thesis using v cc' by (intro dserving_close) (auto simp: t s' up_turn_def relaying_def)
qed

text \<open>Storing the connection and posting its next entry of this direction.\<close>

lemma up_turn_post:
  assumes v: "up_turn i cc c H rs s" and cc': "cc' = cc\<lparr>bytesC2U := b, c2uOff := off, c2uEnd := e\<rparr>"
    and q: "q_addr q = {c2uBuf cc}" and o': "up_op (TSqe \<lparr>q_req = q, q_id = i, q_op = o'\<rparr>)"
    and ph: "up_phase c (mem s) (H i) cc' {#TSqe \<lparr>q_req = q, q_id = i, q_op = o'\<rparr>#}"
  shows "dinv {} c H rs (gpost q i o' (gput cc' s))"
proof -
  let ?t = "TSqe \<lparr>q_req = q, q_id = i, q_op = o'\<rparr>"
  have d: "dserving i cc c H rs s" and r: "relaying c (mem s) cc (toks i rs s)" using v by (auto simp: up_turn_def)
  have f: "cid cc' = i" "\<not> closing cc'" "conn_bufs cc' = conn_bufs cc" "c2uBuf cc \<in> conn_bufs cc"
      "\<not> (clientReadDone cc' \<and> upstreamReadDone cc')"
    using dserving_ids [OF d] d r v by (auto simp: cc' dserving_def conn_bufs_def relaying_def up_turn_def)
  note p = dserving_put [OF d f(1,2)]
  have co: "conn_op o'" using o' by auto
  note p' = dserving_post [OF p(1) co, of q]
  have T: "toks i rs (gpost q i o' (gput cc' s)) = add_mset ?t (toks i rs s)"
    using p p' q f by simp
  have M: "mem (gpost q i o' (gput cc' s)) = mem s" by simp
  show ?thesis
  proof (rule dserving_end [OF _ dslot_relay])
    show "dserving i cc' c H rs (gpost q i o' (gput cc' s))" using p p' q f by simp
    show "relaying c (mem (gpost q i o' (gput cc' s))) cc' (toks i rs (gpost q i o' (gput cc' s)))"
      unfolding T M using r o' by (auto simp: relaying_def cc' stale_def)
    show "up_phase c (mem (gpost q i o' (gput cc' s))) (H i) cc' (filter_mset up_op (toks i rs (gpost q i o' (gput cc' s))))"
      unfolding T M using ph o' v by (simp add: up_turn_def del: filter_mset_eq_mempty_iff)
    show "down_phase c (mem (gpost q i o' (gput cc' s))) (H i) cc' (filter_mset down_op (toks i rs (gpost q i o' (gput cc' s))))"
      unfolding T M using o' up_not_down [OF o'] v by (simp add: up_turn_def cc' down_phase_def del: filter_mset_eq_mempty_iff)
  qed (use f in auto)
qed

lemma gwith_open_Some: "map_of (conns s) i = Some cc \<Longrightarrow> \<not> closing cc \<Longrightarrow> gwith_open i s f = f cc"
  by (simp add: gwith_open_def gwith_def)

lemma up_turn_facts:
  "up_turn i cc c H rs s \<Longrightarrow> map_of (conns s) i = Some cc \<and> \<not> closing cc \<and> cid cc = i \<and> 0 < bufSize c \<and>
    length (mem s (c2uBuf cc)) = nat (bufSize c)"
  using dserving_ids by (auto simp: up_turn_def dserving_def two_way_def relaying_def)

lemma d_c2uRecv:
  assumes v: "up_turn i cc c H rs s" and r: "res \<le> bufSize c"
    and h: "recvd_c (H i) = sent_u (H i) @ take (nat res) (mem s (c2uBuf cc))"
  shows "\<exists>s'. g_c2uRecv c i res s = Some s' \<and> dinv {} c H rs s'"
proof -
  note f = up_turn_facts [OF v]
  have e: "gwith_open i s g = g cc" for g using gwith_open_Some f by blast
  consider "res < 0" | "res = 0" "upstreamReadDone cc" | "res = 0" "\<not> upstreamReadDone cc" | "0 < res" by linarith
  then show ?thesis
  proof cases
    case 1
    have "dinv {} c H rs (gcloseConn c cc s)" by (rule up_turn_close [OF v]) (use f h in simp_all)
    then show ?thesis using 1 by (simp add: g_c2uRecv_def e)
  next
    case 2
    have "dinv {} c H rs (gcloseConn c (cc\<lparr>clientReadDone := True\<rparr>) (gcall (DShutdown (upstreamFD cc)) s))"
      by (rule up_turn_close [OF v]) (use f h in \<open>simp_all add: conn_bufs_def\<close>)
    then show ?thesis using 2 by (simp add: g_c2uRecv_def e)
  next
    case 3
    let ?cc = "cc\<lparr>clientReadDone := True\<rparr>" and ?s = "gcall (DShutdown (upstreamFD cc)) s"
    have d: "dserving i cc c H rs ?s" using v by (auto simp: up_turn_def intro: dserving_cong)
    have t: "toks i rs (gput ?cc ?s) = toks i rs s" by (rule toks_cong) simp_all
    note p = dserving_put [OF d, of ?cc]
    have "dinv {} c H rs (gput ?cc ?s)"
    proof (rule dserving_end [OF p(1) dslot_relay])
      show "up_phase c (mem (gput ?cc ?s)) (H i) ?cc (filter_mset up_op (toks i rs (gput ?cc ?s)))"
        using v 3 h f by (simp add: t up_phase_def up_turn_def)
      show "down_phase c (mem (gput ?cc ?s)) (H i) ?cc (filter_mset down_op (toks i rs (gput ?cc ?s)))"
        using v f by (simp add: t up_turn_def down_phase_def conn_bufs_def del: filter_mset_eq_mempty_iff)
      show "relaying c (mem (gput ?cc ?s)) ?cc (toks i rs (gput ?cc ?s))"
        using v f by (simp add: t up_turn_def relaying_def conn_bufs_def)
    qed (use 3 f in \<open>auto simp: conn_bufs_def\<close>)
    then show ?thesis using 3 by (simp add: g_c2uRecv_def e)
  next
    case 4
    let ?cc = "cc\<lparr>bytesC2U := bytesC2U cc + word_of_int res, c2uOff := 0, c2uEnd := nat res\<rparr>"
    have "dinv {} c H rs (gpost (QSend (upstreamFD cc) (c2uBuf cc) 0 (nat res)) i GC2USend (gput ?cc s))"
      by (rule up_turn_post [OF v refl]) (use 4 v r h f in \<open>simp_all add: up_phase_def up_turn_def nat_mono\<close>)
    then show ?thesis using 4 f r by (simp add: g_c2uRecv_def e gpost_send_def nat_mono)
  qed
qed

lemma slice_split: "k \<le> e - off \<Longrightarrow> drop k (slice xs off e) = slice xs (off + k) e"
  by (simp add: slice_def drop_take ac_simps)

lemma d_c2uSend:
  assumes v: "up_turn i cc c H rs s" and p: "prefix (sent_u (H i)) (recvd_c (H i))"
    and r: "0 < res \<Longrightarrow> c2uOff cc + nat res \<le> c2uEnd cc" "c2uEnd cc \<le> nat (bufSize c)"
    and h: "0 < res \<Longrightarrow> recvd_c (H i) = sent_u (H i) @ slice (mem s (c2uBuf cc)) (c2uOff cc + nat res) (c2uEnd cc)"
  shows "\<exists>s'. g_c2uSend c i res s = Some s' \<and> dinv {} c H rs s'"
proof -
  note f = up_turn_facts [OF v]
  have e: "gwith_open i s g = g cc" for g using gwith_open_Some f by blast
  have nc: "\<not> clientReadDone cc" using v by (simp add: up_turn_def)
  let ?cc = "cc\<lparr>c2uOff := c2uOff cc + nat res\<rparr>"
  have cc: "?cc = cc\<lparr>bytesC2U := bytesC2U cc, c2uOff := c2uOff cc + nat res, c2uEnd := c2uEnd cc\<rparr>" by simp
  consider "res \<le> 0" | "0 < res" "c2uOff cc + nat res < c2uEnd cc" | "0 < res" "\<not> c2uOff cc + nat res < c2uEnd cc" by linarith
  then show ?thesis
  proof cases
    case 1
    have "dinv {} c H rs (gcloseConn c cc s)" by (rule up_turn_close [OF v p]) (use f in simp_all)
    then show ?thesis using 1 by (simp add: g_c2uSend_def e)
  next
    case 2
    let ?q = "QSend (upstreamFD cc) (c2uBuf cc) (c2uOff cc + nat res) (c2uEnd cc - (c2uOff cc + nat res))"
    have "dinv {} c H rs (gpost ?q i GC2USend (gput ?cc s))"
      by (rule up_turn_post [OF v cc]) (use 2 r h nc in \<open>simp_all add: up_phase_def\<close>)
    then show ?thesis using 2 f r by (simp add: g_c2uSend_def e gpost_send_def Let_def)
  next
    case 3
    have "dinv {} c H rs (gpost (QRecv (clientFD cc) (c2uBuf cc) 0 (nat (bufSize c))) i GC2URecv (gput ?cc s))"
      by (rule up_turn_post [OF v cc]) (use 3 r h nc in \<open>simp_all add: up_phase_def\<close>)
    then show ?thesis using 3 f nc by (simp add: g_c2uSend_def e gpost_recv_def Let_def)
  qed
qed

section \<open>Upstream to client\<close>

text \<open>The upstream's direction has just lost its entry: the client's direction is as it was.\<close>

definition down_turn :: "nat \<Rightarrow> gate_conn \<Rightarrow> relayCfg \<Rightarrow> (nat \<Rightarrow> flow) \<Rightarrow> gate_result list \<Rightarrow> gate_worker \<Rightarrow> bool" where
  "down_turn i cc c H rs s \<longleftrightarrow> dserving i cc c H rs s \<and> relaying c (mem s) cc (toks i rs s) \<and> \<not> upstreamReadDone cc \<and>
     filter_mset down_op (toks i rs s) = {#} \<and> up_phase c (mem s) (H i) cc (filter_mset up_op (toks i rs s))"

lemma down_turn_close:
  assumes v: "down_turn i cc c H rs s" and p: "prefix (sent_c (H i)) (recvd_u (H i))"
    and s': "conns s' = conns s" "connFree s' = connFree s" "mem s' = mem s" "nextAddr s' = nextAddr s"
      "nextID s' = nextID s" "sq s' = sq s" "jobs s' = jobs s"
    and cc': "cid cc' = i" "\<not> closing cc'" "conn_bufs cc' \<subseteq> conn_bufs cc"
  shows "dinv {} c H rs (gcloseConn c cc' s')"
proof -
  have t: "toks i rs s' = toks i rs s" by (rule toks_cong [OF s'(6,7)])
  have "dirs_ok (mem s) (H i) (toks i rs s)"
    using v p up_phase_dir by (auto simp: down_turn_def dirs_ok_def down_dir_def)
  moreover have "dserving i cc c H rs s'" using v s' by (auto simp: down_turn_def intro: dserving_cong)
  ultimately show ?thesis using v cc' by (intro dserving_close) (auto simp: t s' down_turn_def relaying_def)
qed

text \<open>Storing the connection and posting its next entry of this direction.\<close>

lemma down_turn_post:
  assumes v: "down_turn i cc c H rs s" and cc': "cc' = cc\<lparr>bytesU2C := b, u2cOff := off, u2cEnd := e\<rparr>"
    and q: "q_addr q = {u2cBuf cc}" and o': "down_op (TSqe \<lparr>q_req = q, q_id = i, q_op = o'\<rparr>)"
    and ph: "down_phase c (mem s) (H i) cc' {#TSqe \<lparr>q_req = q, q_id = i, q_op = o'\<rparr>#}"
  shows "dinv {} c H rs (gpost q i o' (gput cc' s))"
proof -
  let ?t = "TSqe \<lparr>q_req = q, q_id = i, q_op = o'\<rparr>"
  have d: "dserving i cc c H rs s" and r: "relaying c (mem s) cc (toks i rs s)" using v by (auto simp: down_turn_def)
  have f: "cid cc' = i" "\<not> closing cc'" "conn_bufs cc' = conn_bufs cc" "u2cBuf cc \<in> conn_bufs cc"
      "\<not> (upstreamReadDone cc' \<and> clientReadDone cc')"
    using dserving_ids [OF d] d r v by (auto simp: cc' dserving_def conn_bufs_def relaying_def down_turn_def)
  note p = dserving_put [OF d f(1,2)]
  have co: "conn_op o'" using o' by auto
  note p' = dserving_post [OF p(1) co, of q]
  have T: "toks i rs (gpost q i o' (gput cc' s)) = add_mset ?t (toks i rs s)"
    using p p' q f by simp
  have M: "mem (gpost q i o' (gput cc' s)) = mem s" by simp
  show ?thesis
  proof (rule dserving_end [OF _ dslot_relay])
    show "dserving i cc' c H rs (gpost q i o' (gput cc' s))" using p p' q f by simp
    show "relaying c (mem (gpost q i o' (gput cc' s))) cc' (toks i rs (gpost q i o' (gput cc' s)))"
      unfolding T M using r o' by (auto simp: relaying_def cc' stale_def)
    show "down_phase c (mem (gpost q i o' (gput cc' s))) (H i) cc' (filter_mset down_op (toks i rs (gpost q i o' (gput cc' s))))"
      unfolding T M using ph o' v by (simp add: down_turn_def del: filter_mset_eq_mempty_iff)
    show "up_phase c (mem (gpost q i o' (gput cc' s))) (H i) cc' (filter_mset up_op (toks i rs (gpost q i o' (gput cc' s))))"
      unfolding T M using o' down_not_up [OF o'] v by (simp add: down_turn_def cc' up_phase_def del: filter_mset_eq_mempty_iff)
  qed (use f in auto)
qed

lemma down_turn_facts:
  "down_turn i cc c H rs s \<Longrightarrow> map_of (conns s) i = Some cc \<and> \<not> closing cc \<and> cid cc = i \<and> 0 < bufSize c \<and>
    length (mem s (u2cBuf cc)) = nat (bufSize c)"
  using dserving_ids by (auto simp: down_turn_def dserving_def two_way_def relaying_def)

lemma d_u2cRecv:
  assumes v: "down_turn i cc c H rs s" and r: "res \<le> bufSize c"
    and h: "recvd_u (H i) = sent_c (H i) @ take (nat res) (mem s (u2cBuf cc))"
  shows "\<exists>s'. g_u2cRecv c i res s = Some s' \<and> dinv {} c H rs s'"
proof -
  note f = down_turn_facts [OF v]
  have e: "gwith_open i s g = g cc" for g using gwith_open_Some f by blast
  consider "res < 0" | "res = 0" "clientReadDone cc" | "res = 0" "\<not> clientReadDone cc" | "0 < res" by linarith
  then show ?thesis
  proof cases
    case 1
    have "dinv {} c H rs (gcloseConn c cc s)" by (rule down_turn_close [OF v]) (use f h in simp_all)
    then show ?thesis using 1 by (simp add: g_u2cRecv_def e)
  next
    case 2
    have "dinv {} c H rs (gcloseConn c (cc\<lparr>upstreamReadDone := True\<rparr>) (gcall (DShutdown (clientFD cc)) s))"
      by (rule down_turn_close [OF v]) (use f h in \<open>simp_all add: conn_bufs_def\<close>)
    then show ?thesis using 2 by (simp add: g_u2cRecv_def e)
  next
    case 3
    let ?cc = "cc\<lparr>upstreamReadDone := True\<rparr>" and ?s = "gcall (DShutdown (clientFD cc)) s"
    have d: "dserving i cc c H rs ?s" using v by (auto simp: down_turn_def intro: dserving_cong)
    have t: "toks i rs (gput ?cc ?s) = toks i rs s" by (rule toks_cong) simp_all
    note p = dserving_put [OF d, of ?cc]
    have "dinv {} c H rs (gput ?cc ?s)"
    proof (rule dserving_end [OF p(1) dslot_relay])
      show "down_phase c (mem (gput ?cc ?s)) (H i) ?cc (filter_mset down_op (toks i rs (gput ?cc ?s)))"
        using v 3 h f by (simp add: t down_phase_def down_turn_def)
      show "up_phase c (mem (gput ?cc ?s)) (H i) ?cc (filter_mset up_op (toks i rs (gput ?cc ?s)))"
        using v f by (simp add: t down_turn_def up_phase_def conn_bufs_def del: filter_mset_eq_mempty_iff)
      show "relaying c (mem (gput ?cc ?s)) ?cc (toks i rs (gput ?cc ?s))"
        using v f by (simp add: t down_turn_def relaying_def conn_bufs_def)
    qed (use 3 f in \<open>auto simp: conn_bufs_def\<close>)
    then show ?thesis using 3 by (simp add: g_u2cRecv_def e)
  next
    case 4
    let ?cc = "cc\<lparr>bytesU2C := bytesU2C cc + word_of_int res, u2cOff := 0, u2cEnd := nat res\<rparr>"
    have "dinv {} c H rs (gpost (QSend (clientFD cc) (u2cBuf cc) 0 (nat res)) i GU2CSend (gput ?cc s))"
      by (rule down_turn_post [OF v refl]) (use 4 v r h f in \<open>simp_all add: down_phase_def down_turn_def nat_mono\<close>)
    then show ?thesis using 4 f r by (simp add: g_u2cRecv_def e gpost_send_def nat_mono)
  qed
qed

lemma d_u2cSend:
  assumes v: "down_turn i cc c H rs s" and p: "prefix (sent_c (H i)) (recvd_u (H i))"
    and r: "0 < res \<Longrightarrow> u2cOff cc + nat res \<le> u2cEnd cc" "u2cEnd cc \<le> nat (bufSize c)"
    and h: "0 < res \<Longrightarrow> recvd_u (H i) = sent_c (H i) @ slice (mem s (u2cBuf cc)) (u2cOff cc + nat res) (u2cEnd cc)"
  shows "\<exists>s'. g_u2cSend c i res s = Some s' \<and> dinv {} c H rs s'"
proof -
  note f = down_turn_facts [OF v]
  have e: "gwith_open i s g = g cc" for g using gwith_open_Some f by blast
  have nc: "\<not> upstreamReadDone cc" using v by (simp add: down_turn_def)
  let ?cc = "cc\<lparr>u2cOff := u2cOff cc + nat res\<rparr>"
  have cc: "?cc = cc\<lparr>bytesU2C := bytesU2C cc, u2cOff := u2cOff cc + nat res, u2cEnd := u2cEnd cc\<rparr>" by simp
  consider "res \<le> 0" | "0 < res" "u2cOff cc + nat res < u2cEnd cc" | "0 < res" "\<not> u2cOff cc + nat res < u2cEnd cc" by linarith
  then show ?thesis
  proof cases
    case 1
    have "dinv {} c H rs (gcloseConn c cc s)" by (rule down_turn_close [OF v p]) (use f in simp_all)
    then show ?thesis using 1 by (simp add: g_u2cSend_def e)
  next
    case 2
    let ?q = "QSend (clientFD cc) (u2cBuf cc) (u2cOff cc + nat res) (u2cEnd cc - (u2cOff cc + nat res))"
    have "dinv {} c H rs (gpost ?q i GU2CSend (gput ?cc s))"
      by (rule down_turn_post [OF v cc]) (use 2 r h nc in \<open>simp_all add: down_phase_def\<close>)
    then show ?thesis using 2 f r by (simp add: g_u2cSend_def e gpost_send_def Let_def)
  next
    case 3
    have "dinv {} c H rs (gpost (QRecv (upstreamFD cc) (u2cBuf cc) 0 (nat (bufSize c))) i GU2CRecv (gput ?cc s))"
      by (rule down_turn_post [OF v cc]) (use 3 r h nc in \<open>simp_all add: down_phase_def\<close>)
    then show ?thesis using 3 f nc by (simp add: g_u2cSend_def e gpost_recv_def Let_def)
  qed
qed

end
