(* ===== verification/Gate_Duplex_Reach.thy ===== *)
theory Gate_Duplex_Reach
  imports Gate_Duplex_Handlers
begin

text \<open>
  The invariant of the benchmark relay with \<open>-duplex\<close> holds in every reachable state, over the flows without what the
  kernel did not take of the initial request; when it took all of it, these are the flows of the log.
\<close>

section \<open>The last close\<close>

lemma d_close:
  assumes g: "dinv {i} c H rs s" and cc: "map_of (conns s) i = Some cc" "closing cc" and c: "two_way c"
    and k: "closesLeft cc = int (size (filter_mset close_tok (toks i rs s))) + 1" "\<forall>t\<in>#toks i rs s. stale t \<or> close_tok t"
    and h: "dirs_ok (mem s) (H i) (toks i rs s)"
  shows "\<exists>s'. g_close c i s = Some s' \<and> dinv {} c H rs s'"
proof -
  define cc1 where "cc1 = cc\<lparr>closesLeft := closesLeft cc - 1\<rparr>"
  define s1 where "s1 = gput cc1 s"
  have i: "cid cc1 = i" "closing cc1" using dinv_ids [OF g cc(1)] cc by (simp_all add: cc1_def)
  have g1: "dinv {i} c H rs s1" unfolding s1_def by (rule dinv_put [OF g cc(1) i(1)]) (simp add: cc1_def conn_bufs_def)
  have m1: "map_of (conns s1) i = Some cc1" "mem s1 = mem s" by (simp_all add: s1_def i update_conv')
  have T1: "toks i rs s1 = toks i rs s" by (rule toks_cong) (simp_all add: s1_def)
  have e: "g_close c i s = Some (if closesLeft cc1 \<le> 0 then putConn c cc1 (s1\<lparr>conns := AList.delete i (conns s1)\<rparr>) else s1)"
    by (simp add: g_close_def gwith_Some [OF cc(1)] Let_def cc1_def s1_def)
  show ?thesis
  proof (cases "filter_mset close_tok (toks i rs s) = {#}")
    case True
    let ?s = "putConn c cc1 (s1\<lparr>conns := AList.delete i (conns s1)\<rparr>)"
    have d: "duplex c" using c by (simp add: two_way_def)
    then have p: "?s = s1\<lparr>conns := AList.delete i (conns s1)\<rparr>" by (simp add: putConn_def)
    have T: "toks i rs ?s = toks i rs s" using T1 toks_cong [of ?s s1] by (simp add: p)
    have "\<forall>t\<in>#toks i rs s. stale t" using k(2) True by auto
    then have "dinv {} c H rs ?s"
      using h by (intro dinv_restore [OF dinv_drop [OF g1 d]]) (simp add: T, simp add: p delete_conv' m1)
    then show ?thesis using e True k by (simp add: cc1_def del: filter_mset_eq_mempty_iff)
  next
    case False
    then have "0 < size (filter_mset close_tok (toks i rs s))" by (simp add: nonempty_has_size del: filter_mset_eq_mempty_iff)
    with k i h have "dinv {} c H rs s1" by (intro dinv_restore [OF g1]) (simp add: m1 T1, simp add: cc1_def)
    then show ?thesis using e k False by (simp add: cc1_def del: filter_mset_eq_mempty_iff)
  qed
qed

section \<open>A new connection\<close>

lemma dinv_next:
  assumes g: "dinv {} c H rs s" and n: "n = Suc (nextID s)"
  shows "dinv {n} c H rs (s\<lparr>nextID := n\<rparr>)" "map_of (conns s) n = None" "toks n rs s = {#}" "H n = no_flow"
proof -
  show "map_of (conns s) n = None" using n dinv_ids [OF g, of n] by (cases "map_of (conns s) n") auto
  show "toks n rs s = {#}" "H n = no_flow" using g n by (simp_all add: dinv_def)
  have k: "toks j rs (s\<lparr>nextID := m\<rparr>) = toks j rs s" for j m by (rule toks_cong) simp_all
  have "table_ok (s\<lparr>nextID := n\<rparr>)" using g n by (auto simp: dinv_def table_ok_def intro: le_SucI)
  moreover have "owned (s\<lparr>nextID := n\<rparr>)" using g by (simp add: dinv_def owned_def)
  ultimately show "dinv {n} c H rs (s\<lparr>nextID := n\<rparr>)" using g n by (simp add: dinv_def k)
qed

lemma getConn_two_way:
  assumes g: "dinv {} c H rs s" and c: "two_way c" and n: "n = Suc (nextID s)"
  shows "\<exists>cc s'. getConn c (s\<lparr>nextID := n\<rparr>) = Some (cc, s') \<and> nextID s' = n \<and> reqBuf cc \<noteq> 0 \<and>
    (let cc = cc\<lparr>cid := n, clientFD := f\<rparr> in
       dserving n cc c H rs (gput cc s') \<and> toks n rs (gput cc s') = {#} \<and> fresh_conn c (mem s') cc)"
proof -
  let ?s = "s\<lparr>nextID := n\<rparr>"
  have m: "duplex c" "0 \<le> reqLen c" "0 \<le> replyLen c" using c by (simp_all add: two_way_def)
  obtain b1 s1 where a1: "galloc (reqLen c) ?s = Some (b1, s1)" using m by (simp add: galloc_def)
  obtain b2 s2 where a2: "galloc (replyLen c) s1 = Some (b2, s2)" using m by (simp add: galloc_def)
  note nx = dinv_next [OF g n]
  note g1 = dinv_alloc [OF nx(1) a1]
  note g2 = dinv_alloc [OF g1(1) a2]
  note u = unused_alloc [OF g1(2) a2]
  define cc where "cc = (blank_conn b1 b2)\<lparr>cid := n, clientFD := f\<rparr>"
  have s2: "conns s2 = conns s" "nextID s2 = n" "sq s2 = sq s" "jobs s2 = jobs s" "mem s1 b1 = replicate (nat (reqLen c)) 0"
    using a1 a2 by (auto simp: galloc_eq)
  have cb: "cid cc = n" "\<not> closing cc" "reqBuf cc = b1" "\<not> clientReadDone cc" "\<not> upstreamReadDone cc" "conn_bufs cc \<subseteq> {b1, b2}"
    by (auto simp: cc_def blank_conn_def conn_bufs_def)
  have "dinv {n} c H rs (gput cc s2)"
    by (rule dinv_put_new [OF g2(1), where B = "{b1, b2}"]) (use cb n s2 u g2(2) in auto)
  then have "dserving n cc c H rs (gput cc s2)" using c cb s2 by (simp add: dserving_def update_conv')
  moreover have "toks n rs (gput cc s2) = {#}" using nx(3) toks_cong [of "gput cc s2" s n rs] s2 by simp
  moreover have "fresh_conn c (mem s2) cc" "b1 \<noteq> 0" using u cb s2 by (auto simp: fresh_conn_def unused_def)
  moreover have "getConn c ?s = Some (blank_conn b1 b2, s2)" using m a1 a2 by (simp add: getConn_def)
  ultimately show ?thesis using s2 by (auto simp: cc_def blank_conn_def)
qed

lemma d_accept:
  assumes g: "dinv {} c H rs s" and c: "two_way c"
  shows "\<exists>s'. g_accept c k res s = Some s' \<and> dinv {} c H rs s'"
proof -
  define s1 where "s1 = taken k s"
  define s2 where "s2 = s1\<lparr>accepted := accepted s1 + 1, gAccepted := gAccepted s1 + 1\<rparr>"
  have g2: "dinv {} c H rs s2" and ge: "dinv {} c H rs (gcount_err s1)"
    and gs: "dinv {} c H rs (gpost (QClose res) 0 GClose (s2\<lparr>shed := shed s2 + 1\<rparr>))"
    by (auto intro!: dinv_post_idle dinv_cong [OF g] simp: taken_def s1_def s2_def entry_ok_def)
  obtain cc s' where e: "getConn c (s2\<lparr>nextID := Suc (nextID s2)\<rparr>) = Some (cc, s')" "nextID s' = Suc (nextID s2)" "reqBuf cc \<noteq> 0"
    and v: "let cc' = cc\<lparr>cid := Suc (nextID s2), clientFD := res\<rparr> in dserving (Suc (nextID s2)) cc' c H rs (gput cc' s') \<and>
              toks (Suc (nextID s2)) rs (gput cc' s') = {#} \<and> fresh_conn c (mem s') cc'"
    using getConn_two_way [OF g2 c refl] by blast
  let ?n = "Suc (nextID s2)"
  define cc' where "cc' = cc\<lparr>cid := ?n, clientFD := res\<rparr>"
  have v': "dserving ?n cc' c H rs (gput cc' s')" "toks ?n rs (gput cc' s') = {#}" "fresh_conn c (mem s') cc'"
    using v unfolding Let_def cc'_def by blast+
  have z: "reqBuf cc' = reqBuf cc" "length (mem s' (reqBuf cc)) = nat (reqLen c)" "0 < reqLen c" "clientFD cc' = res"
    using v'(3) c by (simp_all add: fresh_conn_def cc'_def two_way_def)
  let ?q = "QRecv res (reqBuf cc) 0 (nat (reqLen c))"
  note p = dserving_post [OF v'(1), of GRecvReq ?q]
  have "dinv {} c H rs (gpost ?q ?n GRecvReq (gput cc' s'))"
  proof (rule dserving_end [OF p(1)])
    have "dslot c (mem s') (H ?n) (Some cc') {#TSqe \<lparr>q_req = ?q, q_id = ?n, q_op = GRecvReq\<rparr>#}"
      using v' dinv_next(4) [OF g2 refl] z by (simp add: dserving_def)
    then show "dslot c (mem (gpost ?q ?n GRecvReq (gput cc' s'))) (H ?n) (Some cc') (toks ?n rs (gpost ?q ?n GRecvReq (gput cc' s')))"
      using p(2) v'(2) e(3) z by (simp add: conn_bufs_def del: dslot.simps)
  qed (use z e in \<open>simp_all add: conn_bufs_def\<close>)
  moreover have "g_accept c k res s = (if res < 0 then Some (gcount_err s1) else if int (length (conns s2)) \<ge> maxConns c
      then Some (gpost (QClose res) 0 GClose (s2\<lparr>shed := shed s2 + 1\<rparr>))
      else case getConn c (s2\<lparr>nextID := nextID s2 + 1\<rparr>) of None \<Rightarrow> None
        | Some (cc, s) \<Rightarrow> gpost_recv res (reqBuf cc) 0 (length (mem s (reqBuf cc))) (nextID s) GRecvReq
            (gput (cc\<lparr>cid := nextID s, clientFD := res\<rparr>) s))"
    unfolding g_accept_admit admit_def Let_def s1_def [symmetric] s2_def [symmetric] by (simp split: option.splits prod.splits)
  ultimately show ?thesis using ge gs e z by (auto simp: gpost_recv_def cc'_def)
qed

section \<open>Hook results\<close>

lemma dslot_of: "dinv {} c H rs s \<Longrightarrow> 0 < i \<Longrightarrow> dslot c (mem s) (H i) (map_of (conns s) i) (toks i rs s)"
  by (simp add: dinv_def)

text \<open>A queued job or a hook result belongs to an open connection that has not started to relay.\<close>

lemma dslot_waiting:
  assumes g: "dinv {} c H rs s" and i: "0 < i" and t: "t \<in># toks i rs s" and nt: "\<not> stale t" "\<not> close_tok t"
  shows "\<exists>cc. map_of (conns s) i = Some cc \<and> \<not> closing cc \<and> fresh_conn c (mem s) cc \<and> toks i rs s = {#t#} \<and>
    begin_phase c (mem s) (H i) cc t"
proof -
  note d = dslot_of [OF g i]
  show ?thesis
  proof (cases "map_of (conns s) i")
    case None
    then show ?thesis using d t nt by auto
  next
    case (Some cc)
    have "\<not> closing cc" using d t nt Some by (auto split: if_splits)
    moreover have "\<not> relay_phase c (mem s) (H i) cc (toks i rs s)" using t nt by (auto simp: relay_phase_def)
    ultimately show ?thesis using d t Some by auto
  qed
qed

lemma dinv_drop_result:
  assumes g: "dinv {} c H (r # rs) s"
  shows "dinv {rid r} c H rs s"
proof -
  have "toks i rs s = toks i (r # rs) s" if "i \<noteq> rid r" for i using that by (simp add: toks_res_Cons)
  moreover have "toks i rs s = {#}" if "toks i (r # rs) s = {#}" for i using that by (simp add: toks_res_Cons split: if_splits)
  ultimately show ?thesis using g by (simp add: dinv_def)
qed

lemma d_result_step:
  assumes g: "dinv {} c H (r # rs) s" and c: "two_way c"
  shows "\<exists>s'. g_result c r s = Some s' \<and> dinv {} c H rs s'"
proof (cases "rid r = 0")
  case True
  then have g0: "dinv {} c H rs s" using dinv_drop_result [OF g] by (simp add: dinv_zero)
  have "map_of (conns s) (rid r) = None" using dinv_ids [OF g, of 0] True by (cases "map_of (conns s) 0") auto
  then show ?thesis using g0 by (auto simp: g_result_def intro: dinv_cong [OF g0])
next
  case False
  have "TRes r \<in># toks (rid r) (r # rs) s" by (simp add: toks_res_Cons)
  from dslot_waiting [OF g _ this] False obtain cc where cc: "map_of (conns s) (rid r) = Some cc" "\<not> closing cc"
      "fresh_conn c (mem s) cc" "toks (rid r) (r # rs) s = {#TRes r#}" "has_request c (mem s) (H (rid r)) cc"
    by (auto simp: close_tok_def stale_def)
  then have "toks (rid r) rs s = {#}" by (simp add: toks_res_Cons)
  then show ?thesis using cc c dinv_drop_result [OF g] by (intro d_result) (auto simp: dserving_def)
qed

lemma d_results_step:
  "dinv {} c H rs s \<Longrightarrow> two_way c \<Longrightarrow> \<exists>s'. g_results c rs s = Some s' \<and> dinv {} c H [] s'"
proof (induction rs arbitrary: s)
  case (Cons r rs)
  then obtain s1 where "g_result c r s = Some s1" "dinv {} c H rs s1" using d_result_step by blast
  with Cons show ?case by simp
qed simp

lemma d_push:
  assumes g: "dinv {} c H (ready (br s)) s" and j: "j < length (jobs s)" and r: "rid r = jobs s ! j"
  defines "s' \<equiv> s\<lparr>jobs := drop_nth j (jobs s), br := push r (br s)\<rparr>"
  shows "dinv {} c H (ready (br s')) s'"
proof -
  let ?R = "ready (br s)" and ?i = "rid r"
  define s0 where "s0 = s\<lparr>jobs := drop_nth j (jobs s)\<rparr>"
  have m: "mset (jobs s) = add_mset ?i (mset (drop_nth j (jobs s)))" using mset_drop_nth [OF j] r by simp
  have T: "toks k ?R s = (if ?i = k then add_mset (TJob ?i) (toks k ?R s0) else toks k ?R s0)" for k
    by (simp add: toks_def tokens_def m s0_def)
  have T': "toks k (ready (br s')) s' = (if ?i = k then add_mset (TRes r) (toks k ?R s0) else toks k ?R s0)" for k
    by (simp add: s'_def s0_def toks_def tokens_def)
  have f: "conns s' = conns s" "mem s' = mem s" "nextID s' = nextID s" "sq s' = sq s" "connFree s' = connFree s" "nextAddr s' = nextAddr s"
    by (simp_all add: s'_def)
  have "dslot c (mem s) (H k) (map_of (conns s) k) (toks k (ready (br s')) s')" if k: "0 < k" for k
  proof (cases "?i = k")
    case False
    then have "toks k (ready (br s')) s' = toks k ?R s" using T [of k] T' [of k] by simp
    then show ?thesis using dslot_of [OF g k] by simp
  next
    case True
    have "TJob ?i \<in># toks k ?R s" using True by (simp add: T)
    from dslot_waiting [OF g k this] True T [of k] obtain cc where "map_of (conns s) k = Some cc" "\<not> closing cc"
        "toks k ?R s0 = {#}" "has_request c (mem s) (H k) cc" "fresh_conn c (mem s) cc"
      by (auto simp: close_tok_def stale_def)
    then show ?thesis by (simp add: T' True)
  qed
  moreover have "toks k (ready (br s')) s' = {#}" if "toks k ?R s = {#}" for k
    using that by (simp add: T T' split: if_splits)
  ultimately show ?thesis using g by (simp add: dinv_def table_ok_def owned_def f)
qed

section \<open>Taking an entry\<close>

definition alone :: "nat \<Rightarrow> gate_result list \<Rightarrow> gate_worker \<Rightarrow> nat \<Rightarrow> bool" where
  "alone i rs s a \<longleftrightarrow> 0 < a \<and> (\<forall>j t. j \<noteq> i \<longrightarrow> 0 < j \<longrightarrow> t \<in># toks j rs s \<longrightarrow> a \<notin> t_addr t) \<and>
     (\<forall>j cc. j \<noteq> i \<longrightarrow> map_of (conns s) j = Some cc \<longrightarrow> a \<notin> conn_bufs cc)"

lemma owned_alone:
  assumes o: "owned s" and q: "q \<in> set (sq s)" "a \<in> q_addr (q_req q)"
    and s': "set (sq s') \<subseteq> set (sq s)" "conns s' = conns s"
  shows "alone (q_id q) rs s' a"
proof -
  obtain ow where C: "\<And>i cc a. map_of (conns s) i = Some cc \<Longrightarrow> a \<in> conn_bufs cc \<Longrightarrow> a < nextAddr s \<and> ow a = i"
      and Q: "\<And>q a. q \<in> set (sq s) \<Longrightarrow> a \<in> q_addr (q_req q) \<Longrightarrow> 0 < a \<and> a < nextAddr s \<and> ow a = q_id q \<and> 0 < q_id q"
    using o unfolding owned_def by blast
  have "a \<notin> t_addr t" if t: "t \<in># toks j rs s'" "j \<noteq> q_id q" "0 < j" for j t
  proof
    assume "a \<in> t_addr t"
    then obtain q' where q': "q' \<in> set (sq s')" "t = TSqe q'" "a \<in> q_addr (q_req q')" using toks_addr [OF t(1)] by blast
    moreover have "tok_id t = j" using t(1) by (simp add: toks_def)
    ultimately show False using Q [of q' a] Q [OF q] s' t(2,3) by (auto split: if_splits)
  qed
  moreover have "a \<notin> conn_bufs cc" if "map_of (conns s') j = Some cc" "j \<noteq> q_id q" for j cc
    using C [of j cc a] Q [OF q] that s' by auto
  ultimately show ?thesis using Q [OF q] by (auto simp: alone_def)
qed

lemma dinv_take:
  assumes g: "dinv {} c H rs s" and n: "n < length (sq s)" and i: "i = tok_id (TSqe (sq s ! n))"
  defines "s1 \<equiv> s\<lparr>sq := drop_nth n (sq s)\<rparr>"
  shows "dinv {i} c H rs s1" and "toks i rs s = add_mset (TSqe (sq s ! n)) (toks i rs s1)"
    and "\<forall>a\<in>q_addr (q_req (sq s ! n)). alone (q_id (sq s ! n)) rs s1 a"
proof -
  have m: "mset (sq s) = add_mset (sq s ! n) (mset (drop_nth n (sq s)))" by (rule mset_drop_nth [OF n])
  have sub: "set (sq s1) \<subseteq> set (sq s)" using set_drop_nth [of n "sq s"] by (simp add: s1_def)
  show t: "toks i rs s = add_mset (TSqe (sq s ! n)) (toks i rs s1)"
    using i by (simp add: toks_def tokens_def m s1_def)
  have k: "toks j rs s1 = toks j rs s" if "j \<noteq> i" for j
    using i that by (simp add: toks_def tokens_def m s1_def)
  have e: "toks j rs s1 = {#}" if "toks j rs s = {#}" for j
    using that k [of j] t by (cases "j = i") auto
  have o: "owned s" using g by (simp add: dinv_def)
  have "owned s1" by (rule owned_mono [OF o]) (use sub in \<open>simp_all add: s1_def\<close>)
  moreover have "table_ok s1 = table_ok s" by (simp add: table_ok_def s1_def)
  moreover have "\<forall>q\<in>set (sq s1). entry_ok q" using g sub by (auto simp: dinv_def)
  ultimately show "dinv {i} c H rs s1" using g k e by (simp add: dinv_def) (simp add: s1_def)
  show "\<forall>a\<in>q_addr (q_req (sq s ! n)). alone (q_id (sq s ! n)) rs s1 a"
    using owned_alone [OF o _ _ sub] n by (simp add: s1_def)
qed

lemma dinv_flow: "dinv {i} c H rs s \<Longrightarrow> i \<le> nextID s \<Longrightarrow> dinv {i} c (H(i := h)) rs s"
  by (simp add: dinv_def)

lemma dinv_kernel:
  assumes g: "dinv {i} c H rs s" and p: "\<forall>a\<in>q_addr q. alone i rs s a"
  shows "dinv {i} c H rs (gkernel q data s)"
proof (cases q)
  case (QRecv f a off n)
  then have "alone i rs s a" using p by simp
  then show ?thesis unfolding QRecv gkernel.simps by (intro dinv_write [OF g]) (auto simp: alone_def)
next
  case (QRead f)
  show ?thesis unfolding QRead gkernel.simps by (rule dinv_cong [OF g]) simp_all
qed (use g in simp_all)

section \<open>An entry from the client to the upstream completes\<close>

lemma down_phase_cong:
  "m' (u2cBuf cc) = m (u2cBuf cc) \<Longrightarrow> recvd_u h' = recvd_u h \<Longrightarrow> sent_c h' = sent_c h \<Longrightarrow>
   down_phase c m' h' cc T = down_phase c m h cc T"
  by (simp add: down_phase_def)

lemma up_turn_made:
  assumes g: "dinv {i} c H rs s" and cc: "map_of (conns s) i = Some cc" "\<not> closing cc" and c: "two_way c"
    and rel: "relay_phase c (mem s) (H i) cc (add_mset (TSqe q) (toks i rs s))" and up: "up_op (TSqe q)"
    and al: "\<forall>a\<in>q_addr (q_req q). alone i rs s a"
    and m: "mem (gkernel (q_req q) data s) (u2cBuf cc) = mem s (u2cBuf cc)"
      "length (mem (gkernel (q_req q) data s) (c2uBuf cc)) = nat (bufSize c)"
    and h: "recvd_u h = recvd_u (H i)" "sent_c h = sent_c (H i)"
  shows "up_turn i cc c (H(i := h)) rs (gkernel (q_req q) data s)" (is "up_turn _ _ _ _ _ ?s")
proof -
  have i: "i \<le> nextID s" using dinv_ids [OF g cc(1)] by simp
  have nd: "\<not> down_op (TSqe q)" using up by (rule up_not_down)
  have t: "toks i rs ?s = toks i rs s" by (rule toks_cong) simp_all
  have u: "\<not> clientReadDone cc" "filter_mset up_op (toks i rs s) = {#}"
    using rel up by (auto simp: relay_phase_def up_phase_def)
  have d: "down_phase c (mem ?s) h cc (filter_mset down_op (toks i rs s))"
    using rel nd m(1) h down_phase_cong [where m = "mem s" and m' = "mem ?s" and cc = cc and h = "H i" and h' = h]
    by (simp add: relay_phase_def)
  have "dserving i cc c (H(i := h)) rs ?s"
    using dinv_kernel [OF dinv_flow [OF g i] al] cc c by (simp add: dserving_def)
  moreover have "relaying c (mem ?s) cc (toks i rs s)" using rel m by (simp add: relay_phase_def relaying_def)
  ultimately show ?thesis using u d by (simp add: up_turn_def t)
qed

lemma up_completion:
  assumes g: "dinv {i} c H rs s" and cc: "map_of (conns s) i = Some cc" "\<not> closing cc" and c: "two_way c"
    and rel: "relay_phase c (mem s) (H i) cc (add_mset (TSqe q) (toks i rs s))" and up: "up_op (TSqe q)"
    and al: "\<forall>a\<in>q_addr (q_req q). alone i rs s a" and k: "gcompletion_ok s0 (q_req q) res data" and m0: "mem s0 = mem s"
  defines "h \<equiv> flow_add (q_op q) (gmoved (q_req q) res data s0) (H i)"
  shows "\<exists>s'. gate_cqe c pipes (q_op q) i res (gkernel (q_req q) data s) = Some s' \<and> dinv {} c (H(i := h)) rs s'"
proof -
  have z: "c2uBuf cc \<noteq> u2cBuf cc" "length (mem s (c2uBuf cc)) = nat (bufSize c)" and b: "0 < bufSize c"
    using rel c by (auto simp: relay_phase_def two_way_def)
  note made = up_turn_made [OF g cc c rel up al]
  consider "q_op q = GC2URecv" "q_req q = QRecv (clientFD cc) (c2uBuf cc) 0 (nat (bufSize c))" "recvd_c (H i) = sent_u (H i)"
    | "q_op q = GC2USend" "q_req q = QSend (upstreamFD cc) (c2uBuf cc) (c2uOff cc) (c2uEnd cc - c2uOff cc)"
      "c2uOff cc < c2uEnd cc" "c2uEnd cc \<le> nat (bufSize c)"
      "recvd_c (H i) = sent_u (H i) @ slice (mem s (c2uBuf cc)) (c2uOff cc) (c2uEnd cc)"
    using rel up by (auto simp: relay_phase_def up_phase_def)
  then show ?thesis
  proof cases
    case 1
    have d: "length data = nat res" "nat res \<le> length (mem s (c2uBuf cc))" "res \<le> bufSize c" using k 1 z b by auto
    have v: "up_turn i cc c (H(i := h)) rs (gkernel (q_req q) data s)"
      by (rule made) (use 1 z d in \<open>simp_all add: h_def flow_add_def\<close>)
    have "recvd_c h = sent_u h @ data" using 1 by (simp add: h_def flow_add_def)
    then have "recvd_c ((H(i := h)) i) = sent_u ((H(i := h)) i) @ take (nat res) (mem (gkernel (q_req q) data s) (c2uBuf cc))"
      using d by (simp add: 1 write_at_0_take flip: d(1))
    then show ?thesis using d_c2uRecv [OF v d(3)] by (simp add: 1 gate_cqe_def)
  next
    case 2
    let ?w = "slice (mem s (c2uBuf cc)) (c2uOff cc) (c2uEnd cc)"
    have sent: "recvd_c h = recvd_c (H i)" "sent_u h = sent_u (H i) @ take (nat res) ?w"
      using 2 by (simp_all add: h_def flow_add_def m0)
    have r: "c2uOff cc + nat res \<le> c2uEnd cc" if "0 < res" using k 2 that by auto
    have v: "up_turn i cc c (H(i := h)) rs s"
      using made [of data h] 2 z by (simp add: h_def flow_add_def)
    have p: "prefix (sent_u h) (recvd_c h)" using 2(5) sent by (simp add: take_is_prefix)
    have "recvd_c h = sent_u h @ slice (mem s (c2uBuf cc)) (c2uOff cc + nat res) (c2uEnd cc)" if "0 < res"
    proof -
      have "drop (nat res) ?w = slice (mem s (c2uBuf cc)) (c2uOff cc + nat res) (c2uEnd cc)"
        using r [OF that] by (intro slice_split) simp
      then show ?thesis using 2(5) sent append_take_drop_id [of "nat res" ?w] by simp
    qed
    then show ?thesis using d_c2uSend [OF v _ r 2(4)] p by (simp add: 2 gate_cqe_def)
  qed
qed

section \<open>An entry from the upstream to the client completes\<close>

lemma up_phase_cong:
  "m' (c2uBuf cc) = m (c2uBuf cc) \<Longrightarrow> recvd_c h' = recvd_c h \<Longrightarrow> sent_u h' = sent_u h \<Longrightarrow>
   up_phase c m' h' cc T = up_phase c m h cc T"
  by (simp add: up_phase_def)

lemma down_turn_made:
  assumes g: "dinv {i} c H rs s" and cc: "map_of (conns s) i = Some cc" "\<not> closing cc" and c: "two_way c"
    and rel: "relay_phase c (mem s) (H i) cc (add_mset (TSqe q) (toks i rs s))" and up: "down_op (TSqe q)"
    and al: "\<forall>a\<in>q_addr (q_req q). alone i rs s a"
    and m: "mem (gkernel (q_req q) data s) (c2uBuf cc) = mem s (c2uBuf cc)"
      "length (mem (gkernel (q_req q) data s) (u2cBuf cc)) = nat (bufSize c)"
    and h: "recvd_c h = recvd_c (H i)" "sent_u h = sent_u (H i)"
  shows "down_turn i cc c (H(i := h)) rs (gkernel (q_req q) data s)" (is "down_turn _ _ _ _ _ ?s")
proof -
  have i: "i \<le> nextID s" using dinv_ids [OF g cc(1)] by simp
  have nd: "\<not> up_op (TSqe q)" using up by (rule down_not_up)
  have t: "toks i rs ?s = toks i rs s" by (rule toks_cong) simp_all
  have u: "\<not> upstreamReadDone cc" "filter_mset down_op (toks i rs s) = {#}"
    using rel up by (auto simp: relay_phase_def down_phase_def)
  have d: "up_phase c (mem ?s) h cc (filter_mset up_op (toks i rs s))"
    using rel nd m(1) h up_phase_cong [where m = "mem s" and m' = "mem ?s" and cc = cc and h = "H i" and h' = h]
    by (simp add: relay_phase_def)
  have "dserving i cc c (H(i := h)) rs ?s"
    using dinv_kernel [OF dinv_flow [OF g i] al] cc c by (simp add: dserving_def)
  moreover have "relaying c (mem ?s) cc (toks i rs s)" using rel m by (simp add: relay_phase_def relaying_def)
  ultimately show ?thesis using u d by (simp add: down_turn_def t)
qed

lemma down_completion:
  assumes g: "dinv {i} c H rs s" and cc: "map_of (conns s) i = Some cc" "\<not> closing cc" and c: "two_way c"
    and rel: "relay_phase c (mem s) (H i) cc (add_mset (TSqe q) (toks i rs s))" and up: "down_op (TSqe q)"
    and al: "\<forall>a\<in>q_addr (q_req q). alone i rs s a" and k: "gcompletion_ok s0 (q_req q) res data" and m0: "mem s0 = mem s"
  defines "h \<equiv> flow_add (q_op q) (gmoved (q_req q) res data s0) (H i)"
  shows "\<exists>s'. gate_cqe c pipes (q_op q) i res (gkernel (q_req q) data s) = Some s' \<and> dinv {} c (H(i := h)) rs s'"
proof -
  have z: "u2cBuf cc \<noteq> c2uBuf cc" "length (mem s (u2cBuf cc)) = nat (bufSize c)" and b: "0 < bufSize c"
    using rel c by (auto simp: relay_phase_def two_way_def)
  note made = down_turn_made [OF g cc c rel up al]
  consider "q_op q = GU2CRecv" "q_req q = QRecv (upstreamFD cc) (u2cBuf cc) 0 (nat (bufSize c))" "recvd_u (H i) = sent_c (H i)"
    | "q_op q = GU2CSend" "q_req q = QSend (clientFD cc) (u2cBuf cc) (u2cOff cc) (u2cEnd cc - u2cOff cc)"
      "u2cOff cc < u2cEnd cc" "u2cEnd cc \<le> nat (bufSize c)"
      "recvd_u (H i) = sent_c (H i) @ slice (mem s (u2cBuf cc)) (u2cOff cc) (u2cEnd cc)"
    using rel up by (auto simp: relay_phase_def down_phase_def)
  then show ?thesis
  proof cases
    case 1
    have d: "length data = nat res" "nat res \<le> length (mem s (u2cBuf cc))" "res \<le> bufSize c" using k 1 z b by auto
    have v: "down_turn i cc c (H(i := h)) rs (gkernel (q_req q) data s)"
      by (rule made) (use 1 z d in \<open>simp_all add: h_def flow_add_def\<close>)
    have "recvd_u h = sent_c h @ data" using 1 by (simp add: h_def flow_add_def)
    then have "recvd_u ((H(i := h)) i) = sent_c ((H(i := h)) i) @ take (nat res) (mem (gkernel (q_req q) data s) (u2cBuf cc))"
      using d by (simp add: 1 write_at_0_take flip: d(1))
    then show ?thesis using d_u2cRecv [OF v d(3)] by (simp add: 1 gate_cqe_def)
  next
    case 2
    let ?w = "slice (mem s (u2cBuf cc)) (u2cOff cc) (u2cEnd cc)"
    have sent: "recvd_u h = recvd_u (H i)" "sent_c h = sent_c (H i) @ take (nat res) ?w"
      using 2 by (simp_all add: h_def flow_add_def m0)
    have r: "u2cOff cc + nat res \<le> u2cEnd cc" if "0 < res" using k 2 that by auto
    have v: "down_turn i cc c (H(i := h)) rs s"
      using made [of data h] 2 z by (simp add: h_def flow_add_def)
    have p: "prefix (sent_c h) (recvd_u h)" using 2(5) sent by (simp add: take_is_prefix)
    have "recvd_u h = sent_c h @ slice (mem s (u2cBuf cc)) (u2cOff cc + nat res) (u2cEnd cc)" if "0 < res"
    proof -
      have "drop (nat res) ?w = slice (mem s (u2cBuf cc)) (u2cOff cc + nat res) (u2cEnd cc)"
        using r [OF that] by (intro slice_split) simp
      then show ?thesis using 2(5) sent append_take_drop_id [of "nat res" ?w] by simp
    qed
    then show ?thesis using d_u2cSend [OF v _ r 2(4)] p by (simp add: 2 gate_cqe_def)
  qed
qed

section \<open>What is left of the request\<close>

text \<open>
  The relay does not continue the send of the initial request: when it completes, relaying starts, and what the
  kernel did not take of the request is given up. \<open>kept\<close> are the flows of a log without those bytes.
\<close>

definition kept_add :: "gate_op \<Rightarrow> int \<Rightarrow> bytes \<Rightarrow> flow \<Rightarrow> flow" where
  "kept_add o' res bs h =
    (let h = flow_add o' bs h in if o' = GSendUp \<and> 0 \<le> res then h\<lparr>recvd_c := sent_u h\<rparr> else h)"

definition kept_step :: "gate_entry \<Rightarrow> (nat \<Rightarrow> flow) \<Rightarrow> nat \<Rightarrow> flow" where
  "kept_step e H = (let q = le_sqe e in H(q_id q := kept_add (q_op q) (le_res e) (le_moved e) (H (q_id q))))"

definition kept :: "gate_entry list \<Rightarrow> nat \<Rightarrow> flow" where
  "kept es = fold kept_step es (\<lambda>_. no_flow)"

lemma kept_Nil [simp]: "kept [] = (\<lambda>_. no_flow)"
  by (simp add: kept_def)

lemma kept_snoc: "kept (es @ [e]) = kept_step e (kept es)"
  by (simp add: kept_def)

lemma kept_add_other: "o' \<noteq> GSendUp \<Longrightarrow> kept_add o' res bs h = flow_add o' bs h"
  by (simp add: kept_add_def)

lemma kept_flows:
  "sent_u (kept es i) = sent_u (flows es i) \<and> recvd_u (kept es i) = recvd_u (flows es i) \<and> sent_c (kept es i) = sent_c (flows es i)"
  by (induction es rule: rev_induct)
     (auto simp: kept_snoc flows_snoc kept_step_def flow_step_def kept_add_def flow_add_def Let_def)

section \<open>Every other completion\<close>

lemma begin_completion:
  assumes g: "dinv {i} c H rs s" and cc: "map_of (conns s) i = Some cc" "\<not> closing cc" and c: "two_way c"
    and T: "toks i rs s = {#}" and fr: "fresh_conn c (mem s) cc" and b: "begin_phase c (mem s) (H i) cc (TSqe q)"
    and al: "\<forall>a\<in>q_addr (q_req q). alone i rs s a" and k: "gcompletion_ok s0 (q_req q) res data" and m0: "mem s0 = mem s"
  defines "h \<equiv> kept_add (q_op q) res (gmoved (q_req q) res data s0) (H i)"
  shows "\<exists>s'. gate_cqe c pipes (q_op q) i res (gkernel (q_req q) data s) = Some s' \<and> dinv {} c (H(i := h)) rs s'"
proof -
  let ?s = "gkernel (q_req q) data s"
  have i: "i \<le> nextID s" using dinv_ids [OF g cc(1)] by simp
  have v: "dserving i cc c (H(i := h)) rs ?s"
    using dinv_kernel [OF dinv_flow [OF g i] al] cc c by (simp add: dserving_def)
  have t: "toks i rs ?s = {#}" using T toks_cong [of ?s s] by simp
  have z: "length (mem s (reqBuf cc)) = nat (reqLen c)" "0 < reqLen c" using fr c by (simp_all add: fresh_conn_def two_way_def)
  consider "q_op q = GRecvReq" "q_req q = QRecv (clientFD cc) (reqBuf cc) 0 (nat (reqLen c))" "H i = no_flow"
    | "q_op q = GSendUp" "q_req q = QSend (upstreamFD cc) (reqBuf cc) 0 (reqN cc)" "has_request c (mem s) (H i) cc"
    using b by auto
  then show ?thesis
  proof cases
    case 1
    have d: "length data = nat res" "nat res \<le> length (mem s (reqBuf cc))" "res \<le> reqLen c" using k 1 z by auto
    have "h = no_flow\<lparr>recvd_c := data\<rparr>" using 1 by (simp add: h_def kept_add_def flow_add_def no_flow_def Let_def)
    then have "(H(i := h)) i = no_flow\<lparr>recvd_c := take (nat res) (mem ?s (reqBuf cc))\<rparr>"
      using d by (simp add: 1 write_at_0_take flip: d(1))
    moreover have "fresh_conn c (mem ?s) cc" using fr d by (simp add: 1 fresh_conn_def)
    ultimately show ?thesis using d_recvReq [OF v t _ _ d(3)] by (simp add: 1 gate_cqe_def)
  next
    case 2
    have h: "sent_u h = take (nat res) (take (reqN cc) (mem s (reqBuf cc)))"
        "recvd_c h = (if 0 \<le> res then sent_u h else take (reqN cc) (mem s (reqBuf cc)))" "recvd_u h = []" "sent_c h = []"
      using 2 by (simp_all add: h_def kept_add_def flow_add_def has_request_def no_flow_def m0 Let_def)
    have "recvd_c h = sent_u h" if "0 \<le> res" using that h by simp
    moreover have "prefix (sent_u h) (recvd_c h)" by (simp add: h prefix_take_min)
    moreover have "\<not> clientReadDone cc" "\<not> upstreamReadDone cc" using fr by (simp_all add: fresh_conn_def)
    ultimately show ?thesis using d_sendUp [OF v t] h by (simp add: 2 gate_cqe_def)
  qed
qed

lemma left_over_completion:
  fixes data :: bytes and res :: int
  assumes g: "dinv {i} c H rs s" and oc: "\<And>cc. map_of (conns s) i = Some cc \<Longrightarrow> closing cc" and i: "0 < i" "i \<le> nextID s"
    and st: "stale (TSqe q)" and sl: "dslot c (mem s) (H i) (map_of (conns s) i) (add_mset (TSqe q) (toks i rs s))"
    and al: "\<forall>a\<in>q_addr (q_req q). alone i rs s a" and m0: "mem s0 = mem s"
  defines "h \<equiv> flow_add (q_op q) (gmoved (q_req q) res data s0) (H i)"
  shows "\<exists>s'. gate_cqe c pipes (q_op q) i res (gkernel (q_req q) data s) = Some s' \<and> dinv {} c (H(i := h)) rs s'"
proof -
  let ?s = "gkernel (q_req q) data s"
  have g': "dinv {i} c (H(i := h)) rs ?s" using dinv_kernel [OF dinv_flow [OF g i(2)] al] by simp
  have t: "toks i rs ?s = toks i rs s" by (rule toks_cong) simp_all
  have mv: "gmoved (q_req q) res data s0 = gmoved (q_req q) res data s" using m0 by (cases "q_req q") simp_all
  have "gate_cqe c pipes (q_op q) i res ?s = Some ?s"
    using st oc by (auto simp: stale_def gate_cqe_def g_c2uRecv_def g_c2uSend_def g_u2cRecv_def g_u2cSend_def
        gwith_open_def gwith_def split: option.split)
  moreover have "dslot c (mem ?s) h (map_of (conns s) i) (toks i rs s)"
  proof (cases "map_of (conns s) i")
    case None
    then show ?thesis using sl dirs_ok_complete [OF _ st, of s "H i" _ data res] by (simp add: h_def mv)
  next
    case (Some cc)
    then show ?thesis using sl oc stale_not_close [OF st] dirs_ok_complete [OF _ st, of s "H i" _ data res] by (simp add: h_def mv)
  qed
  then have "dinv {} c (H(i := h)) rs ?s" by (intro dinv_restore [OF g']) (simp add: t)
  ultimately show ?thesis by blast
qed

text \<open>An entry of no connection.\<close>

lemma d_idle_completion:
  assumes g: "dinv {} c H (ready (br s)) s" and e: "entry_ok q" "tok_id (TSqe q) = 0" and c: "two_way c"
  shows "\<exists>s'. gate_cqe c pipes (q_op q) (q_id q) res (gkernel (q_req q) data s) = Some s' \<and> dinv {} c H (ready (br s')) s'"
proof -
  consider f where "q_req q = QAccept f" "q_op q = GAccept" | f where "q_req q = QRead f" "q_op q = GEventfd"
    | "q_req q = QTimeout" "q_op q = GTimeout" | f where "q_req q = QClose f" "q_op q = GClose" "q_id q = 0"
    using e by (auto simp: entry_ok_def split: gate_req.splits)
  then show ?thesis
  proof cases
    case 1
    then show ?thesis using d_accept [OF g c, of "q_id q" res] g_accept_br [of c "q_id q" res s]
      by (fastforce simp: gate_cqe_def)
  next
    case 2
    define s1 where "s1 = gpostEventfd (s\<lparr>br := (br s)\<lparr>wakes := 0\<rparr>\<rparr>)"
    define s2 where "s2 = s1\<lparr>br := (br s1)\<lparr>notified := 0, ready := []\<rparr>\<rparr>"
    have g1: "dinv {} c H (ready (br s)) (s\<lparr>br := (br s)\<lparr>wakes := 0\<rparr>\<rparr>)" by (rule dinv_cong [OF g]) simp_all
    have "dinv {} c H (ready (br s)) s1" unfolding s1_def gpostEventfd_def
      by (rule dinv_post_idle [OF g1]) (simp_all add: conn_op_def entry_ok_def)
    then have "dinv {} c H (ready (br s)) s2" by (rule dinv_cong) (simp_all add: s2_def)
    then obtain s' where "g_results c (ready (br s)) s2 = Some s'" "dinv {} c H [] s'"
      using d_results_step [OF _ c] by blast
    moreover from this have "ready (br s') = []" using g_results_br by (fastforce simp: s2_def)
    ultimately show ?thesis
      by (simp add: 2 gate_cqe_def g_eventfd_def Let_def drain_def s2_def s1_def gpostEventfd_def)
  next
    case 3
    have "dinv {} c H (ready (br s)) (gpostTimeout s)" unfolding gpostTimeout_def
      by (rule dinv_post_idle [OF g]) (simp_all add: conn_op_def entry_ok_def)
    then show ?thesis by (simp add: 3 gate_cqe_def gpostTimeout_def)
  next
    case 4
    have "map_of (conns s) 0 = None" using dinv_ids [OF g, of 0] by (cases "map_of (conns s) 0") auto
    then show ?thesis using 4 g by (simp add: gate_cqe_def g_close_def gwith_def)
  qed
qed

section \<open>Every step\<close>

definition duplex_ok :: "relayCfg \<Rightarrow> gate_sys \<Rightarrow> bool" where
  "duplex_ok c S \<longleftrightarrow> dinv {} c (kept (glog S)) (ready (br (gw S))) (gw S)"

lemma dslot_cases:
  assumes "dslot c m h oc (add_mset t T)"
  obtains (over) "\<forall>cc. oc = Some cc \<longrightarrow> closing cc" "stale t"
    | (close) cc where "oc = Some cc" "closing cc" "close_tok t"
    | (start) cc where "oc = Some cc" "\<not> closing cc" "fresh_conn c m cc" "T = {#}" "begin_phase c m h cc t"
    | (relay) cc where "oc = Some cc" "\<not> closing cc" "relay_phase c m h cc (add_mset t T)"
proof (cases oc)
  case None
  then show ?thesis using assms over by simp
next
  case (Some cc)
  show ?thesis
  proof (cases "closing cc")
    case True
    then show ?thesis using assms Some over close by auto
  next
    case False
    then have "(fresh_conn c m cc \<and> T = {#} \<and> begin_phase c m h cc t) \<or> relay_phase c m h cc (add_mset t T)"
      using assms Some by auto
    then show ?thesis using Some False start relay by blast
  qed
qed

lemma d_slot_completion:
  assumes g: "dinv {} c H rs s" and n: "n < length (sq s)" and q: "q = sq s ! n" and i: "q_id q = i" "0 < i" "conn_op (q_op q)"
    and c: "two_way c" and k: "gcompletion_ok s (q_req q) res data"
  defines "s1 \<equiv> s\<lparr>sq := drop_nth n (sq s)\<rparr>" and "h \<equiv> kept_add (q_op q) res (gmoved (q_req q) res data s) (H i)"
  shows "\<exists>s'. gate_cqe c pipes (q_op q) i res (gkernel (q_req q) data s1) = Some s' \<and> dinv {} c (H(i := h)) rs s'"
proof -
  have ti: "i = tok_id (TSqe (sq s ! n))" using i q by simp
  note tk = dinv_take [OF g n ti, folded s1_def q]
  have al: "\<forall>a\<in>q_addr (q_req q). alone i rs s1 a" using tk(3) i by simp
  have m: "mem s = mem s1" "conns s1 = conns s" "nextID s1 = nextID s" by (simp_all add: s1_def)
  have sl: "dslot c (mem s) (H i) (map_of (conns s) i) (add_mset (TSqe q) (toks i rs s1))"
    using dslot_of [OF g i(2)] by (simp only: tk(2))
  have "toks i rs s \<noteq> {#}" using tk(2) by simp
  moreover have "\<forall>j > nextID s. toks j rs s = {#}" using g unfolding dinv_def by blast
  ultimately have le: "i \<le> nextID s" by (meson not_le)
  consider (over) "\<forall>cc. map_of (conns s) i = Some cc \<longrightarrow> closing cc" "stale (TSqe q)"
    | (close) cc where "map_of (conns s) i = Some cc" "closing cc" "close_tok (TSqe q)"
    | (start) cc where "map_of (conns s) i = Some cc" "\<not> closing cc" "fresh_conn c (mem s) cc" "toks i rs s1 = {#}"
        "begin_phase c (mem s) (H i) cc (TSqe q)"
    | (relay) cc where "map_of (conns s) i = Some cc" "\<not> closing cc"
        "relay_phase c (mem s) (H i) cc (add_mset (TSqe q) (toks i rs s1))"
    by (rule dslot_cases [OF sl])
  then show ?thesis
  proof cases
    case over
    then have "q_op q \<noteq> GSendUp" by (auto simp: stale_def)
    note k = kept_add_other [OF this]
    show ?thesis unfolding h_def k
      by (rule left_over_completion [OF tk(1) _ i(2) _ over(2) _ al m(1)]) (use over sl le m in \<open>auto simp del: dslot.simps\<close>)
  next
    case close
    then obtain f where cq: "q_op q = GClose" "q_req q = QClose f" by (auto simp: close_tok_def)
    have "\<exists>s'. g_close c i s1 = Some s' \<and> dinv {} c H rs s'"
      using sl close by (intro d_close [OF tk(1) _ _ c]) (auto simp: m dirs_ok_close split: if_splits)
    then show ?thesis by (simp add: cq gate_cqe_def h_def kept_add_other flow_add_idle)
  next
    case start
    show ?thesis unfolding h_def
      by (rule begin_completion [OF tk(1) _ start(2) c start(4) _ _ al k m(1)]) (use start m in simp_all)
  next
    case relay
    then have ud: "up_op (TSqe q) \<or> down_op (TSqe q)" by (simp add: relay_phase_def stale_def)
    then have "q_op q \<noteq> GSendUp" by auto
    note ko = kept_add_other [OF this]
    from ud show ?thesis
    proof
      assume "up_op (TSqe q)"
      then show ?thesis unfolding h_def ko
        by (rule up_completion [OF tk(1) _ relay(2) c _ _ al k m(1), rotated 2]) (use relay m in simp_all)
    next
      assume "down_op (TSqe q)"
      then show ?thesis unfolding h_def ko
        by (rule down_completion [OF tk(1) _ relay(2) c _ _ al k m(1), rotated 2]) (use relay m in simp_all)
    qed
  qed
qed

lemma d_complete_ok:
  assumes S: "duplex_ok c S" and ev: "gevent_ok S (GComplete n res data pipes)" and c: "two_way c"
  shows "\<exists>S'. gate_step c S (GComplete n res data pipes) = Some S' \<and> duplex_ok c S'"
proof -
  define s where "s = gw S"
  define q where "q = sq s ! n"
  define s1 where "s1 = s\<lparr>sq := drop_nth n (sq s)\<rparr>"
  define H where "H = kept (glog S)"
  let ?bs = "gmoved (q_req q) res data s" and ?R = "ready (br s)"
  have n: "n < length (sq s)" and k: "gcompletion_ok s (q_req q) res data" using ev by (auto simp: s_def q_def)
  have g: "dinv {} c H ?R s" using S by (simp add: duplex_ok_def H_def s_def)
  have b: "ready (br s1) = ?R" by (simp add: s1_def)
  have e: "entry_ok q" using g n by (auto simp: dinv_def q_def)
  have "\<exists>s'. gate_cqe c pipes (q_op q) (q_id q) res (gkernel (q_req q) data s1) = Some s' \<and>
      dinv {} c (H(q_id q := kept_add (q_op q) res ?bs (H (q_id q)))) (ready (br s')) s'"
  proof (cases "tok_id (TSqe q) = 0")
    case True
    then have "flow_add (q_op q) ?bs h = h" for h
      using e by (intro flow_add_idle) (auto simp: entry_ok_def split: gate_req.splits)
    moreover have "q_op q \<noteq> GSendUp" using True e by (auto simp: entry_ok_def conn_op_def split: gate_req.splits if_splits)
    ultimately have "kept_add (q_op q) res ?bs h = h" for h by (simp add: kept_add_other)
    moreover have "dinv {} c H ?R s1" using dinv_take(1) [OF g n refl] True by (simp add: dinv_zero q_def s1_def)
    ultimately show ?thesis using d_idle_completion [OF _ e True c, of H s1] b by simp
  next
    case False
    then have i: "0 < q_id q" "conn_op (q_op q)" by (auto split: if_splits)
    have "\<exists>s'. gate_cqe c pipes (q_op q) (q_id q) res (gkernel (q_req q) data s1) = Some s' \<and>
        dinv {} c (H(q_id q := kept_add (q_op q) res ?bs (H (q_id q)))) ?R s'"
      unfolding s1_def by (rule d_slot_completion [OF g n q_def refl i c k])
    then obtain s' where s': "gate_cqe c pipes (q_op q) (q_id q) res (gkernel (q_req q) data s1) = Some s'"
        "dinv {} c (H(q_id q := kept_add (q_op q) res ?bs (H (q_id q)))) ?R s'" by blast
    have "table_ok (gkernel (q_req q) data s1)" using g by (simp add: dinv_def table_ok_def s1_def)
    then have "gframe (gkernel (q_req q) data s1) s'" by (rule gframe_cqe [OF _ i(2) s'(1)])
    then have "ready (br s') = ?R" using b by (simp add: gframe_def)
    then show ?thesis using s' by auto
  qed
  then show ?thesis
    by (auto simp: duplex_ok_def kept_snoc kept_step_def Let_def H_def s_def q_def s1_def simp del: fun_upd_apply)
qed

lemma d_postAccept: "dinv {} c H rs s \<Longrightarrow> dinv {} c H rs (gpostAccept k s)"
  unfolding gpostAccept_def Let_def
  by (rule dinv_cong [where s = "gpost (QAccept (lns s ! k)) k GAccept s"])
    (auto intro!: dinv_post_idle simp: conn_op_def entry_ok_def)

lemma d_top_listener:
  "dinv {} c H rs s \<Longrightarrow> dinv {} c H rs (top_listener c k s) \<and> br (top_listener c k s) = br s"
proof (induction c k s rule: top_listener.induct)
  case (1 c k s)
  then show ?case by (subst (1 2) top_listener.simps) (simp add: d_postAccept)
qed

lemma d_top_up: "dinv {} c H rs s \<Longrightarrow> dinv {} c H rs (top_up c s) \<and> br (top_up c s) = br s"
  unfolding top_up_def by (rule fold_keeps [OF d_top_listener])

lemma d_start: "dinv {} c (\<lambda>_. no_flow) (ready (br (gate_start ls e))) (gate_start ls e)"
proof -
  define s where "s = \<lparr>conns = [], connFree = [], mem = (\<lambda>_. []), nextAddr = 1, nextID = 0,
      acceptInflight = replicate (length ls) 0, totalAccepts = 0, accepted = 0, completed = 0, shed = 0,
      errs = 0, gCompleted = 0, gAccepted = 0, br = new_bridge, sq = [], jobs = [], calls = [], lns = ls, efd = e\<rparr>"
  have "dinv {} c (\<lambda>_. no_flow) [] s"
    by (simp add: dinv_def table_ok_def keys_distinct_def owned_def toks_def tokens_def s_def dirs_ok_def up_dir_def
        down_dir_def no_flow_def)
  then have "dinv {} c (\<lambda>_. no_flow) [] (fold gpostAccept [0..<length ls] s) \<and> br (fold gpostAccept [0..<length ls] s) = br s"
    by (intro fold_keeps) (simp_all add: d_postAccept)
  moreover have "gate_start ls e = gpostTimeout (gpostEventfd (fold gpostAccept [0..<length ls] s))"
    by (simp add: gate_start_def Let_def s_def)
  moreover have "br s = new_bridge" by (simp add: s_def)
  ultimately show ?thesis
    by (simp add: new_bridge_def gpostTimeout_def gpostEventfd_def) (auto intro!: dinv_post_idle simp: conn_op_def entry_ok_def)
qed

lemma d_step_ok:
  assumes S: "duplex_ok c S" and ev: "gevent_ok S e" and c: "two_way c"
  shows "\<exists>S'. gate_step c S e = Some S' \<and> duplex_ok c S'"
proof (cases e)
  case (GComplete n res data pipes)
  then show ?thesis using d_complete_ok [OF S _ c] ev by blast
next
  case (GHook j f b)
  then show ?thesis using S ev d_push [of c _ "gw S" j "\<lparr>rid = jobs (gw S) ! j, rfd = f, ok = b\<rparr>"]
    by (simp add: duplex_ok_def Let_def)
next
  case GBatchEnd
  then show ?thesis using S d_top_up by (simp add: duplex_ok_def)
qed

interpretation duplex_inv: inductive_invariant gate_boot "gate_trans c" "\<lambda>S. two_way c \<longrightarrow> duplex_ok c S" for c
proof
  show "two_way c \<longrightarrow> duplex_ok c S" if "gate_boot S" for S
    using that d_start by (auto simp: gate_boot_def duplex_ok_def)
  show "two_way c \<longrightarrow> duplex_ok c S'" if "two_way c \<longrightarrow> duplex_ok c S" "gate_trans c S e S'" for S e S'
    using that d_step_ok by (fastforce simp: gate_trans_def)
qed

lemma duplex_reach_ok: "gate_reachable c S \<Longrightarrow> two_way c \<Longrightarrow> duplex_ok c S"
  using duplex_inv.reachable_inv by blast

section \<open>Requests taken whole\<close>

text \<open>The kernel took the initial request of connection \<open>i\<close> whole, or the send of it failed, or is still outstanding.\<close>

definition request_taken :: "nat \<Rightarrow> gate_entry list \<Rightarrow> bool" where
  "request_taken i es \<longleftrightarrow> (\<forall>e\<in>set es. q_id (le_sqe e) = i \<longrightarrow> q_op (le_sqe e) = GSendUp \<longrightarrow>
     le_res e < 0 \<or> (case q_req (le_sqe e) of QSend f a off n \<Rightarrow> le_res e = int n | _ \<Rightarrow> True))"

lemma send_up_slot:
  assumes g: "dinv {} c H rs s" and q: "q \<in> set (sq s)" "q_op q = GSendUp"
  shows "\<exists>f a n. q_req q = QSend f a 0 n \<and> sent_u (H (q_id q)) = [] \<and> recvd_c (H (q_id q)) = take n (mem s a)"
proof -
  have "entry_ok q" using g q(1) by (simp add: dinv_def)
  then have i: "0 < q_id q" "tok_id (TSqe q) = q_id q" using q(2) by (auto simp: entry_ok_def conn_op_def split: gate_req.splits)
  have "TSqe q \<in># toks (q_id q) rs s" using q(1) i by (simp add: toks_def tokens_def)
  then obtain T where T: "toks (q_id q) rs s = add_mset (TSqe q) T" by (meson multi_member_split)
  from dslot_of [OF g i(1)] show ?thesis unfolding T
  proof (rule dslot_cases)
    fix cc assume "begin_phase c (mem s) (H (q_id q)) cc (TSqe q)"
    then show ?thesis using q(2) by (auto simp: has_request_def no_flow_def)
  qed (use q(2) in \<open>auto simp: stale_def close_tok_def relay_phase_def\<close>)
qed

lemma kept_whole:
  assumes "gate_reachable c S" and "two_way c" and "request_taken i (glog S)"
  shows "kept (glog S) i = flows (glog S) i"
  using assms(1,3)
proof (induction rule: reachable.induct)
  case (reach_start S)
  then show ?case by (auto simp: gate_boot_def)
next
  case (reach_step S e S')
  have g: "dinv {} c (kept (glog S)) (ready (br (gw S))) (gw S)"
    using duplex_reach_ok [OF reach_step.hyps(1) assms(2)] by (simp add: duplex_ok_def)
  show ?case
  proof (cases e)
    case (GComplete n res data pipes)
    define q where "q = sq (gw S) ! n"
    have q: "q \<in> set (sq (gw S))" using reach_step.hyps(2) GComplete by (auto simp: gate_trans_def q_def)
    have l: "glog S' = glog S @ [\<lparr>le_sqe = q, le_res = res, le_moved = gmoved (q_req q) res data (gw S)\<rparr>]"
      using reach_step.hyps(2) GComplete by (auto simp: gate_trans_def Let_def q_def)
    have h: "kept (glog S) i = flows (glog S) i" using reach_step.prems reach_step.IH by (simp add: l request_taken_def)
    have w: "res < 0 \<or> (case q_req q of QSend f a off n \<Rightarrow> res = int n | _ \<Rightarrow> True)" if "q_id q = i" "q_op q = GSendUp"
      using reach_step.prems that by (cases "q_req q") (simp_all add: l request_taken_def)
    have "kept_add (q_op q) res (gmoved (q_req q) res data (gw S)) (kept (glog S) i) =
        flow_add (q_op q) (gmoved (q_req q) res data (gw S)) (kept (glog S) i)" if i: "q_id q = i"
    proof (cases "q_op q = GSendUp \<and> 0 \<le> res")
      case True
      with send_up_slot [OF g q] w [OF i] i show ?thesis by (auto simp: kept_add_def flow_add_def Let_def)
    qed (auto simp: kept_add_def Let_def)
    then show ?thesis using h by (auto simp: l kept_snoc flows_snoc kept_step_def flow_step_def Let_def)
  qed (use reach_step in \<open>auto simp: gate_trans_def Let_def\<close>)
qed

end
