(* ===== verification/Gate_Demo.thy ===== *)
theory Gate_Demo
  imports Gate_Accepts
begin

text \<open>
  Concrete runs of the benchmark relay. \<open>churn_demo\<close> serves one client completely and a second one, which
  reuses the structure and buffers of the first, up to its request. \<open>short_demo\<close> is a client whose request and
  reply the kernel takes only in part. \<open>splice_demo\<close> has two connections relayed through pipes.
\<close>

definition churn_cfg :: relayCfg where
  "churn_cfg = \<lparr>cfg_addr = ''0.0.0.0'', cfg_port = 9000, reqLen = 2, replyLen = 3, duplex = False, splice = False,
     bufSize = 4, maxConns = 4, acceptBatch = 2\<rparr>"

definition splice_cfg :: relayCfg where
  "splice_cfg = churn_cfg\<lparr>duplex := True, splice := True\<rparr>"

definition demo_gate :: gate_sys where
  "demo_gate = \<lparr>gw = gate_start [3] 4, glog = []\<rparr>"

definition no_pipes :: two_pipes where
  "no_pipes = (None, None)"

definition churn_events :: "gate_event list" where
  "churn_events =
    [GComplete 0 10 [] no_pipes,          \<comment> \<open>a client\<close>
     GComplete 2 2 [1, 2] no_pipes,       \<comment> \<open>its request\<close>
     GHook 0 11 True,
     GComplete 0 8 [] no_pipes,           \<comment> \<open>the wake-up: the request is forwarded\<close>
     GComplete 2 2 [] no_pipes,
     GComplete 2 3 [3, 4, 5] no_pipes,    \<comment> \<open>the reply\<close>
     GComplete 2 3 [] no_pipes,           \<comment> \<open>completed, closing\<close>
     GComplete 2 0 [] no_pipes,
     GComplete 2 0 [] no_pipes,           \<comment> \<open>gone; the structure is on the free list\<close>
     GBatchEnd,
     GComplete 2 12 [] no_pipes,          \<comment> \<open>the next client\<close>
     GComplete 3 1 [9] no_pipes]"

definition churn_demo :: "nat \<Rightarrow> gate_sys" where
  "churn_demo n = the (gate_run churn_cfg demo_gate (take n churn_events))"

definition short_events :: "gate_event list" where
  "short_events =
    [GComplete 0 10 [] no_pipes, GComplete 2 2 [1, 2] no_pipes, GHook 0 11 True, GComplete 0 8 [] no_pipes,
     GComplete 2 1 [] no_pipes,           \<comment> \<open>one of the two bytes of the request\<close>
     GComplete 2 3 [3, 4, 5] no_pipes,
     GComplete 2 1 [] no_pipes,           \<comment> \<open>one of the three bytes of the reply\<close>
     GComplete 2 0 [] no_pipes, GComplete 2 0 [] no_pipes]"

definition short_demo :: "nat \<Rightarrow> gate_sys" where
  "short_demo n = the (gate_run churn_cfg demo_gate (take n short_events))"

definition splice_events :: "gate_event list" where
  "splice_events =
    [GComplete 0 10 [] no_pipes,          \<comment> \<open>the first client\<close>
     GBatchEnd,
     GComplete 3 20 [] no_pipes,          \<comment> \<open>the second\<close>
     GComplete 2 1 [5] no_pipes, GComplete 3 1 [6] no_pipes,
     GHook 0 11 True, GHook 0 21 True,
     GComplete 0 8 [] no_pipes,
     GComplete 3 1 [] (Some (30, 31), Some (32, 33)),   \<comment> \<open>the first is relayed through pipes\<close>
     GBatchEnd,
     GComplete 4 3 [] no_pipes,           \<comment> \<open>its fill posts itself again\<close>
     GComplete 4 (- 32) [] no_pipes,      \<comment> \<open>its drain fails: the pipes are closed at once\<close>
     GComplete 3 1 [] (Some (30, 31), Some (32, 33))]   \<comment> \<open>the second gets pipes with the numbers just freed\<close>"

definition splice_demo :: "nat \<Rightarrow> gate_sys" where
  "splice_demo n = the (gate_run splice_cfg demo_gate (take n splice_events))"

lemma gate_run_take: "gate_run c S es \<noteq> None \<Longrightarrow> gate_run c S (take n es) \<noteq> None"
proof (induction es arbitrary: S n)
  case (Cons e es)
  then show ?case by (cases n) (auto split: if_splits option.splits)
qed simp

lemma demo_run_reachable:
  assumes "gate_run c demo_gate es \<noteq> None"
  shows "gate_reachable c (the (gate_run c demo_gate (take n es)))"
proof -
  obtain S where "gate_run c demo_gate (take n es) = Some S" using gate_run_take [OF assms] by blast
  moreover have "gate_boot demo_gate" by (auto simp: gate_boot_def demo_gate_def)
  ultimately show ?thesis using gate_run_reachable [OF reach_start] by fastforce
qed

lemma churn_reachable: "gate_reachable churn_cfg (churn_demo n)"
  unfolding churn_demo_def by (rule demo_run_reachable) code_simp

lemma short_reachable: "gate_reachable churn_cfg (short_demo n)"
  unfolding short_demo_def by (rule demo_run_reachable) code_simp

lemma splice_reachable: "gate_reachable splice_cfg (splice_demo n)"
  unfolding splice_demo_def by (rule demo_run_reachable) code_simp

lemma churn_cfg_modes: "\<not> duplex churn_cfg" "0 < reqLen churn_cfg" "0 < replyLen churn_cfg"
  by code_simp+

end
