(* ===== verification/Gate_Relay_Properties.thy ===== *)
theory Gate_Relay_Properties
  imports Gate_Demo
begin

text \<open>
  The properties of the benchmark relay, read off the invariants of \<open>Gate_Reach\<close> (without \<open>-duplex\<close>) and
  \<open>Gate_Accepts\<close> (all modes), with the runs of \<open>Gate_Demo\<close> as witnesses.
\<close>

lemma gate_slot:
  assumes "gate_reachable c S" "\<not> duplex c" "0 < reqLen c" "0 < replyLen c" "0 < i"
  shows "slot_ok c (mem (gw S)) (flows (glog S) i) (map_of (conns (gw S)) i) (toks i (ready (br (gw S))) (gw S))"
  using gate_reach_ok [OF assms(1-4)] assms(5) unfolding gate_ok_def ginv_def by blast

lemma reach_accepts: "gate_reachable c S \<Longrightarrow> accepts_ok c (gw S)"
  by (rule gate_accepts.reachable_inv)

text \<open>What a token of a connection stands for: something that will call a handler for it.\<close>

lemma token_wakes:
  assumes a: "accepts_ok c s" and i: "0 < i" and T: "toks i (ready (br s)) s \<noteq> {#}"
  shows "(\<exists>q\<in>set (sq s). q_id q = i \<and> conn_op (q_op q)) \<or> i \<in> set (jobs s) \<or>
    (\<exists>r\<in>set (ready (br s)). rid r = i) \<and> 0 < wakes (br s) \<and> (\<exists>q\<in>set (sq s). q_op q = GEventfd)"
proof -
  obtain t where "t \<in># toks i (ready (br s)) s" using T by (meson multiset_nonemptyE)
  then have t: "t \<in># tokens (ready (br s)) s" "tok_id t = i" by (simp_all add: toks_def)
  show ?thesis
  proof (cases t)
    case (TSqe q)
    then have "q \<in> set (sq s)" "q_id q = i" "conn_op (q_op q)" using t i by (auto simp: tokens_def split: if_splits)
    then show ?thesis by blast
  next
    case (TJob j)
    then show ?thesis using t by (auto simp: tokens_def)
  next
    case (TRes r)
    then have r: "r \<in> set (ready (br s))" "rid r = i" using t by (auto simp: tokens_def)
    then have "0 < wakes (br s)" using a by (auto simp: accepts_ok_def bridge_ok_def split: if_splits)
    moreover have "\<exists>q\<in>set (sq s). q_op q = GEventfd" using a by (auto simp: accepts_ok_def armed_def idle_entries_def)
    ultimately show ?thesis using r by blast
  qed
qed

section \<open>Running without \<open>-duplex\<close>\<close>

text \<open>
  Without \<open>-duplex\<close> the relay never panics: whatever completes, and whatever a hook returns, the step has
  a result.
\<close>

lemma churn_no_panic:
  assumes "gate_reachable c S" and "\<not> duplex c" and "0 < reqLen c" and "0 < replyLen c" and "gevent_ok S e"
  shows "\<exists>S'. gate_step c S e = Some S'"
  using gate_step_ok [OF gate_reach_ok] assms by blast

lemma churn_faithful:
  assumes "gate_reachable c S" and "\<not> duplex c" and "0 < reqLen c" and "0 < replyLen c" and "0 < i"
  shows "prefix (sent_u (flows (glog S) i)) (recvd_c (flows (glog S) i)) \<and>
    prefix (sent_c (flows (glog S) i)) (recvd_u (flows (glog S) i))"
proof -
  let ?h = "flows (glog S) i"
  have "faithful ?h"
  proof (cases "map_of (conns (gw S)) i")
    case None
    then show ?thesis using gate_slot [OF assms] by simp
  next
    case (Some cc)
    have "faithful ?h" if "phase_ok c (mem (gw S)) ?h cc t" for t
      using that by (cases t) (auto simp: sqe_phase_def has_request_def faithful_def no_flow_def)
    then show ?thesis using gate_slot [OF assms] Some by (auto split: if_splits)
  qed
  then show ?thesis by (simp add: faithful_def)
qed

text \<open>
  Nothing crosses over between connections, although they reuse each other's buffers: what a
  connection sent to its upstream is a prefix of what its own client sent, and what it sent to the
  client is a prefix of what its own upstream sent.
\<close>

theorem gate_no_crosstalk:
  assumes "gate_reachable c S" and "\<not> duplex c" and "0 < reqLen c" and "0 < replyLen c" and "0 < i"
  shows "prefix (sent_u (flows (glog S) i)) (recvd_c (flows (glog S) i)) \<and>
    prefix (sent_c (flows (glog S) i)) (recvd_u (flows (glog S) i))"
  by (rule churn_faithful [OF assms])

lemma gate_no_crosstalk_witness:
  "sent_u (flows (glog (churn_demo 12)) 1) = [1, 2] \<and> recvd_c (flows (glog (churn_demo 12)) 2) = [9] \<and>
   prefix (sent_c (flows (glog (churn_demo 12)) 1)) (recvd_u (flows (glog (churn_demo 12)) 1))"
proof -
  have "sent_u (flows (glog (churn_demo 12)) 1) = [1, 2]" "recvd_c (flows (glog (churn_demo 12)) 2) = [9]" by code_simp+
  then show ?thesis using gate_no_crosstalk [OF churn_reachable churn_cfg_modes, of 1 12] by simp
qed

text \<open>
  Without \<open>-duplex\<close> the kernel never holds a recycled buffer: an outstanding receive or send of a connection uses a buffer
  of that connection, and stays within its length; the connection is in the table and open, and shares the
  buffer with no other connection and with no structure of the free list.
\<close>

lemma churn_buffers_exclusive:
  assumes "gate_reachable c S" and "\<not> duplex c" and "0 < reqLen c" and "0 < replyLen c"
    and "q \<in> set (sq (gw S))" and "q_req q = QRecv f a off n \<or> q_req q = QSend f a off n"
  shows "\<exists>cc. map_of (conns (gw S)) (q_id q) = Some cc \<and> \<not> closing cc \<and> a \<in> {reqBuf cc, respBuf cc} \<and>
    off + n \<le> length (mem (gw S) a) \<and>
    (\<forall>j cc'. map_of (conns (gw S)) j = Some cc' \<and> j \<noteq> q_id q \<longrightarrow> a \<notin> {reqBuf cc', respBuf cc'}) \<and>
    (\<forall>cc'\<in>set (connFree (gw S)). a \<notin> {reqBuf cc', respBuf cc'})"
proof -
  let ?s = "gw S" and ?R = "ready (br (gw S))"
  have g: "ginv {} c (flows (glog S)) ?R ?s" using gate_reach_ok [OF assms(1-4)] by (simp add: gate_ok_def)
  have "entry_ok q" using g assms(5) by (auto simp: ginv_def)
  then have i: "tok_id (TSqe q) = q_id q" "0 < q_id q" using assms(6) by (auto simp: entry_ok_def split: if_splits)
  have "TSqe q \<in># toks (q_id q) ?R ?s" using assms(5) i by (simp add: toks_def tokens_def)
  from slot_open [OF g i(2) this] assms(6) obtain cc where cc: "map_of (conns ?s) (q_id q) = Some cc" "\<not> closing cc"
      "sqe_phase c (mem ?s) (flows (glog S) (q_id q)) cc (q_req q) (q_op q)"
    by (auto simp: close_tok_def)
  moreover have "sized c (mem ?s) cc" using ginv_ids [OF g cc(1)] by blast
  ultimately have a: "a \<in> {reqBuf cc, respBuf cc}" "off + n \<le> length (mem ?s a)"
    using assms(6) by (auto simp: sqe_phase_def has_request_def sized_def)
  have b: "bufs_ok c ?s" "keys_distinct (conns ?s)" using g by (auto simp: ginv_def table_ok_def)
  have "a \<in># bufs_of cc" using a by (auto simp: bufs_of_def)
  then have "a \<notin># bufs_of cc'" if "map_of (conns ?s) j = Some cc'" "j \<noteq> q_id q" for j cc'
    using held_owner [OF b cc(1)] that by blast
  moreover have "a \<notin># bufs_of cc'" if "cc' \<in> set (connFree ?s)" for cc'
    using held_free [OF b cc(1) \<open>a \<in># bufs_of cc\<close> that] .
  ultimately show ?thesis using cc(1,2) a by (auto simp: bufs_of_def)
qed

text \<open>
  No connection is stuck: a connection of the table has an outstanding entry, a queued job, or a hook
  result waiting in the bridge, and then the eventfd has been written and its read is armed.
\<close>

lemma churn_not_stuck:
  assumes "gate_reachable c S" and "\<not> duplex c" and "0 < reqLen c" and "0 < replyLen c"
    and "map_of (conns (gw S)) i = Some cc"
  shows "(\<exists>q\<in>set (sq (gw S)). q_id q = i \<and> conn_op (q_op q)) \<or> i \<in> set (jobs (gw S)) \<or>
    (\<exists>r\<in>set (ready (br (gw S))). rid r = i) \<and> 0 < wakes (br (gw S)) \<and> (\<exists>q\<in>set (sq (gw S)). q_op q = GEventfd)"
proof -
  let ?s = "gw S" and ?R = "ready (br (gw S))"
  have g: "ginv {} c (flows (glog S)) ?R ?s" using gate_reach_ok [OF assms(1-4)] by (simp add: gate_ok_def)
  have i: "0 < i" using ginv_ids [OF g assms(5)] by blast
  have "toks i ?R ?s \<noteq> {#}" using gate_slot [OF assms(1-4) i] assms(5) by (auto split: if_splits)
  then show ?thesis by (rule token_wakes [OF reach_accepts [OF assms(1)] i])
qed

section \<open>Accepts, in all modes\<close>

text \<open>
  In every mode the counters of accepts in flight are exact: \<open>acceptInflight[k]\<close> is the number of
  outstanding accepts of listener \<open>k\<close> and \<open>totalAccepts\<close> that of all listeners.
\<close>

theorem gate_accepts_exact:
  assumes "gate_reachable c S"
  shows "totalAccepts (gw S) = int (length (filter (\<lambda>q. q_op q = GAccept) (sq (gw S)))) \<and>
    (\<forall>k < length (lns (gw S)).
       acceptInflight (gw S) ! k = int (length (filter (\<lambda>q. q_op q = GAccept \<and> q_id q = k) (sq (gw S)))))"
proof -
  have f: "filter (\<lambda>q. idle_entry q \<and> q_op q = GAccept \<and> P q) qs = filter (\<lambda>q. q_op q = GAccept \<and> P q) qs" for P qs
    by (intro filter_cong) (auto simp: idle_entry_def conn_op_def)
  show ?thesis
    using reach_accepts [OF assms] f [of "\<lambda>_. True"] f
    by (simp add: accepts_ok_def counts_ok_def all_accepts_def accepts_on_def idle_entries_def)
qed

lemma gate_accepts_exact_witness: "acceptInflight (gw (splice_demo 2)) ! 0 = 2 \<and> totalAccepts (gw (splice_demo 2)) = 2"
proof -
  have "length (filter (\<lambda>q. q_op q = GAccept) (sq (gw (splice_demo 2)))) = 2"
    "length (filter (\<lambda>q. q_op q = GAccept \<and> q_id q = 0) (sq (gw (splice_demo 2)))) = 2" "0 < length (lns (gw (splice_demo 2)))"
    by code_simp+
  with gate_accepts_exact [OF splice_reachable, of 2] show ?thesis by simp
qed

text \<open>
  In every mode the connections and the accepts in flight together stay within \<open>-maxconns\<close>, or within
  the number of listeners where that is larger, as each listener starts with one accept. With a limit of
  at least the number of listeners no client is ever shed.
\<close>

theorem gate_within_limit:
  assumes "gate_reachable c S"
  shows "int (length (conns (gw S))) + totalAccepts (gw S) \<le> max (maxConns c) (int (length (lns (gw S)))) \<and>
    (shed (gw S) = 0 \<or> maxConns c < int (length (lns (gw S))))"
  using reach_accepts [OF assms] by (auto simp: accepts_ok_def room_limit_def)

lemma gate_within_limit_witness: "shed (gw (splice_demo 13)) = 0"
proof -
  have "int (length (lns (gw (splice_demo 13)))) \<le> maxConns splice_cfg" by code_simp
  then show ?thesis using gate_within_limit [OF splice_reachable, of 13] by simp
qed

text \<open>
  Topping up leaves every listener with its share of accepts in flight, unless the limit is reached,
  and changes nothing else.
\<close>

theorem gate_topped_up:
  assumes "gate_reachable c S" and "k < length (lns (gw S))"
  shows "conns (top_up c (gw S)) = conns (gw S) \<and>
    (perLn c (gw S) \<le> acceptInflight (top_up c (gw S)) ! k \<or>
     maxConns c \<le> int (length (conns (gw S))) + totalAccepts (top_up c (gw S)))"
proof -
  have "grown (gw S) (top_up c (gw S))" "topped c (top_up c (gw S)) k"
    using top_up_topped [OF reach_accepts [OF assms(1)]] assms(2) by auto
  moreover from this have "perLn c (top_up c (gw S)) = perLn c (gw S)" by (simp add: grown_def perLn_def)
  ultimately show ?thesis by (simp add: topped_def grown_def)
qed

lemma gate_topped_up_witness: "2 \<le> acceptInflight (top_up splice_cfg (gw (splice_demo 1))) ! 0"
proof -
  have "0 < length (lns (gw (splice_demo 1)))" by code_simp
  note t = gate_topped_up [OF splice_reachable this]
  have "perLn splice_cfg (gw (splice_demo 1)) = 2"
    "\<not> maxConns splice_cfg \<le> int (length (conns (gw (splice_demo 1)))) + totalAccepts (top_up splice_cfg (gw (splice_demo 1)))"
    by code_simp+
  with t show ?thesis by simp
qed

section \<open>Where the relay goes wrong\<close>

text \<open>
  C35. Without \<open>-duplex\<close> a send that the kernel takes only in part is not continued: here a request of two bytes
  reaches the upstream as one byte and a reply of three bytes the client as one byte, the connection is torn down,
  and it is counted as completed and not as an error.
\<close>

theorem gate_short_send_completes:
  "let S = short_demo 9; h = flows (glog S) 1 in
    gate_reachable churn_cfg S \<and> recvd_c h = [1, 2] \<and> sent_u h = [1] \<and> recvd_u h = [3, 4, 5] \<and> sent_c h = [3] \<and>
    conns (gw S) = [] \<and> completed (gw S) = 1 \<and> errs (gw S) = 0"
proof -
  have "recvd_c (flows (glog (short_demo 9)) 1) = [1, 2] \<and> sent_u (flows (glog (short_demo 9)) 1) = [1] \<and>
    recvd_u (flows (glog (short_demo 9)) 1) = [3, 4, 5] \<and> sent_c (flows (glog (short_demo 9)) 1) = [3] \<and>
    conns (gw (short_demo 9)) = [] \<and> completed (gw (short_demo 9)) = 1 \<and> errs (gw (short_demo 9)) = 0"
    by code_simp
  then show ?thesis using short_reachable by (simp add: Let_def)
qed

text \<open>
  C36. With \<open>-splice\<close> the bytes of one client can reach the upstream of another: the pipes of a connection are
  closed when its tear-down starts, while a splice posted in the same batch, not yet submitted, still names
  them; if another connection makes its pipes in that batch and gets the same numbers, the splice of the
  first fills the pipe of the second. \<open>T\<close> is the state at the last submission; the last entries of \<open>S\<close>
  were posted since.
\<close>

theorem gate_splice_crosstalk:
  "let T = gw (splice_demo 10); S = gw (splice_demo 13); posted = drop (length (sq T) - 3) (sq S) in
    gate_reachable splice_cfg (splice_demo 13) \<and> DClose 31 \<in> set (calls S) \<and>
    map_option (\<lambda>cc. (closing cc, c2uPipe cc, clientFD cc)) (map_of (conns S) 2) = Some (False, (30, 31), 20) \<and>
    \<lparr>q_req = QSplice 10 31 4, q_id = 1, q_op = GC2USpliceIn\<rparr> \<in> set posted \<and>
    \<lparr>q_req = QSplice 30 21 4, q_id = 2, q_op = GC2USpliceOut\<rparr> \<in> set posted"
proof -
  have "DClose 31 \<in> set (calls (gw (splice_demo 13))) \<and>
    map_option (\<lambda>cc. (closing cc, c2uPipe cc, clientFD cc)) (map_of (conns (gw (splice_demo 13))) 2) = Some (False, (30, 31), 20) \<and>
    \<lparr>q_req = QSplice 10 31 4, q_id = 1, q_op = GC2USpliceIn\<rparr> \<in> set (drop (length (sq (gw (splice_demo 10))) - 3) (sq (gw (splice_demo 13)))) \<and>
    \<lparr>q_req = QSplice 30 21 4, q_id = 2, q_op = GC2USpliceOut\<rparr> \<in> set (drop (length (sq (gw (splice_demo 10))) - 3) (sq (gw (splice_demo 13))))"
    by code_simp
  then show ?thesis using splice_reachable by (simp add: Let_def)
qed

end
