(* ===== verification/Gate_Duplex_Properties.thy ===== *)
theory Gate_Duplex_Properties
  imports Gate_Duplex_Reach Gate_Relay_Properties
begin

text \<open>
  The properties of the benchmark relay with \<open>-duplex\<close>, read off the invariant of \<open>Gate_Duplex\<close>, with a
  concrete tunnel as the witness: both directions relayed, a send taken in part and continued, and a
  connection torn down while the other direction still has a receive outstanding.
\<close>

section \<open>A concrete tunnel\<close>

definition tunnel_cfg :: relayCfg where
  "tunnel_cfg = \<lparr>cfg_addr = ''0.0.0.0'', cfg_port = 9000, reqLen = 2, replyLen = 3, duplex = True, splice = False,
     bufSize = 4, maxConns = 4, acceptBatch = 2\<rparr>"

definition tunnel_events :: "gate_event list" where
  "tunnel_events =
    [GComplete 0 10 [] no_pipes,          \<comment> \<open>a client\<close>
     GComplete 2 2 [1, 2] no_pipes,       \<comment> \<open>its request\<close>
     GHook 0 11 True,
     GComplete 0 8 [] no_pipes,           \<comment> \<open>the wake-up: the request is forwarded\<close>
     GComplete 2 2 [] no_pipes,           \<comment> \<open>both directions start\<close>
     GComplete 2 3 [3, 4, 5] no_pipes,    \<comment> \<open>three more bytes of the client\<close>
     GComplete 3 1 [] no_pipes,           \<comment> \<open>one of them is taken\<close>
     GComplete 3 2 [] no_pipes,           \<comment> \<open>then the other two\<close>
     GComplete 2 2 [8, 9] no_pipes,       \<comment> \<open>the upstream answers\<close>
     GComplete 3 2 [] no_pipes,
     GComplete 2 0 [] no_pipes,           \<comment> \<open>the client has sent everything\<close>
     GComplete 2 (- 104) [] no_pipes,     \<comment> \<open>the upstream is reset: closing\<close>
     GComplete 2 0 [] no_pipes,
     GComplete 2 0 [] no_pipes]"

definition tunnel_demo :: "nat \<Rightarrow> gate_sys" where
  "tunnel_demo n = the (gate_run tunnel_cfg demo_gate (take n tunnel_events))"

text \<open>Up to the first exchange it is the same; then the upstream is reset, and the client's receive is left over.\<close>

definition torn_events :: "gate_event list" where
  "torn_events = take 10 tunnel_events @
    [GComplete 3 (- 104) [] no_pipes, GComplete 3 0 [] no_pipes, GComplete 3 0 [] no_pipes,
     GComplete 2 1 [7] no_pipes]"

definition torn_demo :: "nat \<Rightarrow> gate_sys" where
  "torn_demo n = the (gate_run tunnel_cfg demo_gate (take n torn_events))"

text \<open>The kernel takes one of the two bytes of the request: the other is never sent, what follows is.\<close>

definition cut_events :: "gate_event list" where
  "cut_events = take 4 tunnel_events @
    [GComplete 2 1 [] no_pipes, GComplete 2 3 [3, 4, 5] no_pipes, GComplete 3 3 [] no_pipes, GComplete 3 0 [] no_pipes]"

definition cut_demo :: "nat \<Rightarrow> gate_sys" where
  "cut_demo n = the (gate_run tunnel_cfg demo_gate (take n cut_events))"

lemma tunnel_reachable: "gate_reachable tunnel_cfg (tunnel_demo n)"
  unfolding tunnel_demo_def by (rule demo_run_reachable) code_simp

lemma torn_reachable: "gate_reachable tunnel_cfg (torn_demo n)"
  unfolding torn_demo_def by (rule demo_run_reachable) code_simp

lemma cut_reachable: "gate_reachable tunnel_cfg (cut_demo n)"
  unfolding cut_demo_def by (rule demo_run_reachable) code_simp

lemma tunnel_two_way: "two_way tunnel_cfg"
  by code_simp

section \<open>Properties\<close>

lemma duplex_slot:
  "gate_reachable c S \<Longrightarrow> two_way c \<Longrightarrow> 0 < i \<Longrightarrow>
   dslot c (mem (gw S)) (kept (glog S) i) (map_of (conns (gw S)) i) (toks i (ready (br (gw S))) (gw S))"
  using duplex_reach_ok dslot_of unfolding duplex_ok_def by blast

lemma dirs_ok_faithful: "dirs_ok m h T \<Longrightarrow> prefix (sent_u h) (recvd_c h) \<and> prefix (sent_c h) (recvd_u h)"
  by (auto simp: dirs_ok_def up_dir_def down_dir_def)

lemma relay_phase_faithful: "relay_phase c m h cc T \<Longrightarrow> prefix (sent_u h) (recvd_c h) \<and> prefix (sent_c h) (recvd_u h)"
  by (auto simp: relay_phase_def up_phase_def down_phase_def)

lemma begin_phase_faithful: "begin_phase c m h cc t \<Longrightarrow> prefix (sent_u h) (recvd_c h) \<and> prefix (sent_c h) (recvd_u h)"
  by (cases t) (auto simp: has_request_def no_flow_def)

lemma dslot_faithful:
  assumes "dslot c m h oc T"
  shows "prefix (sent_u h) (recvd_c h) \<and> prefix (sent_c h) (recvd_u h)"
proof (cases oc)
  case None
  then have "dirs_ok m h T" using assms by simp
  then show ?thesis by (rule dirs_ok_faithful)
next
  case (Some cc)
  then consider "dirs_ok m h T" | t where "begin_phase c m h cc t" | "relay_phase c m h cc T"
    using assms by (cases "closing cc") auto
  then show ?thesis
    by cases (rule dirs_ok_faithful begin_phase_faithful relay_phase_faithful, assumption)+
qed

text \<open>
  With \<open>-duplex\<close> the relay never panics: also not when an entry completes for a connection that is closing or gone.
\<close>

lemma duplex_no_panic:
  assumes "gate_reachable c S" and "two_way c" and "gevent_ok S e"
  shows "\<exists>S'. gate_step c S e = Some S'"
  using d_step_ok [OF duplex_reach_ok] assms by blast

lemma duplex_no_panic_witness: "\<exists>S'. gate_step tunnel_cfg (torn_demo 13) (GComplete 2 1 [7] no_pipes) = Some S'"
  by (rule duplex_no_panic [OF torn_reachable tunnel_two_way]) code_simp+

text \<open>
  With \<open>-duplex\<close> the client is sent a prefix of what the upstream sent, whatever sends are taken in part and
  whenever the connection is torn down; the upstream a prefix of what the client sent without what is left of the
  initial request when the send of it has completed, and simply a prefix when the kernel took the request whole.
\<close>

theorem duplex_relays_faithfully:
  assumes "gate_reachable c S" and "two_way c" and "0 < i"
  shows "prefix (sent_u (flows (glog S) i)) (recvd_c (kept (glog S) i)) \<and>
    (request_taken i (glog S) \<longrightarrow> prefix (sent_u (flows (glog S) i)) (recvd_c (flows (glog S) i))) \<and>
    prefix (sent_c (flows (glog S) i)) (recvd_u (flows (glog S) i))"
  using dslot_faithful [OF duplex_slot [OF assms]] kept_whole [OF assms(1,2), of i] by (auto simp: kept_flows)

lemma duplex_relays_faithfully_witness:
  "sent_u (flows (glog (torn_demo 14)) 1) = [1, 2, 3, 4, 5] \<and> recvd_c (flows (glog (torn_demo 14)) 1) = [1, 2, 3, 4, 5, 7] \<and>
   prefix (sent_c (flows (glog (torn_demo 14)) 1)) (recvd_u (flows (glog (torn_demo 14)) 1))"
proof -
  have "sent_u (flows (glog (torn_demo 14)) 1) = [1, 2, 3, 4, 5]"
    "recvd_c (flows (glog (torn_demo 14)) 1) = [1, 2, 3, 4, 5, 7]" by code_simp+
  then show ?thesis using duplex_relays_faithfully [OF torn_reachable tunnel_two_way, of 1 14] by simp
qed

text \<open>
  With \<open>-duplex\<close> no connection is stuck: a connection of the table has an outstanding entry, a queued job, or an announced hook result.
\<close>

lemma duplex_not_stuck:
  assumes "gate_reachable c S" and "two_way c" and "map_of (conns (gw S)) i = Some cc"
  shows "(\<exists>q\<in>set (sq (gw S)). q_id q = i \<and> conn_op (q_op q)) \<or> i \<in> set (jobs (gw S)) \<or>
    (\<exists>r\<in>set (ready (br (gw S))). rid r = i) \<and> 0 < wakes (br (gw S)) \<and> (\<exists>q\<in>set (sq (gw S)). q_op q = GEventfd)"
proof -
  have "dinv {} c (kept (glog S)) (ready (br (gw S))) (gw S)" using duplex_reach_ok [OF assms(1,2)] by (simp add: duplex_ok_def)
  then have i: "0 < i" using dinv_ids assms(3) by blast
  have "up_phase c m h cc {#} \<Longrightarrow> down_phase c m h cc {#} \<Longrightarrow> clientReadDone cc \<and> upstreamReadDone cc" for m h
    by (auto simp: up_phase_def down_phase_def)
  then have "\<not> relay_phase c m h cc {#}" for m h by (auto simp: relay_phase_def)
  then have "toks i (ready (br (gw S))) (gw S) \<noteq> {#}"
    using duplex_slot [OF assms(1,2) i] assms(3) by (auto split: if_splits)
  then show ?thesis by (rule token_wakes [OF reach_accepts [OF assms(1)] i])
qed

lemma duplex_not_stuck_witness: "\<exists>q\<in>set (sq (gw (tunnel_demo 11))). q_id q = 1 \<and> conn_op (q_op q)"
proof -
  have "map_of (conns (gw (tunnel_demo 11))) 1 = Some (the (map_of (conns (gw (tunnel_demo 11))) 1))"
    "jobs (gw (tunnel_demo 11)) = []" "ready (br (gw (tunnel_demo 11))) = []" by code_simp+
  then show ?thesis using duplex_not_stuck [OF tunnel_reachable tunnel_two_way] by fastforce
qed

text \<open>
  With \<open>-duplex\<close> a buffer the kernel may read or
  write belongs to one connection for ever: no other connection refers to it, and no entry of another.
  This is why receives left behind by a tear-down are harmless.
\<close>

theorem duplex_buffers_exclusive:
  assumes "gate_reachable c S" and "two_way c"
    and "q \<in> set (sq (gw S))" and "q_req q = QRecv f a off n \<or> q_req q = QSend f a off n"
  shows "(\<forall>q'\<in>set (sq (gw S)). a \<in> q_addr (q_req q') \<longrightarrow> q_id q' = q_id q) \<and>
    (\<forall>j cc. map_of (conns (gw S)) j = Some cc \<and> j \<noteq> q_id q \<longrightarrow> a \<notin> {reqBuf cc, respBuf cc, c2uBuf cc, u2cBuf cc})"
proof -
  have "owned (gw S)" using duplex_reach_ok [OF assms(1,2)] by (simp add: duplex_ok_def dinv_def)
  then obtain ow where C: "\<And>i cc a. map_of (conns (gw S)) i = Some cc \<Longrightarrow> a \<in> conn_bufs cc \<Longrightarrow> a < nextAddr (gw S) \<and> ow a = i"
      and Q: "\<And>q a. q \<in> set (sq (gw S)) \<Longrightarrow> a \<in> q_addr (q_req q) \<Longrightarrow> 0 < a \<and> a < nextAddr (gw S) \<and> ow a = q_id q \<and> 0 < q_id q"
    unfolding owned_def by blast
  have a: "0 < a" "ow a = q_id q" using Q [OF assms(3), of a] assms(4) by auto
  have "q_id q' = q_id q" if "q' \<in> set (sq (gw S))" "a \<in> q_addr (q_req q')" for q' using Q [OF that] a by simp
  moreover have "a \<notin> conn_bufs cc" if "map_of (conns (gw S)) j = Some cc" "j \<noteq> q_id q" for j cc
    using C [OF that(1), of a] that(2) a by auto
  ultimately show ?thesis using a by (auto simp: conn_bufs_def)
qed

lemma duplex_buffers_exclusive_witness:
  "\<forall>q'\<in>set (sq (gw (torn_demo 13))). 3 \<in> q_addr (q_req q') \<longrightarrow> q_id q' = 1"
proof -
  let ?q = "\<lparr>q_req = QRecv 10 3 0 4, q_id = 1, q_op = GC2URecv\<rparr>"
  have "?q \<in> set (sq (gw (torn_demo 13)))" by code_simp
  from duplex_buffers_exclusive [OF torn_reachable tunnel_two_way this, of 10 3 0 4] show ?thesis by simp
qed

end
