(* ===== verification/Pipes.thy ===== *)
theory Pipes
  imports Prelude "HOL-Library.Sublist"
begin

text \<open>
  The abstract specification of a relayed direction: an unbounded FIFO of bytes. A step puts some bytes at the
  end and takes some, exactly those at the front. \<open>byte_pipe\<close> is the interface of an implementation: what
  its log says was put and taken so far; every log of an implementation is then a run of the FIFO.
\<close>

section \<open>The FIFO\<close>

fun fifo_step :: "'a list \<times> 'a list \<Rightarrow> 'a list \<Rightarrow> 'a list option" where
  "fifo_step (puts, takes) q =
    (let q = q @ puts in if prefix takes q then Some (drop (length takes) q) else None)"

fun fifo_run :: "('a list \<times> 'a list) list \<Rightarrow> 'a list \<Rightarrow> 'a list option" where
  "fifo_run [] q = Some q"
| "fifo_run (m # ms) q = (case fifo_step m q of None \<Rightarrow> None | Some q' \<Rightarrow> fifo_run ms q')"

definition all_put :: "('a list \<times> 'a list) list \<Rightarrow> 'a list" where
  "all_put ms = concat (map fst ms)"

definition all_taken :: "('a list \<times> 'a list) list \<Rightarrow> 'a list" where
  "all_taken ms = concat (map snd ms)"

lemma all_put_simps [simp]: "all_put [] = []" "all_put (ms @ [m]) = all_put ms @ fst m"
  by (simp_all add: all_put_def)

lemma all_taken_simps [simp]: "all_taken [] = []" "all_taken (ms @ [m]) = all_taken ms @ snd m"
  by (simp_all add: all_taken_def)

lemma fifo_run_snoc:
  "fifo_run (ms @ [m]) q = (case fifo_run ms q of None \<Rightarrow> None | Some q' \<Rightarrow> fifo_step m q')"
  by (induction ms arbitrary: q) (auto split: option.splits)

lemma fifo_run_sound: "fifo_run ms [] = Some q \<Longrightarrow> all_put ms = all_taken ms @ q"
proof (induction ms arbitrary: q rule: rev_induct)
  case (snoc m ms)
  obtain q1 where q1: "fifo_run ms [] = Some q1" "fifo_step m q1 = Some q"
    using snoc.prems by (auto simp: fifo_run_snoc split: option.splits)
  then have "q1 @ fst m = snd m @ q" by (cases m) (auto simp: Let_def prefix_def split: if_splits)
  then show ?case using snoc.IH [OF q1(1)] by simp
qed simp

lemma fifo_step_complete:
  assumes "all_put ms = all_taken ms @ q" and "prefix (all_taken (ms @ [m])) (all_put (ms @ [m]))"
  shows "fifo_step m q = Some (drop (length (all_taken (ms @ [m]))) (all_put (ms @ [m])))"
  using assms by (cases m) (auto simp: prefix_def Let_def)

section \<open>Implementations\<close>

text \<open>
  \<open>moves s\<close>: what was put and taken up to state \<open>s\<close>, in order; a step adds one entry or none.
\<close>

locale byte_pipe =
  fixes start :: "'s \<Rightarrow> bool" and tr :: "'s \<Rightarrow> 'e \<Rightarrow> 's \<Rightarrow> bool" and moves :: "'s \<Rightarrow> ('a list \<times> 'a list) list"
  assumes starts_empty: "start s \<Longrightarrow> moves s = []"
    and grows: "tr s e s' \<Longrightarrow> moves s' = moves s \<or> (\<exists>m. moves s' = moves s @ [m])"
    and ordered: "reachable start tr s \<Longrightarrow> prefix (all_taken (moves s)) (all_put (moves s))"
begin

lemma implements_fifo:
  assumes "reachable start tr s"
  shows "fifo_run (moves s) [] = Some (drop (length (all_taken (moves s))) (all_put (moves s)))"
  using assms
proof (induction rule: reachable.induct)
  case (reach_step s e s')
  have "reachable start tr s'" using reach_step.hyps by (rule reachable.reach_step)
  then have o: "prefix (all_taken (moves s')) (all_put (moves s'))" by (rule ordered)
  consider "moves s' = moves s" | m where "moves s' = moves s @ [m]" using grows [OF reach_step.hyps(2)] by blast
  then show ?case
  proof cases
    case 2
    show ?thesis
      using fifo_step_complete [OF fifo_run_sound [OF reach_step.IH], of m] o reach_step.IH by (simp add: 2 fifo_run_snoc)
  qed (simp add: reach_step.IH)
qed (simp add: starts_empty)

end

section \<open>A FIFO that may give up its content\<close>

text \<open>A step of this one may end with throwing away what is still held; \<open>True\<close> marks such a step.\<close>

fun lossy_step :: "'a list \<times> 'a list \<times> bool \<Rightarrow> 'a list \<Rightarrow> 'a list option" where
  "lossy_step (puts, takes, giveUp) q = map_option (\<lambda>q'. if giveUp then [] else q') (fifo_step (puts, takes) q)"

fun lossy_run :: "('a list \<times> 'a list \<times> bool) list \<Rightarrow> 'a list \<Rightarrow> 'a list option" where
  "lossy_run [] q = Some q"
| "lossy_run (m # ms) q = (case lossy_step m q of None \<Rightarrow> None | Some q' \<Rightarrow> lossy_run ms q')"

lemma lossy_run_snoc:
  "lossy_run (ms @ [m]) q = (case lossy_run ms q of None \<Rightarrow> None | Some q' \<Rightarrow> lossy_step m q')"
  by (induction ms arbitrary: q) (auto split: option.splits)

text \<open>An implementation says what was put, without what was given up, and what was taken.\<close>

locale lossy_pipe =
  fixes start :: "'s \<Rightarrow> bool" and tr :: "'s \<Rightarrow> 'e \<Rightarrow> 's \<Rightarrow> bool" and moves :: "'s \<Rightarrow> ('a list \<times> 'a list \<times> bool) list"
    and held :: "'s \<Rightarrow> 'a list" and given :: "'s \<Rightarrow> 'a list"
  assumes starts_empty: "start s \<Longrightarrow> moves s = [] \<and> held s = [] \<and> given s = []"
    and grows: "reachable start tr s \<Longrightarrow> tr s e s' \<Longrightarrow> moves s' = moves s \<and> held s' = held s \<and> given s' = given s \<or>
      (\<exists>ps ts g. moves s' = moves s @ [(ps, ts, g)] \<and> given s' = given s @ ts \<and> held s' = (if g then given s' else held s @ ps) \<and>
         prefix (given s @ ts) (held s @ ps))"
begin

lemma implements_lossy:
  "reachable start tr s \<Longrightarrow> prefix (given s) (held s) \<and> lossy_run (moves s) [] = Some (drop (length (given s)) (held s))"
proof (induction rule: reachable.induct)
  case (reach_start s)
  then show ?case by (simp add: starts_empty)
next
  case (reach_step s e s')
  with grows [OF reach_step.hyps] show ?case
    by (auto simp: lossy_run_snoc prefix_def)
qed

end

text \<open>Two FIFOs in a row: the second is put what was taken from the first, or a beginning of it.\<close>

lemma fifos_in_a_row:
  assumes "fifo_run ms [] = Some q" and "fifo_run ms' [] = Some q'" and "prefix (all_put ms') (all_taken ms)"
  shows "prefix (all_taken ms') (all_put ms)"
proof -
  have "prefix (all_taken ms') (all_put ms')" "prefix (all_taken ms) (all_put ms)"
    using fifo_run_sound [OF assms(2)] fifo_run_sound [OF assms(1)] by simp_all
  with assms(3) show ?thesis by (meson prefix_order.order_trans)
qed

end
