(* ===== verification/Relay_Refinement.thy ===== *)
theory Relay_Refinement
  imports Gate_Duplex_Properties Pipes
begin

text \<open>
  The benchmark relay implements two FIFOs per connection, one from the client to the upstream and one back:
  without \<open>-duplex\<close>, where its structures and buffers are recycled, and with \<open>-duplex\<close>. The entries of the
  log that receive from one side are puts, those that send to the other side take. With \<open>-duplex\<close> the first of
  the two FIFOs gives up what the kernel did not take of the initial request.
\<close>

section \<open>What a log says of one connection\<close>

definition moved_by :: "gate_op set \<Rightarrow> nat \<Rightarrow> gate_entry \<Rightarrow> bytes" where
  "moved_by ops i e = (if q_id (le_sqe e) = i \<and> q_op (le_sqe e) \<in> ops then le_moved e else [])"

definition up_moves :: "nat \<Rightarrow> gate_sys \<Rightarrow> (bytes \<times> bytes) list" where
  "up_moves i S = map (\<lambda>e. (moved_by {GRecvReq, GC2URecv} i e, moved_by {GSendUp, GC2USend} i e)) (glog S)"

definition down_moves :: "nat \<Rightarrow> gate_sys \<Rightarrow> (bytes \<times> bytes) list" where
  "down_moves i S = map (\<lambda>e. (moved_by {GRecvResp, GU2CRecv} i e, moved_by {GSendClient, GU2CSend} i e)) (glog S)"

lemma flow_moves:
  "recvd_c (flows es i) = concat (map (moved_by {GRecvReq, GC2URecv} i) es) \<and>
   sent_u (flows es i) = concat (map (moved_by {GSendUp, GC2USend} i) es) \<and>
   recvd_u (flows es i) = concat (map (moved_by {GRecvResp, GU2CRecv} i) es) \<and>
   sent_c (flows es i) = concat (map (moved_by {GSendClient, GU2CSend} i) es)"
  by (induction es rule: rev_induct)
     (auto simp: flows_snoc flow_step_def flow_add_def moved_by_def no_flow_def Let_def)

lemma moves_flows [simp]:
  "all_put (up_moves i S) = recvd_c (flows (glog S) i)" "all_taken (up_moves i S) = sent_u (flows (glog S) i)"
  "all_put (down_moves i S) = recvd_u (flows (glog S) i)" "all_taken (down_moves i S) = sent_c (flows (glog S) i)"
  by (simp_all add: up_moves_def down_moves_def all_put_def all_taken_def flow_moves o_def)

lemma glog_grows: "gate_trans c S e S' \<Longrightarrow> glog S' = glog S \<or> (\<exists>l. glog S' = glog S @ [l])"
  by (cases e) (auto simp: gate_trans_def Let_def)

lemma moves_grow:
  assumes "gate_trans c S e S'"
  shows "up_moves i S' = up_moves i S \<or> (\<exists>m. up_moves i S' = up_moves i S @ [m])"
    and "down_moves i S' = down_moves i S \<or> (\<exists>m. down_moves i S' = down_moves i S @ [m])"
  using glog_grows [OF assms] by (auto simp: up_moves_def down_moves_def)

lemma boot_no_log: "gate_boot S \<Longrightarrow> glog S = []"
  by (auto simp: gate_boot_def)

section \<open>The two modes\<close>

text \<open>
  Without \<open>-duplex\<close>, and with it; \<open>-splice\<close> is neither. Lengths that are not positive make the relay panic.
\<close>

definition churn_mode :: "relayCfg \<Rightarrow> bool" where
  "churn_mode c \<longleftrightarrow> \<not> duplex c \<and> 0 < reqLen c \<and> 0 < replyLen c"

definition relay_mode :: "relayCfg \<Rightarrow> bool" where
  "relay_mode c \<longleftrightarrow> churn_mode c \<or> two_way c"

lemma reachable_restrict: "reachable (\<lambda>S. P \<and> start S) tr S \<Longrightarrow> P \<and> reachable start tr S"
  by (induction rule: reachable.induct) (auto intro: reachable.intros)

lemma reachable_restrictI: "P \<Longrightarrow> reachable start tr S \<Longrightarrow> reachable (\<lambda>S. P \<and> start S) tr S"
  by (rotate_tac, induction rule: reachable.induct) (auto intro: reachable.intros)

lemma churn_ordered: "churn_mode c \<Longrightarrow> gate_reachable c S \<Longrightarrow> 0 < i \<Longrightarrow>
    prefix (sent_u (flows (glog S) i)) (recvd_c (flows (glog S) i)) \<and> prefix (sent_c (flows (glog S) i)) (recvd_u (flows (glog S) i))"
  using churn_faithful by (simp add: churn_mode_def)

lemma duplex_ordered: "two_way c \<Longrightarrow> gate_reachable c S \<Longrightarrow> 0 < i \<Longrightarrow>
    (request_taken i (glog S) \<longrightarrow> prefix (sent_u (flows (glog S) i)) (recvd_c (flows (glog S) i))) \<and>
    prefix (sent_c (flows (glog S) i)) (recvd_u (flows (glog S) i))"
  using dslot_faithful [OF duplex_slot, of c S i] kept_whole [of c S i] by (auto simp: kept_flows)

text \<open>The runs in which the request of one connection is taken whole.\<close>

definition taken_trans :: "relayCfg \<Rightarrow> nat \<Rightarrow> gate_sys \<Rightarrow> gate_event \<Rightarrow> gate_sys \<Rightarrow> bool" where
  "taken_trans c i S e S' \<longleftrightarrow> gate_trans c S e S' \<and> request_taken i (glog S')"

lemma taken_reachable:
  "gate_reachable c S \<Longrightarrow> request_taken i (glog S) \<Longrightarrow> reachable gate_boot (taken_trans c i) S"
proof (induction rule: reachable.induct)
  case (reach_step S e S')
  then have "request_taken i (glog S)" using glog_grows [OF reach_step.hyps(2)] by (auto simp: request_taken_def)
  with reach_step show ?case by (blast intro: reachable.reach_step taken_trans_def [THEN iffD2])
qed (rule reachable.reach_start)

lemma reachable_taken:
  "reachable gate_boot (taken_trans c i) S \<Longrightarrow> gate_reachable c S \<and> request_taken i (glog S)"
proof (induction rule: reachable.induct)
  case (reach_start S)
  then show ?case by (simp add: boot_no_log request_taken_def reachable.reach_start)
next
  case (reach_step S e S')
  then show ?case by (auto simp: taken_trans_def intro: reachable.reach_step)
qed

interpretation churn_up: byte_pipe "\<lambda>S. (churn_mode c \<and> 0 < i) \<and> gate_boot S" "gate_trans c" "up_moves i" for c i
proof
  show "prefix (all_taken (up_moves i S)) (all_put (up_moves i S))"
    if "reachable (\<lambda>S. (churn_mode c \<and> 0 < i) \<and> gate_boot S) (gate_trans c) S" for S
    using reachable_restrict [OF that] churn_ordered by auto
qed (auto simp: up_moves_def boot_no_log dest!: glog_grows)

interpretation churn_down: byte_pipe "\<lambda>S. (churn_mode c \<and> 0 < i) \<and> gate_boot S" "gate_trans c" "down_moves i" for c i
proof
  show "prefix (all_taken (down_moves i S)) (all_put (down_moves i S))"
    if "reachable (\<lambda>S. (churn_mode c \<and> 0 < i) \<and> gate_boot S) (gate_trans c) S" for S
    using reachable_restrict [OF that] churn_ordered by auto
qed (auto simp: down_moves_def boot_no_log dest!: glog_grows)

interpretation duplex_up: byte_pipe "\<lambda>S. (two_way c \<and> 0 < i) \<and> gate_boot S" "taken_trans c i" "up_moves i" for c i
proof
  show "prefix (all_taken (up_moves i S)) (all_put (up_moves i S))"
    if "reachable (\<lambda>S. (two_way c \<and> 0 < i) \<and> gate_boot S) (taken_trans c i) S" for S
    using reachable_restrict [OF that] reachable_taken duplex_ordered by auto
qed (auto simp: up_moves_def boot_no_log taken_trans_def dest!: glog_grows)

interpretation duplex_down: byte_pipe "\<lambda>S. (two_way c \<and> 0 < i) \<and> gate_boot S" "gate_trans c" "down_moves i" for c i
proof
  show "prefix (all_taken (down_moves i S)) (all_put (down_moves i S))"
    if "reachable (\<lambda>S. (two_way c \<and> 0 < i) \<and> gate_boot S) (gate_trans c) S" for S
    using reachable_restrict [OF that] duplex_ordered by auto
qed (auto simp: down_moves_def boot_no_log dest!: glog_grows)

section \<open>A request taken in part\<close>

text \<open>What a log says of the way up; when the send of the request has completed, the relay gives up the rest of it.\<close>

definition gives_up :: "nat \<Rightarrow> gate_entry \<Rightarrow> bool" where
  "gives_up i e \<longleftrightarrow> q_id (le_sqe e) = i \<and> q_op (le_sqe e) = GSendUp \<and> 0 \<le> le_res e"

definition up_log :: "nat \<Rightarrow> gate_sys \<Rightarrow> (bytes \<times> bytes \<times> bool) list" where
  "up_log i S = map (\<lambda>e. (moved_by {GRecvReq, GC2URecv} i e, moved_by {GSendUp, GC2USend} i e, gives_up i e)) (glog S)"

lemma kept_grows:
  "sent_u (kept (es @ [e]) i) = sent_u (kept es i) @ moved_by {GSendUp, GC2USend} i e \<and>
   recvd_c (kept (es @ [e]) i) =
     (if gives_up i e then sent_u (kept (es @ [e]) i) else recvd_c (kept es i) @ moved_by {GRecvReq, GC2URecv} i e)"
  by (auto simp: kept_snoc kept_step_def kept_add_def flow_add_def moved_by_def gives_up_def Let_def)

lemma request_prefix:
  assumes "two_way c" and "gate_reachable c S" and "gate_trans c S ev S'" and "glog S' = glog S @ [e]" and "gives_up i e"
  shows "prefix (sent_u (kept (glog S) i) @ moved_by {GSendUp, GC2USend} i e)
    (recvd_c (kept (glog S) i) @ moved_by {GRecvReq, GC2URecv} i e)"
proof -
  obtain n res data pipes where ev: "ev = GComplete n res data pipes" "n < length (sq (gw S))"
    using assms(3,4) by (cases ev) (auto simp: gate_trans_def Let_def)
  define q where "q = sq (gw S) ! n"
  have e: "e = \<lparr>le_sqe = q, le_res = res, le_moved = gmoved (q_req q) res data (gw S)\<rparr>"
    using assms(3,4) ev(1) by (auto simp: gate_trans_def Let_def q_def)
  have q: "q \<in> set (sq (gw S))" "q_op q = GSendUp" "q_id q = i"
    using assms(5) ev(2) by (auto simp: e gives_up_def q_def)
  have "dinv {} c (kept (glog S)) (ready (br (gw S))) (gw S)"
    using duplex_reach_ok [OF assms(2,1)] by (simp add: duplex_ok_def)
  from send_up_slot [OF this q(1,2)] show ?thesis
    using q by (auto simp: e moved_by_def slice_def prefix_take_min)
qed

interpretation lossy_up: lossy_pipe "\<lambda>S. (two_way c \<and> 0 < i) \<and> gate_boot S" "gate_trans c" "up_log i"
  "\<lambda>S. recvd_c (kept (glog S) i)" "\<lambda>S. sent_u (kept (glog S) i)" for c i
proof
  fix S e S'
  assume r: "reachable (\<lambda>S. (two_way c \<and> 0 < i) \<and> gate_boot S) (gate_trans c) S" and t: "gate_trans c S e S'"
  have c: "two_way c" "0 < i" "gate_reachable c S" using reachable_restrict [OF r] by auto
  have p: "prefix (sent_u (kept (glog S') i)) (recvd_c (kept (glog S') i))"
    using dslot_faithful [OF duplex_slot [OF reachable.reach_step [OF c(3) t] c(1,2)]] by simp
  from glog_grows [OF t] show "up_log i S' = up_log i S \<and> recvd_c (kept (glog S') i) = recvd_c (kept (glog S) i) \<and>
      sent_u (kept (glog S') i) = sent_u (kept (glog S) i) \<or>
    (\<exists>ps ts g. up_log i S' = up_log i S @ [(ps, ts, g)] \<and> sent_u (kept (glog S') i) = sent_u (kept (glog S) i) @ ts \<and>
      recvd_c (kept (glog S') i) = (if g then sent_u (kept (glog S') i) else recvd_c (kept (glog S) i) @ ps) \<and>
      prefix (sent_u (kept (glog S) i) @ ts) (recvd_c (kept (glog S) i) @ ps))"
  proof
    assume "\<exists>l. glog S' = glog S @ [l]"
    then obtain l where l: "glog S' = glog S @ [l]" by blast
    have "prefix (sent_u (kept (glog S) i) @ moved_by {GSendUp, GC2USend} i l)
        (recvd_c (kept (glog S) i) @ moved_by {GRecvReq, GC2URecv} i l)"
      using request_prefix [OF c(1,3) t l] p kept_grows [of "glog S" l i] unfolding l by (cases "gives_up i l") auto
    then show ?thesis using kept_grows [of "glog S" l i] by (simp add: l up_log_def)
  qed (simp add: up_log_def)
qed (auto simp: up_log_def boot_no_log no_flow_def)

section \<open>Refinement\<close>

lemma torn_mode: "relay_mode tunnel_cfg"
  using tunnel_two_way by (simp add: relay_mode_def)

lemma churn_cfg_mode: "relay_mode churn_cfg"
  using churn_cfg_modes by (simp add: relay_mode_def churn_mode_def)

lemma two_way_duplex: "two_way c \<Longrightarrow> duplex c"
  by (simp add: two_way_def)

text \<open>The bytes of a connection's way up are in order, unless its request was cut; those of its way down always are.\<close>

lemma relay_ordered:
  assumes "relay_mode c" and "gate_reachable c S" and "0 < i"
  shows "(\<not> duplex c \<or> request_taken i (glog S) \<longrightarrow> prefix (sent_u (flows (glog S) i)) (recvd_c (flows (glog S) i))) \<and>
    prefix (sent_c (flows (glog S) i)) (recvd_u (flows (glog S) i))"
  using assms churn_ordered duplex_ordered two_way_duplex by (auto simp: relay_mode_def)

lemma duplex_fifos:
  assumes "two_way c" and "gate_reachable c S" and "0 < i"
  shows "\<exists>q. fifo_run (down_moves i S) [] = Some q" and "\<exists>q. lossy_run (up_log i S) [] = Some q"
    and "request_taken i (glog S) \<Longrightarrow> \<exists>q. fifo_run (up_moves i S) [] = Some q"
proof -
  have r: "reachable (\<lambda>S. (two_way c \<and> 0 < i) \<and> gate_boot S) (gate_trans c) S"
    by (rule reachable_restrictI [OF _ assms(2)]) (use assms in simp)
  show "\<exists>q. fifo_run (down_moves i S) [] = Some q" using duplex_down.implements_fifo [OF r] by blast
  show "\<exists>q. lossy_run (up_log i S) [] = Some q" using lossy_up.implements_lossy [OF r] by blast
  assume "request_taken i (glog S)"
  then have "reachable (\<lambda>S. (two_way c \<and> 0 < i) \<and> gate_boot S) (taken_trans c i) S"
    by (intro reachable_restrictI taken_reachable assms(2)) (use assms in simp_all)
  from duplex_up.implements_fifo [OF this] show "\<exists>q. fifo_run (up_moves i S) [] = Some q" by blast
qed

lemma churn_fifos:
  assumes "churn_mode c" and "gate_reachable c S" and "0 < i"
  shows "\<exists>q. fifo_run (down_moves i S) [] = Some q" and "\<exists>q. fifo_run (up_moves i S) [] = Some q"
proof -
  have r: "reachable (\<lambda>S. (churn_mode c \<and> 0 < i) \<and> gate_boot S) (gate_trans c) S"
    by (rule reachable_restrictI [OF _ assms(2)]) (use assms in simp)
  show "\<exists>q. fifo_run (down_moves i S) [] = Some q" using churn_down.implements_fifo [OF r] by blast
  show "\<exists>q. fifo_run (up_moves i S) [] = Some q" using churn_up.implements_fifo [OF r] by blast
qed

lemma fifo_run_flows:
  "fifo_run (up_moves i S) [] = Some q \<Longrightarrow> recvd_c (flows (glog S) i) = sent_u (flows (glog S) i) @ q"
  "fifo_run (down_moves i S) [] = Some q \<Longrightarrow> recvd_u (flows (glog S) i) = sent_c (flows (glog S) i) @ q"
  using fifo_run_sound [of "up_moves i S" q] fifo_run_sound [of "down_moves i S" q] by simp_all

text \<open>
  C6. The relay implements FIFOs, with or without \<open>-duplex\<close> (but not with \<open>-splice\<close>): for every connection, what its
  log says of the way from the upstream to the client is a run of the abstract FIFO from empty, whatever sends the
  kernel takes in part: every send takes bytes from the front of what was received before it, and what is left in the
  FIFO is what the relay still holds. So is the way from the client to the upstream without \<open>-duplex\<close>, and with it
  when the kernel took the initial request whole. When it did not, that way is a run of the FIFO
  that gives up its content once the send of the request has completed: what is left of the request is lost,
  nothing else.
\<close>

theorem relay_refines_fifos:
  assumes "relay_mode c" and "gate_reachable c S" and "0 < i"
  shows "(\<exists>q. fifo_run (down_moves i S) [] = Some q \<and> recvd_u (flows (glog S) i) = sent_c (flows (glog S) i) @ q) \<and>
    (\<not> duplex c \<or> request_taken i (glog S) \<longrightarrow>
      (\<exists>q. fifo_run (up_moves i S) [] = Some q \<and> recvd_c (flows (glog S) i) = sent_u (flows (glog S) i) @ q)) \<and>
    (duplex c \<longrightarrow> (\<exists>q. lossy_run (up_log i S) [] = Some q))"
proof (cases "duplex c")
  case True
  then have "two_way c" using assms(1) by (auto simp: relay_mode_def churn_mode_def)
  then show ?thesis using duplex_fifos [OF _ assms(2,3)] fifo_run_flows True by blast
next
  case False
  then have "churn_mode c" using assms(1) two_way_duplex by (auto simp: relay_mode_def)
  then show ?thesis using churn_fifos [OF _ assms(2,3)] fifo_run_flows False by blast
qed

lemma relay_refines_fifos_witness:
  "(\<exists>q. fifo_run (up_moves 1 (torn_demo 14)) [] = Some q \<and> [1, 2, 3, 4, 5, 7] = [1, 2, 3, 4, 5] @ q) \<and>
   (\<exists>q. lossy_run (up_log 1 (cut_demo 7)) [] = Some q) \<and> recvd_c (flows (glog (cut_demo 7)) 1) = [1, 2, 3, 4, 5] \<and>
   sent_u (flows (glog (cut_demo 7)) 1) = [1, 3, 4, 5]"
proof -
  have "recvd_c (flows (glog (torn_demo 14)) 1) = [1, 2, 3, 4, 5, 7]"
    "sent_u (flows (glog (torn_demo 14)) 1) = [1, 2, 3, 4, 5]" "request_taken 1 (glog (torn_demo 14))" "duplex tunnel_cfg"
    "recvd_c (flows (glog (cut_demo 7)) 1) = [1, 2, 3, 4, 5]" "sent_u (flows (glog (cut_demo 7)) 1) = [1, 3, 4, 5]"
    by code_simp+
  then show ?thesis
    using relay_refines_fifos [OF torn_mode torn_reachable, of 1 14] relay_refines_fifos [OF torn_mode cut_reachable, of 1 7]
    by simp
qed



section \<open>Panics and stuck connections\<close>

text \<open>
  C9. The relay never panics, with or without \<open>-duplex\<close> (but not \<open>-splice\<close>) and with positive lengths: whatever the
  kernel answers, late completions for connections that are closing or gone included, and whatever a hook returns,
  the step has a result.
\<close>

theorem gate_no_panic:
  assumes "relay_mode c" and "gate_reachable c S" and "gevent_ok S e"
  shows "\<exists>S'. gate_step c S e = Some S'"
  using assms duplex_no_panic churn_no_panic by (auto simp: relay_mode_def churn_mode_def)

lemma gate_no_panic_witness:
  "(\<exists>S'. gate_step tunnel_cfg (torn_demo 13) (GComplete 2 1 [7] no_pipes) = Some S') \<and>
   (\<exists>S'. gate_step churn_cfg (churn_demo 5) (GComplete 2 3 [3, 4, 5] no_pipes) = Some S')"
proof
  show "\<exists>S'. gate_step tunnel_cfg (torn_demo 13) (GComplete 2 1 [7] no_pipes) = Some S'"
    by (rule gate_no_panic [OF torn_mode torn_reachable]) code_simp+
  show "\<exists>S'. gate_step churn_cfg (churn_demo 5) (GComplete 2 3 [3, 4, 5] no_pipes) = Some S'"
    by (rule gate_no_panic [OF churn_cfg_mode churn_reachable]) code_simp+
qed

text \<open>
  C10. No connection is stuck, with or without \<open>-duplex\<close> (but not \<open>-splice\<close>) and with positive lengths: a connection of
  the table has an outstanding entry, a queued job, or a hook result waiting in the bridge, and then the eventfd has
  been written and its read is armed.
\<close>

theorem gate_not_stuck:
  assumes "relay_mode c" and "gate_reachable c S" and "map_of (conns (gw S)) i = Some cc"
  shows "(\<exists>q\<in>set (sq (gw S)). q_id q = i \<and> conn_op (q_op q)) \<or> i \<in> set (jobs (gw S)) \<or>
    (\<exists>r\<in>set (ready (br (gw S))). rid r = i) \<and> 0 < wakes (br (gw S)) \<and> (\<exists>q\<in>set (sq (gw S)). q_op q = GEventfd)"
proof (cases "two_way c")
  case True
  then show ?thesis by (rule duplex_not_stuck [OF assms(2) _ assms(3)])
next
  case False
  with assms(1) have "\<not> duplex c" "0 < reqLen c" "0 < replyLen c" by (simp_all add: relay_mode_def churn_mode_def)
  then show ?thesis by (rule churn_not_stuck [OF assms(2) _ _ _ assms(3)])
qed

lemma gate_not_stuck_witness:
  "(\<exists>r\<in>set (ready (br (gw (churn_demo 3)))). rid r = 1) \<and> 0 < wakes (br (gw (churn_demo 3)))"
proof -
  have "map_of (conns (gw (churn_demo 3))) 1 = Some (the (map_of (conns (gw (churn_demo 3))) 1))" by code_simp
  note n = gate_not_stuck [OF churn_cfg_mode churn_reachable this]
  have "\<not> (\<exists>q\<in>set (sq (gw (churn_demo 3))). q_id q = 1 \<and> conn_op (q_op q))" "1 \<notin> set (jobs (gw (churn_demo 3)))" by code_simp+
  with n show ?thesis by blast
qed

section \<open>Buffers\<close>

text \<open>
  C8. What the kernel may still read or write is never shared, with or without \<open>-duplex\<close> (but not \<open>-splice\<close>): the buffer
  of an outstanding receive or send is in no entry of another connection, is no buffer of another connection of the
  table and of no structure of the free list. Without \<open>-duplex\<close>, where buffers are recycled, its
  connection is moreover in the table and open, and the entry stays within the buffer. (With \<open>-duplex\<close> a receive may
  outlive its connection; nothing is recycled then.)
\<close>

theorem gate_buffers_exclusive:
  assumes "relay_mode c" and "gate_reachable c S"
    and "q \<in> set (sq (gw S))" and "q_req q = QRecv f a off n \<or> q_req q = QSend f a off n"
  shows "(\<forall>q'\<in>set (sq (gw S)). a \<in> q_addr (q_req q') \<longrightarrow> q_id q' = q_id q) \<and>
    (\<forall>j cc. map_of (conns (gw S)) j = Some cc \<and> j \<noteq> q_id q \<longrightarrow>
       a \<notin> {reqBuf cc, respBuf cc} \<and> (duplex c \<longrightarrow> a \<notin> {c2uBuf cc, u2cBuf cc})) \<and>
    (\<forall>cc\<in>set (connFree (gw S)). a \<notin> {reqBuf cc, respBuf cc}) \<and>
    (\<not> duplex c \<longrightarrow> (\<exists>cc. map_of (conns (gw S)) (q_id q) = Some cc \<and> \<not> closing cc \<and> a \<in> {reqBuf cc, respBuf cc} \<and>
       off + n \<le> length (mem (gw S) a)))"
proof (cases "two_way c")
  case True
  have "connFree (gw S) = []" using duplex_reach_ok [OF assms(2) True] by (simp add: duplex_ok_def dinv_def)
  then show ?thesis
    using duplex_buffers_exclusive [OF assms(2) True assms(3,4)] two_way_duplex [OF True] by auto
next
  case False
  with assms(1) have m: "\<not> duplex c" "0 < reqLen c" "0 < replyLen c" by (simp_all add: relay_mode_def churn_mode_def)
  note x = churn_buffers_exclusive [OF assms(2) m]
  have "q_id q' = q_id q" if q': "q' \<in> set (sq (gw S))" "a \<in> q_addr (q_req q')" for q'
  proof -
    from q'(2) obtain f' off' n' where "q_req q' = QRecv f' a off' n' \<or> q_req q' = QSend f' a off' n'"
      by (cases "q_req q'") auto
    from x [OF q'(1) this] x [OF assms(3,4)] show ?thesis by blast
  qed
  then show ?thesis using x [OF assms(3,4)] m(1) by blast
qed

lemma gate_buffers_exclusive_witness:
  "(\<exists>cc. map_of (conns (gw (churn_demo 11))) 2 = Some cc \<and> \<not> closing cc \<and> 1 \<in> {reqBuf cc, respBuf cc}) \<and>
   q_id ` set (filter (\<lambda>q'. 3 \<in> q_addr (q_req q')) (sq (gw (torn_demo 13)))) = {1}"
proof -
  let ?q = "\<lparr>q_req = QRecv 12 1 0 2, q_id = 2, q_op = GRecvReq\<rparr>" and ?d = "\<lparr>q_req = QRecv 10 3 0 4, q_id = 1, q_op = GC2URecv\<rparr>"
  have q: "?q \<in> set (sq (gw (churn_demo 11)))" "?d \<in> set (sq (gw (torn_demo 13)))" by code_simp+
  have "q_id ` set (filter (\<lambda>q'. 3 \<in> q_addr (q_req q')) (sq (gw (torn_demo 13)))) \<subseteq> {1}"
    using gate_buffers_exclusive [OF torn_mode torn_reachable q(2), of 10 3 0 4] by auto
  moreover have "1 \<in> q_id ` set (filter (\<lambda>q'. 3 \<in> q_addr (q_req q')) (sq (gw (torn_demo 13))))"
    using q(2) by (intro image_eqI [of _ _ ?d]) auto
  ultimately show ?thesis
    using gate_buffers_exclusive [OF churn_cfg_mode churn_reachable q(1), of 12 1 0 2] churn_cfg_modes(1) by auto
qed

end
