(* ===== verification/Relay_Commands.thy ===== *)
theory Relay_Commands
  imports Server_Run Gate_Hook Gate_Relay
begin

text \<open>
  The commands around the relays: the set-up of \<open>research/gate/cmd/relay-uring/main.go\<close> (core list, listeners),
  the baseline \<open>research/gate/cmd/relay-netpoll/main.go\<close>, and the hook of \<open>examples/echo-relay/main.go\<close>.
  A call of \<open>log.Fatal\<close> ends the process: it is the left value of a sum.
\<close>

section \<open>The set-up of \<open>relay-uring\<close>\<close>

definition parseCSV :: "string \<Rightarrow> string list" where
  "parseCSV s = filter (\<lambda>f. f \<noteq> []) (map TrimSpace (split_on (CHR '','') s))"

datatype fatal =
    BadCore string
  | TooFewCores nat int
  | BadPorts
  | ListenerFailed nat int sock_error

fun core_loop :: "string list \<Rightarrow> int list \<Rightarrow> fatal + int list" where
  "core_loop [] cores = Inr cores"
| "core_loop (f # fs) cores =
    (let f = TrimSpace f in
     if f = [] then core_loop fs cores
     else case Atoi f of None \<Rightarrow> Inl (BadCore f) | Some n \<Rightarrow> core_loop fs (cores @ [n]))"

definition core_list :: "string \<Rightarrow> int \<Rightarrow> fatal + int list" where
  "core_list spec workers =
    (if spec = [] then Inr []
     else case core_loop (split_on (CHR '','') spec) [] of
       Inl e \<Rightarrow> Inl e
     | Inr cores \<Rightarrow> if int (length cores) < workers then Inl (TooFewCores (length cores) workers) else Inr cores)"

definition gate_core :: "int list \<Rightarrow> int \<Rightarrow> nat \<Rightarrow> int" where
  "gate_core cores startCore i =
    (if length cores > 0 then cores ! i else if startCore \<ge> 0 then startCore + int i else - 1)"

text \<open>The listeners of one worker, one on each port; then those of all workers, with the core of each.\<close>

fun listen_ports ::
  "kernel \<Rightarrow> string \<Rightarrow> nat \<Rightarrow> int list \<Rightarrow> listener list \<Rightarrow> log \<Rightarrow> (fatal + listener list) \<times> log" where
  "listen_ports k ip i [] ls lg = (Inr ls, lg)"
| "listen_ports k ip i (p # ps) ls lg =
    (case Listen k ip p 4096 lg of
       (Inl e, lg) \<Rightarrow> (Inl (ListenerFailed i p e), lg)
     | (Inr ln, lg) \<Rightarrow> listen_ports k ip i ps (ls @ [ln]) lg)"

fun launch ::
  "kernel \<Rightarrow> relayCfg \<Rightarrow> int list \<Rightarrow> int \<Rightarrow> int list \<Rightarrow> nat list \<Rightarrow> (nat \<times> int \<times> listener list) list \<Rightarrow> log \<Rightarrow>
   (fatal + (nat \<times> int \<times> listener list) list) \<times> log" where
  "launch k c cores startCore ports [] ws lg = (Inr ws, lg)"
| "launch k c cores startCore ports (i # is) ws lg =
    (case listen_ports k (cfg_addr c) i ports [] lg of
       (Inl e, lg) \<Rightarrow> (Inl e, lg)
     | (Inr ls, lg) \<Rightarrow> launch k c cores startCore ports is (ws @ [(i, gate_core cores startCore i, ls)]) lg)"

definition relay_main ::
  "kernel \<Rightarrow> relayCfg \<Rightarrow> string \<Rightarrow> int \<Rightarrow> int \<Rightarrow> int \<Rightarrow> log \<Rightarrow> (fatal + (nat \<times> int \<times> listener list) list) \<times> log" where
  "relay_main k c coreSpec startCore workers nPorts lg =
    (case core_list coreSpec workers of
       Inl e \<Rightarrow> (Inl e, lg)
     | Inr cores \<Rightarrow>
         if nPorts < 1 then (Inl BadPorts, lg)
         else launch k c cores startCore (map (\<lambda>p. cfg_port c + p) [0..nPorts - 1]) [0..<nat workers] [] lg)"

section \<open>The baseline relay\<close>

record baseline =
  np_accepted :: u64
  np_completed :: u64
  np_errs :: u64

text \<open>
  What a connection meets: the bytes its client sends before the end of stream, the random delay of the
  dial, whether the dial and the write of the request succeed. The actions are returned in order; the
  connection was counted when it was accepted.
\<close>

record np_world =
  np_received :: bytes
  np_delay :: int
  np_dials :: bool
  np_writes :: bool

datatype np_action =
    NpWait wait | NpDial | NpWrite bytes | NpCopyUp | NpCopyDown | NpCloseUp | NpCloseClient

definition np_conn :: "nat \<Rightarrow> int \<Rightarrow> np_world \<Rightarrow> baseline \<Rightarrow> np_action list \<times> baseline" where
  "np_conn rl authCPU w s =
    (if length (np_received w) < rl then ([NpCloseClient], s\<lparr>np_errs := np_errs s + 1\<rparr>)
     else
       let initial = take rl (np_received w);
           waits = map NpWait (Spin authCPU) @ (if np_delay w > 0 then [NpWait (Slept (np_delay w))] else [])
       in if \<not> np_dials w then (waits @ [NpDial, NpCloseClient], s\<lparr>np_errs := np_errs s + 1\<rparr>)
       else if \<not> np_writes w
       then (waits @ [NpDial, NpWrite initial, NpCloseUp, NpCloseClient], s\<lparr>np_errs := np_errs s + 1\<rparr>)
       else (waits @ [NpDial, NpWrite initial, NpCopyUp, NpCopyDown, NpCloseUp, NpCloseClient],
             s\<lparr>np_completed := np_completed s + 1\<rparr>))"

section \<open>The example relay\<close>

definition splitHostPort :: "string \<Rightarrow> (string \<times> int) option" where
  "splitHostPort hp =
    (case last_index_of (CHR '':'') hp of
       None \<Rightarrow> None
     | Some i \<Rightarrow> (case Atoi (drop (i + 1) hp) of None \<Rightarrow> None | Some p \<Rightarrow> Some (take i hp, p)))"

definition unavailable :: bytes where
  "unavailable = map (\<lambda>ch. of_nat (of_char ch)) (''upstream unavailable'' @ [CHR 0x0A])"

definition echo_hook :: "kernel \<Rightarrow> string \<Rightarrow> int \<Rightarrow> log \<Rightarrow> decision \<times> log" where
  "echo_hook k upHost upPort lg =
    (case Dial k upHost upPort lg of
       (Inl e, lg) \<Rightarrow> (\<lparr>UpstreamFD = 0, Reply = unavailable, Reject = True, More = False, Consumed = 0\<rparr>, lg)
     | (Inr f, lg) \<Rightarrow> (\<lparr>UpstreamFD = f, Reply = [], Reject = False, More = False, Consumed = 0\<rparr>, lg))"

end
