(* ===== verification/Load_Commands.thy ===== *)
theory Load_Commands
  imports Gate_Storm
begin

text \<open>
  The commands that generate load and the sink: the control daemon \<open>loadgend\<close>, the bulk generator
  \<open>bulkgen\<close>, the hold generator \<open>holdgen\<close>, and the port scan of \<open>sink\<close>, all under \<open>research/gate/cmd\<close>.
\<close>

section \<open>The control daemon: a request for a run\<close>

type_synonym query = "string \<Rightarrow> string list option"

definition qstr :: "query \<Rightarrow> string \<Rightarrow> string \<Rightarrow> string" where
  "qstr q k dflt = (case q k of Some (v # vs) \<Rightarrow> if v \<noteq> [] then v else dflt | _ \<Rightarrow> dflt)"

definition qint :: "query \<Rightarrow> string \<Rightarrow> int \<Rightarrow> int" where
  "qint q k dflt =
    (let v = qstr q k [] in
     if v \<noteq> [] then (case Atoi v of Some n \<Rightarrow> n | None \<Rightarrow> dflt) else dflt)"

text \<open>\<open>dur\<close> is \<open>time.ParseDuration\<close>.\<close>

definition qdur :: "(string \<Rightarrow> int option) \<Rightarrow> query \<Rightarrow> string \<Rightarrow> int \<Rightarrow> int" where
  "qdur dur q k dflt =
    (let v = qstr q k [] in
     if v \<noteq> [] then (case dur v of Some d \<Rightarrow> d | None \<Rightarrow> dflt) else dflt)"

record daemon_flags =
  fl_relay :: string
  fl_reqLen :: int
  fl_replyLen :: int
  fl_srcIPs :: "string list"
  fl_junkPct :: int

record run_config =
  rc_Relay :: string
  rc_ReqLen :: int
  rc_ReplyLen :: int
  rc_InFlight :: int
  rc_Warmup :: int
  rc_Duration :: int
  rc_JunkPct :: int
  rc_JunkViaNet :: bool
  rc_SrcIPs :: "string list"

datatype refusal = BadSrcIPs storm_error | NoRelay | BadJunkPct

definition second :: int where
  "second = 1000000000"

text \<open>The configuration of a storm from the query, or the refusal; \<open>resolve_srcs\<close> is \<open>storm.ResolveSrcIPs\<close>.\<close>

definition run_request ::
  "(string \<Rightarrow> int option) \<Rightarrow> (string \<Rightarrow> storm_error + string list) \<Rightarrow> daemon_flags \<Rightarrow> query \<Rightarrow> refusal + run_config" where
  "run_request dur resolve_srcs fl q =
    (let v = qstr q ''srcips'' [] in
     case (if v \<noteq> [] then resolve_srcs v else Inr (fl_srcIPs fl)) of
       Inl e \<Rightarrow> Inl (BadSrcIPs e)
     | Inr sips \<Rightarrow>
         let cfg = \<lparr>rc_Relay = qstr q ''relay'' (fl_relay fl), rc_ReqLen = qint q ''reqlen'' (fl_reqLen fl),
               rc_ReplyLen = qint q ''replylen'' (fl_replyLen fl), rc_InFlight = qint q ''inflight'' 512,
               rc_Warmup = qdur dur q ''warmup'' (5 * second), rc_Duration = qdur dur q ''duration'' (90 * second),
               rc_JunkPct = qint q ''junkpct'' (fl_junkPct fl), rc_JunkViaNet = (qstr q ''junknet'' [] = ''1''),
               rc_SrcIPs = sips\<rparr>
         in if rc_Relay cfg = [] then Inl NoRelay
            else if rc_JunkPct cfg < 0 \<or> rc_JunkPct cfg > 100 then Inl BadJunkPct
            else Inr cfg)"

section \<open>The control daemon: one storm at a time\<close>

text \<open>
  The handlers run concurrently; their atomic steps are the regions under \<open>busy\<close> and \<open>cancelMu\<close> and the
  close of a channel. Channels are numbers; closing one twice would panic, which is \<open>None\<close>. \<open>stopping\<close> are
  the channels that \<open>/stop\<close> handlers have taken and not yet closed; \<open>handlers\<close> the \<open>/run\<close> handlers that
  have passed \<open>TryLock\<close>.
\<close>

datatype handler = Locked "refusal + run_config" | Storming nat | Ending

record daemon =
  busy :: bool
  cancelCur :: "nat option"
  made :: nat
  stopping :: "nat list"
  closed_chans :: "nat list"
  handlers :: "handler list"

datatype daemon_event = RunArrives "refusal + run_config" | RunProceeds nat | StopArrives | StopCloses nat

datatype reply = Conflict | Admitted | BadRequest refusal | Started | Cleared | Result | NotRunning | Stopping | Stopped

definition daemon_start :: daemon where
  "daemon_start = \<lparr>busy = False, cancelCur = None, made = 0, stopping = [], closed_chans = [], handlers = []\<rparr>"

definition run_proceeds :: "nat \<Rightarrow> daemon \<Rightarrow> reply \<times> daemon" where
  "run_proceeds j s =
    (case handlers s ! j of
       Locked (Inl e) \<Rightarrow> (BadRequest e, s\<lparr>handlers := drop_nth j (handlers s), busy := False\<rparr>)
     | Locked (Inr cfg) \<Rightarrow>
         (let cancel = made s; s = s\<lparr>made := made s + 1\<rparr>; s = s\<lparr>cancelCur := Some cancel\<rparr>
          in (Started, s\<lparr>handlers := (handlers s)[j := Storming cancel]\<rparr>))
     | Storming cancel \<Rightarrow> (Cleared, s\<lparr>cancelCur := None, handlers := (handlers s)[j := Ending]\<rparr>)
     | Ending \<Rightarrow> (Result, s\<lparr>handlers := drop_nth j (handlers s), busy := False\<rparr>))"

fun daemon_step :: "daemon_event \<Rightarrow> daemon \<Rightarrow> (reply \<times> daemon) option" where
  "daemon_step (RunArrives request) s =
    (if busy s then Some (Conflict, s)
     else Some (Admitted, s\<lparr>busy := True, handlers := handlers s @ [Locked request]\<rparr>))"
| "daemon_step (RunProceeds j) s = Some (run_proceeds j s)"
| "daemon_step StopArrives s =
    (let c = cancelCur s; s = s\<lparr>cancelCur := None\<rparr> in
     case c of None \<Rightarrow> Some (NotRunning, s) | Some ch \<Rightarrow> Some (Stopping, s\<lparr>stopping := stopping s @ [ch]\<rparr>))"
| "daemon_step (StopCloses j) s =
    (let ch = stopping s ! j; s = s\<lparr>stopping := drop_nth j (stopping s)\<rparr> in
     if ch \<in> set (closed_chans s) then None
     else Some (Stopped, s\<lparr>closed_chans := ch # closed_chans s\<rparr>))"

fun daemon_enabled :: "daemon_event \<Rightarrow> daemon \<Rightarrow> bool" where
  "daemon_enabled (RunProceeds j) s = (j < length (handlers s))"
| "daemon_enabled (StopCloses j) s = (j < length (stopping s))"
| "daemon_enabled _ s = True"

definition daemon_trans :: "daemon \<Rightarrow> daemon_event \<Rightarrow> daemon \<Rightarrow> bool" where
  "daemon_trans s e s' \<longleftrightarrow> daemon_enabled e s \<and> (\<exists>r. daemon_step e s = Some (r, s'))"

abbreviation daemon_reachable :: "daemon \<Rightarrow> bool" where
  "daemon_reachable \<equiv> reachable (\<lambda>s. s = daemon_start) daemon_trans"

section \<open>The bulk generator\<close>

definition patByte :: "u64 \<Rightarrow> u8" where
  "patByte off = word_of_int (uint off mod 251)"

text \<open>One write: the buffer, and the offset after the \<open>n\<close> bytes the connection took.\<close>

definition bulk_buffer :: "nat \<Rightarrow> u64 \<Rightarrow> bytes" where
  "bulk_buffer n woff = map (\<lambda>i. patByte (woff + of_nat i)) [0..<n]"

definition bulk_write :: "nat \<Rightarrow> nat \<Rightarrow> u64 \<Rightarrow> bytes \<times> u64" where
  "bulk_write size_c n woff = (take n (bulk_buffer size_c woff), woff + of_nat n)"

text \<open>
  The reader: each read returns some bytes, whether it failed, and whether the measurement was on.
\<close>

record bulk =
  roff :: u64
  verified :: u64
  bulkFail :: u64
  stopped_reading :: bool

definition bulk_start :: bulk where
  "bulk_start = \<lparr>roff = 0, verified = 0, bulkFail = 0, stopped_reading = False\<rparr>"

fun matches :: "u64 \<Rightarrow> bytes \<Rightarrow> bool" where
  "matches off [] = True"
| "matches off (b # bs) = (if b \<noteq> patByte off then False else matches (off + 1) bs)"

definition bulk_read :: "bytes \<times> bool \<times> bool \<Rightarrow> bulk \<Rightarrow> bulk" where
  "bulk_read r s =
    (case r of (bs, err, timed) \<Rightarrow>
       if stopped_reading s then s
       else if \<not> matches (roff s) bs then s\<lparr>bulkFail := bulkFail s + 1, stopped_reading := True\<rparr>
       else
         let s = s\<lparr>roff := roff s + of_nat (length bs)\<rparr>;
             s = (if timed then s\<lparr>verified := verified s + of_nat (length bs)\<rparr> else s)
         in if err then s\<lparr>stopped_reading := True\<rparr> else s)"

lemma matches_iff: "matches off bs \<longleftrightarrow> bs = bulk_buffer (length bs) off"
proof (induction bs arbitrary: off)
  case (Cons b bs)
  have "bulk_buffer (Suc n) off = patByte off # bulk_buffer n (off + 1)" for n
    by (simp add: bulk_buffer_def upt_conv_Cons del: upt_Suc flip: map_Suc_upt) (simp add: o_def add.assoc)
  with Cons show ?case by simp
qed (simp add: bulk_buffer_def)

lemma bulk_buffer_append: "bulk_buffer (m + n) off = bulk_buffer m off @ bulk_buffer n (off + of_nat m)"
proof -
  have "map (\<lambda>i. patByte (off + of_nat i)) [m..<m + n] = map (\<lambda>i. patByte (off + of_nat m + of_nat i)) [0..<n]"
    by (rule nth_equalityI) (simp_all add: nth_map_upt add.assoc)
  moreover have "[0..<m + n] = [0..<m] @ [m..<m + n]" by (rule upt_add_eq_append) simp
  ultimately show ?thesis by (simp only: bulk_buffer_def map_append)
qed

lemma length_bulk_buffer [simp]: "length (bulk_buffer n off) = n"
  by (simp add: bulk_buffer_def)

lemma bulk_writes:
  "fst (bulk_write k n off) = bulk_buffer (min n k) off \<and> snd (bulk_write k n off) = off + of_nat n"
  by (simp add: bulk_write_def bulk_buffer_def take_map take_upt min_def)

section \<open>The hold generator\<close>

record holds =
  established :: int
  hold_errs :: int
  holding :: int

text \<open>
  One connection up to the end of its hold: whether the dial, the write of the request and the read of
  its echo succeed. The effect on the counters while it is held and at its end.
\<close>

definition hold_open :: "bool \<Rightarrow> bool \<Rightarrow> bool \<Rightarrow> holds \<Rightarrow> bool \<times> holds" where
  "hold_open dials writes echoes s =
    (if \<not> dials then (False, s\<lparr>hold_errs := hold_errs s + 1\<rparr>)
     else if \<not> writes then (False, s\<lparr>hold_errs := hold_errs s + 1\<rparr>)
     else if \<not> echoes then (False, s\<lparr>hold_errs := hold_errs s + 1\<rparr>)
     else (True, s\<lparr>established := established s + 1, holding := holding s + 1\<rparr>))"

definition hold_close :: "holds \<Rightarrow> holds" where
  "hold_close s = s\<lparr>holding := holding s - 1\<rparr>"

section \<open>The ports of the sink\<close>

text \<open>\<open>free p\<close>: whether listening on port \<open>p\<close> succeeds when it is tried.\<close>

function scan_ports :: "(int \<Rightarrow> bool) \<Rightarrow> int \<Rightarrow> nat \<Rightarrow> int \<Rightarrow> int list \<Rightarrow> int list" where
  "scan_ports free_port hi ports p chosen =
    (if p < hi \<and> length chosen < ports
     then scan_ports free_port hi ports (p + 1) (if free_port p then chosen @ [p] else chosen)
     else chosen)"
  by pat_completeness auto
termination
  by (relation "measure (\<lambda>(free_port, hi, ports, p, chosen). nat (hi - p))") auto

declare scan_ports.simps [simp del]

datatype sink_fatal = FewerThanOnePort | BadAddr | BadBasePort | EchoPorts | TooFewPorts nat int

datatype sink_mode = EchoOn string | ServeOn string "int list"

definition sink_main :: "(int \<Rightarrow> bool) \<Rightarrow> string \<Rightarrow> int \<Rightarrow> int \<Rightarrow> bool \<Rightarrow> sink_fatal + sink_mode" where
  "sink_main free_port addr ports window echo =
    (if ports < 1 then Inl FewerThanOnePort
     else case split_host_port addr of
       None \<Rightarrow> Inl BadAddr
     | Some (host, portStr) \<Rightarrow>
         (case Atoi portStr of
            None \<Rightarrow> Inl BadBasePort
          | Some base \<Rightarrow>
              if echo then (if ports \<noteq> 1 then Inl EchoPorts else Inr (EchoOn addr))
              else
                let chosen = scan_ports free_port (base + window) (nat ports) base []
                in if int (length chosen) < ports then Inl (TooFewPorts (length chosen) ports)
                   else Inr (ServeOn host chosen)))"

text \<open>The line \<open>SINK_PORTS_BOUND=\<close> that tells the relay what to dial.\<close>

definition bound_line :: "int list \<Rightarrow> string" where
  "bound_line chosen = ''SINK_PORTS_BOUND='' @ join_commas (map Itoa chosen)"

end
