(* ===== verification/Command_Properties.thy ===== *)
theory Command_Properties
  imports Relay_Commands Load_Commands Server_Properties
begin

text \<open>The properties of the commands: the set-up of the relays, the control daemon, the generators, the sink.\<close>

section \<open>Core lists and listeners\<close>

lemma Itoa_trim: "0 \<le> n \<Longrightarrow> TrimSpace (Itoa n) = Itoa n \<and> Itoa n \<noteq> [] \<and> CHR '','' \<notin> set (Itoa n)"
proof -
  assume n: "0 \<le> n"
  have d: "\<forall>ch\<in>set (Itoa n). is_digit ch" "Itoa n \<noteq> []"
    using dec_str_digits [OF n] dec_str_not_Nil n by (simp_all add: Itoa_def)
  then have "\<not> is_space ch" if "ch \<in> set (Itoa n)" for ch using that by (auto simp: is_digit_def is_space_def)
  moreover have "hd (Itoa n) \<in> set (Itoa n)" "last (Itoa n) \<in> set (Itoa n)" using d by simp_all
  ultimately show ?thesis using d by (auto simp: TrimSpace_id is_digit_def)
qed

lemma core_loop_printed:
  "\<forall>n\<in>set cs. 0 \<le> n \<and> n < 2 ^ 63 \<Longrightarrow> core_loop (map Itoa cs) ds = Inr (ds @ cs)"
  by (induction cs arbitrary: ds) (simp_all add: Itoa_trim Atoi_Itoa Let_def)

text \<open>
  A printed core list is read back: with cores for at least all workers, \<open>-cores\<close> followed by the cores,
  separated by commas, gives worker \<open>i\<close> the \<open>i\<close>-th of them; with fewer it is refused.
\<close>

theorem core_list_printed:
  assumes "cs \<noteq> []" and "\<forall>n\<in>set cs. 0 \<le> n \<and> n < 2 ^ 63"
  shows "core_list (join_commas (map Itoa cs)) w =
      (if int (length cs) < w then Inl (TooFewCores (length cs) w) else Inr cs) \<and>
    gate_core cs st i = cs ! i"
proof -
  have "join_commas (map Itoa cs) \<noteq> []"
    using assms Itoa_trim by (cases cs rule: remdups_adj.cases) auto
  moreover have "split_on (CHR '','') (join_commas (map Itoa cs)) = map Itoa cs"
    using assms Itoa_trim by (intro split_join_commas) auto
  ultimately show ?thesis using core_loop_printed [OF assms(2), of "[]"] assms(1)
    by (simp add: core_list_def gate_core_def)
qed

lemma core_list_printed_witness: "core_list (join_commas (map Itoa [0, 2, 4])) 3 = Inr [0, 2, 4]"
  using core_list_printed [of "[0, 2, 4]" 3] by simp

lemma Listen_port: "Listen k ip p b lg = (Inr l, lg') \<Longrightarrow> p \<noteq> 0 \<Longrightarrow> LPort l = p"
  by (auto simp: Listen_def Let_def split: sum.splits prod.splits if_splits)

lemma fds_listen_ports:
  assumes "socket_fresh k" and "listen_ports k ip i ps ls lg = (Inr ls', lg')"
    and "distinct (map FD ls)" and "fds_of lg = F \<union> set (map FD ls)" and "F \<inter> set (map FD ls) = {}" and "0 \<notin> set ps"
  shows "distinct (map FD ls') \<and> fds_of lg' = F \<union> set (map FD ls') \<and> F \<inter> set (map FD ls') = {} \<and>
    map LPort ls' = map LPort ls @ ps"
  using assms(2-)
proof (induction ps arbitrary: ls lg)
  case (Cons p ps)
  obtain ln lg1 where l: "Listen k ip p 4096 lg = (Inr ln, lg1)"
    using Cons.prems(1) by (auto split: prod.splits sum.splits)
  have f: "FD ln \<notin> fds_of lg" "fds_of lg1 = insert (FD ln) (fds_of lg)" using fds_Listen [OF assms(1) l] by auto
  have "listen_ports k ip i ps (ls @ [ln]) lg1 = (Inr ls', lg')" using Cons.prems(1) l by simp
  from Cons.IH [OF this] f Cons.prems Listen_port [OF l] show ?case by auto
qed auto

definition all_fds :: "(nat \<times> int \<times> listener list) list \<Rightarrow> fd list" where
  "all_fds ws = concat (map (\<lambda>(i, core, ls). map FD ls) ws)"

lemma launch_spec:
  assumes "socket_fresh k" and "launch k c cores st ports is ws lg = (Inr ws', lg')" and "0 \<notin> set ports"
    and "distinct (all_fds ws)" and "fds_of lg = F \<union> set (all_fds ws)" and "F \<inter> set (all_fds ws) = {}"
  shows "distinct (all_fds ws') \<and> fds_of lg' = F \<union> set (all_fds ws') \<and> F \<inter> set (all_fds ws') = {} \<and>
    (\<exists>lss. length lss = length is \<and> ws' = ws @ map2 (\<lambda>i ls. (i, gate_core cores st i, ls)) is lss \<and>
       (\<forall>ls\<in>set lss. map LPort ls = ports))"
  using assms(2,4-)
proof (induction "is" arbitrary: ws lg)
  case (Cons i "is")
  obtain ls lg1 where l: "listen_ports k (cfg_addr c) i ports [] lg = (Inr ls, lg1)"
    using Cons.prems(1) by (auto split: prod.splits sum.splits)
  let ?w = "(i, gate_core cores st i, ls)"
  have f: "distinct (map FD ls)" "fds_of lg1 = fds_of lg \<union> set (map FD ls)" "fds_of lg \<inter> set (map FD ls) = {}" "map LPort ls = ports"
    using fds_listen_ports [OF assms(1) l, of "fds_of lg"] assms(3) by auto
  have n: "launch k c cores st ports is (ws @ [?w]) lg1 = (Inr ws', lg')" using Cons.prems(1) l by simp
  have e: "all_fds (ws @ [?w]) = all_fds ws @ map FD ls" by (simp add: all_fds_def)
  have "distinct (all_fds (ws @ [?w]))" "fds_of lg1 = F \<union> set (all_fds (ws @ [?w]))" "F \<inter> set (all_fds (ws @ [?w])) = {}"
    unfolding e set_append distinct_append using f Cons.prems(2-4) by blast+
  from Cons.IH [OF n this] obtain lss where lss: "distinct (all_fds ws')" "fds_of lg' = F \<union> set (all_fds ws')"
      "F \<inter> set (all_fds ws') = {}" "length lss = length is" "\<forall>ls\<in>set lss. map LPort ls = ports"
      "ws' = (ws @ [?w]) @ map2 (\<lambda>i ls. (i, gate_core cores st i, ls)) is lss" by blast
  then have "length (ls # lss) = length (i # is) \<and> ws' = ws @ map2 (\<lambda>i ls. (i, gate_core cores st i, ls)) (i # is) (ls # lss) \<and>
      (\<forall>ls\<in>set (ls # lss). map LPort ls = ports)" using f(4) by simp
  with lss(1-3) show ?case by blast
qed simp

text \<open>
  When the relay starts, every worker has its core and its own listener on every port, in order: no two
  listeners share a descriptor, and exactly the listeners were opened.
\<close>

theorem relay_main_launch:
  assumes "socket_fresh k" and "0 < cfg_port c" and "relay_main k c spec st w n lg = (Inr ws, lg')"
  shows "\<exists>cores lss. core_list spec w = Inr cores \<and>
    ws = map2 (\<lambda>i ls. (i, gate_core cores st i, ls)) [0..<nat w] lss \<and> length lss = nat w \<and>
    (\<forall>ls\<in>set lss. map LPort ls = map (\<lambda>p. cfg_port c + p) [0..n - 1]) \<and>
    distinct (all_fds ws) \<and> fds_of lg' = fds_of lg \<union> set (all_fds ws) \<and> fds_of lg \<inter> set (all_fds ws) = {}"
proof -
  let ?ports = "map (\<lambda>p. cfg_port c + p) [0..n - 1]"
  obtain cores where c: "core_list spec w = Inr cores" using assms(3) by (auto simp: relay_main_def split: sum.splits)
  then have "launch k c cores st ?ports [0..<nat w] [] lg = (Inr ws, lg')"
    using assms(3) by (auto simp: relay_main_def split: if_splits)
  from launch_spec [OF assms(1) this, of "fds_of lg"] assms(2) c show ?thesis by (auto simp: all_fds_def)
qed

definition setup_cfg :: relayCfg where
  "setup_cfg = \<lparr>cfg_addr = ''0.0.0.0'', cfg_port = 9000, reqLen = 64, replyLen = 256, duplex = False, splice = False,
     bufSize = 16384, maxConns = 50000, acceptBatch = 64\<rparr>"

lemma relay_main_launch_witness:
  "\<exists>ws. fst (relay_main (demo_kernel (\<lambda>_. False)) setup_cfg ''4, 6'' 0 2 2 []) = Inr ws \<and> distinct (all_fds ws) \<and> length (all_fds ws) = 4"
proof -
  let ?r = "relay_main (demo_kernel (\<lambda>_. False)) setup_cfg ''4, 6'' 0 2 2 []"
  have r: "?r = (Inr (projr (fst ?r)), snd ?r)" and p: "0 < cfg_port setup_cfg" and l: "length (all_fds (projr (fst ?r))) = 4"
    by code_simp+
  from relay_main_launch [OF demo_kernel_fresh p r] have "distinct (all_fds (projr (fst ?r)))" by blast
  with r l show ?thesis by (metis fst_conv)
qed

section \<open>The control daemon\<close>

definition daemon_ok :: "daemon \<Rightarrow> bool" where
  "daemon_ok s \<longleftrightarrow> (busy s \<longleftrightarrow> handlers s \<noteq> []) \<and> length (handlers s) \<le> 1 \<and> distinct (closed_chans s @ stopping s) \<and>
     (\<forall>ch\<in>set (closed_chans s @ stopping s). ch < made s) \<and>
     (\<forall>ch. cancelCur s = Some ch \<longrightarrow> ch \<notin> set (closed_chans s @ stopping s) \<and> ch < made s \<and> handlers s = [Storming ch])"

lemma distinct_drop_nth: "distinct xs \<Longrightarrow> j < length xs \<Longrightarrow> distinct (drop_nth j xs) \<and> xs ! j \<notin> set (drop_nth j xs)"
  using mset_drop_nth [of j xs] by (metis distinct.simps(2) mset.simps(2) mset_eq_imp_distinct_iff)

lemma drop_nth_single: "j < length xs \<Longrightarrow> length xs \<le> 1 \<Longrightarrow> drop_nth j xs = []"
  by (cases xs) (auto simp: drop_nth_def)

lemma run_proceeds_ok:
  assumes ok: "daemon_ok s" and j: "j < length (handlers s)"
  shows "daemon_ok (snd (run_proceeds j s))"
proof -
  obtain h where h: "handlers s = [h]" "j = 0" using ok j by (cases "handlers s") (auto simp: daemon_ok_def)
  show ?thesis using ok h
    by (cases h) (auto simp: run_proceeds_def daemon_ok_def drop_nth_def Let_def less_Suc_eq split: sum.splits)
qed

lemma stop_closes_ok:
  assumes ok: "daemon_ok s" and j: "j < length (stopping s)"
  shows "stopping s ! j \<notin> set (closed_chans s)"
    and "daemon_ok (s\<lparr>stopping := drop_nth j (stopping s), closed_chans := stopping s ! j # closed_chans s\<rparr>)"
proof -
  have m: "stopping s ! j \<in> set (stopping s)" using j by simp
  then show n: "stopping s ! j \<notin> set (closed_chans s)" using ok by (auto simp: daemon_ok_def)
  have d: "distinct (drop_nth j (stopping s))" "stopping s ! j \<notin> set (drop_nth j (stopping s))"
    using distinct_drop_nth [OF _ j] ok by (auto simp: daemon_ok_def)
  have "set (closed_chans s @ stopping s) = insert (stopping s ! j) (set (closed_chans s @ drop_nth j (stopping s)))"
    using arg_cong [OF mset_drop_nth [OF j], of set_mset] by auto
  then show "daemon_ok (s\<lparr>stopping := drop_nth j (stopping s), closed_chans := stopping s ! j # closed_chans s\<rparr>)"
    using ok d n set_drop_nth [of j "stopping s"] by (auto simp: daemon_ok_def)
qed

lemma daemon_step_ok:
  assumes ok: "daemon_ok s" and e: "daemon_enabled e s"
  shows "\<exists>r s'. daemon_step e s = Some (r, s') \<and> daemon_ok s'"
proof (cases e)
  case (RunArrives request)
  then show ?thesis using ok by (auto simp: daemon_ok_def)
next
  case (RunProceeds j)
  then show ?thesis using run_proceeds_ok [OF ok] e by (metis daemon_enabled.simps(1) daemon_step.simps(2) surjective_pairing)
next
  case StopArrives
  then show ?thesis using ok by (cases "cancelCur s") (auto simp: daemon_ok_def Let_def)
next
  case (StopCloses j)
  then show ?thesis using stop_closes_ok [OF ok] e by (simp add: Let_def)
qed

interpretation daemon_inv: inductive_invariant "\<lambda>s. s = daemon_start" daemon_trans daemon_ok
proof
  show "daemon_ok s" if "s = daemon_start" for s using that by (simp add: daemon_ok_def daemon_start_def)
  show "daemon_ok s'" if "daemon_ok s" "daemon_trans s e s'" for s e s'
    using that daemon_step_ok by (fastforce simp: daemon_trans_def)
qed

text \<open>
  C38. However the handlers of the control daemon interleave, at most one storm runs, no channel is closed twice
  (which would panic), and what \<open>/stop\<close> can take is the open channel of the storm that runs.
\<close>

theorem daemon_safe:
  assumes "daemon_reachable s" and "daemon_enabled e s"
  shows "daemon_step e s \<noteq> None \<and> length (handlers s) \<le> 1 \<and>
    (\<forall>ch. cancelCur s = Some ch \<longrightarrow> handlers s = [Storming ch] \<and> ch \<notin> set (closed_chans s) \<and> ch \<notin> set (stopping s))"
proof -
  have "daemon_ok s" by (rule daemon_inv.reachable_inv [OF assms(1)])
  then show ?thesis using daemon_step_ok [OF _ assms(2)] by (auto simp: daemon_ok_def)
qed

text \<open>A storm is started and stopped; while its channel is being closed it ends and a second one starts.\<close>

definition demo_request :: run_config where
  "demo_request = \<lparr>rc_Relay = ''127.0.0.1:9000'', rc_ReqLen = 64, rc_ReplyLen = 256, rc_InFlight = 512, rc_Warmup = 0,
     rc_Duration = 1, rc_JunkPct = 93, rc_JunkViaNet = False, rc_SrcIPs = []\<rparr>"

fun daemon_run :: "daemon_event list \<Rightarrow> daemon \<Rightarrow> daemon option" where
  "daemon_run [] s = Some s"
| "daemon_run (e # es) s =
    (if daemon_enabled e s then (case daemon_step e s of None \<Rightarrow> None | Some (r, s) \<Rightarrow> daemon_run es s) else None)"

lemma daemon_run_reachable: "daemon_run es s = Some s' \<Longrightarrow> daemon_reachable s \<Longrightarrow> daemon_reachable s'"
proof (induction es arbitrary: s)
  case (Cons e es)
  then obtain r s1 where s1: "daemon_enabled e s" "daemon_step e s = Some (r, s1)" "daemon_run es s1 = Some s'"
    by (auto split: if_splits option.splits)
  have "daemon_reachable s1" by (rule reach_step [OF Cons.prems(2), where e = e]) (use s1 in \<open>auto simp: daemon_trans_def\<close>)
  with Cons.IH s1(3) show ?case by blast
qed simp

definition daemon_demo :: daemon where
  "daemon_demo = the (daemon_run
    [RunArrives (Inr demo_request), RunProceeds 0, StopArrives, RunProceeds 0, RunProceeds 0,
     RunArrives (Inr demo_request), RunProceeds 0] daemon_start)"

lemma daemon_safe_witness: "handlers daemon_demo = [Storming 1] \<and> daemon_step (StopCloses 0) daemon_demo \<noteq> None"
proof -
  have "daemon_run [RunArrives (Inr demo_request), RunProceeds 0, StopArrives, RunProceeds 0, RunProceeds 0,
     RunArrives (Inr demo_request), RunProceeds 0] daemon_start = Some daemon_demo" by code_simp
  then have r: "daemon_reachable daemon_demo" by (rule daemon_run_reachable) (simp add: reach_start)
  have "daemon_enabled (StopCloses 0) daemon_demo" "cancelCur daemon_demo = Some 1" by code_simp+
  with daemon_safe [OF r] show ?thesis by blast
qed

section \<open>The request for a storm\<close>

lemma run_request_bounds:
  "run_request dur rs fl q = Inr rq \<Longrightarrow> rc_Relay rq \<noteq> [] \<and> 0 \<le> rc_JunkPct rq \<and> rc_JunkPct rq \<le> 100"
  by (auto simp: run_request_def Let_def split: sum.splits if_splits)

section \<open>The bulk generator\<close>

text \<open>The writer's buffers, one after another, are one pattern, however much of each the connection takes.\<close>

fun bulk_stream :: "nat \<Rightarrow> nat list \<Rightarrow> u64 \<Rightarrow> bytes" where
  "bulk_stream k [] off = []"
| "bulk_stream k (n # ns) off = fst (bulk_write k n off) @ bulk_stream k ns (snd (bulk_write k n off))"

lemma bulk_stream_pattern: "\<forall>n\<in>set ns. n \<le> k \<Longrightarrow> bulk_stream k ns off = bulk_buffer (sum_list ns) off"
  by (induction ns arbitrary: off) (simp_all add: bulk_writes bulk_buffer_append min_absorb1, simp add: bulk_buffer_def)

definition bulk_reads :: "(bytes \<times> bool \<times> bool) list \<Rightarrow> bulk" where
  "bulk_reads rs = fold bulk_read rs bulk_start"

definition timed_bytes :: "(bytes \<times> bool \<times> bool) list \<Rightarrow> nat" where
  "timed_bytes rs = sum_list (map (\<lambda>(bs, err, timed). if timed then length bs else 0) rs)"

lemma bulk_reads_snoc: "bulk_reads (rs @ [r]) = bulk_read r (bulk_reads rs)"
  by (simp add: bulk_reads_def)

lemma bulk_audit_inv:
  "\<forall>(bs, err, timed)\<in>set rs. \<not> err \<Longrightarrow>
   (let s = bulk_reads rs; bs = concat (map fst rs) in
     if bs = bulk_buffer (length bs) 0
     then s = \<lparr>roff = of_nat (length bs), verified = of_nat (timed_bytes rs), bulkFail = 0, stopped_reading = False\<rparr>
     else bulkFail s = 1 \<and> stopped_reading s)"
proof (induction rs rule: rev_induct)
  case Nil
  then show ?case by (simp add: bulk_reads_def bulk_start_def bulk_buffer_def timed_bytes_def)
next
  case (snoc r rs)
  obtain bs timed where r: "r = (bs, False, timed)" using snoc.prems by (cases r) auto
  define all where "all = concat (map fst rs)"
  have app: "all @ bs = bulk_buffer (length all + length bs) 0 \<longleftrightarrow>
      all = bulk_buffer (length all) 0 \<and> bs = bulk_buffer (length bs) (of_nat (length all))"
    by (simp add: bulk_buffer_append append_eq_append_conv length_bulk_buffer)
  have "\<forall>(bs, err, timed)\<in>set rs. \<not> err" using snoc.prems by auto
  note IH = snoc.IH [OF this, unfolded Let_def, folded all_def]
  show ?case
  proof (cases "all = bulk_buffer (length all) 0")
    case True
    with IH have s: "bulk_reads rs = \<lparr>roff = of_nat (length all), verified = of_nat (timed_bytes rs), bulkFail = 0, stopped_reading = False\<rparr>"
      by simp
    show ?thesis using True app
      by (simp add: bulk_reads_snoc s r bulk_read_def matches_iff timed_bytes_def Let_def flip: all_def)
  next
    case False
    with IH have "bulkFail (bulk_reads rs) = 1 \<and> stopped_reading (bulk_reads rs)" by simp
    then show ?thesis using False app by (simp add: bulk_reads_snoc r bulk_read_def Let_def flip: all_def)
  qed
qed

text \<open>
  The audit of the bulk generator is exact: whatever the sizes of its reads, it reports no failure iff the
  bytes that came back are a prefix of the pattern, and then the bytes verified are those that came while the
  measurement was on. The stream the generator itself writes passes, whether or not it went through an
  upstream.
\<close>

theorem bulk_audit:
  assumes "\<forall>(bs, err, timed)\<in>set rs. \<not> err"
  shows "(bulkFail (bulk_reads rs) = 0 \<longleftrightarrow> concat (map fst rs) = bulk_buffer (length (concat (map fst rs))) 0) \<and>
    (bulkFail (bulk_reads rs) = 0 \<longrightarrow> verified (bulk_reads rs) = of_nat (timed_bytes rs)) \<and>
    (\<forall>k ns. (\<forall>n\<in>set ns. n \<le> k) \<longrightarrow> concat (map fst rs) = bulk_stream k ns 0 \<longrightarrow> bulkFail (bulk_reads rs) = 0)"
proof -
  have e: "bulkFail (bulk_reads rs) = 0 \<longleftrightarrow> concat (map fst rs) = bulk_buffer (length (concat (map fst rs))) 0"
    using bulk_audit_inv [OF assms] by (auto simp: Let_def split: if_splits)
  have v: "bulkFail (bulk_reads rs) = 0 \<longrightarrow> verified (bulk_reads rs) = of_nat (timed_bytes rs)"
    using bulk_audit_inv [OF assms] by (auto simp: Let_def split: if_splits)
  have "bulkFail (bulk_reads rs) = 0" if "\<forall>n\<in>set ns. n \<le> k" "concat (map fst rs) = bulk_stream k ns 0" for k ns
    using that bulk_stream_pattern [OF that(1), of 0] e by simp
  with e v show ?thesis by blast
qed

lemma bulk_audit_witness:
  "bulkFail (bulk_reads [([0, 1], False, False), ([2, 3, 4], False, True)]) = 0 \<and>
   verified (bulk_reads [([0, 1], False, False), ([2, 3, 4], False, True)]) = 3 \<and>
   bulkFail (bulk_reads [([0, 1], False, True), ([3], False, True)]) \<noteq> 0"
proof -
  let ?a = "[([0, 1], False, False), ([2, 3, 4], False, True)]" and ?b = "[([0, 1], False, True), ([3], False, True)]"
  have "concat (map fst ?a) = bulk_buffer (length (concat (map fst ?a))) 0" "timed_bytes ?a = 3"
    "concat (map fst ?b) \<noteq> bulk_buffer (length (concat (map fst ?b))) 0" by code_simp+
  with bulk_audit [of ?a] bulk_audit [of ?b] show ?thesis by simp
qed

section \<open>The ports of the sink\<close>

lemma scan_ports_filter:
  "length chosen \<le> n \<Longrightarrow>
   scan_ports free_port hi n p chosen = take n (chosen @ filter free_port [p..hi - 1])"
proof (induction free_port hi n p chosen rule: scan_ports.induct)
  case (1 free_port hi n p chosen)
  show ?case
  proof (cases "p < hi \<and> length chosen < n")
    case True
    have u: "[p..hi - 1] = p # [p + 1..hi - 1]" using True by (intro upto_rec1) simp
    have "length (if free_port p then chosen @ [p] else chosen) \<le> n" using True by simp
    from 1(1) [OF True this] show ?thesis using True by (subst scan_ports.simps) (simp add: u take_Cons')
  next
    case False
    then show ?thesis using 1(2) by (subst scan_ports.simps) (cases "p < hi", auto)
  qed
qed

text \<open>
  The sink serves on the first free ports of its window, in order: the scan is the filter of the window by
  what could be bound, cut at the number wanted; with too few it serves on none.
\<close>

theorem sink_ports:
  assumes "1 \<le> ports" and "split_host_port addr = Some (host, p)" and "Atoi p = Some base"
  shows "sink_main free_port addr ports window False =
    (let chosen = take (nat ports) (filter free_port [base..base + window - 1])
     in if int (length chosen) < ports then Inl (TooFewPorts (length chosen) ports) else Inr (ServeOn host chosen))"
  using assms by (simp add: sink_main_def scan_ports_filter Let_def)

lemma sink_ports_witness:
  "sink_main (\<lambda>p. p \<notin> {9101, 9103}) ''127.0.0.1:9100'' 3 512 False = Inr (ServeOn ''127.0.0.1'' [9100, 9102, 9104])"
proof -
  have "split_host_port ''127.0.0.1:9100'' = Some (''127.0.0.1'', ''9100'')" "Atoi ''9100'' = Some 9100" by code_simp+
  note e = sink_ports [OF _ this]
  have "[9100..9611] = [9100, 9101, 9102, 9103, 9104] @ [9105..9611 :: int]" by (simp add: upto_rec1)
  then show ?thesis by (subst e) (simp_all add: Let_def)
qed

section \<open>The baseline and the example\<close>

text \<open>The client is closed last on every path, and the upstream as soon as it was dialled successfully.\<close>

lemma baseline_closes:
  "last (fst (np_conn n cpu w s)) = NpCloseClient \<and>
   (NpCloseUp \<in> set (fst (np_conn n cpu w s)) \<longleftrightarrow> n \<le> length (np_received w) \<and> np_dials w)"
  by (auto simp: np_conn_def Let_def)

lemma splitHostPort_printed: "0 \<le> p \<Longrightarrow> p < 2 ^ 63 \<Longrightarrow> splitHostPort (host @ CHR '':'' # Itoa p) = Some (host, p)"
proof -
  assume p: "0 \<le> p" "p < 2 ^ 63"
  have "CHR '':'' \<notin> set (Itoa p)" using dec_str_digits [OF p(1)] p by (auto simp: Itoa_def is_digit_def dest!: bspec)
  then show ?thesis using p by (simp add: splitHostPort_def last_index_of_sep Atoi_Itoa)
qed

text \<open>
  The hook of the example either hands over a descriptor it has just opened, or rejects the client and has
  opened nothing; and it rejects every client when the upstream is an IPv6 address in brackets, without
  making a system call, since the brackets are kept as part of the address.
\<close>

theorem echo_hook_upstream:
  assumes "socket_fresh k" and "echo_hook k host port lg = (d, lg')"
  shows "(if Reject d then UpstreamFD d = 0 \<and> Reply d = unavailable \<and> fds_of lg' = fds_of lg
      else UpstreamFD d \<notin> fds_of lg \<and> fds_of lg' = insert (UpstreamFD d) (fds_of lg)) \<and>
    (splitHostPort ''[::1]:9000'' = Some (host, port) \<longrightarrow> Reject d \<and> lg' = lg)"
proof -
  obtain r lg1 where r: "Dial k host port lg = (r, lg1)" by fastforce
  then have "DialFP k host port 0 0 0 lg = (r, lg1)" by (simp add: Dial_def)
  note f = fds_DialFP [OF assms(1) this]
  have e: "resolve ''[::1]'' 9000 = Inl (ParseIPError ''[::1]'')" "splitHostPort ''[::1]:9000'' = Some (''[::1]'', 9000)"
    by code_simp+
  have "Dial k ''[::1]'' 9000 lg = (Inl (ParseIPError ''[::1]''), lg)" by (simp only: Dial_def DialFP_def e(1) sum.case)
  then have n: "Reject d \<and> lg' = lg" if "splitHostPort ''[::1]:9000'' = Some (host, port)"
    using that assms(2) unfolding e(2) by (auto simp: echo_hook_def)
  have "if Reject d then UpstreamFD d = 0 \<and> Reply d = unavailable \<and> fds_of lg' = fds_of lg
      else UpstreamFD d \<notin> fds_of lg \<and> fds_of lg' = insert (UpstreamFD d) (fds_of lg)"
  proof (cases r)
    case (Inl e)
    then have "d = \<lparr>UpstreamFD = 0, Reply = unavailable, Reject = True, More = False, Consumed = 0\<rparr>" "lg' = lg1"
      using assms(2) unfolding echo_hook_def r by simp_all
    then show ?thesis using f Inl by simp
  next
    case (Inr fd')
    then have "d = \<lparr>UpstreamFD = fd', Reply = [], Reject = False, More = False, Consumed = 0\<rparr>" "lg' = lg1"
      using assms(2) unfolding echo_hook_def r by simp_all
    then show ?thesis using f Inr by simp
  qed
  with n show ?thesis by blast
qed

lemma echo_hook_upstream_witness:
  "Reject (fst (echo_hook (demo_kernel (\<lambda>_. False)) ''[::1]'' 9000 [])) \<and>
   \<not> Reject (fst (echo_hook (demo_kernel (\<lambda>_. False)) ''127.0.0.1'' 9000 []))"
proof -
  let ?h = "\<lambda>ip. echo_hook (demo_kernel (\<lambda>_. False)) ip 9000 []"
  have "splitHostPort ''[::1]:9000'' = Some (''[::1]'', 9000)" "\<not> Reject (fst (?h ''127.0.0.1''))" by code_simp+
  with echo_hook_upstream [OF demo_kernel_fresh, of _ "''[::1]''" 9000 "[]" "fst (?h ''[::1]'')" "snd (?h ''[::1]'')"]
  show ?thesis by simp
qed

end
