(* ===== verification/Serve_Loops.thy ===== *)
theory Serve_Loops
  imports Storm_Run Relay_Commands
begin

text \<open>
  The servers of the benchmark on the standard netpoller: the audit server and the echo server of
  \<open>research/gate/internal/sinksrv/sinksrv.go\<close>, the accept loops and the set-up of the baseline relay
  \<open>research/gate/cmd/relay-netpoll/main.go\<close>, and the statistics file all of them publish.
\<close>

section \<open>The statistics file\<close>

text \<open>
  \<open>os.WriteFile\<close> empties (or creates) the file and appends to it, in pieces, a prefix of the body; it returns
  \<open>nil\<close> only when that is the whole body. \<open>os.Rename\<close> replaces the target in one step, or fails.
\<close>

datatype file_op = Truncate string | AppendTo string string | RenameTo string string

type_synonym files = "string \<rightharpoonup> string"

fun file_step :: "file_op \<Rightarrow> files \<Rightarrow> files" where
  "file_step (Truncate f) fs = fs(f \<mapsto> [])"
| "file_step (AppendTo f bs) fs = (case fs f of None \<Rightarrow> fs | Some old \<Rightarrow> fs(f \<mapsto> old @ bs))"
| "file_step (RenameTo f g) fs = (case fs f of None \<Rightarrow> fs | Some bs \<Rightarrow> (fs(f := None))(g \<mapsto> bs))"

text \<open>\<open>pieces\<close> is what reaches the file; \<open>renames\<close> whether the rename succeeds.\<close>

definition publish :: "string \<Rightarrow> string \<Rightarrow> string list \<Rightarrow> bool \<Rightarrow> file_op list" where
  "publish path body pieces renames =
    (let tmp = path @ ''.tmp'' in
     Truncate tmp # map (AppendTo tmp) pieces @
       (if concat pieces = body \<and> renames then [RenameTo tmp path] else []))"

definition nl :: string where
  "nl = [CHR 0x0A]"

definition stat_body :: "u64 \<Rightarrow> u64 \<Rightarrow> string" where
  "stat_body nDone nAcc =
    ''completed='' @ Itoa (uint nDone) @ nl @ ''accepted='' @ Itoa (uint nAcc) @ nl"

definition writeStat :: "string \<Rightarrow> u64 \<Rightarrow> u64 \<Rightarrow> string list \<Rightarrow> bool \<Rightarrow> file_op list" where
  "writeStat path nDone nAcc = publish path (stat_body nDone nAcc)"

definition np_writeStat :: "string \<Rightarrow> u64 \<Rightarrow> u64 \<Rightarrow> string list \<Rightarrow> bool \<Rightarrow> file_op list" where
  "np_writeStat path nDone nAcc = publish path (stat_body nDone nAcc)"

definition sink_writeStat :: "string \<Rightarrow> u64 \<Rightarrow> string list \<Rightarrow> bool \<Rightarrow> file_op list" where
  "sink_writeStat path n = publish path (''served='' @ Itoa (uint n) @ nl)"

definition echo_writeStat :: "string \<Rightarrow> u64 \<Rightarrow> string list \<Rightarrow> bool \<Rightarrow> file_op list" where
  "echo_writeStat path n = publish path (''echoed='' @ Itoa (uint n) @ nl)"

section \<open>The audit server\<close>

text \<open>What a connection sends before its end of stream or deadline, and after how many bytes the write of the reply fails, if it does.\<close>

type_synonym sink_world = "bytes \<times> nat option"

definition sink_finish :: "nat \<Rightarrow> nat \<Rightarrow> sink_world \<Rightarrow> sink \<Rightarrow> sink" where
  "sink_finish rl pl w s = snd (sink_conn rl pl (fst w) (snd w) s)"

definition sink_zero :: sink where
  "sink_zero = \<lparr>served = 0, auditFail_k = 0, errs_k = 0\<rparr>"

definition serve_all :: "nat \<Rightarrow> nat \<Rightarrow> (sink, sink_world) net_server \<Rightarrow> sink_world serve_event \<Rightarrow> (sink, sink_world) net_server \<Rightarrow> bool" where
  "serve_all rl pl = serve_trans (\<lambda>s. s) (sink_finish rl pl)"

text \<open>
  \<open>ServeAll\<close>: an error without listeners; otherwise one accept loop per listener, over shared counters, and
  the wait on a channel that no loop sends to: \<open>None\<close> stands for not returning.
\<close>

definition ServeAll :: "'l list \<Rightarrow> string option" where
  "ServeAll listeners = (if listeners = [] then Some ''sinksrv: no listeners'' else None)"

interpretation sink_handler: conn_handler "\<lambda>s. s" "sink_finish rl pl" "\<lambda>s. served s + errs_k s" sink_zero for rl pl
  by unfold_locales (auto simp: sink_finish_def sink_conn_def sink_zero_def Let_def split: option.split)

section \<open>The echo server\<close>

record echo_conn =
  e_in :: bytes
  e_out :: bytes
  e_live :: bool

record echo =
  echoed :: u64
  live_e :: int
  econns :: "echo_conn list"

text \<open>
  \<open>EchoRound k data rerr taken werr\<close>: one round of \<open>io.Copy\<close> on connection \<open>k\<close>, which reads \<open>data\<close>, with an
  error or the end of the stream when \<open>rerr\<close>, and writes it back; the socket takes \<open>taken\<close> bytes, with an
  error when \<open>werr\<close>. A short write ends the copy, as an error does.
\<close>

datatype echo_event = EchoAccept | EchoAcceptFails | EchoRound nat bytes bool nat bool

fun echo_enabled :: "echo_event \<Rightarrow> echo \<Rightarrow> bool" where
  "echo_enabled (EchoRound k data rerr taken werr) s \<longleftrightarrow>
     k < length (econns s) \<and> e_live (econns s ! k) \<and> taken \<le> length data"
| "echo_enabled _ s \<longleftrightarrow> True"

fun echo_step :: "echo_event \<Rightarrow> echo \<Rightarrow> echo" where
  "echo_step EchoAccept s =
    s\<lparr>live_e := live_e s + 1, econns := econns s @ [\<lparr>e_in = [], e_out = [], e_live = True\<rparr>]\<rparr>"
| "echo_step EchoAcceptFails s = s"
| "echo_step (EchoRound k data rerr taken werr) s =
    (let ec = econns s ! k;
         ec = ec\<lparr>e_in := e_in ec @ data\<rparr>;
         wrote = (data \<noteq> []);
         s = (if wrote then s\<lparr>echoed := counting_write taken (echoed s)\<rparr> else s);
         ec = (if wrote then ec\<lparr>e_out := e_out ec @ take taken data\<rparr> else ec);
         ends = (wrote \<and> (werr \<or> taken \<noteq> length data) \<or> rerr);
         s = (if ends then s\<lparr>live_e := live_e s - 1\<rparr> else s)
     in s\<lparr>econns := (econns s)[k := ec\<lparr>e_live := \<not> ends\<rparr>]\<rparr>)"

definition echo_trans :: "echo \<Rightarrow> echo_event \<Rightarrow> echo \<Rightarrow> bool" where
  "echo_trans s e s' \<longleftrightarrow> echo_enabled e s \<and> s' = echo_step e s"

definition echo_boot :: echo where
  "echo_boot = \<lparr>echoed = 0, live_e = 0, econns = []\<rparr>"

abbreviation echo_reachable :: "echo \<Rightarrow> bool" where
  "echo_reachable \<equiv> reachable (\<lambda>s. s = echo_boot) echo_trans"

definition echo_inv :: "echo \<Rightarrow> bool" where
  "echo_inv s \<longleftrightarrow> live_e s = int (length (filter e_live (econns s))) \<and>
     echoed s = of_nat (sum_list (map (length \<circ> e_out) (econns s))) \<and>
     (\<forall>ec\<in>set (econns s). \<exists>rest. e_in ec = e_out ec @ rest \<and> (e_live ec \<longrightarrow> rest = []))"

lemma echo_inv_step: "echo_inv s \<Longrightarrow> echo_trans s e s' \<Longrightarrow> echo_inv s'"
proof (cases e)
  case (EchoRound k data rerr taken werr)
  assume v: "echo_inv s" and t: "echo_trans s e s'"
  let ?ec = "econns s ! k"
  define ends where "ends \<longleftrightarrow> data \<noteq> [] \<and> (werr \<or> taken \<noteq> length data) \<or> rerr"
  define ec' where "ec' = ?ec\<lparr>e_in := e_in ?ec @ data, e_out := e_out ?ec @ take taken data, e_live := \<not> ends\<rparr>"
  have k: "k < length (econns s)" "e_live ?ec" "taken \<le> length data" using t by (auto simp: echo_trans_def EchoRound)
  then have io: "e_in ?ec = e_out ?ec" using v nth_mem [OF k(1)] by (auto simp: echo_inv_def)
  have s': "econns s' = (econns s)[k := ec']" "echoed s' = echoed s + of_nat taken"
      "live_e s' = live_e s - (if ends then 1 else 0)"
    using t k by (auto simp: echo_trans_def EchoRound Let_def ec'_def ends_def counting_write_def)
  have "live_e s' = int (length (filter e_live (econns s')))"
    using v k count_update [of k "econns s" e_live ec'] by (cases ends) (simp_all add: s' echo_inv_def ec'_def)
  moreover have "sum_list (map (length \<circ> e_out) (econns s')) = sum_list (map (length \<circ> e_out) (econns s)) + taken"
    using k sum_list_update_nat [of k "map (length \<circ> e_out) (econns s)" "length (e_out ec')"]
    by (simp add: s' map_update ec'_def)
  then have "echoed s' = of_nat (sum_list (map (length \<circ> e_out) (econns s')))" using v by (simp add: s' echo_inv_def)
  moreover have "\<exists>rest. e_in ec' = e_out ec' @ rest \<and> (e_live ec' \<longrightarrow> rest = [])"
    using k by (intro exI [of _ "drop taken data"]) (auto simp: ec'_def ends_def io)
  then have "\<forall>ec\<in>set (econns s'). \<exists>rest. e_in ec = e_out ec @ rest \<and> (e_live ec \<longrightarrow> rest = [])"
    using v set_update_subset_insert [of "econns s" k ec'] by (auto simp: s' echo_inv_def)
  ultimately show ?thesis by (simp add: echo_inv_def)
qed (auto simp: echo_trans_def echo_inv_def)

interpretation echo_inv: inductive_invariant "\<lambda>s. s = echo_boot" echo_trans echo_inv
  by unfold_locales (simp add: echo_boot_def echo_inv_def, rule echo_inv_step)

section \<open>The baseline relay\<close>

text \<open>The listeners: \<open>listens\<close> is whether \<open>net.Listen\<close> succeeds on an address.\<close>

datatype np_fatal = NpPorts | NpBadAddr string | NpBadPort string | NpListen int

fun np_listen :: "(string \<Rightarrow> bool) \<Rightarrow> string \<Rightarrow> int list \<Rightarrow> string list \<Rightarrow> np_fatal + string list" where
  "np_listen listens host [] lns' = Inr lns'"
| "np_listen listens host (p # ps) lns' =
    (let a = join_host_port host (Itoa p) in
     if listens a then np_listen listens host ps (lns' @ [a]) else Inl (NpListen p))"

definition np_main :: "(string \<Rightarrow> bool) \<Rightarrow> string \<Rightarrow> int \<Rightarrow> np_fatal + string list" where
  "np_main listens addr nPorts =
    (if nPorts < 1 then Inl NpPorts
     else case split_host_port addr of
       None \<Rightarrow> Inl (NpBadAddr addr)
     | Some (host, portStr) \<Rightarrow>
         (case Atoi portStr of
            None \<Rightarrow> Inl (NpBadPort portStr)
          | Some basePort \<Rightarrow> np_listen listens host (map (\<lambda>p. basePort + p) [0..nPorts - 1]) []))"

definition np_admit :: "baseline \<Rightarrow> baseline" where
  "np_admit s = s\<lparr>np_accepted := np_accepted s + 1\<rparr>"

definition np_finish :: "nat \<Rightarrow> int \<Rightarrow> np_world \<Rightarrow> baseline \<Rightarrow> baseline" where
  "np_finish rl cpu w s = snd (np_conn rl cpu w s)"

definition np_zero :: baseline where
  "np_zero = \<lparr>np_accepted = 0, np_completed = 0, np_errs = 0\<rparr>"

definition accept_loop ::
  "nat \<Rightarrow> int \<Rightarrow> (baseline, np_world) net_server \<Rightarrow> np_world serve_event \<Rightarrow> (baseline, np_world) net_server \<Rightarrow> bool" where
  "accept_loop rl cpu = serve_trans np_admit (np_finish rl cpu)"

interpretation np_handler: counted_handler np_admit "np_finish rl cpu" "\<lambda>s. np_completed s + np_errs s" np_zero np_accepted
  for rl cpu
  by unfold_locales (auto simp: np_admit_def np_finish_def np_conn_def np_zero_def Let_def)

lemma np_listen_all:
  "np_listen listens host ps ls = Inr ls' \<longleftrightarrow>
   (\<forall>p\<in>set ps. listens (join_host_port host (Itoa p))) \<and> ls' = ls @ map (\<lambda>p. join_host_port host (Itoa p)) ps"
  by (induction ps arbitrary: ls) (auto simp: Let_def)

end
