(* ===== verification/Serve_Properties.thy ===== *)
theory Serve_Properties
  imports Serve_Loops Command_Properties "HOL-Library.Sublist"
begin

text \<open>The properties of the audit server, the echo server, the baseline relay and the statistics file.\<close>

section \<open>The audit server\<close>

abbreviation sink_reachable :: "nat \<Rightarrow> nat \<Rightarrow> (sink, sink_world) net_server \<Rightarrow> bool" where
  "sink_reachable rl pl \<equiv> reachable (\<lambda>S. S = serve_boot sink_zero) (serve_all rl pl)"

definition sink_correct :: "nat \<Rightarrow> sink_world \<Rightarrow> bool" where
  "sink_correct rl w \<longleftrightarrow> rl \<le> length (fst w) \<and> take rl (fst w) = Request_bytes rl"

lemma sink_finish_counts:
  "served (sink_finish rl pl w s) = served s + (if rl \<le> length (fst w) \<and> snd w = None then 1 else 0)"
  "auditFail_k (sink_finish rl pl w s) = auditFail_k s + (if rl \<le> length (fst w) \<and> \<not> sink_correct rl w then 1 else 0)"
  by (auto simp: sink_finish_def sink_conn_def sink_correct_def Equal_iff Let_def split: option.split)

text \<open>
  The ledger of the audit server, however its connections interleave: every connection that has ended is
  charged once, to \<open>served\<close> or to \<open>errs\<close>; \<open>served\<close> counts exactly those that sent a whole request and got the
  reply, and \<open>auditFail\<close> exactly those whose whole request was not the pattern.
\<close>

theorem sink_ledger:
  assumes "sink_reachable rl pl S"
  shows "served (counters_s S) + errs_k (counters_s S) = of_nat (length (ended_log S)) \<and>
    served (counters_s S) = of_nat (length (filter (\<lambda>w. rl \<le> length (fst w) \<and> snd w = None) (ended_log S))) \<and>
    auditFail_k (counters_s S) = of_nat (length (filter (\<lambda>w. rl \<le> length (fst w) \<and> \<not> sink_correct rl w) (ended_log S)))"
proof -
  have r: "reachable (\<lambda>S. S = serve_boot sink_zero) (serve_trans (\<lambda>s. s) (sink_finish rl pl)) S"
    using assms by (simp add: serve_all_def)
  then have "served (counters_s S) = of_nat (length (filter (\<lambda>w. rl \<le> length (fst w) \<and> snd w = None) (ended_log S))) \<and>
    auditFail_k (counters_s S) = of_nat (length (filter (\<lambda>w. rl \<le> length (fst w) \<and> \<not> sink_correct rl w) (ended_log S)))"
  proof (induction rule: reachable.induct)
    case (reach_step S e S')
    then show ?case by (cases e) (auto simp: serve_trans_def sink_finish_counts)
  qed (simp add: serve_boot_def sink_zero_def)
  then show ?thesis using sink_handler.charged_once [OF r] by simp
qed

definition demo_sink_events :: "sink_world serve_event list" where
  "demo_sink_events = [Accepts, Accepts, AcceptFails, Serves (Request_bytes 2, None), Accepts, Serves ([1], None)]"

definition demo_sink :: "(sink, sink_world) net_server" where
  "demo_sink = fold (serve_step (\<lambda>s. s) (sink_finish 2 3)) demo_sink_events (serve_boot sink_zero)"

lemma demo_sink_reachable: "sink_reachable 2 3 demo_sink"
  unfolding demo_sink_def serve_all_def
  by (rule runs_reachable [where guard = serve_enabled]) (code_simp, simp add: serve_trans_def)

lemma sink_ledger_witness:
  "served (counters_s demo_sink) + errs_k (counters_s demo_sink) = of_nat (length (ended_log demo_sink)) \<and>
   length (ended_log demo_sink) = 2 \<and> running demo_sink = 1"
proof -
  have "length (ended_log demo_sink) = 2" "running demo_sink = 1" by code_simp+
  then show ?thesis using sink_ledger [OF demo_sink_reachable] by blast
qed

text \<open>With a listener, \<open>ServeAll\<close> does not return, whatever its listeners report.\<close>

lemma ServeAll_blocks: "ServeAll listeners = None \<longleftrightarrow> listeners \<noteq> []"
  by (simp add: ServeAll_def)

section \<open>The echo server\<close>

text \<open>
  C39. The echo server echoes faithfully and counts what it echoes: what a connection was sent back is a prefix of
  what it sent, all of it while the copy goes on; \<open>echoed\<close> is, in 64-bit arithmetic, the number of bytes
  sent back on all connections, and \<open>live\<close> the number of connections still copied.
\<close>

theorem echo_faithful:
  assumes "echo_reachable s"
  shows "(\<forall>ec\<in>set (econns s). prefix (e_out ec) (e_in ec) \<and> (e_live ec \<longrightarrow> e_out ec = e_in ec)) \<and>
    echoed s = of_nat (sum_list (map (length \<circ> e_out) (econns s))) \<and>
    live_e s = int (length (filter e_live (econns s)))"
proof -
  have v: "echo_inv s" using assms by (rule echo_inv.reachable_inv)
  have "prefix (e_out ec) (e_in ec) \<and> (e_live ec \<longrightarrow> e_out ec = e_in ec)" if "ec \<in> set (econns s)" for ec
    using v that unfolding echo_inv_def by (metis append.right_neutral prefixI)
  then show ?thesis using v by (simp add: echo_inv_def)
qed

definition demo_echo_events :: "echo_event list" where
  "demo_echo_events =
     [EchoAccept, EchoRound 0 [1, 2] False 2 False, EchoAccept, EchoRound 1 [7, 8, 9] False 1 True, EchoRound 0 [3] True 1 False]"

definition demo_echo :: echo where
  "demo_echo = fold echo_step demo_echo_events echo_boot"

lemma demo_echo_reachable: "echo_reachable demo_echo"
  unfolding demo_echo_def by (rule runs_reachable [where guard = echo_enabled]) (code_simp, simp add: echo_trans_def)

lemma echo_faithful_witness: "echoed demo_echo = 4 \<and> live_e demo_echo = 0 \<and> e_out (econns demo_echo ! 1) = [7]"
proof -
  have "sum_list (map (length \<circ> e_out) (econns demo_echo)) = 4" "filter e_live (econns demo_echo) = []"
    "e_out (econns demo_echo ! 1) = [7]" by code_simp+
  then show ?thesis using echo_faithful [OF demo_echo_reachable] by simp
qed

section \<open>The baseline\<close>

text \<open>
  The ledger of the baseline relay, however its connections interleave: the connections accepted are those
  charged, once each, to \<open>completed\<close> or \<open>errs\<close>, and those still running.
\<close>

theorem baseline_ledger:
  assumes "reachable (\<lambda>S. S = serve_boot np_zero) (accept_loop rl cpu) S"
  shows "np_accepted (counters_s S) = np_completed (counters_s S) + np_errs (counters_s S) + of_nat (running S) \<and>
    np_completed (counters_s S) + np_errs (counters_s S) = of_nat (length (ended_log S))"
  using np_handler.all_accounted np_handler.charged_once assms unfolding accept_loop_def by blast

definition demo_np_events :: "np_world serve_event list" where
  "demo_np_events = [Accepts, Accepts, Serves \<lparr>np_received = [1, 2], np_delay = 0, np_dials = True, np_writes = True\<rparr>]"

definition demo_np :: "(baseline, np_world) net_server" where
  "demo_np = fold (serve_step np_admit (np_finish 2 0)) demo_np_events (serve_boot np_zero)"

lemma demo_np_reachable: "reachable (\<lambda>S. S = serve_boot np_zero) (accept_loop 2 0) demo_np"
  unfolding demo_np_def accept_loop_def
  by (rule runs_reachable [where guard = serve_enabled]) (code_simp, simp add: serve_trans_def)

lemma baseline_ledger_witness:
  "np_completed (counters_s demo_np) + np_errs (counters_s demo_np) = 1 \<and>
   np_accepted (counters_s demo_np) = np_completed (counters_s demo_np) + np_errs (counters_s demo_np) + of_nat (running demo_np)"
proof -
  have "length (ended_log demo_np) = 1" by code_simp
  then show ?thesis using baseline_ledger [OF demo_np_reachable] by simp
qed

text \<open>
  C40. Both builds face the clients on the same ports: started with the same base port and number of ports, each
  worker of the ring relay listens on exactly the ports on which the baseline listens, in the same order.
\<close>

theorem same_ports:
  assumes "socket_fresh k" and "0 < cfg_port c" and "cfg_port c < 2 ^ 63" and "host_ok h"
    and "relay_main k c spec st w n lg = (Inr ws, lg')"
    and "np_main listens (join_host_port (show_host h) (Itoa (cfg_port c))) n = Inr addrs"
    and "(i, core, ls) \<in> set ws"
  shows "addrs = map (\<lambda>ln. join_host_port (show_host h) (Itoa (LPort ln))) ls"
proof -
  let ?ps = "map (\<lambda>p. cfg_port c + p) [0..n - 1]"
  obtain cores lss where l: "ws = map2 (\<lambda>i ls. (i, gate_core cores st i, ls)) [0..<nat w] lss"
      "\<forall>ls\<in>set lss. map LPort ls = ?ps"
    using relay_main_launch [OF assms(1,2,5)] by blast
  then have p: "map LPort ls = ?ps" using assms(7) by (auto dest: set_zip_rightD)
  have "map (\<lambda>p. join_host_port (show_host h) (Itoa p)) (map LPort ls) =
      map (\<lambda>ln. join_host_port (show_host h) (Itoa (LPort ln))) ls" by simp
  moreover have "addrs = map (\<lambda>p. join_host_port (show_host h) (Itoa p)) ?ps"
    using assms(2,3,4,6)
    by (auto simp: np_main_def split_host_port_join Atoi_Itoa np_listen_all split: if_splits)
  ultimately show ?thesis unfolding p by simp
qed

lemma same_ports_witness:
  "\<exists>ws core ls. fst (relay_main (demo_kernel (\<lambda>_. False)) setup_cfg ''4, 6'' 0 2 2 []) = Inr ws \<and> (1, core, ls) \<in> set ws \<and>
    [''10.0.0.1:9000'', ''10.0.0.1:9001''] = map (\<lambda>ln. join_host_port (show_host (Host4 10 0 0 1)) (Itoa (LPort ln))) ls"
proof -
  let ?r = "relay_main (demo_kernel (\<lambda>_. False)) setup_cfg ''4, 6'' 0 2 2 []" and ?h = "Host4 10 0 0 1"
  let ?x = "projr (fst ?r) ! 1"
  have r: "?r = (Inr (projr (fst ?r)), snd ?r)" and p: "0 < cfg_port setup_cfg" "cfg_port setup_cfg < 2 ^ 63" "host_ok ?h"
      and m: "np_main (\<lambda>_. True) (join_host_port (show_host ?h) (Itoa (cfg_port setup_cfg))) 2 = Inr [''10.0.0.1:9000'', ''10.0.0.1:9001'']"
      and x: "?x = (1, fst (snd ?x), snd (snd ?x))" "1 < length (projr (fst ?r))"
    by code_simp+
  have "(1, fst (snd ?x), snd (snd ?x)) \<in> set (projr (fst ?r))" using x nth_mem by metis
  from same_ports [OF demo_kernel_fresh p r m this] this show ?thesis by (metis r fst_conv)
qed

section \<open>The statistics file\<close>

text \<open>The states of the files while the publications follow one another, cut at any point.\<close>

definition publishing :: "(u64 \<times> u64 \<times> string list \<times> bool) list \<Rightarrow> string \<Rightarrow> file_op list" where
  "publishing ps path = concat (map (\<lambda>(d, a, pieces, moved). writeStat path d a pieces moved) ps)"

text \<open>What the temporary file holds just before the rename.\<close>

lemma publish_tmp:
  "fold file_step (map (AppendTo tmp) pieces) (fs(tmp \<mapsto> old)) = fs(tmp \<mapsto> old @ concat pieces)"
  by (induction pieces arbitrary: old) simp_all

lemma tmp_other [simp]: "path @ ''.tmp'' \<noteq> path"
  by simp

lemma publish_prefix:
  "fold file_step (take k (publish path body pieces moved)) fs path \<in> {fs path, Some body}"
proof -
  let ?tmp = "path @ ''.tmp''"
  have other: "fold file_step (map (AppendTo ?tmp) ps) fs path = fs path" for ps fs
  proof (induction ps arbitrary: fs)
    case (Cons p ps)
    have "file_step (AppendTo ?tmp p) fs path = fs path" by (simp split: option.split)
    then show ?case using Cons by simp
  qed simp
  show ?thesis
  proof (cases "k \<le> Suc (length pieces)")
    case True
    then have "take k (publish path body pieces moved) = take k (Truncate ?tmp # map (AppendTo ?tmp) pieces)"
      by (cases k) (simp_all add: publish_def Let_def)
    then show ?thesis using other by (cases k) (simp_all add: take_map)
  next
    case False
    have "fold file_step (publish path body pieces moved) fs path \<in> {fs path, Some body}"
      using other [of pieces "fs(?tmp \<mapsto> [])"] by (simp add: publish_def Let_def publish_tmp)
    then show ?thesis using False by (simp add: publish_def Let_def split: if_splits)
  qed
qed

text \<open>
  Whoever reads the statistics file sees either what was there before or the whole of some pair that was
  published: never a part of one, whatever writes and renames fail, and wherever the publications are cut.
\<close>

theorem stat_file_atomic:
  "fold file_step (take k (publishing ps path)) fs path \<in>
   insert (fs path) ((\<lambda>(d, a, pieces, moved). Some (stat_body d a)) ` set ps)"
proof (induction ps arbitrary: k fs)
  case (Cons p ps)
  obtain d a pieces moved where p: "p = (d, a, pieces, moved)" by (cases p) auto
  let ?b = "stat_body d a" and ?n = "length (writeStat path d a pieces moved)"
  let ?fs = "fold file_step (take k (writeStat path d a pieces moved)) fs"
  have e: "publishing (p # ps) path = writeStat path d a pieces moved @ publishing ps path" by (simp add: publishing_def p)
  have f: "fold file_step (take k (publishing (p # ps) path)) fs = fold file_step (take (k - ?n) (publishing ps path)) ?fs"
    by (simp add: e)
  have "?fs path \<in> {fs path, Some ?b}" unfolding writeStat_def by (rule publish_prefix)
  then show ?case using Cons.IH [of "k - ?n" ?fs] unfolding f by (auto simp: p)
qed (simp add: publishing_def)

end
