(* ===== verification/Bulk_Run.thy ===== *)
theory Bulk_Run
  imports Load_Commands Storm_Run
begin

text \<open>
  The bulk generator \<open>research/gate/cmd/bulkgen/main.go\<close> and the hold generator \<open>research/gate/cmd/holdgen/main.go\<close>
  as concurrent goroutines. A bulk connection has a reader, which dials and is waited for, and a writer, which is
  not. The main goroutine goes through the phases of a storm: warm-up, measured window, \<open>stop\<close>, waiting.
\<close>

section \<open>The state of the bulk generator\<close>

datatype bulk_reader = Dialing | ReadLook | InRead | Returned

datatype bulk_writer = Unborn | WriteLook | InWrite | WriterDone

text \<open>\<open>took\<close> is what the connection took of the writes; the log of the system keeps the reads.\<close>

record bulk_conn =
  rd :: bulk_reader
  wr :: bulk_writer
  woff_b :: u64
  roff_b :: u64
  took :: bytes

record bulk_sys =
  bphase :: storm_phase
  bconns :: "bulk_conn list"
  verified_b :: u64
  auditFail_b :: u64
  errs_b :: u64
  reads_log :: "(nat \<times> bytes \<times> bool) list"

definition bulk_conn0 :: bulk_conn where
  "bulk_conn0 = \<lparr>rd = Dialing, wr = Unborn, woff_b = 0, roff_b = 0, took = []\<rparr>"

definition bulk_boot :: "nat \<Rightarrow> bulk_sys" where
  "bulk_boot n = \<lparr>bphase = Warming, bconns = replicate n bulk_conn0, verified_b = 0, auditFail_b = 0, errs_b = 0, reads_log = []\<rparr>"

section \<open>The steps\<close>

text \<open>
  \<open>BDial w ok\<close>: the dial of connection \<open>w\<close> ends. \<open>BWriteLook\<close>, \<open>BReadLook\<close>: the writer, the reader looks at the
  channels. \<open>BWrote w n err\<close>: a write ends, having taken \<open>n\<close> bytes; without an error it takes all, and with the
  connection closed there is an error. \<open>BRead w bs err\<close>: a read ends. \<open>BAdvance\<close>: the main goroutine.
\<close>

datatype bulk_event = BDial nat bool | BWriteLook nat | BWrote nat nat bool | BReadLook nat | BRead nat bytes bool | BAdvance

fun bulk_enabled :: "nat \<Rightarrow> bulk_event \<Rightarrow> bulk_sys \<Rightarrow> bool" where
  "bulk_enabled k (BDial w ok) S \<longleftrightarrow> w < length (bconns S) \<and> rd (bconns S ! w) = Dialing"
| "bulk_enabled k (BWriteLook w) S \<longleftrightarrow> w < length (bconns S) \<and> wr (bconns S ! w) = WriteLook"
| "bulk_enabled k (BWrote w n err) S \<longleftrightarrow> w < length (bconns S) \<and> wr (bconns S ! w) = InWrite \<and> n \<le> k \<and>
     (\<not> err \<longrightarrow> n = k) \<and> (rd (bconns S ! w) = Returned \<longrightarrow> err)"
| "bulk_enabled k (BReadLook w) S \<longleftrightarrow> w < length (bconns S) \<and> rd (bconns S ! w) = ReadLook"
| "bulk_enabled k (BRead w bs err) S \<longleftrightarrow> w < length (bconns S) \<and> rd (bconns S ! w) = InRead \<and> length bs \<le> k"
| "bulk_enabled k BAdvance S \<longleftrightarrow>
     (case bphase S of Draining \<Rightarrow> \<forall>cn\<in>set (bconns S). rd cn = Returned | Finished \<Rightarrow> False | _ \<Rightarrow> True)"

definition set_conn :: "nat \<Rightarrow> bulk_conn \<Rightarrow> bulk_sys \<Rightarrow> bulk_sys" where
  "set_conn w cn S = S\<lparr>bconns := (bconns S)[w := cn]\<rparr>"

fun bulk_step :: "nat \<Rightarrow> bulk_event \<Rightarrow> bulk_sys \<Rightarrow> bulk_sys" where
  "bulk_step k (BDial w ok) S =
    (let cn = bconns S ! w in
     if \<not> ok then set_conn w (cn\<lparr>rd := Returned\<rparr>) (S\<lparr>errs_b := errs_b S + 1\<rparr>)
     else set_conn w (cn\<lparr>rd := ReadLook, wr := WriteLook\<rparr>) S)"
| "bulk_step k (BWriteLook w) S =
    (let cn = bconns S ! w in set_conn w (cn\<lparr>wr := if stop_closed (bphase S) then WriterDone else InWrite\<rparr>) S)"
| "bulk_step k (BWrote w n err) S =
    (let cn = bconns S ! w;
         (bs, woff') = bulk_write k n (woff_b cn);
         cn = cn\<lparr>took := took cn @ bs\<rparr>
     in set_conn w (if err then cn\<lparr>wr := WriterDone\<rparr> else cn\<lparr>wr := WriteLook, woff_b := woff'\<rparr>) S)"
| "bulk_step k (BReadLook w) S =
    (let cn = bconns S ! w
     in set_conn w (cn\<lparr>rd := if stop_closed (bphase S) \<or> wr cn = WriterDone then Returned else InRead\<rparr>) S)"
| "bulk_step k (BRead w bs err) S =
    (let cn = bconns S ! w; timed = (bphase S = Measured);
         b = bulk_read (bs, err, timed)
               \<lparr>roff = roff_b cn, verified = verified_b S, bulkFail = auditFail_b S, stopped_reading = False\<rparr>
     in set_conn w (cn\<lparr>rd := if stopped_reading b then Returned else ReadLook, roff_b := roff b\<rparr>)
          (S\<lparr>verified_b := verified b, auditFail_b := bulkFail b, reads_log := reads_log S @ [(w, bs, timed)]\<rparr>))"
| "bulk_step k BAdvance S = S\<lparr>bphase := next_phase (bphase S)\<rparr>"

definition bulk_trans :: "nat \<Rightarrow> bulk_sys \<Rightarrow> bulk_event \<Rightarrow> bulk_sys \<Rightarrow> bool" where
  "bulk_trans k S e S' \<longleftrightarrow> bulk_enabled k e S \<and> S' = bulk_step k e S"

abbreviation bulk_reachable :: "nat \<Rightarrow> nat \<Rightarrow> bulk_sys \<Rightarrow> bool" where
  "bulk_reachable k n \<equiv> reachable (\<lambda>S. S = bulk_boot n) (bulk_trans k)"

text \<open>What came back on a connection, and how much of all that came back was read in the measured window.\<close>

definition came_back :: "nat \<Rightarrow> bulk_sys \<Rightarrow> bytes" where
  "came_back w S = concat (map (fst \<circ> snd) (filter (\<lambda>r. fst r = w) (reads_log S)))"

definition measured_bytes :: "bulk_sys \<Rightarrow> nat" where
  "measured_bytes S = sum_list (map (\<lambda>(w, bs, timed). if timed then length bs else 0) (reads_log S))"

definition is_pattern :: "bytes \<Rightarrow> bool" where
  "is_pattern bs \<longleftrightarrow> bs = bulk_buffer (length bs) 0"

section \<open>What holds while it runs\<close>

definition failed_dial :: "bulk_conn \<Rightarrow> bool" where
  "failed_dial cn \<longleftrightarrow> rd cn = Returned \<and> wr cn = Unborn"

text \<open>
  Of one connection and what came back on it: what it took is the pattern, and the reader has audited what came
  back; a reader that goes on has seen the pattern.
\<close>

definition bulk_conn_ok :: "bulk_conn \<Rightarrow> bytes \<Rightarrow> bool" where
  "bulk_conn_ok cn bk \<longleftrightarrow> is_pattern (took cn) \<and>
     (wr cn \<noteq> WriterDone \<longrightarrow> woff_b cn = of_nat (length (took cn))) \<and>
     (rd cn = Dialing \<or> wr cn = Unborn \<longrightarrow> rd cn \<noteq> ReadLook \<and> rd cn \<noteq> InRead \<and> wr cn = Unborn \<and> bk = []) \<and>
     (rd cn = Returned \<or> is_pattern bk \<and> roff_b cn = of_nat (length bk))"

definition bulk_inv :: "nat \<Rightarrow> bulk_sys \<Rightarrow> bool" where
  "bulk_inv n S \<longleftrightarrow> length (bconns S) = n \<and>
     (\<forall>w<n. bulk_conn_ok (bconns S ! w) (came_back w S)) \<and>
     (\<forall>r\<in>set (reads_log S). fst r < n) \<and>
     errs_b S = of_nat (length (filter failed_dial (bconns S))) \<and>
     auditFail_b S = of_nat (card {w. w < n \<and> \<not> is_pattern (came_back w S)}) \<and>
     (\<exists>v \<le> measured_bytes S. verified_b S = of_nat v \<and> ((\<forall>w<n. is_pattern (came_back w S)) \<longrightarrow> v = measured_bytes S)) \<and>
     (bphase S = Finished \<longrightarrow> (\<forall>cn\<in>set (bconns S). rd cn = Returned))"

lemma came_back_boot [simp]: "came_back w (bulk_boot n) = []"
  by (simp add: came_back_def bulk_boot_def)

lemma pattern_Nil [simp]: "is_pattern []"
  by (simp add: is_pattern_def bulk_buffer_def)

text \<open>A step that leaves what was read alone: only the connection it is about matters.\<close>

lemma came_back_set [simp]: "came_back v (set_conn w cn S) = came_back v S"
  by (simp add: came_back_def set_conn_def)

lemma bulk_inv_set:
  assumes "bulk_inv n S" and "w < n" and "bulk_conn_ok cn (came_back w S)"
    and "\<not> failed_dial (bconns S ! w)" and "errs = errs_b S + (if failed_dial cn then 1 else 0)"
    and "rd (bconns S ! w) = Returned \<longrightarrow> rd cn = Returned"
  shows "bulk_inv n (set_conn w cn (S\<lparr>errs_b := errs\<rparr>))"
proof -
  let ?S = "set_conn w cn (S\<lparr>errs_b := errs\<rparr>)"
  have n: "length (bconns S) = n" using assms(1) by (simp add: bulk_inv_def)
  have "came_back v ?S = came_back v S" for v by (simp add: came_back_def set_conn_def)
  moreover have "errs = of_nat (length (filter failed_dial ((bconns S)[w := cn])))"
    using assms(1,2,4,5) count_update [of w "bconns S" failed_dial cn] by (simp add: bulk_inv_def)
  moreover have "rd c = Returned" if "bphase S = Finished" "c \<in> set ((bconns S)[w := cn])" for c
    using that assms(1,2,6) set_update_subset_insert [of "bconns S" w cn] by (auto simp: bulk_inv_def)
  moreover have "bulk_conn_ok ((bconns S)[w := cn] ! v) (came_back v S)" if "v < n" for v
    using that assms(1,3) n by (cases "v = w") (simp_all add: bulk_inv_def)
  ultimately show ?thesis using assms(1) n
    by (simp add: bulk_inv_def) (simp add: set_conn_def measured_bytes_def)
qed

lemma bulk_inv_boot: "bulk_inv n (bulk_boot n)"
proof -
  have "filter failed_dial (replicate n bulk_conn0) = []" by (auto simp: failed_dial_def bulk_conn0_def filter_empty_conv)
  then show ?thesis
    by (simp add: bulk_inv_def measured_bytes_def) (auto simp: bulk_boot_def bulk_conn_ok_def bulk_conn0_def)
qed

lemma pattern_append:
  "is_pattern (xs @ bs) \<longleftrightarrow> is_pattern xs \<and> bs = bulk_buffer (length bs) (of_nat (length xs))"
  by (simp add: is_pattern_def bulk_buffer_append append_eq_append_conv)

lemma came_back_read:
  "came_back v (S\<lparr>verified_b := x, auditFail_b := y, reads_log := reads_log S @ [(w, bs, timed)]\<rparr>) =
   (if v = w then came_back v S @ bs else came_back v S)"
  by (simp add: came_back_def)

text \<open>A read, given what the audit says of it.\<close>

lemma bulk_inv_read:
  assumes v: "bulk_inv n S" and w: "w < n" "rd (bconns S ! w) = InRead"
    and S': "S' = bulk_step k (BRead w bs err) S"
  shows "bulk_inv n S'"
proof -
  let ?cn = "bconns S ! w" and ?bk = "came_back w S" and ?t = "bphase S = Measured"
  have n: "length (bconns S) = n" and ok: "bulk_conn_ok ?cn ?bk" using v w by (auto simp: bulk_inv_def)
  then have cn: "is_pattern (took ?cn)" "is_pattern ?bk" "roff_b ?cn = of_nat (length ?bk)" "wr ?cn \<noteq> Unborn"
      "wr ?cn \<noteq> WriterDone \<longrightarrow> woff_b ?cn = of_nat (length (took ?cn))"
    using w(2) by (auto simp: bulk_conn_ok_def)
  define good where "good \<longleftrightarrow> bs = bulk_buffer (length bs) (roff_b ?cn)"
  define cn' where "cn' = ?cn\<lparr>rd := if good \<and> \<not> err then ReadLook else Returned,
      roff_b := if good then roff_b ?cn + of_nat (length bs) else roff_b ?cn\<rparr>"
  have s: "bconns S' = (bconns S)[w := cn']" "bphase S' = bphase S" "errs_b S' = errs_b S"
      "verified_b S' = verified_b S + (if good \<and> ?t then of_nat (length bs) else 0)"
      "auditFail_b S' = auditFail_b S + (if good then 0 else 1)"
      "reads_log S' = reads_log S @ [(w, bs, ?t)]"
    by (auto simp: S' bulk_read_def matches_iff good_def cn'_def set_conn_def Let_def)
  have cb: "came_back u S' = (if u = w then ?bk @ bs else came_back u S)" for u by (simp add: came_back_def s)
  have pat: "is_pattern (came_back u S') \<longleftrightarrow> (if u = w then good else is_pattern (came_back u S))" for u
    using cn(2,3) by (simp add: cb pattern_append good_def)
  have "bulk_conn_ok cn' (came_back w S')"
    using cn pat [of w] by (auto simp: bulk_conn_ok_def cn'_def cb)
  then have "\<forall>u<n. bulk_conn_ok (bconns S' ! u) (came_back u S')"
    using v n by (auto simp: s cb bulk_inv_def nth_list_update)
  moreover have "length (filter failed_dial (bconns S')) = length (filter failed_dial (bconns S))"
    using count_update [of w "bconns S" failed_dial cn'] w n cn(4) by (simp add: s failed_dial_def cn'_def)
  moreover have "{u. u < n \<and> \<not> is_pattern (came_back u S')} =
      (if good then {} else {w}) \<union> {u. u < n \<and> \<not> is_pattern (came_back u S)}"
    using w cn(2) by (auto simp: pat)
  then have "auditFail_b S' = of_nat (card {u. u < n \<and> \<not> is_pattern (came_back u S')})"
    using v cn(2) by (simp add: s bulk_inv_def)
  moreover have "bphase S \<noteq> Finished" using v w n nth_mem [of w "bconns S"] by (auto simp: bulk_inv_def)
  moreover have "measured_bytes S' = measured_bytes S + (if ?t then length bs else 0)" by (simp add: measured_bytes_def s)
  moreover obtain x where "x \<le> measured_bytes S" "verified_b S = of_nat x"
      "(\<forall>u<n. is_pattern (came_back u S)) \<longrightarrow> x = measured_bytes S" using v by (auto simp: bulk_inv_def)
  then have "\<exists>y \<le> measured_bytes S + (if ?t then length bs else 0). verified_b S' = of_nat y \<and>
      ((\<forall>u<n. is_pattern (came_back u S')) \<longrightarrow> y = measured_bytes S + (if ?t then length bs else 0))"
    using w cn(2) by (intro exI [of _ "x + (if good \<and> ?t then length bs else 0)"]) (auto simp: s pat split: if_splits)
  ultimately show ?thesis using v n w by (simp add: bulk_inv_def s)
qed

lemma bulk_inv_other:
  assumes v: "bulk_inv n S" and t: "bulk_trans k S e S'" and e: "\<forall>w bs err. e \<noteq> BRead w bs err"
  shows "bulk_inv n S'"
proof -
  have n: "length (bconns S) = n" and ok: "w < n \<Longrightarrow> bulk_conn_ok (bconns S ! w) (came_back w S)" for w
    using v by (auto simp: bulk_inv_def)
  have set': "w < n \<Longrightarrow> bulk_conn_ok cn (came_back w S) \<Longrightarrow> rd (bconns S ! w) = Returned \<longrightarrow> rd cn = Returned \<Longrightarrow>
      \<not> failed_dial (bconns S ! w) \<Longrightarrow> \<not> failed_dial cn \<Longrightarrow> bulk_inv n (set_conn w cn S)" for w cn
    using bulk_inv_set [OF v, of w cn "errs_b S"] by simp
  have S': "S' = bulk_step k e S" using t by (simp add: bulk_trans_def)
  note defs = bulk_conn_ok_def failed_dial_def
  show ?thesis
  proof (cases e)
    case (BDial w good)
    then have w: "w < n" "rd (bconns S ! w) = Dialing" using t n by (auto simp: bulk_trans_def)
    note o' = ok [OF w(1)]
    show ?thesis
    proof (cases good)
      case True
      have "bulk_inv n (set_conn w ((bconns S ! w)\<lparr>rd := ReadLook, wr := WriteLook\<rparr>) S)"
        by (rule set') (use o' w in \<open>auto simp: defs\<close>)
      then show ?thesis by (simp add: S' BDial True Let_def)
    next
      case False
      have "bulk_inv n (set_conn w ((bconns S ! w)\<lparr>rd := Returned\<rparr>) (S\<lparr>errs_b := errs_b S + 1\<rparr>))"
        by (rule bulk_inv_set [OF v w(1)]) (use o' w in \<open>auto simp: defs\<close>)
      then show ?thesis by (simp add: S' BDial False Let_def)
    qed
  next
    case (BWrote w m err)
    then have w: "w < n" "wr (bconns S ! w) = InWrite" using t n by (auto simp: bulk_trans_def)
    note o' = ok [OF w(1)]
    let ?cn = "(bconns S ! w)\<lparr>took := took (bconns S ! w) @ fst (bulk_write k m (woff_b (bconns S ! w)))\<rparr>"
    let ?cn' = "if err then ?cn\<lparr>wr := WriterDone\<rparr> else ?cn\<lparr>wr := WriteLook, woff_b := woff_b (bconns S ! w) + of_nat m\<rparr>"
    have "m \<le> k" using t by (simp add: bulk_trans_def BWrote)
    then have "is_pattern (took ?cn)" "length (took ?cn) = length (took (bconns S ! w)) + m"
      using o' w(2) by (simp_all add: bulk_conn_ok_def pattern_append bulk_writes)
    then have "bulk_inv n (set_conn w ?cn' S)"
      by (intro set') (use o' w in \<open>auto simp: defs\<close>)
    then show ?thesis by (simp add: S' BWrote Let_def split_beta bulk_writes)
  next
    case (BWriteLook w)
    then have w: "w < n" "wr (bconns S ! w) = WriteLook" using t n by (auto simp: bulk_trans_def)
    show ?thesis unfolding S' BWriteLook bulk_step.simps Let_def
      by (rule set') (use ok [OF w(1)] w in \<open>auto simp: defs\<close>)
  next
    case (BReadLook w)
    then have w: "w < n" "rd (bconns S ! w) = ReadLook" using t n by (auto simp: bulk_trans_def)
    show ?thesis unfolding S' BReadLook bulk_step.simps Let_def
      by (rule set') (use ok [OF w(1)] w in \<open>auto simp: defs\<close>)
  next
    case BAdvance
    have same: "came_back u S' = came_back u S" "bconns S' = bconns S" "verified_b S' = verified_b S"
        "auditFail_b S' = auditFail_b S" "errs_b S' = errs_b S" "reads_log S' = reads_log S"
        "measured_bytes S' = measured_bytes S" for u
      by (simp_all add: S' BAdvance came_back_def measured_bytes_def)
    have "bphase S' = Finished \<longrightarrow> (\<forall>cn\<in>set (bconns S). rd cn = Returned)"
      using t by (cases "bphase S") (simp_all add: S' BAdvance bulk_trans_def)
    then show ?thesis using v unfolding bulk_inv_def same by blast
  qed (use e in simp)
qed

lemma bulk_inv_step:
  assumes "bulk_inv n S" and "bulk_trans k S e S'"
  shows "bulk_inv n S'"
proof (cases e)
  case (BRead w bs err)
  then have "w < n" "rd (bconns S ! w) = InRead" "S' = bulk_step k (BRead w bs err) S"
    using assms by (simp_all add: bulk_trans_def bulk_inv_def)
  then show ?thesis by (rule bulk_inv_read [OF assms(1)])
qed (rule bulk_inv_other [OF assms], simp)+

interpretation bulk_runs: inductive_invariant "\<lambda>S. S = bulk_boot n" "bulk_trans k" "bulk_inv n" for n k
  by unfold_locales (simp add: bulk_inv_boot, rule bulk_inv_step)

lemma bulk_inv_conn:
  assumes "bulk_inv n S" and "cn \<in> set (bconns S)"
  obtains bs where "bulk_conn_ok cn bs"
proof -
  obtain w where "w < length (bconns S)" "cn = bconns S ! w" using assms(2) by (metis in_set_conv_nth)
  then show thesis using assms(1) that unfolding bulk_inv_def by blast
qed

lemma bulk_inv_pattern: "bulk_inv n S \<Longrightarrow> cn \<in> set (bconns S) \<Longrightarrow> is_pattern (took cn)"
  by (erule (1) bulk_inv_conn) (simp add: bulk_conn_ok_def)

lemma bulk_inv_dialing: "bulk_inv n S \<Longrightarrow> cn \<in> set (bconns S) \<Longrightarrow> rd cn = Dialing \<Longrightarrow> wr cn = Unborn"
  by (erule (1) bulk_inv_conn) (simp add: bulk_conn_ok_def)

section \<open>The end of a run\<close>

fun reader_rank :: "bulk_reader \<Rightarrow> nat" where
  "reader_rank Dialing = 3"
| "reader_rank InRead = 2"
| "reader_rank ReadLook = 1"
| "reader_rank Returned = 0"

fun writer_rank :: "bulk_writer \<Rightarrow> nat" where
  "writer_rank InWrite = 2"
| "writer_rank WriteLook = 1"
| "writer_rank _ = 0"

definition conn_rank :: "bulk_conn \<Rightarrow> nat" where
  "conn_rank cn = reader_rank (rd cn) + writer_rank (wr cn)"

definition bulk_rank :: "bulk_sys \<Rightarrow> nat" where
  "bulk_rank S = sum_list (map conn_rank (bconns S)) + (if bphase S = Finished then 0 else 1)"

definition bulk_draining :: "bulk_sys \<Rightarrow> bool" where
  "bulk_draining S \<longleftrightarrow> stop_closed (bphase S) \<and> (bphase S = Finished \<longrightarrow> (\<forall>cn\<in>set (bconns S). rd cn = Returned)) \<and>
     (\<forall>cn\<in>set (bconns S). rd cn = Dialing \<longrightarrow> wr cn = Unborn)"

text \<open>Once \<open>stop\<close> is closed, every step of a connection brings it nearer to its end.\<close>

lemma conn_step:
  assumes "bulk_draining S" and "bulk_trans k S e S'" and "e \<noteq> BAdvance"
  obtains w cn where "w < length (bconns S)" and "bconns S' = (bconns S)[w := cn]" and "bphase S' = bphase S"
    and "conn_rank cn < conn_rank (bconns S ! w)" and "rd (bconns S ! w) = Returned \<Longrightarrow> rd cn = Returned"
    and "rd cn = Dialing \<Longrightarrow> wr cn = Unborn"
proof -
  have S': "S' = bulk_step k e S" and en: "bulk_enabled k e S" and c: "stop_closed (bphase S)"
    and d: "w < length (bconns S) \<Longrightarrow> rd (bconns S ! w) = Dialing \<Longrightarrow> wr (bconns S ! w) = Unborn" for w
    using assms nth_mem by (auto simp: bulk_draining_def bulk_trans_def)
  show thesis
  proof (cases e)
    case (BDial w good)
    then show ?thesis using en d [of w]
      by (intro that [of w "if good then (bconns S ! w)\<lparr>rd := ReadLook, wr := WriteLook\<rparr> else (bconns S ! w)\<lparr>rd := Returned\<rparr>"])
         (auto simp: S' set_conn_def conn_rank_def Let_def)
  next
    case (BWriteLook w)
    then show ?thesis using en c d [of w]
      by (intro that [of w "(bconns S ! w)\<lparr>wr := WriterDone\<rparr>"]) (auto simp: S' set_conn_def conn_rank_def Let_def)
  next
    case (BWrote w n err)
    then show ?thesis using en d [of w]
      by (intro that [of w "bconns (bulk_step k e S) ! w"])
         (auto simp: S' set_conn_def conn_rank_def Let_def split_beta split: if_splits)
  next
    case (BReadLook w)
    then show ?thesis using en c
      by (intro that [of w "(bconns S ! w)\<lparr>rd := Returned\<rparr>"]) (auto simp: S' set_conn_def conn_rank_def Let_def)
  next
    case (BRead w bs err)
    then show ?thesis using en
      by (intro that [of w "bconns (bulk_step k e S) ! w"])
         (auto simp: S' set_conn_def conn_rank_def Let_def split: if_splits)
  qed (use assms in simp)
qed

lemma bulk_drains:
  assumes d: "bulk_draining S" and t: "bulk_trans k S e S'"
  shows "bulk_draining S' \<and> bulk_rank S' < bulk_rank S"
proof (cases "e = BAdvance")
  case True
  then have "bphase S = Draining" "S' = S\<lparr>bphase := Finished\<rparr>" "\<forall>cn\<in>set (bconns S). rd cn = Returned"
    using d t by (cases "bphase S", auto simp: bulk_draining_def bulk_trans_def stop_closed_def)+
  then show ?thesis using d by (simp add: bulk_draining_def bulk_rank_def stop_closed_def)
next
  case False
  obtain w cn where w: "w < length (bconns S)" "bconns S' = (bconns S)[w := cn]" "bphase S' = bphase S"
      "conn_rank cn < conn_rank (bconns S ! w)" "rd (bconns S ! w) = Returned \<Longrightarrow> rd cn = Returned"
      "rd cn = Dialing \<Longrightarrow> wr cn = Unborn"
    using conn_step [OF d t False] by blast
  have "sum_list (map conn_rank (bconns S')) + conn_rank (bconns S ! w) = sum_list (map conn_rank (bconns S)) + conn_rank cn"
    using sum_list_update_nat [of w "map conn_rank (bconns S)" "conn_rank cn"] w by (simp add: map_update)
  then have "bulk_rank S' < bulk_rank S" using w(3,4) by (simp add: bulk_rank_def)
  moreover have "bulk_draining S'"
    using d w set_update_subset_insert [of "bconns S" w cn] nth_mem [OF w(1)] by (auto simp: bulk_draining_def)
  ultimately show ?thesis by simp
qed

lemma bulk_moves:
  assumes d: "bulk_draining S" and r: "0 < bulk_rank S"
  shows "\<exists>e S'. bulk_trans k S e S'"
proof -
  have go: "bulk_enabled k e S \<Longrightarrow> \<exists>e S'. bulk_trans k S e S'" for e by (auto simp: bulk_trans_def)
  show ?thesis
  proof (cases "\<forall>cn\<in>set (bconns S). conn_rank cn = 0")
    case True
    then have z: "sum_list (map conn_rank (bconns S)) = 0" by (auto simp: sum_list_eq_0_iff)
    have "rd cn = Returned" if "cn \<in> set (bconns S)" for cn
      using True that by (cases "rd cn") (auto simp: conn_rank_def)
    moreover have "bphase S \<noteq> Finished" using r unfolding bulk_rank_def z by (simp split: if_splits)
    ultimately have "bulk_enabled k BAdvance S" using d by (auto simp: bulk_draining_def stop_closed_def)
    then show ?thesis by (rule go)
  next
    case False
    then obtain w where w: "w < length (bconns S)" "conn_rank (bconns S ! w) \<noteq> 0" by (metis in_set_conv_nth)
    then consider "rd (bconns S ! w) = Dialing" | "rd (bconns S ! w) = InRead" | "rd (bconns S ! w) = ReadLook"
        | "wr (bconns S ! w) = InWrite" | "wr (bconns S ! w) = WriteLook"
      by (cases "rd (bconns S ! w)"; cases "wr (bconns S ! w)") (auto simp: conn_rank_def)
    then show ?thesis
      by cases (use w go [of "BDial w True"] go [of "BRead w [] True"] go [of "BReadLook w"] go [of "BWrote w 0 True"]
          go [of "BWriteLook w"] in simp_all)
  qed
qed

interpretation bulk_end: ranked "bulk_trans k" bulk_draining bulk_rank for k
  by unfold_locales (use bulk_drains bulk_moves in blast)+

section \<open>The hold generator\<close>

datatype hold_state = Ramping | Held | Over | Refused

record hold_sys =
  hconns :: "hold_state list"
  hcounts :: holds

definition hold_boot :: "nat \<Rightarrow> hold_sys" where
  "hold_boot n = \<lparr>hconns = replicate n Ramping, hcounts = \<lparr>established = 0, hold_errs = 0, holding = 0\<rparr>\<rparr>"

text \<open>\<open>HOpen\<close>: what the dial, the write and the read of the echo met. \<open>HEnd\<close>: the deadline, or a failed keepalive.\<close>

datatype hold_event = HOpen nat bool bool bool | HEnd nat

fun hold_enabled :: "hold_event \<Rightarrow> hold_sys \<Rightarrow> bool" where
  "hold_enabled (HOpen i d w e) S \<longleftrightarrow> i < length (hconns S) \<and> hconns S ! i = Ramping"
| "hold_enabled (HEnd i) S \<longleftrightarrow> i < length (hconns S) \<and> hconns S ! i = Held"

fun hold_step :: "hold_event \<Rightarrow> hold_sys \<Rightarrow> hold_sys" where
  "hold_step (HOpen i d w e) S =
    (let (up, hc) = hold_open d w e (hcounts S)
     in \<lparr>hconns = (hconns S)[i := if up then Held else Refused], hcounts = hc\<rparr>)"
| "hold_step (HEnd i) S = \<lparr>hconns = (hconns S)[i := Over], hcounts = hold_close (hcounts S)\<rparr>"

definition hold_trans :: "hold_sys \<Rightarrow> hold_event \<Rightarrow> hold_sys \<Rightarrow> bool" where
  "hold_trans S e S' \<longleftrightarrow> hold_enabled e S \<and> S' = hold_step e S"

text \<open>The three figures of the last line of the log.\<close>

definition hold_report :: "hold_sys \<Rightarrow> int \<times> int \<times> int" where
  "hold_report S =
    (established (hcounts S), int (length (hconns S)) - hold_errs (hcounts S), hold_errs (hcounts S))"

definition in_state :: "hold_state \<Rightarrow> hold_sys \<Rightarrow> nat" where
  "in_state x S = length (filter (\<lambda>y. y = x) (hconns S))"

definition hold_inv :: "nat \<Rightarrow> hold_sys \<Rightarrow> bool" where
  "hold_inv n S \<longleftrightarrow> length (hconns S) = n \<and> holding (hcounts S) = int (in_state Held S) \<and>
     established (hcounts S) = int (in_state Held S + in_state Over S) \<and> hold_errs (hcounts S) = int (in_state Refused S)"

lemma in_state_update:
  "i < length (hconns S) \<Longrightarrow>
   length (filter (\<lambda>y. y = x) ((hconns S)[i := z])) + (if hconns S ! i = x then 1 else 0) = in_state x S + (if z = x then 1 else 0)"
  unfolding in_state_def by (rule count_update)

lemma hold_inv_step: "hold_inv n S \<Longrightarrow> hold_trans S e S' \<Longrightarrow> hold_inv n S'"
proof (cases e)
  case (HOpen i d w f)
  assume v: "hold_inv n S" and t: "hold_trans S e S'"
  define z where "z = (if d \<and> w \<and> f then Held else Refused)"
  have s: "hconns S' = (hconns S)[i := z]" "i < length (hconns S)" "hconns S ! i = Ramping"
    using t by (auto simp: hold_trans_def HOpen hold_open_def z_def)
  then show ?thesis using v t in_state_update [of i S Held z] in_state_update [of i S Over z] in_state_update [of i S Refused z]
    by (auto simp: hold_inv_def in_state_def hold_trans_def HOpen hold_open_def z_def)
next
  case (HEnd i)
  assume v: "hold_inv n S" and t: "hold_trans S e S'"
  then show ?thesis using in_state_update [of i S Held Over] in_state_update [of i S Over Over] in_state_update [of i S Refused Over]
    by (auto simp: hold_inv_def in_state_def hold_trans_def HEnd hold_close_def)
qed

interpretation hold_runs: inductive_invariant "\<lambda>S. S = hold_boot n" hold_trans "hold_inv n" for n
proof
  show "hold_inv n S" if "S = hold_boot n" for S
    using that by (auto simp: hold_boot_def hold_inv_def in_state_def filter_empty_conv)
qed (rule hold_inv_step)

end
