(* ===== verification/Bulk_Properties.thy ===== *)
theory Bulk_Properties
  imports Bulk_Run Serve_Loops Relay_Refinement
begin

text \<open>
  The properties of the bulk and the hold generator, and of the whole path of the bulk benchmark: generator,
  relay, echo server and back.
\<close>

section \<open>The ledger of the bulk generator\<close>

lemma bulk_inv_ledger:
  assumes "bulk_inv n S"
  shows "errs_b S = of_nat (length (filter failed_dial (bconns S))) \<and>
    auditFail_b S = of_nat (card {w. w < n \<and> \<not> is_pattern (came_back w S)}) \<and>
    (\<exists>v \<le> measured_bytes S. verified_b S = of_nat v \<and> ((\<forall>w<n. is_pattern (came_back w S)) \<longrightarrow> v = measured_bytes S)) \<and>
    (\<forall>cn\<in>set (bconns S). is_pattern (took cn))"
  using assms bulk_inv_pattern unfolding bulk_inv_def by blast

text \<open>
  The ledger of the bulk generator, at any time and however its goroutines interleave: \<open>Errors\<close> counts the
  failed dials, \<open>AuditFail\<close> exactly the connections on which something else than a beginning of the pattern
  came back, and \<open>Bytes\<close> at most the bytes read in the measured window, all of them when no audit failed. What
  every connection was given to send is a beginning of the pattern.
\<close>

theorem bulk_ledger:
  assumes "bulk_reachable k n S"
  shows "errs_b S = of_nat (length (filter failed_dial (bconns S))) \<and>
    auditFail_b S = of_nat (card {w. w < n \<and> \<not> is_pattern (came_back w S)}) \<and>
    (\<exists>v \<le> measured_bytes S. verified_b S = of_nat v \<and> ((\<forall>w<n. is_pattern (came_back w S)) \<longrightarrow> v = measured_bytes S)) \<and>
    (\<forall>cn\<in>set (bconns S). is_pattern (took cn))"
  by (rule bulk_inv_ledger [OF bulk_runs.reachable_inv [OF assms]])

definition demo_bulk_events :: "bulk_event list" where
  "demo_bulk_events =
    [BDial 0 True, BDial 1 False, BWriteLook 0, BWrote 0 4 False, BReadLook 0, BAdvance, BRead 0 [0, 1] False, BReadLook 0,
     BAdvance, BAdvance, BRead 0 [2] False]"

definition demo_bulk :: bulk_sys where
  "demo_bulk = fold (bulk_step 4) demo_bulk_events (bulk_boot 2)"

lemma demo_bulk_reachable: "bulk_reachable 4 2 demo_bulk"
  unfolding demo_bulk_def by (rule runs_reachable [where guard = "bulk_enabled 4"]) (code_simp, simp add: bulk_trans_def)

lemma bulk_ledger_witness: "errs_b demo_bulk = 1 \<and> auditFail_b demo_bulk = 0 \<and> verified_b demo_bulk = 2"
proof -
  have e: "length (filter failed_dial (bconns demo_bulk)) = 1" "measured_bytes demo_bulk = 2"
    "\<forall>w\<in>set [0..<2]. is_pattern (came_back w demo_bulk)" by code_simp+
  then have p: "\<forall>w<2. is_pattern (came_back w demo_bulk)" by simp
  then have z: "{w. w < 2 \<and> \<not> is_pattern (came_back w demo_bulk)} = {}" by blast
  show ?thesis using bulk_ledger [OF demo_bulk_reachable] p unfolding z e by auto
qed

section \<open>Its end\<close>

text \<open>
  A bulk run ends: once \<open>stop\<close> is closed, at most four steps of each connection and one of the main goroutine
  are left, and until the result is printed some goroutine can go on; then no reader is left, and every
  connection has been closed.
\<close>

theorem bulk_ends:
  assumes "bulk_reachable k n S" and "stop_closed (bphase S)" and "trace (bulk_trans k) S es S'"
  shows "length es \<le> 4 * n + 1 \<and> (bphase S' = Finished \<or> (\<exists>e S''. bulk_trans k S' e S'')) \<and>
    (bphase S' = Finished \<longrightarrow> (\<forall>cn\<in>set (bconns S'). rd cn = Returned))"
proof -
  have v: "bulk_inv n S" using assms(1) by (rule bulk_runs.reachable_inv)
  then have d: "bulk_draining S"
    using bulk_inv_dialing [OF v] assms(2) unfolding bulk_draining_def bulk_inv_def by blast
  have "conn_rank cn \<le> 4" if "cn \<in> set (bconns S)" for cn
    using d that by (cases "rd cn"; cases "wr cn") (auto simp: bulk_draining_def conn_rank_def)
  then have "sum_list (map conn_rank (bconns S)) \<le> sum_list (map (\<lambda>_. 4) (bconns S))" by (intro sum_list_mono)
  then have "bulk_rank S \<le> 4 * n + 1" using v by (simp add: bulk_rank_def bulk_inv_def sum_list_triv mult.commute)
  moreover have "bphase S' = Finished" if "bulk_rank S' = 0" using that by (simp add: bulk_rank_def split: if_splits)
  moreover have "bulk_draining S'" using bulk_end.bounded [OF assms(3) d] by blast
  ultimately show ?thesis using bulk_end.comes_to_rest [OF assms(3) d] by (fastforce simp: bulk_draining_def)
qed

lemma bulk_ends_witness: "\<exists>e S''. bulk_trans 4 demo_bulk e S''"
proof -
  have "stop_closed (bphase demo_bulk)" "bphase demo_bulk \<noteq> Finished" by code_simp+
  then show ?thesis using bulk_ends [OF demo_bulk_reachable, of "[]"] by simp
qed

section \<open>The whole path\<close>

text \<open>
  Connection \<open>w\<close> of the generator is carried by connection \<open>i\<close> of a relay worker and connection \<open>j\<close> of the
  echo server: TCP delivers to each what the other side sent, in order, or a beginning of it.
\<close>

definition carried :: "nat \<Rightarrow> bulk_sys \<Rightarrow> nat \<Rightarrow> gate_sys \<Rightarrow> nat \<Rightarrow> echo \<Rightarrow> bool" where
  "carried w S i R j E \<longleftrightarrow> 0 < i \<and> j < length (econns E) \<and>
     prefix (recvd_c (flows (glog R) i)) (took (bconns S ! w)) \<and>
     prefix (e_in (econns E ! j)) (sent_u (flows (glog R) i)) \<and>
     prefix (recvd_u (flows (glog R) i)) (e_out (econns E ! j)) \<and>
     prefix (came_back w S) (sent_c (flows (glog R) i))"

lemma pattern_prefix: "prefix xs ys \<Longrightarrow> is_pattern ys \<Longrightarrow> is_pattern xs"
  by (auto simp: prefix_def pattern_append)

lemma carried_round_trip:
  assumes S: "bulk_inv n S" and w: "w < n" and R: "relay_mode c" "gate_reachable c R" and E: "echo_inv E" and c: "carried w S i R j E"
  shows "length (came_back w S) \<le> length (e_out (econns E ! j))"
    and "\<not> duplex c \<or> request_taken i (glog R) \<Longrightarrow> is_pattern (came_back w S)"
proof -
  have r: "\<not> duplex c \<or> request_taken i (glog R) \<longrightarrow> prefix (sent_u (flows (glog R) i)) (recvd_c (flows (glog R) i))"
      "prefix (sent_c (flows (glog R) i)) (recvd_u (flows (glog R) i))"
    using relay_ordered [OF R] c by (auto simp: carried_def)
  have "econns E ! j \<in> set (econns E)" using c by (simp add: carried_def)
  then have e: "prefix (e_out (econns E ! j)) (e_in (econns E ! j))" using E unfolding echo_inv_def by (metis prefixI)
  have b: "prefix (came_back w S) (e_out (econns E ! j))"
    using c r(2) unfolding carried_def by (meson prefix_order.order_trans)
  then show "length (came_back w S) \<le> length (e_out (econns E ! j))" by (rule prefix_length_le)
  assume "\<not> duplex c \<or> request_taken i (glog R)"
  then have "prefix (e_out (econns E ! j)) (took (bconns S ! w))"
    using c r(1) e unfolding carried_def by (meson prefix_order.order_trans)
  moreover have "is_pattern (took (bconns S ! w))" using S w by (simp add: bulk_inv_def bulk_conn_ok_def)
  ultimately show "is_pattern (came_back w S)" using b pattern_prefix by blast
qed

lemma measured_per_conn:
  fixes rs :: "(nat \<times> bytes \<times> bool) list"
  shows "\<forall>r\<in>set rs. fst r < n \<Longrightarrow>
   sum_list (map (\<lambda>(w, bs, timed). if timed then length bs else 0) rs) \<le>
   (\<Sum>w<n. length (concat (map (fst \<circ> snd) (filter (\<lambda>r. fst r = w) rs))))"
proof (induction rs)
  case (Cons r rs)
  obtain v bs timed where r: "r = (v, bs, timed)" by (cases r) auto
  have "(\<Sum>w<n. length (concat (map (fst \<circ> snd) (filter (\<lambda>r. fst r = w) (r # rs))))) =
      (\<Sum>w<n. (if w = v then length bs else 0) + length (concat (map (fst \<circ> snd) (filter (\<lambda>r. fst r = w) rs))))"
    by (intro sum.cong) (auto simp: r)
  also have "\<dots> = length bs + (\<Sum>w<n. length (concat (map (fst \<circ> snd) (filter (\<lambda>r. fst r = w) rs))))"
    using Cons.prems by (simp add: sum.distrib sum.delta r)
  finally have e: "(\<Sum>w<n. length (concat (map (fst \<circ> snd) (filter (\<lambda>r. fst r = w) (r # rs))))) =
      length bs + (\<Sum>w<n. length (concat (map (fst \<circ> snd) (filter (\<lambda>r. fst r = w) rs))))" .
  show ?case unfolding e using Cons by (simp add: r o_def)
qed simp

lemma echoed_sum:
  assumes "inj_on ec W" and "finite W" and "\<forall>w\<in>W. ec w < length xs"
  shows "(\<Sum>w\<in>W. f (xs ! ec w)) \<le> sum_list (map f xs :: nat list)"
proof -
  have "(\<Sum>w\<in>W. f (xs ! ec w)) = (\<Sum>j\<in>ec ` W. f (xs ! j))" using assms(1) by (simp add: sum.reindex)
  also have "\<dots> \<le> (\<Sum>j<length xs. f (xs ! j))" using assms(2,3) by (intro sum_mono2) auto
  finally show ?thesis by (simp add: sum_list_sum_nth atLeast0LessThan)
qed

text \<open>
  C37. The bulk benchmark cannot be inflated by its own relay and echo server: when every connection on which
  something came back is carried by a connection of a relay worker and one of its own of the echo server, what is
  counted as \<open>Bytes\<close> is at most what was read in the measured window, and that at most what the echo server sent back.
  An audit fails only on a connection whose initial request the kernel did not take whole, with \<open>-duplex\<close>, which
  is the relay's loss and nothing of the path's; when there is none, no audit fails and \<open>Bytes\<close> is exactly what was read.
\<close>

theorem bulk_counts_echoed:
  assumes "bulk_reachable k n S" and "echo_reachable E" and "relay_mode c" and "\<forall>w<n. gate_reachable c (R w)"
    and "\<forall>w<n. came_back w S \<noteq> [] \<longrightarrow> carried w S (rc w) (R w) (ec w) E"
    and "inj_on ec {w. w < n \<and> came_back w S \<noteq> []}"
  shows "(\<exists>v \<le> measured_bytes S. verified_b S = of_nat v) \<and>
    measured_bytes S \<le> sum_list (map (length \<circ> e_out) (econns E)) \<and>
    auditFail_b S = of_nat (card {w. w < n \<and> \<not> is_pattern (came_back w S)}) \<and>
    (\<forall>w<n. \<not> is_pattern (came_back w S) \<longrightarrow> duplex c \<and> \<not> request_taken (rc w) (glog (R w))) \<and>
    ((\<forall>w<n. came_back w S \<noteq> [] \<longrightarrow> \<not> duplex c \<or> request_taken (rc w) (glog (R w))) \<longrightarrow>
       auditFail_b S = 0 \<and> verified_b S = of_nat (measured_bytes S))"
proof -
  let ?W = "{w. w < n \<and> came_back w S \<noteq> []}"
  have v: "bulk_inv n S" using assms(1) by (rule bulk_runs.reachable_inv)
  have e: "echo_inv E" using assms(2) by (rule echo_inv.reachable_inv)
  have l: "length (came_back w S) \<le> length (e_out (econns E ! ec w)) \<and> ec w < length (econns E)" if "w \<in> ?W" for w
    using carried_round_trip(1) [OF v _ assms(3) _ e] assms(4,5) that by (fastforce simp: carried_def)
  have p: "is_pattern (came_back w S)" if "w < n" "came_back w S \<noteq> [] \<longrightarrow> \<not> duplex c \<or> request_taken (rc w) (glog (R w))" for w
  proof (cases "came_back w S = []")
    case False
    then show ?thesis
      using carried_round_trip(2) [OF v that(1) assms(3) _ e, of "R w" "rc w" "ec w"] assms(4,5) that by blast
  qed simp
  have "measured_bytes S \<le> (\<Sum>w<n. length (came_back w S))"
    using v measured_per_conn unfolding bulk_inv_def measured_bytes_def came_back_def by blast
  also have "\<dots> = (\<Sum>w\<in>?W. length (came_back w S))" by (intro sum.mono_neutral_right) auto
  also have "\<dots> \<le> (\<Sum>w\<in>?W. (length \<circ> e_out) (econns E ! ec w))" using l by (intro sum_mono) simp
  also have "\<dots> \<le> sum_list (map (length \<circ> e_out) (econns E))" using l by (intro echoed_sum [OF assms(6)]) auto
  finally have m: "measured_bytes S \<le> sum_list (map (length \<circ> e_out) (econns E))" .
  note led = bulk_inv_ledger [OF v]
  have "auditFail_b S = 0 \<and> verified_b S = of_nat (measured_bytes S)"
    if "\<forall>w<n. came_back w S \<noteq> [] \<longrightarrow> \<not> duplex c \<or> request_taken (rc w) (glog (R w))"
  proof -
    have a: "\<forall>w<n. is_pattern (came_back w S)" using p that by blast
    then have z: "{w. w < n \<and> \<not> is_pattern (came_back w S)} = {}" by blast
    show ?thesis using led a unfolding z by auto
  qed
  with m p led show ?thesis by blast
qed

text \<open>The path of \<open>demo_bulk\<close>: a relay that is sent four bytes and sends three back, and the echo server.\<close>

definition path_events :: "gate_event list" where
  "path_events =
    [GComplete 0 10 [] no_pipes, GComplete 2 2 [0, 1] no_pipes, GHook 0 11 True, GComplete 0 8 [] no_pipes,
     GComplete 2 2 [] no_pipes, GComplete 2 2 [2, 3] no_pipes, GComplete 3 2 [] no_pipes,
     GComplete 2 3 [0, 1, 2] no_pipes, GComplete 3 3 [] no_pipes]"

definition path_relay :: gate_sys where
  "path_relay = the (gate_run tunnel_cfg demo_gate (take 9 path_events))"

definition path_echo :: echo where
  "path_echo = fold echo_step [EchoAccept, EchoRound 0 [0, 1, 2, 3] False 4 False] echo_boot"

lemma path_reachable: "gate_reachable tunnel_cfg path_relay"
  unfolding path_relay_def by (rule demo_run_reachable) code_simp

lemma path_echo_reachable: "echo_reachable path_echo"
  unfolding path_echo_def by (rule runs_reachable [where guard = echo_enabled]) (code_simp, simp add: echo_trans_def)

lemma bulk_counts_echoed_witness:
  "measured_bytes demo_bulk \<le> sum_list (map (length \<circ> e_out) (econns path_echo)) \<and> verified_b demo_bulk = 2 \<and>
   measured_bytes demo_bulk = 2 \<and> sum_list (map (length \<circ> e_out) (econns path_echo)) = 4"
proof -
  have d: "measured_bytes demo_bulk = 2" "sum_list (map (length \<circ> e_out) (econns path_echo)) = 4"
      "carried 0 demo_bulk 1 path_relay 0 path_echo" "came_back 1 demo_bulk = []" "request_taken 1 (glog path_relay)" by code_simp+
  have w: "w < 2 \<Longrightarrow> w = 0 \<or> w = 1" for w :: nat by linarith
  then have "\<forall>w<2. came_back w demo_bulk \<noteq> [] \<longrightarrow> carried w demo_bulk 1 path_relay 0 path_echo" using d by auto
  moreover have "inj_on (\<lambda>_. 0) {w. w < 2 \<and> came_back w demo_bulk \<noteq> []}"
    using w d(4) by (intro inj_onI) (metis (mono_tags, lifting) mem_Collect_eq One_nat_def)
  ultimately have "measured_bytes demo_bulk \<le> sum_list (map (length \<circ> e_out) (econns path_echo)) \<and>
      verified_b demo_bulk = of_nat (measured_bytes demo_bulk)"
    using bulk_counts_echoed [OF demo_bulk_reachable path_echo_reachable torn_mode, of "\<lambda>_. path_relay" "\<lambda>_. 1" "\<lambda>_. 0"]
      path_reachable d(5) by blast
  with d show ?thesis by simp
qed

section \<open>The hold generator\<close>

text \<open>
  The ledger of the hold generator: \<open>holding\<close> is the number of connections held now, \<open>established\<close> that of
  all that were ever held, \<open>errs\<close> that of those that could not be opened. The figure printed as the peak of the held connections is all
  connections but the failed ones: at least as many as are held, whether or not they were ever held at once.
\<close>

theorem hold_ledger:
  assumes "reachable (\<lambda>S. S = hold_boot n) hold_trans S"
  shows "holding (hcounts S) = int (in_state Held S) \<and> established (hcounts S) = int (in_state Held S + in_state Over S) \<and>
    hold_errs (hcounts S) = int (in_state Refused S) \<and>
    fst (snd (hold_report S)) = int (in_state Held S + in_state Over S + in_state Ramping S)"
proof -
  have v: "hold_inv n S" using assms by (rule hold_runs.reachable_inv)
  have "length xs = length (filter (\<lambda>y. y = Held) xs) + length (filter (\<lambda>y. y = Over) xs) +
      length (filter (\<lambda>y. y = Ramping) xs) + length (filter (\<lambda>y. y = Refused) xs)" for xs
  proof (induction xs)
    case (Cons x xs)
    then show ?case by (cases x) simp_all
  qed simp
  from this [of "hconns S"] v show ?thesis by (simp add: hold_inv_def hold_report_def in_state_def)
qed

definition demo_hold :: hold_sys where
  "demo_hold = fold hold_step [HOpen 0 True True True, HEnd 0, HOpen 1 True True True, HEnd 1, HOpen 2 False False False] (hold_boot 4)"

text \<open>Two connections, one after the other and one that never came up: a peak of three is printed.\<close>

lemma hold_ledger_witness: "fst (snd (hold_report demo_hold)) = 3 \<and> in_state Held demo_hold = 0"
proof -
  have "reachable (\<lambda>S. S = hold_boot 4) hold_trans demo_hold"
    unfolding demo_hold_def by (rule runs_reachable [where guard = hold_enabled]) (code_simp, simp add: hold_trans_def)
  moreover have "in_state Held demo_hold = 0" "in_state Over demo_hold = 2" "in_state Ramping demo_hold = 1" by code_simp+
  ultimately show ?thesis using hold_ledger [of 4 demo_hold] by simp
qed

end
