(* ===== verification/Worker_Life.thy ===== *)
theory Worker_Life
  imports Server_Run Engine_Demo Uring
begin

text \<open>
  The life of one ring worker, \<open>runWorker\<close> of \<open>flashrelay/worker.go\<close> around its event loop: pinning, the eventfd,
  the hook goroutines, the ring, and its two ways to return: the drain after \<open>Stop\<close>, and a submission that
  fails. The hook goroutines outlive it.
\<close>

section \<open>Setting up\<close>

text \<open>
  What the worker reaches: a run-time panic in \<open>pinToCore\<close>, a return without an eventfd or without a ring (with
  the descriptor of the eventfd and the number of hook goroutines), or the loop.
\<close>

datatype set_up = PinPanics | NoEventfd | NoRing fd nat | Serving fd nat handles

definition hook_goroutines :: "config \<Rightarrow> nat" where
  "hook_goroutines c = nat (HookWorkers c)"

definition worker_set_up :: "config \<Rightarrow> int \<Rightarrow> fd option \<Rightarrow> new_ring_error + handles \<Rightarrow> set_up" where
  "worker_set_up c core eventfd2 ring_New =
    (case pinToCore core of
       None \<Rightarrow> PinPanics
     | Some _ \<Rightarrow>
         (case eventfd2 of
            None \<Rightarrow> NoEventfd
          | Some e \<Rightarrow>
              (case ring_New of
                 Inl err \<Rightarrow> NoRing e (hook_goroutines c)
               | Inr h \<Rightarrow> Serving e (hook_goroutines c) h)))"

section \<open>Serving and returning\<close>

text \<open>
  \<open>Loops ev\<close>: an event of the engine; once the worker has returned, only those of the hook goroutines are left.
  \<open>SubmitFails\<close>: \<open>ring.Submit\<close> returns an error. The batch that sees \<open>Stop\<close> and an empty table is the drain.
  \<open>Unseen n res\<close>: the kernel has completed the \<open>n\<close>-th outstanding entry with \<open>res\<close>, but the worker returned before
  harvesting it; no handler ever runs for it. \<open>unseen\<close> are the clients accepted in this way.
\<close>

datatype life_event = Loops event | SubmitFails | Unseen nat int

record life =
  engine :: system
  returned :: bool
  unseen :: "fd list"

fun outlives :: "event \<Rightarrow> bool" where
  "outlives (HookDone j d) = True"
| "outlives _ = False"

text \<open>The kernel's part of a completion that is never harvested.\<close>

definition unharvested :: "nat \<Rightarrow> int \<Rightarrow> life \<Rightarrow> life" where
  "unharvested n res L =
    (let S = engine L; w = wk S; r = sqe_req (sq w ! n)
     in L\<lparr>engine := S\<lparr>wk := w\<lparr>sq := drop_nth n (sq w)\<rparr>, open_fds := open_fds S \<union> opened_by r res - released_by r\<rparr>,
          unseen := unseen L @ (if opened_by r res = {} then [] else [res])\<rparr>)"

definition life_trans :: "config \<Rightarrow> life \<Rightarrow> life_event \<Rightarrow> life \<Rightarrow> bool" where
  "life_trans c L ev L' \<longleftrightarrow>
     (case ev of
        Loops e \<Rightarrow> (returned L \<longrightarrow> outlives e) \<and>
          (\<exists>S'. sys_trans c (engine L) e S' \<and> L' = L\<lparr>engine := S', returned := (returned L \<or> exited (wk S'))\<rparr>)
      | SubmitFails \<Rightarrow> \<not> returned L \<and> L' = L\<lparr>returned := True\<rparr>
      | Unseen n res \<Rightarrow> returned L \<and> n < length (sq (wk (engine L))) \<and>
          (\<exists>data. completion_ok (engine L) (sqe_req (sq (wk (engine L)) ! n)) res data) \<and> L' = unharvested n res L)"

text \<open>
  The worker starts with the descriptors \<open>base\<close> open, its listener \<open>ln\<close> among them; its set-up succeeds and adds the
  eventfd \<open>e\<close>. The ring, its own descriptor included, is closed by the deferred \<open>ring.Close\<close> and is not counted here.
\<close>

definition life_boot :: "config \<Rightarrow> int \<Rightarrow> new_ring_error + handles \<Rightarrow> fd \<Rightarrow> fd \<Rightarrow> fd set \<Rightarrow> life \<Rightarrow> bool" where
  "life_boot c core ring_New ln e base L \<longleftrightarrow> {0, 1, 2, ln} \<subseteq> base \<and> e \<notin> base \<and>
     (\<exists>g h. worker_set_up c core (Some e) ring_New = Serving e g h) \<and>
     L = \<lparr>engine = boot ln e (insert e base), returned = False, unseen = []\<rparr>"

abbreviation life_reachable :: "config \<Rightarrow> int \<Rightarrow> new_ring_error + handles \<Rightarrow> fd \<Rightarrow> fd \<Rightarrow> fd set \<Rightarrow> life \<Rightarrow> bool" where
  "life_reachable c core ring_New ln e base \<equiv> reachable (life_boot c core ring_New ln e base) (life_trans c)"

section \<open>Whose the open descriptors are\<close>

definition life_inv :: "config \<Rightarrow> fd \<Rightarrow> fd set \<Rightarrow> life \<Rightarrow> bool" where
  "life_inv c e base L \<longleftrightarrow>
     fds_ok (insert e base \<union> set (unseen L)) (engine L) \<and> (\<forall>q\<in>set (sq (wk (engine L))). close_pos q) \<and>
     distinct (unseen L) \<and> set (unseen L) \<inter> insert e base = {} \<and> 0 \<in> base \<and> e \<notin> base \<and>
     (exited (wk (engine L)) \<longrightarrow> conns (wk (engine L)) = []) \<and>
     (\<not> returned L \<longrightarrow> engine_reachable c (insert e base) (engine L) \<and> unseen L = [])"

lemma life_inv_engine:
  assumes "engine_reachable c (insert e base) S" and "config_ok c" and "0 \<in> base" and "e \<notin> base"
  shows "life_inv c e base \<lparr>engine = S, returned = b, unseen = []\<rparr>"
proof -
  have v: "sys_inv c (insert e base) S" by (rule reachable_sys_inv [OF assms(1,2)])
  have "\<forall>q\<in>set (sq (wk S)). close_pos q" using v by (simp add: sys_inv_def engine_ok_def globals_ok_def)
  with v assms show ?thesis by (simp add: life_inv_def sys_inv_def)
qed

lemma owned_fds_take:
  assumes "n < length (sq s)"
  shows "owned_fds s = owned_fds (s\<lparr>sq := drop_nth n (sq s)\<rparr>) + sqe_fds (sq s ! n)"
proof -
  have "sum_list (map sqe_fds (sq s)) = sqe_fds (sq s ! n) + sum_list (map sqe_fds (drop_nth n (sq s)))"
    by (subst (1 2) sum_mset_sum_list [symmetric]) (simp add: mset_drop_nth [OF assms])
  then show ?thesis by (simp add: owned_fds_def ac_simps)
qed

lemma life_inv_hook:
  assumes v: "life_inv c e base L" and r: "returned L" and t: "sys_trans c (engine L) (HookDone j d) S'"
  shows "life_inv c e base (L\<lparr>engine := S'\<rparr>)"
proof -
  let ?B = "insert e base \<union> set (unseen L)" and ?S = "engine L"
  have f: "fds_ok ?B ?S" using v by (simp add: life_inv_def)
  obtain w where w: "S' = \<lparr>wk = w, open_fds = open_fds ?S \<union> (if 0 < UpstreamFD d then {UpstreamFD d} else {}), log = log S'\<rparr>"
    "owned_fds w = owned_fds (wk ?S) + fd_bag (UpstreamFD d)" "sq w = sq (wk ?S)" "conns w = conns (wk ?S)" "exited w = exited (wk ?S)"
    using t by (auto simp: sys_trans_def Let_def owned_hook_done)
  have "fds_ok ?B S'"
  proof (cases "0 < UpstreamFD d")
    case True
    then have "UpstreamFD d \<notin> open_fds ?S" using t by (simp add: sys_trans_def decision_ok_def)
    from fds_open [OF f True this, of w "log S'"] w(1,2) True show ?thesis by (simp add: fd_bag_def)
  next
    case False
    then show ?thesis using fds_same [OF f, of w "log S'"] w(1,2) by (simp add: fd_bag_def)
  qed
  moreover have "wk S' = w" using w(1) by (metis system.select_convs(1))
  ultimately show ?thesis using v r w(3-5) by (simp add: life_inv_def)
qed

lemma life_inv_unseen:
  assumes v: "life_inv c e base L" and r: "returned L" and n: "n < length (sq (wk (engine L)))"
    and k: "completion_ok (engine L) (sqe_req (sq (wk (engine L)) ! n)) res data"
  shows "life_inv c e base (unharvested n res L)"
proof -
  let ?S = "engine L" and ?w = "wk (engine L)" and ?q = "sq (wk (engine L)) ! n" and ?B = "insert e base \<union> set (unseen L)"
  let ?w' = "?w\<lparr>sq := drop_nth n (sq ?w)\<rparr>"
  have f: "fds_ok ?B ?S" and p: "\<forall>q\<in>set (sq ?w). close_pos q" using v by (simp_all add: life_inv_def)
  have B: "?B \<subseteq> open_fds ?S" using f by (simp add: fds_ok_def)
  have p': "\<forall>q\<in>set (sq ?w'). close_pos q" using p set_drop_nth [of n "sq ?w"] by auto
  have o: "owned_fds ?w = owned_fds ?w' + sqe_fds ?q" by (rule owned_fds_take [OF n])
  show ?thesis
  proof (cases "\<exists>g. sqe_req ?q = Accept g \<and> 0 \<le> res")
    case True
    then have new: "res \<notin> open_fds ?S" using k by auto
    have "sqe_fds ?q = {#}" using True by (auto simp: sqe_fds_def)
    then have "owned_fds ?w = owned_fds ?w'" using o by simp
    moreover have "insert res (open_fds ?S) - insert res ?B = open_fds ?S - ?B" using new by auto
    ultimately have "fds_ok (insert res ?B) (?S\<lparr>wk := ?w', open_fds := insert res (open_fds ?S)\<rparr>)"
      using f by (auto simp: fds_ok_def)
    then show ?thesis using v r p' new B True by (auto simp: life_inv_def unharvested_def Let_def insert_commute)
  next
    case False
    then have "opened_by (sqe_req ?q) res = {}" by (cases "sqe_req ?q") auto
    moreover have rel: "set_mset (sqe_fds ?q) = released_by (sqe_req ?q)" using p n by (intro close_pos_set) auto
    have "fds_ok ?B (?S\<lparr>wk := ?w', open_fds := open_fds ?S - released_by (sqe_req ?q)\<rparr>)"
      using fds_close [OF f o, of "log ?S"] unfolding rel by (simp add: fds_ok_def)
    ultimately show ?thesis using v r p' by (simp add: life_inv_def unharvested_def Let_def)
  qed
qed

lemma life_inv_step:
  assumes "config_ok c" and "life_inv c e base L" and "life_trans c L ev L'"
  shows "life_inv c e base L'"
proof (cases ev)
  case (Loops ev')
  then obtain S' where S': "sys_trans c (engine L) ev' S'" "L' = L\<lparr>engine := S', returned := (returned L \<or> exited (wk S'))\<rparr>"
    and o: "returned L \<longrightarrow> outlives ev'"
    using assms(3) by (auto simp: life_trans_def)
  show ?thesis
  proof (cases "returned L")
    case True
    then obtain j d where "ev' = HookDone j d" using o by (cases ev') auto
    with life_inv_hook [OF assms(2) True] S' True show ?thesis by (cases L) simp
  next
    case False
    then have r: "engine_reachable c (insert e base) (engine L)" "unseen L = []" "0 \<in> base" "e \<notin> base"
      using assms(2) by (simp_all add: life_inv_def)
    with life_inv_engine [OF reach_step [OF r(1) S'(1)] assms(1)] S'(2) show ?thesis by (cases L) simp
  qed
next
  case SubmitFails
  with assms(2,3) show ?thesis by (auto simp: life_trans_def life_inv_def)
next
  case (Unseen n res)
  with life_inv_unseen [OF assms(2)] assms(3) show ?thesis by (auto simp: life_trans_def)
qed

interpretation life: inductive_invariant "life_boot c core ring_New ln e base" "life_trans c"
  "\<lambda>L. config_ok c \<longrightarrow> life_inv c e base L" for c core ring_New ln e base
proof
  show "config_ok c \<longrightarrow> life_inv c e base L" if "life_boot c core ring_New ln e base L" for L
  proof
    assume "config_ok c"
    moreover have "booted (insert e base) (boot ln e (insert e base))" using that by (auto simp: life_boot_def booted_def)
    ultimately show "life_inv c e base L" using that life_inv_engine [OF reach_start] by (auto simp: life_boot_def)
  qed
qed (use life_inv_step in blast)

lemma fds_ok_split:
  assumes "fds_ok B S"
  shows "open_fds S = B \<union> set_mset (owned_fds (wk S))" and "B \<inter> set_mset (owned_fds (wk S)) = {}"
proof -
  have "set_mset (owned_fds (wk S)) = open_fds S - B" "B \<subseteq> open_fds S"
    using assms unfolding fds_ok_def by (metis finite_set_mset_mset_set)+
  then show "open_fds S = B \<union> set_mset (owned_fds (wk S))" "B \<inter> set_mset (owned_fds (wk S)) = {}" by auto
qed

text \<open>
  C18. What a worker leaves open when it has returned, whether after a drain or after a failed submission and whatever
  the kernel still does with the entries it left behind: what was open before it started, its listener included (which
  \<open>Run\<close> closes); its eventfd, for ever; the clients the kernel accepted without the worker seeing it, for ever; and
  what connections, closes not yet performed and hook results own. After a drain no connection is left; after a failed
  submission every open one is. A hook run that ends later adds the upstream it dialed.
\<close>

theorem worker_leaves:
  assumes "life_reachable c core ring_New ln e base L" and "config_ok c" and "returned L"
  shows "open_fds (engine L) = base \<union> {e} \<union> set (unseen L) \<union> set_mset (owned_fds (wk (engine L))) \<and>
    e \<notin> base \<and> distinct (unseen L) \<and> set (unseen L) \<inter> (base \<union> {e}) = {} \<and>
    (base \<union> {e} \<union> set (unseen L)) \<inter> set_mset (owned_fds (wk (engine L))) = {} \<and>
    (exited (wk (engine L)) \<longrightarrow> conns (wk (engine L)) = []) \<and>
    (\<forall>j d L'. life_trans c L (Loops (HookDone j d)) L' \<and> 0 < UpstreamFD d \<longrightarrow>
       open_fds (engine L') = insert (UpstreamFD d) (open_fds (engine L)) \<and> UpstreamFD d \<notin> open_fds (engine L)) \<and>
    (\<forall>n res g L'. life_trans c L (Unseen n res) L' \<and> sqe_req (sq (wk (engine L)) ! n) = Accept g \<and> 0 \<le> res \<longrightarrow>
       res \<in> set (unseen L') \<and> res \<notin> set (unseen L))"
proof -
  have v: "life_inv c e base L" using life.reachable_inv [OF assms(1)] assms(2) by blast
  then have f: "fds_ok (insert e base \<union> set (unseen L)) (engine L)" by (simp add: life_inv_def)
  have B: "set (unseen L) \<subseteq> open_fds (engine L)" using f by (simp add: fds_ok_def)
  have "open_fds (engine L') = insert (UpstreamFD d) (open_fds (engine L)) \<and> UpstreamFD d \<notin> open_fds (engine L)"
    if "life_trans c L (Loops (HookDone j d)) L'" "0 < UpstreamFD d" for j d L'
    using that by (auto simp: life_trans_def sys_trans_def decision_ok_def Let_def)
  moreover have "res \<in> set (unseen L') \<and> res \<notin> set (unseen L)"
    if "life_trans c L (Unseen n res) L'" "sqe_req (sq (wk (engine L)) ! n) = Accept g" "0 \<le> res" for n res g L'
    using that B by (auto simp: life_trans_def unharvested_def Let_def)
  moreover have "open_fds (engine L) = base \<union> {e} \<union> set (unseen L) \<union> set_mset (owned_fds (wk (engine L)))"
    "(base \<union> {e} \<union> set (unseen L)) \<inter> set_mset (owned_fds (wk (engine L))) = {}"
    using fds_ok_split [OF f] by auto
  moreover have "e \<notin> base" "distinct (unseen L)" "set (unseen L) \<inter> (base \<union> {e}) = {}"
    "exited (wk (engine L)) \<longrightarrow> conns (wk (engine L)) = []" using v by (auto simp: life_inv_def)
  ultimately show ?thesis by blast
qed

text \<open>
  The worker of \<open>demo\<close> after its drain; one that returns while the kernel completes its accept; and one whose ring
  fails while a client and an upstream are open.
\<close>

fun life_steps :: "config \<Rightarrow> life \<Rightarrow> event list \<Rightarrow> life option" where
  "life_steps c L [] = Some L"
| "life_steps c L (e # es) =
    (if event_ok (engine L) e \<and> (returned L \<longrightarrow> outlives e)
     then (case sys_step c (engine L) e of
             None \<Rightarrow> None
           | Some S' \<Rightarrow> life_steps c (L\<lparr>engine := S', returned := (returned L \<or> exited (wk S'))\<rparr>) es)
     else None)"

lemma life_steps_reachable:
  "life_reachable c core rg ln e base L \<Longrightarrow> life_steps c L es = Some L' \<Longrightarrow> life_reachable c core rg ln e base L'"
proof (induction es arbitrary: L)
  case (Cons x es)
  then obtain S' where S': "sys_trans c (engine L) x S'" "returned L \<longrightarrow> outlives x"
      "life_steps c (L\<lparr>engine := S', returned := (returned L \<or> exited (wk S'))\<rparr>) es = Some L'"
    by (auto simp: sys_trans_def split: if_splits option.splits)
  then have "life_trans c L (Loops x) (L\<lparr>engine := S', returned := (returned L \<or> exited (wk S'))\<rparr>)"
    by (auto simp: life_trans_def)
  then show ?case using Cons.IH [OF reach_step [OF Cons.prems(1)]] S'(3) by blast
qed simp

definition demo_ring_new :: "new_ring_error + handles" where
  "demo_ring_new = Inr \<lparr>h_fd = 5, h_sqRing = True, h_cqRing = True, h_sqeMmap = True, h_single = True, h_noDrop = True\<rparr>"

definition demo_life0 :: life where
  "demo_life0 = \<lparr>engine = boot 3 4 (insert 4 {0, 1, 2, 3}), returned = False, unseen = []\<rparr>"

definition drained_life :: life where
  "drained_life = the (life_steps demo_cfg demo_life0 (take 19 demo_events @ [BatchEnd 0 True]))"

text \<open>Here the flag is seen with one accept in flight, the third of the entries left behind.\<close>

definition missed_life :: life where
  "missed_life = unharvested 2 10 (the (life_steps demo_cfg demo_life0 [BatchEnd 0 False, BatchEnd 0 True]))"

definition broken_life :: life where
  "broken_life = (the (life_steps demo_cfg demo_life0 (take 11 demo_events)))\<lparr>returned := True\<rparr>"

lemma demo_life0_reachable: "life_reachable demo_cfg (- 1) demo_ring_new 3 4 {0, 1, 2, 3} demo_life0"
  by (rule reach_start) (auto simp: life_boot_def demo_life0_def demo_ring_new_def worker_set_up_def pinToCore_def)

lemma drained_reachable: "life_reachable demo_cfg (- 1) demo_ring_new 3 4 {0, 1, 2, 3} drained_life"
proof -
  have "life_steps demo_cfg demo_life0 (take 19 demo_events @ [BatchEnd 0 True]) = Some drained_life"
    unfolding drained_life_def by code_simp
  then show ?thesis by (rule life_steps_reachable [OF demo_life0_reachable])
qed

lemma missed_reachable: "life_reachable demo_cfg (- 1) demo_ring_new 3 4 {0, 1, 2, 3} missed_life"
proof -
  let ?L = "the (life_steps demo_cfg demo_life0 [BatchEnd 0 False, BatchEnd 0 True])"
  have s: "life_steps demo_cfg demo_life0 [BatchEnd 0 False, BatchEnd 0 True] = Some ?L"
    and q: "returned ?L" "2 < length (sq (wk (engine ?L)))" "sqe_req (sq (wk (engine ?L)) ! 2) = Accept 3" "10 \<notin> open_fds (engine ?L)"
    by code_simp+
  have "completion_ok (engine ?L) (sqe_req (sq (wk (engine ?L)) ! 2)) 10 []" using q(3,4) by simp
  then have "life_trans demo_cfg ?L (Unseen 2 10) missed_life" using q(1,2) by (auto simp: life_trans_def missed_life_def)
  with life_steps_reachable [OF demo_life0_reachable s] show ?thesis by (rule reach_step)
qed

lemma broken_reachable: "life_reachable demo_cfg (- 1) demo_ring_new 3 4 {0, 1, 2, 3} broken_life"
proof -
  let ?L = "the (life_steps demo_cfg demo_life0 (take 11 demo_events))"
  have s: "life_steps demo_cfg demo_life0 (take 11 demo_events) = Some ?L" and n: "\<not> returned ?L" by code_simp+
  have "life_trans demo_cfg ?L SubmitFails broken_life" using n by (simp add: life_trans_def broken_life_def)
  with life_steps_reachable [OF demo_life0_reachable s] show ?thesis by (rule reach_step)
qed

lemma worker_leaves_witness:
  "open_fds (engine drained_life) = {0, 1, 2, 3, 4} \<and> open_fds (engine missed_life) = {0, 1, 2, 3, 4, 10} \<and>
   open_fds (engine broken_life) = {0, 1, 2, 3, 4, 10, 11}"
proof -
  have d: "returned drained_life" "owned_fds (wk (engine drained_life)) = {#}" "unseen drained_life = []"
    "returned missed_life" "owned_fds (wk (engine missed_life)) = {#}" "unseen missed_life = [10]"
    "returned broken_life" "set_mset (owned_fds (wk (engine broken_life))) = {10, 11}" "unseen broken_life = []" by code_simp+
  show ?thesis
    using worker_leaves [OF drained_reachable demo_cfg_ok(1) d(1)] worker_leaves [OF missed_reachable demo_cfg_ok(1) d(4)]
      worker_leaves [OF broken_reachable demo_cfg_ok(1) d(7)]
    unfolding d by auto
qed

text \<open>The set-up fails cleanly only before the eventfd exists.\<close>

lemma set_up_outcomes:
  "worker_set_up c core efd_r ring_r = NoRing e g \<Longrightarrow> efd_r = Some e \<and> g = hook_goroutines c \<and> (\<exists>err. ring_r = Inl err)"
  by (auto simp: worker_set_up_def split: option.splits sum.splits)

end
