(* ===== verification/Local_Ips.thy ===== *)
theory Local_Ips
  imports Storm_Run "HOL-Library.Char_ord" "HOL-Library.List_Lexorder"
begin

text \<open>
  The source addresses of a storm: \<open>localGlobalIPs\<close> of \<open>internal/storm/storm.go\<close>, the classification of
  addresses by \<open>net.IP\<close> it rests on, and what a storm makes of the list \<open>auto\<close> stands for.
\<close>

section \<open>Kinds of addresses\<close>

text \<open>\<open>net.IP\<close>'s \<open>To16\<close> and \<open>Equal\<close>, on the four- and sixteen-byte forms.\<close>

definition To16 :: "bytes \<Rightarrow> bytes" where
  "To16 ip = (if length ip = 4 then replicate 10 0 @ [0xff, 0xff] @ ip else ip)"

definition IP_Equal :: "bytes \<Rightarrow> bytes \<Rightarrow> bool" where
  "IP_Equal x y \<longleftrightarrow>
    (if length x = length y then x = y
     else (length x = 4 \<and> length y = 16 \<or> length x = 16 \<and> length y = 4) \<and> To16 x = To16 y)"

definition IPv4bcast :: bytes where "IPv4bcast = To16 [255, 255, 255, 255]"
definition IPv4zero :: bytes where "IPv4zero = To16 [0, 0, 0, 0]"
definition IPv6unspecified :: bytes where "IPv6unspecified = replicate 16 0"
definition IPv6loopback :: bytes where "IPv6loopback = replicate 15 0 @ [1]"

unbundle bit_operations_syntax

definition IsUnspecified :: "bytes \<Rightarrow> bool" where
  "IsUnspecified ip \<longleftrightarrow> IP_Equal ip IPv4zero \<or> IP_Equal ip IPv6unspecified"

definition IsLoopback :: "bytes \<Rightarrow> bool" where
  "IsLoopback ip = (case To4 ip of Some b \<Rightarrow> b ! 0 = 127 | None \<Rightarrow> IP_Equal ip IPv6loopback)"

definition IsMulticast :: "bytes \<Rightarrow> bool" where
  "IsMulticast ip = (case To4 ip of Some b \<Rightarrow> b ! 0 AND 0xf0 = 0xe0 | None \<Rightarrow> length ip = 16 \<and> ip ! 0 = 0xff)"

definition IsLinkLocalUnicast :: "bytes \<Rightarrow> bool" where
  "IsLinkLocalUnicast ip =
    (case To4 ip of
       Some b \<Rightarrow> b ! 0 = 169 \<and> b ! 1 = 254
     | None \<Rightarrow> length ip = 16 \<and> ip ! 0 = 0xfe \<and> ip ! 1 AND 0xc0 = 0x80)"

definition IsGlobalUnicast :: "bytes \<Rightarrow> bool" where
  "IsGlobalUnicast ip \<longleftrightarrow>
    (length ip = 4 \<or> length ip = 16) \<and> \<not> IP_Equal ip IPv4bcast \<and> \<not> IsUnspecified ip \<and> \<not> IsLoopback ip \<and>
    \<not> IsMulticast ip \<and> \<not> IsLinkLocalUnicast ip"

section \<open>The addresses of the host\<close>

text \<open>What \<open>net.InterfaceAddrs\<close> returns: the types the switch knows, and any other.\<close>

datatype if_addr = IPNet bytes | IPAddr bytes | OtherAddr

text \<open>The empty slice is \<open>nil\<close>.\<close>

fun if_ip :: "if_addr \<Rightarrow> bytes" where
  "if_ip (IPNet ip) = ip"
| "if_ip (IPAddr ip) = ip"
| "if_ip OtherAddr = []"

fun global_loop :: "if_addr list \<Rightarrow> string list \<Rightarrow> string list" where
  "global_loop [] out = out"
| "global_loop (a # as') out =
    (let ip = if_ip a
     in if ip = [] \<or> \<not> IsGlobalUnicast ip then global_loop as' out else global_loop as' (out @ [IP_String ip]))"

definition localGlobalIPs :: "storm_error + if_addr list \<Rightarrow> storm_error + string list" where
  "localGlobalIPs interfaceAddrs =
    (case interfaceAddrs of
       Inl err \<Rightarrow> Inl err
     | Inr addrs \<Rightarrow>
         (let out = sort (global_loop addrs [])
          in if length out = 0 then Inl NoGlobalIPs else Inr out))"

section \<open>What the storm makes of them\<close>

definition globals :: "if_addr list \<Rightarrow> bytes list" where
  "globals addrs = filter IsGlobalUnicast (map if_ip addrs)"

lemma not_global_Nil: "\<not> IsGlobalUnicast []"
  by (simp add: IsGlobalUnicast_def)

lemma global_loop_eq: "global_loop addrs out = out @ map IP_String (globals addrs)"
  by (induction addrs out rule: global_loop.induct) (auto simp: globals_def Let_def not_global_Nil)

lemma ParseIP_IP_String: "length ip = 4 \<or> length ip = 16 \<Longrightarrow> ParseIP (IP_String ip) = Some (To16 ip)"
proof (cases "To4 ip")
  case None
  assume "length ip = 4 \<or> length ip = 16"
  with None show ?thesis by (auto simp: ParseIP_def ParseAddr_IP_String To16_def To4_def)
next
  case (Some b)
  assume l: "length ip = 4 \<or> length ip = 16"
  have "(replicate 10 0 @ [0xff, 0xff]) @ b = ip" if "length ip = 16"
  proof -
    have "take 12 ip = replicate 10 0 @ [0xff, 0xff]" "b = drop 12 ip"
      using Some that by (auto simp: To4_def split: if_splits)
    then show ?thesis by (metis append_take_drop_id)
  qed
  with l Some have "replicate 10 0 @ [0xff, 0xff] @ b = To16 ip"
    by (auto simp: To16_def To4_def)
  with Some l show ?thesis by (simp add: ParseIP_def ParseAddr_IP_String)
qed

lemma To4_To16: "length ip = 4 \<or> length ip = 16 \<Longrightarrow> To4 (To16 ip) = To4 ip"
  by (auto simp: To4_def To16_def numeral_eq_Suc)

text \<open>On addresses that parse, the loop of the storm keeps those of its family, in order, and never fails.\<close>

definition of_family :: "bool \<Rightarrow> string \<Rightarrow> bool" where
  "of_family v4 s \<longleftrightarrow> (To4 (the (ParseIP s)) \<noteq> None) = v4"

lemma source_loop_parsed:
  "\<forall>s\<in>set ips. \<exists>pip. ParseIP s = Some pip \<and> length pip = 16 \<Longrightarrow>
   \<exists>rs'. source_loop v4 ips ls rs = Inr (ls @ map (the \<circ> ParseIP) (filter (of_family v4) ips), rs')"
proof (induction v4 ips ls rs rule: source_loop.induct)
  case (2 v4 ip ips ls rs)
  then obtain pip where p: "ParseIP ip = Some pip" "length pip = 16" by auto
  then obtain sa d where sa: "resolveSource ip = Inr (sa, d)"
    by (cases "To4 pip") (auto simp: resolveSource_def sockAddr_def)
  show ?case
  proof (cases "(To4 pip \<noteq> None) \<noteq> v4")
    case True
    with 2 p show ?thesis by (simp add: of_family_def)
  next
    case False
    with 2 p sa show ?thesis by (simp add: of_family_def)
  qed
qed simp

lemma length_To16: "length ip = 4 \<or> length ip = 16 \<Longrightarrow> length (To16 ip) = 16"
  by (auto simp: To16_def)

lemma globals_length: "ip \<in> set (globals ifs) \<Longrightarrow> length ip = 4 \<or> length ip = 16"
  by (auto simp: globals_def IsGlobalUnicast_def)

lemma family_printed:
  "\<forall>ip\<in>set xs. length ip = 4 \<or> length ip = 16 \<Longrightarrow>
   map (the \<circ> ParseIP) (filter (of_family v4) (map IP_String xs)) = map To16 (filter (\<lambda>ip. (To4 ip \<noteq> None) = v4) xs)"
proof (induction xs)
  case (Cons ip xs)
  then have "ParseIP (IP_String ip) = Some (To16 ip)" "To4 (To16 ip) = To4 ip"
    using ParseIP_IP_String To4_To16 by auto
  with Cons show ?case by (simp add: of_family_def)
qed simp

lemma localGlobalIPs_mset:
  "localGlobalIPs (Inr ifs) = Inr ips \<Longrightarrow> mset ips = mset (map IP_String (globals ifs)) \<and> sorted ips \<and> ips \<noteq> []"
  by (auto simp: localGlobalIPs_def Let_def global_loop_eq split: if_splits)

text \<open>
  C34. The sources of a storm.
\<close>

theorem storm_sources:
  assumes "TrimSpace spec = ''auto''" and "ResolveSrcIPs (localGlobalIPs (Inr ifs)) spec = Inr ips"
    and "prepare tcp relay ips = Some A" and "ExpandTargets relay = Inr ts"
  shows "sorted ips \<and>
    mset (dial_sources A) = mset (map To16 (filter (\<lambda>ip. (To4 ip \<noteq> None) = relayIsV4 tcp (ts ! 0)) (globals ifs)))"
proof -
  let ?v4 = "relayIsV4 tcp (ts ! 0)"
  have ips: "mset ips = mset (map IP_String (globals ifs))" "sorted ips"
    using assms(1,2) localGlobalIPs_mset [of ifs ips] by (auto simp: ResolveSrcIPs_def)
  then have set: "set ips = IP_String ` set (globals ifs)" by (metis set_map set_mset_mset)
  have "\<forall>s\<in>set ips. \<exists>pip. ParseIP s = Some pip \<and> length pip = 16"
    unfolding set using ParseIP_IP_String length_To16 globals_length by blast
  then obtain rs' where "source_loop ?v4 ips [] [] = Inr (map (the \<circ> ParseIP) (filter (of_family ?v4) ips), rs')"
    using source_loop_parsed [of ips ?v4 "[]" "[]"] by auto
  then have "dial_sources A = map (the \<circ> ParseIP) (filter (of_family ?v4) ips)"
    using assms(3,4) by (auto simp: prepare_def split: if_splits sum.splits)
  then have "mset (dial_sources A) = mset (map (the \<circ> ParseIP) (filter (of_family ?v4) (map IP_String (globals ifs))))"
    using ips(1) by (metis mset_filter mset_map)
  also have "mset (map (the \<circ> ParseIP) (filter (of_family ?v4) (map IP_String (globals ifs)))) =
      mset (map To16 (filter (\<lambda>ip. (To4 ip \<noteq> None) = ?v4) (globals ifs)))"
    using family_printed [of "globals ifs"] globals_length by metis
  finally show ?thesis using ips(2) by simp
qed

definition host_ifs :: "if_addr list" where
  "host_ifs = [IPNet [127, 0, 0, 1], IPNet [203, 0, 113, 7], OtherAddr, IPAddr [10, 0, 0, 2],
     IPNet ([0x20, 1, 0xd, 0xb8] @ replicate 11 0 @ [1]), IPNet ([0xfe, 0x80] @ replicate 13 0 @ [1])]"

definition host_resolver :: resolver where
  "host_resolver t = Some (Some [203, 0, 113, 1], 80)"

lemma storm_sources_witness:
  "mset (dial_sources (the (prepare host_resolver ''203.0.113.1:80'' [''10.0.0.2'', ''2001:db8::1'', ''203.0.113.7'']))) =
    {#To16 [203, 0, 113, 7], To16 [10, 0, 0, 2]#}"
proof -
  let ?ips = "[''10.0.0.2'', ''2001:db8::1'', ''203.0.113.7'']"
  have h: "TrimSpace ''auto'' = ''auto''" "ResolveSrcIPs (localGlobalIPs (Inr host_ifs)) ''auto'' = Inr ?ips"
    "ExpandTargets ''203.0.113.1:80'' = Inr [''203.0.113.1:80'']" "prepare host_resolver ''203.0.113.1:80'' ?ips \<noteq> None"
    "relayIsV4 host_resolver ([''203.0.113.1:80''] ! 0)"
    "map To16 (filter (\<lambda>ip. (To4 ip \<noteq> None) = True) (globals host_ifs)) = [To16 [203, 0, 113, 7], To16 [10, 0, 0, 2]]"
    by code_simp+
  from h(4) obtain A where A: "prepare host_resolver ''203.0.113.1:80'' ?ips = Some A" by auto
  have "relayIsV4 host_resolver ([''203.0.113.1:80''] ! 0) = True" using h(5) by (rule eqTrueI)
  from conjunct2 [OF storm_sources [OF h(1,2) A h(3)], unfolded this h(6)] A show ?thesis by simp
qed

end
