(* ===== verification/Gate_Worker.thy ===== *)
theory Gate_Worker
  imports Relay_Commands Gate_Demo Uring
begin

text \<open>
  One worker of \<open>research/gate/cmd/relay-uring/main.go\<close> with what surrounds its ring: the set-up of \<open>worker\<close>, its
  bridge, and its hook goroutines, which run \<open>Decide\<close> of \<open>internal/hook\<close> concurrently over one
  shared configuration. What the environment of \<open>Gate_System\<close> was free to answer is here what \<open>Decide\<close> returns.
\<close>

section \<open>Setting up\<close>

text \<open>The fields of \<open>relayCfg\<close> that only the hook reads; \<open>Delay\<close> is sampled at each call.\<close>

record hook_flags =
  f_authCPU :: int
  f_sinkIP :: string
  f_sinkPort :: int
  f_sinkPorts :: int
  f_sinkIPs :: string
  f_fpMark :: int

definition worker_hook_config :: "hook_flags \<Rightarrow> hook_config" where
  "worker_hook_config f =
    \<lparr>AuthCPU = f_authCPU f, SinkIP = f_sinkIP f, SinkPort = f_sinkPort f, SinkPorts = f_sinkPorts f,
     SinkIPs = parseCSV (f_sinkIPs f), Mark = f_fpMark f, dialSeq = None, targets = []\<rparr>"

text \<open>What a worker reaches: a panic in \<open>pinToCore\<close>, one of its calls of \<open>log.Fatalf\<close>, or the loop.\<close>

datatype gate_set_up =
    GatePinPanics
  | EventfdFatal
  | HookFatal hook_error
  | RingFatal new_ring_error
  | GateServing fd nat hook_config handles

definition gate_set_up :: "hook_flags \<Rightarrow> int \<Rightarrow> int \<Rightarrow> fd option \<Rightarrow> new_ring_error + handles \<Rightarrow> gate_set_up" where
  "gate_set_up f hookWorkers core eventfd2 ring_New =
    (case pinToCore core of
       None \<Rightarrow> GatePinPanics
     | Some p \<Rightarrow>
         (case eventfd2 of
            None \<Rightarrow> EventfdFatal
          | Some e \<Rightarrow>
              (case Init (worker_hook_config f) of
                 (Some err, hcfg) \<Rightarrow> HookFatal err
               | (None, hcfg) \<Rightarrow>
                   (case ring_New of
                      Inl err \<Rightarrow> RingFatal err
                    | Inr h \<Rightarrow> GateServing e (nat hookWorkers) hcfg h))))"

section \<open>The bridge\<close>

definition gate_push :: "gate_result \<Rightarrow> gate_result bridge \<Rightarrow> gate_result bridge" where
  "gate_push r b =
    (let b = b\<lparr>ready := ready b @ [r]\<rparr>
     in if notified b = 0 then b\<lparr>notified := 1, wakes := wakes b + 1\<rparr> else b\<lparr>notified := 1\<rparr>)"

definition gate_drain :: "gate_result bridge \<Rightarrow> gate_result list \<times> gate_result bridge" where
  "gate_drain b = (ready b, b\<lparr>ready := []\<rparr>)"

text \<open>The copy of the bridge in this command is the bridge of the engine.\<close>

lemma gate_push_eq: "gate_push = push"
  by (simp add: fun_eq_iff gate_push_def push_def Let_def)

lemma gate_drain_eq: "gate_drain = drain"
  by (simp add: fun_eq_iff gate_drain_def drain_def)

section \<open>Worker and hook goroutines\<close>

text \<open>
  A goroutine takes a job, burns and waits, and draws the target of its dial: \<open>Draws j\<close> for the \<open>j\<close>-th job not
  answered. Its dial then ends and the result is pushed: \<open>Dials j k lg\<close>, with the kernel it meets and the calls made
  before. \<open>drawn\<close> holds the targets of the dials under way, \<open>picks\<close> those of all draws so far.
\<close>

datatype served_event = Rings gate_event | Draws nat | Dials nat kernel log

record served =
  relay :: gate_sys
  hook_cfg :: hook_config
  drawn :: "(nat \<times> string \<times> int) list"
  picks :: "(string \<times> int) list"

definition answer :: "nat \<Rightarrow> sock_error + fd \<Rightarrow> gate_result" where
  "answer i r = (case r of Inl e \<Rightarrow> \<lparr>rid = i, rfd = - 1, ok = False\<rparr> | Inr f \<Rightarrow> \<lparr>rid = i, rfd = f, ok = True\<rparr>)"

fun by_ring :: "gate_event \<Rightarrow> bool" where
  "by_ring (GHook j f b) = False"
| "by_ring _ = True"

fun served_enabled :: "nat \<Rightarrow> served_event \<Rightarrow> served \<Rightarrow> bool" where
  "served_enabled n (Rings e) S \<longleftrightarrow> gevent_ok (relay S) e \<and> by_ring e"
| "served_enabled n (Draws j) S \<longleftrightarrow>
     j < length (jobs (gw (relay S))) \<and> jobs (gw (relay S)) ! j \<notin> fst ` set (drawn S) \<and> length (drawn S) < n"
| "served_enabled n (Dials j k lg) S \<longleftrightarrow>
     j < length (jobs (gw (relay S))) \<and> jobs (gw (relay S)) ! j \<in> fst ` set (drawn S)"

fun served_step :: "relayCfg \<Rightarrow> served_event \<Rightarrow> served \<Rightarrow> served option" where
  "served_step c (Rings e) S = map_option (\<lambda>R. S\<lparr>relay := R\<rparr>) (gate_step c (relay S) e)"
| "served_step c (Draws j) S =
    (let (t, h) = sinkTargetFor (hook_cfg S)
     in Some (S\<lparr>hook_cfg := h, drawn := drawn S @ [(jobs (gw (relay S)) ! j, t)], picks := picks S @ [t]\<rparr>))"
| "served_step c (Dials j k lg) S =
    (let w = gw (relay S); i = jobs w ! j;
         (ip, port) = the (map_of (drawn S) i);
         (r, lg') = DialMark k ip port (Mark (hook_cfg S)) lg
     in Some (S\<lparr>relay := (relay S)\<lparr>gw := w\<lparr>jobs := drop_nth j (jobs w), br := gate_push (answer i r) (br w)\<rparr>\<rparr>,
                drawn := filter (\<lambda>d. fst d \<noteq> i) (drawn S)\<rparr>))"

definition served_trans :: "relayCfg \<Rightarrow> nat \<Rightarrow> served \<Rightarrow> served_event \<Rightarrow> served \<Rightarrow> bool" where
  "served_trans c n S e S' \<longleftrightarrow> served_enabled n e S \<and> served_step c e S = Some S'"

definition served_boot :: "hook_config \<Rightarrow> served \<Rightarrow> bool" where
  "served_boot h S \<longleftrightarrow> gate_boot (relay S) \<and> S = \<lparr>relay = relay S, hook_cfg = h, drawn = [], picks = []\<rparr>"

abbreviation served_reachable :: "relayCfg \<Rightarrow> nat \<Rightarrow> hook_config \<Rightarrow> served \<Rightarrow> bool" where
  "served_reachable c n h \<equiv> reachable (served_boot h) (served_trans c n)"

text \<open>Drawing and dialing is \<open>Decide\<close>.\<close>

lemma Decide_draws_dials:
  "Decide k delay h lg = (ws, r, h', lg') \<longleftrightarrow>
    (\<exists>ip port. sinkTargetFor h = ((ip, port), h') \<and> DialMark k ip port (Mark h) lg = (r, lg')) \<and>
    ws = Spin (AuthCPU h) @ (case delay of None \<Rightarrow> [] | Some d \<Rightarrow> if d > 0 then [Slept d] else [])"
  by (auto simp: Decide_def Let_def split: prod.splits)

section \<open>The relay below\<close>

text \<open>Every dial that ends is an answer the environment of the relay could give.\<close>

lemma dial_is_hook:
  assumes "served_enabled n (Dials j k lg) S" and "served_step c (Dials j k lg) S = Some S'"
  obtains f b where "gate_trans c (relay S) (GHook j f b) (relay S')"
proof -
  obtain ip port where t: "the (map_of (drawn S) (jobs (gw (relay S)) ! j)) = (ip, port)" by force
  obtain r lg' where d: "DialMark k ip port (Mark (hook_cfg S)) lg = (r, lg')" by force
  let ?f = "case r of Inl e \<Rightarrow> - 1 | Inr f \<Rightarrow> f" and ?b = "case r of Inl e \<Rightarrow> False | Inr f \<Rightarrow> True"
  have "gate_trans c (relay S) (GHook j ?f ?b) (relay S')"
    using assms t d by (auto simp: gate_trans_def Let_def gate_push_eq answer_def split: sum.splits)
  then show thesis by (rule that)
qed

lemma served_relay: "served_reachable c n h S \<Longrightarrow> gate_reachable c (relay S)"
proof (induction rule: reachable.induct)
  case (reach_start S)
  then show ?case by (simp add: served_boot_def reachable.reach_start)
next
  case (reach_step S e S')
  then have s: "served_enabled n e S" "served_step c e S = Some S'" by (auto simp: served_trans_def)
  show ?case
  proof (cases e)
    case (Rings g)
    with s have "gate_trans c (relay S) g (relay S')" by (auto simp: gate_trans_def)
    with reach_step show ?thesis by (blast intro: reachable.reach_step)
  next
    case (Draws j)
    with s reach_step show ?thesis by (auto split: prod.splits)
  next
    case (Dials j k lg)
    then obtain f b where "gate_trans c (relay S) (GHook j f b) (relay S')" using dial_is_hook s by blast
    with reach_step show ?thesis by (blast intro: reachable.reach_step)
  qed
qed

section \<open>Jobs are only taken by the goroutines\<close>

lemma jobs_helpers [simp]:
  "jobs (gpost q i o' s) = jobs s" "jobs (gput cc s) = jobs s" "jobs (gcall d s) = jobs s" "jobs (gcount_err s) = jobs s"
  "jobs (gpost_splice c f f' i o' s) = jobs s" "jobs (putConn c cc s) = jobs s" "jobs (close_pipe p s) = jobs s"
  by (simp_all add: gpost_def gput_def gcall_def gcount_err_def gpost_splice_def putConn_def close_pipe_def Let_def)

lemma jobs_close [simp]: "jobs (gcloseConn c cc s) = jobs s"
  by (simp add: gcloseConn_def Let_def split_beta)

lemma jobs_posts:
  "gpost_recv f a i j n o' s = Some s' \<Longrightarrow> jobs s' = jobs s" "gpost_send f a i j n o' s = Some s' \<Longrightarrow> jobs s' = jobs s"
  "galloc k s = Some (b, s') \<Longrightarrow> jobs s' = jobs s" "getConn c s = Some (cc, s') \<Longrightarrow> jobs s' = jobs s"
  by (auto simp: gpost_recv_def gpost_send_def galloc_def getConn_def split: if_splits option.splits prod.splits list.splits)

lemma jobs_starts:
  "jobs (start_splice c pipes cc s) = jobs s" "start_duplex c cc s = Some s' \<Longrightarrow> jobs s' = jobs s"
  by (auto simp: start_splice_def start_duplex_def Let_def split: option.splits prod.splits dest!: jobs_posts)

lemma jobs_relay:
  "g_c2uRecv c i res s = Some s' \<Longrightarrow> jobs s' = jobs s" "g_c2uSend c i res s = Some s' \<Longrightarrow> jobs s' = jobs s"
  "g_u2cRecv c i res s = Some s' \<Longrightarrow> jobs s' = jobs s" "g_u2cSend c i res s = Some s' \<Longrightarrow> jobs s' = jobs s"
  "g_c2uSpliceIn c i res s = Some s' \<Longrightarrow> jobs s' = jobs s" "g_c2uSpliceOut c i res s = Some s' \<Longrightarrow> jobs s' = jobs s"
  "g_u2cSpliceIn c i res s = Some s' \<Longrightarrow> jobs s' = jobs s" "g_u2cSpliceOut c i res s = Some s' \<Longrightarrow> jobs s' = jobs s"
  unfolding g_c2uRecv_def g_c2uSend_def g_u2cRecv_def g_u2cSend_def g_c2uSpliceIn_def g_c2uSpliceOut_def
    g_u2cSpliceIn_def g_u2cSpliceOut_def gwith_open_def gwith_def
  by (auto simp: Let_def split: option.splits if_splits dest!: jobs_posts)

lemma jobs_result: "g_result c r s = Some s' \<Longrightarrow> jobs s' = jobs s"
  by (auto simp: g_result_def Let_def split: option.splits if_splits dest!: jobs_posts)

lemma jobs_results: "g_results c rs s = Some s' \<Longrightarrow> jobs s' = jobs s"
  by (induction rs arbitrary: s) (auto split: option.splits dest!: jobs_result)

lemma jobs_request:
  "g_recvReq c i res s = Some s' \<Longrightarrow> \<exists>js. jobs s' = jobs s @ js" "g_sendUp c pipes i res s = Some s' \<Longrightarrow> jobs s' = jobs s"
  "g_recvResp c i res s = Some s' \<Longrightarrow> jobs s' = jobs s" "g_sendClient c i res s = Some s' \<Longrightarrow> jobs s' = jobs s"
  "g_close c i s = Some s' \<Longrightarrow> jobs s' = jobs s"
  unfolding g_recvReq_def g_sendUp_def g_recvResp_def g_sendClient_def g_close_def gwith_def
  by (auto simp: Let_def jobs_starts split: option.splits if_splits dest!: jobs_posts jobs_starts(2))

lemma jobs_system:
  "g_accept c i res s = Some s' \<Longrightarrow> jobs s' = jobs s" "g_eventfd c s = Some s' \<Longrightarrow> jobs s' = jobs s"
  by (auto simp: g_accept_def g_eventfd_def gpostEventfd_def Let_def split: if_splits option.splits prod.splits
      dest!: jobs_posts jobs_results)

lemma jobs_fold: "(\<And>x s. jobs (f x s) = jobs s) \<Longrightarrow> jobs (fold f xs s) = jobs s"
  by (induction xs arbitrary: s) auto

lemma jobs_top_listener: "jobs (top_listener c k s) = jobs s"
  by (induction c k s rule: top_listener.induct) (subst top_listener.simps, simp add: gpostAccept_def Let_def)

lemma jobs_top_up [simp]: "jobs (top_up c s) = jobs s"
  unfolding top_up_def by (rule jobs_fold) (rule jobs_top_listener)

lemma jobs_kernel [simp]: "jobs (gkernel q data s) = jobs s"
  by (cases q) simp_all

lemma jobs_cqe: "gate_cqe c pipes o' i res s = Some s' \<Longrightarrow> set (jobs s) \<subseteq> set (jobs s')"
  by (cases o') (auto simp: gate_cqe_def gpostTimeout_def dest!: jobs_system jobs_request jobs_relay)

lemma jobs_ring: "by_ring e \<Longrightarrow> gate_step c R e = Some R' \<Longrightarrow> set (jobs (gw R)) \<subseteq> set (jobs (gw R'))"
  by (cases e) (auto simp: Let_def dest!: jobs_cqe)

text \<open>What a goroutine dials for is still queued; so while a job waits, one of them can go on.\<close>

definition drawn_queued :: "served \<Rightarrow> bool" where
  "drawn_queued S \<longleftrightarrow> fst ` set (drawn S) \<subseteq> set (jobs (gw (relay S)))"

lemma set_drop_nth_sup: "j < length xs \<Longrightarrow> set xs \<subseteq> insert (xs ! j) (set (drop_nth j xs))"
  unfolding drop_nth_def by (subst id_take_nth_drop [of j xs]) auto

lemma drawn_queued_step:
  assumes "drawn_queued S" and "served_trans c n S e S'"
  shows "drawn_queued S'"
proof (cases e)
  case (Rings g)
  with assms(2) obtain R where R: "S' = S\<lparr>relay := R\<rparr>" "set (jobs (gw (relay S))) \<subseteq> set (jobs (gw R))"
    by (auto simp: served_trans_def dest: jobs_ring)
  with assms(1) show ?thesis unfolding drawn_queued_def by auto
next
  case (Draws j)
  let ?i = "jobs (gw (relay S)) ! j"
  obtain t h' where S': "S' = S\<lparr>hook_cfg := h', drawn := drawn S @ [(?i, t)], picks := picks S @ [t]\<rparr>"
    and "j < length (jobs (gw (relay S)))"
    using assms(2) Draws by (auto simp: served_trans_def split: prod.splits)
  then have "?i \<in> set (jobs (gw (relay S)))" by simp
  with assms(1) show ?thesis by (simp add: drawn_queued_def S')
next
  case (Dials j k lg)
  then have "j < length (jobs (gw (relay S)))" using assms(2) by (simp add: served_trans_def)
  note js = set_drop_nth_sup [OF this]
  have S': "jobs (gw (relay S')) = drop_nth j (jobs (gw (relay S)))"
    "drawn S' = filter (\<lambda>d. fst d \<noteq> jobs (gw (relay S)) ! j) (drawn S)"
    using assms(2) Dials by (auto simp: served_trans_def Let_def split: prod.splits)
  have "fst d \<in> set (drop_nth j (jobs (gw (relay S))))" if "d \<in> set (drawn S')" for d
  proof -
    from that have "d \<in> set (drawn S)" and other: "fst d \<noteq> jobs (gw (relay S)) ! j" by (simp_all add: S'(2))
    with assms(1) have "fst d \<in> set (jobs (gw (relay S)))" unfolding drawn_queued_def by blast
    with js other show ?thesis by blast
  qed
  then show ?thesis unfolding drawn_queued_def S'(1) by blast
qed

interpretation busy: inductive_invariant "served_boot h" "served_trans c n" drawn_queued for c n h
proof
  show "drawn_queued S" if "served_boot h S" for S
    using that by (cases S) (auto simp: served_boot_def drawn_queued_def)
qed (rule drawn_queued_step)

lemma goroutine_goes_on:
  assumes "served_reachable c n h S" and "jobs (gw (relay S)) \<noteq> []" and "0 < n"
  shows "\<exists>j. served_enabled n (Draws j) S \<or> (\<forall>k lg. served_enabled n (Dials j k lg) S)"
proof (cases "drawn S")
  case Nil
  with assms have "served_enabled n (Draws 0) S" by simp
  then show ?thesis by blast
next
  case (Cons d ds)
  have "drawn_queued S" using assms(1) by (rule busy.reachable_inv)
  with Cons obtain j where "j < length (jobs (gw (relay S)))" "jobs (gw (relay S)) ! j = fst d"
    by (auto simp: drawn_queued_def in_set_conv_nth)
  with Cons show ?thesis by (intro exI [of _ j]) auto
qed

section \<open>The targets drawn\<close>

text \<open>
  A configuration after \<open>Init\<close>; its counter advanced by \<open>n\<close> draws. With a single host and port it is not used.
\<close>

definition hook_ready :: "hook_config \<Rightarrow> bool" where
  "hook_ready h \<longleftrightarrow> targets h \<noteq> [] \<and> length (targets h) < 2 ^ 64 \<and> SinkPorts h < 2 ^ 63 \<and> dialSeq h = Some 0"

definition advanced :: "hook_config \<Rightarrow> nat \<Rightarrow> hook_config" where
  "advanced h n =
    (if length (targets h) = 1 \<and> ports_of h = 1 then h else h\<lparr>dialSeq := Some (of_nat n)\<rparr>)"

text \<open>The reference: draw number \<open>n\<close>, counted from 1, goes to point \<open>draw L P n\<close> of the grid.\<close>

definition nth_target :: "hook_config \<Rightarrow> nat \<Rightarrow> string \<times> int" where
  "nth_target h n = grid_addr h (draw (length (targets h)) (ports_of h) n)"

lemma advanced_draw:
  assumes "hook_ready h" and "Suc n < 2 ^ 64"
  shows "sinkTargetFor (advanced h n) = (nth_target h (Suc n), advanced h (Suc n))"
proof (cases "length (targets h) = 1 \<and> ports_of h = 1")
  case True
  then have "SinkPorts h < 1 \<or> SinkPorts h = 1" by (auto simp: ports_of_def split: if_splits)
  with True assms(1) show ?thesis
    by (auto simp: advanced_def sinkTargetFor_def hook_ready_def Let_def nth_target_def grid_addr_def draw_def)
next
  case False
  let ?c = "advanced h n"
  have same: "ports_of ?c = ports_of h" "grid_addr ?c = grid_addr h" "targets ?c = targets h"
    by (simp_all add: advanced_def ports_of_def grid_addr_def fun_eq_iff)
  have n: "unat (of_nat n :: u64) = n" using assms(2) by (simp add: unat_of_nat)
  have q: "dialSeq ?c = Some (of_nat n)" unfolding advanced_def if_not_P [OF False] by simp
  have "ports_of h < 2 ^ 64" using assms(1) by (auto simp: hook_ready_def ports_of_def)
  then have "sinkTargetFor ?c = (grid_addr ?c (draw (length (targets ?c)) (ports_of ?c) (n + 1)), ?c\<lparr>dialSeq := Some (of_nat n + 1)\<rparr>)"
    using sinkTargetFor_draw [of ?c "of_nat n"] assms q n False unfolding same hook_ready_def by simp
  moreover have "?c\<lparr>dialSeq := Some (of_nat n + 1)\<rparr> = advanced h (Suc n)"
    using False by (auto simp: advanced_def add.commute)
  ultimately show ?thesis unfolding same nth_target_def by simp
qed

text \<open>What holds of the pool: the draws so far are the reference sequence, and jobs being dialed are queued once.\<close>

definition served_inv :: "nat \<Rightarrow> hook_config \<Rightarrow> served \<Rightarrow> bool" where
  "served_inv n h S \<longleftrightarrow>
     (length (picks S) < 2 ^ 64 \<longrightarrow>
       hook_cfg S = advanced h (length (picks S)) \<and> picks S = map (nth_target h) [1..<Suc (length (picks S))]) \<and>
     length (drawn S) \<le> n \<and> distinct (map fst (drawn S)) \<and> snd ` set (drawn S) \<subseteq> set (picks S)"

lemma served_inv_relay: "served_inv n h (S\<lparr>relay := R\<rparr>) = served_inv n h S"
  by (simp add: served_inv_def)

lemma distinct_fst_filter: "distinct (map fst xs) \<Longrightarrow> distinct (map fst (filter P xs))"
  by (induction xs) auto

lemma served_inv_ends: "served_inv n h S \<Longrightarrow> served_inv n h (S\<lparr>relay := R, drawn := filter P (drawn S)\<rparr>)"
proof -
  assume i: "served_inv n h S"
  have "length (drawn S) \<le> n" using i by (simp only: served_inv_def)
  then have "length (filter P (drawn S)) \<le> n" by (rule le_trans [OF length_filter_le])
  moreover have "snd ` set (filter P (drawn S)) \<subseteq> set (picks S)"
    using i unfolding served_inv_def by (meson filter_is_subset image_mono subset_trans)
  ultimately show ?thesis using i unfolding served_inv_def by (simp add: distinct_fst_filter)
qed

lemma served_inv_step:
  assumes "hook_ready h" and "served_inv n h S" and "served_trans c n S e S'"
  shows "served_inv n h S'"
proof (cases e)
  case (Rings g)
  with assms(2,3) show ?thesis by (auto simp: served_trans_def served_inv_relay)
next
  case (Draws j)
  obtain t h' where d: "sinkTargetFor (hook_cfg S) = (t, h')" by (rule prod.exhaust)
  let ?i = "jobs (gw (relay S)) ! j"
  have S': "S' = S\<lparr>hook_cfg := h', drawn := drawn S @ [(?i, t)], picks := picks S @ [t]\<rparr>"
    and g: "?i \<notin> fst ` set (drawn S)" "length (drawn S) < n"
    using assms(3) Draws d by (simp_all add: served_trans_def)
  have "t = nth_target h (Suc (length (picks S))) \<and> h' = advanced h (Suc (length (picks S)))"
    if "Suc (length (picks S)) < 2 ^ 64"
    using advanced_draw [OF assms(1) that] assms(2) that d by (simp add: served_inv_def)
  then show ?thesis using assms(2) g by (auto simp: served_inv_def S')
next
  case (Dials j k lg)
  with assms(3) obtain R P where "S' = S\<lparr>relay := R, drawn := filter P (drawn S)\<rparr>"
    by (auto simp: served_trans_def Let_def split: prod.splits)
  with assms(2) show ?thesis by (simp add: served_inv_ends)
qed

interpretation pool: inductive_invariant "served_boot h" "served_trans c n" "\<lambda>S. hook_ready h \<longrightarrow> served_inv n h S" for c n h
proof
  show "hook_ready h \<longrightarrow> served_inv n h S" if "served_boot h S" for S
    using that by (cases S) (auto simp: served_boot_def served_inv_def advanced_def hook_ready_def)
qed (use served_inv_step in blast)

section \<open>How often a point of the grid is drawn\<close>

lemma residue_card:
  assumes "r < m"
  shows "card {k \<in> {1..n}. k mod m = r} = n div m + (if 0 < r \<and> r \<le> n mod m then 1 else 0)"
proof (induction n)
  case (Suc n)
  have "{k \<in> {1..Suc n}. k mod m = r} =
      (if Suc n mod m = r then insert (Suc n) {k \<in> {1..n}. k mod m = r} else {k \<in> {1..n}. k mod m = r})"
    by (auto simp: le_Suc_eq)
  then have "card {k \<in> {1..Suc n}. k mod m = r} = card {k \<in> {1..n}. k mod m = r} + (if Suc n mod m = r then 1 else 0)"
    by simp
  then show ?case using Suc assms by (auto simp: mod_Suc div_Suc)
qed auto

lemma draw_at: "i < L \<Longrightarrow> j < P \<Longrightarrow> draw L P k = (i, j) \<longleftrightarrow> k mod (L * P) = L * j + i"
proof
  assume "i < L" "j < P" "k mod (L * P) = L * j + i"
  moreover have "L * snd (draw L P k) + fst (draw L P k) = k mod (L * P)" by (rule draw_code)
  moreover have "fst (draw L P k) = k mod (L * P) mod L" by (simp add: draw_def mod_mod_cancel)
  ultimately show "draw L P k = (i, j)" by (auto simp: prod_eq_iff)
next
  assume "draw L P k = (i, j)"
  then show "k mod (L * P) = L * j + i" using draw_code [of L P k] by simp
qed

lemma draws_spread:
  assumes "i < L" and "j < P"
  shows "n div (L * P) \<le> card {k \<in> {1..n}. draw L P k = (i, j)} \<and>
    card {k \<in> {1..n}. draw L P k = (i, j)} \<le> Suc (n div (L * P))"
proof -
  have "L * j + i < L * Suc j" using assms(1) by simp
  also have "\<dots> \<le> L * P" using assms(2) by (intro mult_le_mono) simp_all
  finally show ?thesis using residue_card [of "L * j + i" "L * P" n] by (simp add: draw_at [OF assms])
qed

lemma Init_ready:
  assumes "Init c = (None, h)" and "dialSeq c = None"
  shows "targets h \<noteq> []" "dialSeq h = Some 0" "SinkPorts h = SinkPorts c"
  using assms by (auto simp: Init_def Let_def split: prod.splits option.splits if_split_asm)

text \<open>
  C11. A worker that serves, with its goroutines drawing and dialing in any interleaving: the relay below is a run
  of the relay alone, so all that was shown of it holds; the targets drawn are the reference walk over hosts and
  ports; so after any number of draws every host and port was drawn equally often but for one; never more
  dials are under way than there are goroutines, each for a job still queued and to a target that was drawn; and
  while a job waits, a goroutine can take it or a dial is under way that can end.
\<close>

theorem dials_spread:
  assumes "gate_set_up f w core ev rg = GateServing e n h hs" and "served_reachable c n h S"
    and "length (picks S) < 2 ^ 64" and "f_sinkPorts f < 2 ^ 63" and "length (targets h) < 2 ^ 64"
  shows "gate_reachable c (relay S) \<and>
    picks S = map (nth_target h) [1..<Suc (length (picks S))] \<and>
    (\<forall>i < length (targets h). \<forall>j < ports_of h.
      let m = length (targets h) * ports_of h;
          k = card {k \<in> {1..length (picks S)}. draw (length (targets h)) (ports_of h) k = (i, j)}
      in length (picks S) div m \<le> k \<and> k \<le> Suc (length (picks S) div m)) \<and>
    length (drawn S) \<le> n \<and> fst ` set (drawn S) \<subseteq> set (jobs (gw (relay S))) \<and> snd ` set (drawn S) \<subseteq> set (picks S) \<and>
    (jobs (gw (relay S)) \<noteq> [] \<and> 0 < n \<longrightarrow>
      (\<exists>j. served_enabled n (Draws j) S \<or> (\<forall>k lg. served_enabled n (Dials j k lg) S)))"
proof -
  have "Init (worker_hook_config f) = (None, h)"
    using assms(1) by (auto simp: gate_set_up_def split: option.splits prod.splits sum.splits)
  then have "hook_ready h"
    using Init_ready assms(4,5) by (fastforce simp: hook_ready_def worker_hook_config_def)
  then have "served_inv n h S" using pool.reachable_inv [OF assms(2)] by blast
  then have inv: "picks S = map (nth_target h) [1..<Suc (length (picks S))]" "length (drawn S) \<le> n"
    "snd ` set (drawn S) \<subseteq> set (picks S)"
    using assms(3) by (simp_all only: served_inv_def)
  have queued: "fst ` set (drawn S) \<subseteq> set (jobs (gw (relay S)))"
    using busy.reachable_inv [OF assms(2)] by (simp only: drawn_queued_def)
  note on = goroutine_goes_on [OF assms(2)]
  note spread = draws_spread [where n = "length (picks S)"]
  show ?thesis unfolding Let_def
    using served_relay [OF assms(2)] inv queued by (intro conjI allI impI) (simp_all only: spread on simp_thms)
qed

text \<open>Two clients whose dials are drawn one after the other and end in the other order.\<close>

definition demo_flags :: hook_flags where
  "demo_flags = \<lparr>f_authCPU = 0, f_sinkIP = ''127.0.0.1'', f_sinkPort = 9100, f_sinkPorts = 2,
     f_sinkIPs = ''10.0.0.1, 10.0.0.2:9500'', f_fpMark = 0\<rparr>"

definition demo_hcfg :: hook_config where
  "demo_hcfg = snd (Init (worker_hook_config demo_flags))"

definition served_start :: served where
  "served_start = \<lparr>relay = demo_gate, hook_cfg = demo_hcfg, drawn = [], picks = []\<rparr>"

fun served_run :: "relayCfg \<Rightarrow> nat \<Rightarrow> served_event list \<Rightarrow> served \<Rightarrow> served option" where
  "served_run c n [] S = Some S"
| "served_run c n (e # es) S =
    (if served_enabled n e S then (case served_step c e S of None \<Rightarrow> None | Some S' \<Rightarrow> served_run c n es S') else None)"

text \<open>The calls the first dial to end has made.\<close>

definition dial_log :: log where
  "dial_log = snd (DialMark (demo_kernel (\<lambda>c. False)) ''10.0.0.1'' 9101 0 [])"

definition served_events :: "served_event list" where
  "served_events =
    [Rings (GComplete 0 10 [] no_pipes), Rings GBatchEnd, Rings (GComplete 3 12 [] no_pipes),
     Rings (GComplete 2 2 [1, 2] no_pipes), Rings (GComplete 3 2 [3, 4] no_pipes),
     Draws 0, Draws 1, Dials 1 (demo_kernel (\<lambda>c. False)) [], Dials 0 (demo_kernel (\<lambda>c. False)) dial_log]"

lemma served_run_reachable: "served_reachable c n h S \<Longrightarrow> served_run c n es S = Some S' \<Longrightarrow> served_reachable c n h S'"
proof (induction es arbitrary: S)
  case (Cons e es)
  then obtain S1 where "served_trans c n S e S1" "served_run c n es S1 = Some S'"
    by (auto simp: served_trans_def split: if_splits option.splits)
  with Cons show ?case by (blast intro: reachable.reach_step)
qed simp

definition served_demo :: served where
  "served_demo = the (served_run churn_cfg 4 served_events served_start)"

definition demo_handles :: handles where
  "demo_handles = \<lparr>h_fd = 5, h_sqRing = True, h_cqRing = True, h_sqeMmap = True, h_single = True, h_noDrop = True\<rparr>"

lemma served_demo_reachable: "served_reachable churn_cfg 4 demo_hcfg served_demo"
proof -
  have "served_boot demo_hcfg served_start"
    by (auto simp: served_boot_def served_start_def gate_boot_def demo_gate_def)
  then have s: "served_reachable churn_cfg 4 demo_hcfg served_start" by (rule reachable.reach_start)
  have "served_run churn_cfg 4 served_events served_start \<noteq> None" by code_simp
  then have "served_run churn_cfg 4 served_events served_start = Some served_demo" by (auto simp: served_demo_def)
  with s show ?thesis by (rule served_run_reachable)
qed

lemma dials_spread_witness:
  "picks served_demo = map (nth_target demo_hcfg) [1, 2] \<and>
   map (nth_target demo_hcfg) [1, 2] = [(''10.0.0.2'', 9500), (''10.0.0.1'', 9101)]"
proof -
  have h: "gate_set_up demo_flags 4 (- 1) (Some 4) (Inr demo_handles) = GateServing 4 4 demo_hcfg demo_handles"
    "length (picks served_demo) = 2" "f_sinkPorts demo_flags = 2" "length (targets demo_hcfg) = 2"
    "map (nth_target demo_hcfg) [1, 2] = [(''10.0.0.2'', 9500), (''10.0.0.1'', 9101)]"
    by code_simp+
  have "length (picks served_demo) < 2 ^ 64" "f_sinkPorts demo_flags < 2 ^ 63" "length (targets demo_hcfg) < 2 ^ 64"
    unfolding h(2-4) by simp_all
  from dials_spread [OF h(1) served_demo_reachable this]
  have "picks served_demo = map (nth_target demo_hcfg) [1..<Suc (length (picks served_demo))]" by blast
  moreover have "[1..<Suc 2] = [1, 2 :: nat]" by code_simp
  ultimately have "picks served_demo = map (nth_target demo_hcfg) [1, 2]" unfolding h(2) by metis
  with h(5) show ?thesis by blast
qed

end
