(* ===== verification/Echo_Relay.thy ===== *)
theory Echo_Relay
  imports Relay_Commands Engine_Properties "HOL-Library.Sublist"
begin

text \<open>
  The example \<open>examples/echo-relay/main.go\<close> as a whole: its flags, its \<open>main\<close>, and the engine running with its
  hook. The hook of \<open>Engine_System\<close> could answer anything; here every answer is that of \<open>echo_hook\<close>.
\<close>

section \<open>The command\<close>

record example_flags =
  ef_addr :: string
  ef_port :: int
  ef_upstream :: string
  ef_workers :: int

definition example_defaults :: example_flags where
  "example_defaults = \<lparr>ef_addr = ''127.0.0.1'', ef_port = 8080, ef_upstream = ''127.0.0.1:9000'', ef_workers = 1\<rparr>"

text \<open>The composite literal: the fields it does not name are zero. Five minutes in nanoseconds.\<close>

definition example_config :: "example_flags \<Rightarrow> config" where
  "example_config fl =
    \<lparr>Addr = ef_addr fl, Port = ef_port fl, Workers = ef_workers fl, Pin = False, StartCore = 0, InitialReqLen = 0,
     MaxReqLen = 0, BufSize = 0, MaxConns = 0, AcceptBatch = 0, IdleTimeout = 5 * 60 * 1000000000, HookWorkers = 0,
     RingSize = 0\<rparr>"

datatype example_exit = BadUpstream | NewFails new_error | RunFails nat sock_error | Reports stats

text \<open>
  \<open>workers\<close> is the run of the ring workers on the hook they are given, \<open>final\<close> the counters when all have
  returned. The goroutine that waits for a signal calls \<open>Stop\<close>; when it does is up to the run.
\<close>

definition example_main ::
  "int \<Rightarrow> kernel \<Rightarrow> ((log \<Rightarrow> decision \<times> log) \<Rightarrow> config \<Rightarrow> (nat \<times> int \<times> listener) list \<Rightarrow> log \<Rightarrow> log) \<Rightarrow> counters \<Rightarrow>
   example_flags \<Rightarrow> log \<Rightarrow> example_exit \<times> log" where
  "example_main ncpu k workers final fl lg =
    (case splitHostPort (ef_upstream fl) of
       None \<Rightarrow> (BadUpstream, lg)
     | Some (upHost, upPort) \<Rightarrow>
         (case New ncpu (example_config fl) (Some (echo_hook k upHost upPort)) of
            Inl err \<Rightarrow> (NewFails err, lg)
          | Inr srv \<Rightarrow>
              (case Run k (workers (hook srv) (cfg srv)) (cfg srv) lg of
                 (Some (i, err), lg) \<Rightarrow> (RunFails i err, lg)
               | (None, lg) \<Rightarrow> (Reports (Stat final), lg))))"

text \<open>A port that is not positive is the only configuration \<open>New\<close> refuses.\<close>

lemma example_new:
  "New ncpu (example_config fl) (Some h) =
    (if ef_port fl \<le> 0 then Inl (InvalidPort (ef_port fl))
     else Inr \<lparr>cfg = defaults ncpu (example_config fl), hook = h, cnt = zero_counters, stop = False\<rparr>)"
  by (simp add: New_def example_config_def)

section \<open>The engine with this hook\<close>

text \<open>\<open>Hooks j k lg\<close>: the \<open>j\<close>-th running hook ends, with the kernel its dial met and the calls made before.\<close>

datatype example_event = Steps event | Hooks nat kernel log

fun no_hook :: "event \<Rightarrow> bool" where
  "no_hook (HookDone j d) = False"
| "no_hook _ = True"

fun example_event_ok :: "example_event \<Rightarrow> bool" where
  "example_event_ok (Steps e) = no_hook e"
| "example_event_ok (Hooks j k lg) = True"

fun as_event :: "string \<Rightarrow> int \<Rightarrow> example_event \<Rightarrow> event" where
  "as_event host port (Steps e) = e"
| "as_event host port (Hooks j k lg) = HookDone j (fst (echo_hook k host port lg))"

text \<open>
  The engine together with what its hooks did: the system calls each hook made, with the connection it ran for, in the
  order the hooks ended.
\<close>

type_synonym example_state = "system \<times> (nat \<times> log) list"

fun hook_calls :: "string \<Rightarrow> int \<Rightarrow> system \<Rightarrow> example_event \<Rightarrow> (nat \<times> log) list" where
  "hook_calls host port S (Steps e) = []"
| "hook_calls host port S (Hooks j k lg) =
    [(job_id (jobs (wk S) ! j), drop (length lg) (snd (echo_hook k host port lg)))]"

definition example_trans :: "config \<Rightarrow> string \<Rightarrow> int \<Rightarrow> example_state \<Rightarrow> example_event \<Rightarrow> example_state \<Rightarrow> bool" where
  "example_trans c host port X e X' \<longleftrightarrow>
     example_event_ok e \<and> sys_trans c (fst X) (as_event host port e) (fst X') \<and>
     snd X' = snd X @ hook_calls host port (fst X) e"

definition example_booted :: "fd set \<Rightarrow> example_state \<Rightarrow> bool" where
  "example_booted base X \<longleftrightarrow> booted base (fst X) \<and> snd X = []"

abbreviation example_reachable :: "config \<Rightarrow> string \<Rightarrow> int \<Rightarrow> fd set \<Rightarrow> example_state \<Rightarrow> bool" where
  "example_reachable c host port base \<equiv> reachable (example_booted base) (example_trans c host port)"

definition calls_of :: "(nat \<times> log) list \<Rightarrow> nat \<Rightarrow> log list" where
  "calls_of D i = map snd (filter (\<lambda>(j, cs). j = i) D)"

definition refusal_dec :: decision where
  "refusal_dec = \<lparr>UpstreamFD = 0, Reply = unavailable, Reject = True, More = False, Consumed = 0\<rparr>"

definition forward_dec :: "fd \<Rightarrow> decision" where
  "forward_dec f = \<lparr>UpstreamFD = f, Reply = [], Reject = False, More = False, Consumed = 0\<rparr>"

text \<open>The calls of a successful dial: a socket of the address's family, connected to that address, nothing else.\<close>

definition dialled :: "string \<Rightarrow> int \<Rightarrow> fd \<Rightarrow> log \<Rightarrow> bool" where
  "dialled host port f cs =
    (case resolve host port of
       Inl err \<Rightarrow> False
     | Inr (sa, family) \<Rightarrow>
         (case cs of
            [(call, a), (call', a')] \<Rightarrow>
              call = Socket family SOCK_STREAM IPPROTO_TCP \<and> \<not> failed a \<and> f = ret a \<and> call' = Connect f sa \<and> \<not> failed a'
          | _ \<Rightarrow> False))"

text \<open>A hook that dialled forwards to the socket it connected; one that could not, refuses.\<close>

definition answers :: "string \<Rightarrow> int \<Rightarrow> log \<Rightarrow> decision \<Rightarrow> bool" where
  "answers host port cs d \<longleftrightarrow>
     d = refusal_dec \<and> (\<forall>f. \<not> dialled host port f cs) \<or> (\<exists>f. d = forward_dec f \<and> dialled host port f cs)"

lemma echo_hook_answers:
  "answers host port (drop (length lg) (snd (echo_hook k host port lg))) (fst (echo_hook k host port lg))"
  by (auto simp: answers_def dialled_def echo_hook_def Dial_def DialFP_def do_call_def close_fd_def set_rcvbuf_def
      set_tos_def Let_def refusal_dec_def forward_dec_def split: sum.splits prod.splits)

lemma answers_dec: "answers host port cs d \<Longrightarrow> d \<in> insert refusal_dec (range forward_dec)"
  by (auto simp: answers_def)

lemma forward_simps [simp]:
  "More (forward_dec f) = False" "Reject (forward_dec f) = False" "Reply (forward_dec f) = []"
  "Consumed (forward_dec f) = 0" "More refusal_dec = False" "Reject refusal_dec = True" "Reply refusal_dec = unavailable"
  "refusal_dec \<noteq> forward_dec f" "forward_dec f \<noteq> refusal_dec" "forward_dec f = forward_dec f' \<longleftrightarrow> f = f'"
  by (simp_all add: forward_dec_def refusal_dec_def)

text \<open>The decisions of a connection are the answers of its hooks, one for one.\<close>

definition hooks_ours :: "string \<Rightarrow> int \<Rightarrow> example_state \<Rightarrow> bool" where
  "hooks_ours host port X \<longleftrightarrow>
     (\<forall>i. list_all2 (answers host port) (calls_of (snd X) i) (decs (streams_of (log (fst X)) i)))"

lemma example_engine: "example_reachable c host port base X \<Longrightarrow> engine_reachable c base (fst X)"
proof (induction rule: reachable.induct)
  case (reach_step X e X')
  then show ?case by (auto simp: example_trans_def intro: reachable.reach_step)
qed (auto simp: example_booted_def intro: reachable.reach_start)

lemma decs_on_entry [simp]: "decs (on_entry q res data g) = decs g"
  by (simp add: on_entry_def Let_def split: op.split)

lemma hooks_ours_step:
  assumes X: "hooks_ours host port X" and t: "example_trans c host port X e X'"
  shows "hooks_ours host port X'"
proof (cases e)
  case (Steps e')
  have "decs (streams_of (log (fst X')) i) = decs (streams_of (log (fst X)) i)" for i
    using t Steps by (cases X; cases X'; cases e') (auto simp: example_trans_def sys_trans_def Let_def)
  with X t Steps show ?thesis by (auto simp: hooks_ours_def example_trans_def)
next
  case (Hooks j k lg)
  let ?i = "job_id (jobs (wk (fst X)) ! j)"
  have "log (fst X') = log (fst X) @ [LHook ?i (fst (echo_hook k host port lg))]"
    using t Hooks by (cases X; cases X') (auto simp: example_trans_def sys_trans_def Let_def)
  moreover have "snd X' = snd X @ [(?i, drop (length lg) (snd (echo_hook k host port lg)))]"
    using t Hooks by (simp add: example_trans_def)
  ultimately show ?thesis using X echo_hook_answers [of host port lg k]
    by (auto simp: hooks_ours_def calls_of_def intro: list_all2_appendI)
qed

interpretation example: inductive_invariant "example_booted base" "example_trans c host port" "hooks_ours host port"
  for base c host port
proof
  show "hooks_ours host port X" if "example_booted base X" for X
    using that by (auto simp: example_booted_def booted_def boot_def hooks_ours_def calls_of_def no_streams_def)
qed (rule hooks_ours_step)

section \<open>What a client sees\<close>

text \<open>Nothing yet; or it was refused; or it talks to the upstream, from its first byte on.\<close>

definition plain :: "conn \<Rightarrow> streams \<Rightarrow> bool" where
  "plain cc g \<longleftrightarrow>
     decs g = [] \<and> to_up g = [] \<and> from_up g = [] \<and> to_client g = [] \<or>
     decs g = [refusal_dec] \<and> to_up g = [] \<and> from_up g = [] \<and> prefix (to_client g) unavailable \<or>
     (\<exists>f. decs g = [forward_dec f] \<and>
        (upstreamFD cc = f \<and> prefix (to_up g) (from_client g) \<and> prefix (to_client g) (from_up g) \<or>
         to_up g = [] \<and> from_up g = [] \<and> to_client g = []))"

text \<open>
  The same with the calls of the connection's hooks: none has ended; or one, which failed to dial; or one, which
  dialled, and the upstream is the very socket it connected.
\<close>

definition transparent :: "string \<Rightarrow> int \<Rightarrow> log list \<Rightarrow> conn \<Rightarrow> streams \<Rightarrow> bool" where
  "transparent host port logs cc g \<longleftrightarrow>
     logs = [] \<and> to_up g = [] \<and> from_up g = [] \<and> to_client g = [] \<or>
     (\<exists>cs. logs = [cs] \<and> (\<forall>f. \<not> dialled host port f cs) \<and>
        to_up g = [] \<and> from_up g = [] \<and> prefix (to_client g) unavailable) \<or>
     (\<exists>cs f. logs = [cs] \<and> dialled host port f cs \<and>
        (upstreamFD cc = f \<and> prefix (to_up g) (from_client g) \<and> prefix (to_client g) (from_up g) \<or>
         to_up g = [] \<and> from_up g = [] \<and> to_client g = []))"

lemma plain_transparent:
  assumes "plain cc g" and "list_all2 (answers host port) logs (decs g)"
  shows "transparent host port logs cc g"
proof -
  consider "decs g = []" "to_up g = []" "from_up g = []" "to_client g = []"
    | "decs g = [refusal_dec]" "to_up g = []" "from_up g = []" "prefix (to_client g) unavailable"
    | f where "decs g = [forward_dec f]"
        "upstreamFD cc = f \<and> prefix (to_up g) (from_client g) \<and> prefix (to_client g) (from_up g) \<or>
         to_up g = [] \<and> from_up g = [] \<and> to_client g = []"
    using assms(1) unfolding plain_def by blast
  then show ?thesis
    using assms(2) by cases (auto simp: transparent_def answers_def list_all2_Cons2)
qed

lemma ours_final:
  assumes "set ds \<subseteq> insert refusal_dec (range forward_dec)" and "all_more ds"
  shows "ds = []"
  using assms by (cases ds) (auto simp: all_more_def)

lemma ours_decided:
  assumes "decided_by g d" and "set (decs g) \<subseteq> insert refusal_dec (range forward_dec)"
  shows "decs g = [d]" and "adopts d \<Longrightarrow> \<exists>f. d = forward_dec f" and "Reject d \<Longrightarrow> d = refusal_dec"
proof -
  obtain ds where ds: "decs g = ds @ [d]" "all_more ds" using assms(1) by (auto simp: decided_by_def)
  with assms(2) ours_final [of ds] show "decs g = [d]" by simp
  from ds assms(2) have "d \<in> insert refusal_dec (range forward_dec)" by simp
  then show "adopts d \<Longrightarrow> \<exists>f. d = forward_dec f" "Reject d \<Longrightarrow> d = refusal_dec" by (auto simp: adopts_def)
qed

lemma adopted_plain:
  assumes "relays_faithfully cc g" and "decided_by g d" and "adopts d" and u: "upstreamFD cc = UpstreamFD d"
    and ours: "set (decs g) \<subseteq> insert refusal_dec (range forward_dec)"
  shows "plain cc g"
proof -
  note o' = ours_decided [OF assms(2) ours]
  obtain f where f: "d = forward_dec f" "decs g = [d]" using o' assms(3) by blast
  then have "prefix (to_client g) (from_up g)"
    using assms(1) by (auto simp: relays_faithfully_def replies_def prefix_def)
  moreover have "prefix (to_up g) (from_client g)"
  proof (cases "to_up g = []")
    case False
    then obtain d' rest where "decided_by g d'" "drop (clamp_consumed (Consumed d') (reqN cc)) (from_client g) = to_up g @ rest"
      using assms(1) unfolding relays_faithfully_def by blast
    moreover from this(1) f have "d' = forward_dec f" by (auto simp: decided_by_def)
    ultimately show ?thesis by (simp add: clamp_consumed_neg prefix_def)
  qed simp
  ultimately show ?thesis using f u unfolding plain_def by (auto simp: forward_dec_def)
qed

lemma phase_plain:
  assumes "phase_ok c cc g Q J R" and ours: "set (decs g) \<subseteq> insert refusal_dec (range forward_dec)"
  shows "plain cc g"
  using assms(1)
proof cases
  case reading
  then show ?thesis using ours_final [OF ours]
    by (simp add: plain_def undecided_def pre_relay_def replies_def)
next
  case deciding
  then show ?thesis using ours_final [OF ours]
    by (simp add: plain_def undecided_def pre_relay_def replies_def)
next
  case (decided ds d)
  then have e: "to_up g = []" "from_up g = []" "decided_by g d" "ds = []"
    using ours ours_final [of ds] by (auto simp: undecided_def pre_relay_def decided_by_def)
  then have "to_client g = []" "decs g = [d]" using decided by (simp_all add: replies_def)
  moreover from this ours have "d = refusal_dec \<or> (\<exists>f. d = forward_dec f)" by auto
  ultimately show ?thesis using e unfolding plain_def by (metis Nil_prefix)
next
  case replying_more
  then show ?thesis using ours_final [OF ours] by (auto simp: reply_pending_def replies_def slice_eq_Nil_iff)
next
  case (rejecting d)
  have d: "decs g = [refusal_dec]" using ours_decided [OF rejecting(8) ours] rejecting(9) by simp
  moreover have "prefix (to_client g) unavailable"
    using reply_pending_prefix [OF rejecting(10)] d by (auto simp: replies_def prefix_def)
  moreover have "to_up g = []" "from_up g = []" using rejecting by (simp_all add: pre_relay_def)
  ultimately show ?thesis unfolding plain_def by simp
next
  case (replying_client d)
  then show ?thesis using adopted_plain [OF phase_faithful [OF assms(1)] _ _ _ ours] by (auto simp: adopted_def)
next
  case (forwarding d)
  then show ?thesis using adopted_plain [OF phase_faithful [OF assms(1)] _ _ _ ours] by (auto simp: adopted_def)
next
  case (relaying C pc U pu)
  then show ?thesis using adopted_plain [OF phase_faithful [OF assms(1)] _ _ _ ours] by (auto simp: relay_streams_def)
qed

lemma New_where: "New ncpu c h = Inr srv \<Longrightarrow> Addr (cfg srv) = Addr c \<and> Port (cfg srv) = Port c"
  by (auto simp: New_def defaults_fields split: if_splits option.splits)

lemma last_index_split: "last_index_of ch xs = Some i \<Longrightarrow> xs = take i xs @ ch # drop (i + 1) xs \<and> ch \<notin> set (drop (i + 1) xs)"
proof -
  assume "last_index_of ch xs = Some i"
  then have "ch \<in> set xs" by (auto simp: last_index_of_def split: if_splits)
  then obtain us vs where xs: "xs = us @ ch # vs" "ch \<notin> set vs" by (metis split_list_last)
  with last_index_of_sep [of ch vs us] \<open>last_index_of ch xs = Some i\<close> have "i = length us" by simp
  with xs show ?thesis by simp
qed

text \<open>
  C13. The example relay, from its flags to the bytes: host and port are what stands before and after the last colon of
  \<open>-upstream\<close>, the server listens where \<open>-addr\<close> and \<open>-port\<close> say, and every client that is connected has had no
  hook and been sent nothing; or its one hook could not dial that host and port, it was sent no more than the message
  and nothing of it went anywhere; or its hook connected a socket to the address they resolve to, and that socket is
  the upstream, each side having been sent a prefix of what the other sent, from the first byte on.
\<close>

theorem example_transparent:
  assumes "0 < ncpu" and "New ncpu (example_config fl) (Some (echo_hook k host port)) = Inr srv"
    and "splitHostPort (ef_upstream fl) = Some (host, port)"
    and "example_reachable (cfg srv) host port base X"
    and "map_of (conns (wk (fst X))) i = Some cc" and "\<not> closing cc"
  shows "(\<exists>digits. ef_upstream fl = host @ CHR '':'' # digits \<and> CHR '':'' \<notin> set digits \<and> Atoi digits = Some port) \<and>
    Addr (cfg srv) = ef_addr fl \<and> Port (cfg srv) = ef_port fl \<and>
    transparent host port (calls_of (snd X) i) cc (streams_of (log (fst X)) i)"
proof (intro conjI)
  show "\<exists>digits. ef_upstream fl = host @ CHR '':'' # digits \<and> CHR '':'' \<notin> set digits \<and> Atoi digits = Some port"
  proof -
    obtain n where "last_index_of (CHR '':'') (ef_upstream fl) = Some n" "Atoi (drop (n + 1) (ef_upstream fl)) = Some port"
      "host = take n (ef_upstream fl)"
      using assms(3) by (auto simp: splitHostPort_def split: option.splits)
    with last_index_split [of "CHR '':''" "ef_upstream fl" n] show ?thesis by metis
  qed
  show "Addr (cfg srv) = ef_addr fl" "Port (cfg srv) = ef_port fl"
    using New_where [OF assms(2)] by (simp_all add: example_config_def)
  have c: "config_ok (cfg srv)" using assms(1,2) by (rule New_config_ok)
  have r: "engine_reachable (cfg srv) base (fst X)" using assms(4) by (rule example_engine)
  have "hooks_ours host port X" using assms(4) by (rule example.reachable_inv)
  then have a: "list_all2 (answers host port) (calls_of (snd X) i) (decs (streams_of (log (fst X)) i))"
    by (simp add: hooks_ours_def)
  then have "set (decs (streams_of (log (fst X)) i)) \<subseteq> insert refusal_dec (range forward_dec)"
    using answers_dec by (fastforce simp: list_all2_conv_all_nth in_set_conv_nth)
  with reach_phase [OF r c assms(5,6)] have "plain cc (streams_of (log (fst X)) i)" by (rule phase_plain)
  then show "transparent host port (calls_of (snd X) i) cc (streams_of (log (fst X)) i)" using a by (rule plain_transparent)
qed

text \<open>A client whose two bytes have gone upstream in part.\<close>

fun example_run :: "config \<Rightarrow> string \<Rightarrow> int \<Rightarrow> example_event list \<Rightarrow> example_state \<Rightarrow> example_state option" where
  "example_run c host port [] X = Some X"
| "example_run c host port (e # es) X =
    (if example_event_ok e \<and> event_ok (fst X) (as_event host port e)
     then (case sys_step c (fst X) (as_event host port e) of
             None \<Rightarrow> None
           | Some S \<Rightarrow> example_run c host port es (S, snd X @ hook_calls host port (fst X) e))
     else None)"

lemma example_run_reachable:
  "example_reachable c host port base X \<Longrightarrow> example_run c host port es X = Some X' \<Longrightarrow> example_reachable c host port base X'"
proof (induction es arbitrary: X)
  case (Cons e es)
  then obtain S where "example_trans c host port X e (S, snd X @ hook_calls host port (fst X) e)"
    "example_run c host port es (S, snd X @ hook_calls host port (fst X) e) = Some X'"
    by (auto simp: example_trans_def sys_trans_def split: if_splits option.splits)
  with Cons show ?case by (blast intro: reachable.reach_step)
qed simp

definition example_cfg :: config where
  "example_cfg = defaults 4 (example_config example_defaults)"

definition one_open :: log where
  "one_open = [(Socket AF_INET SOCK_STREAM IPPROTO_TCP, Val 10)]"

definition example_events :: "example_event list" where
  "example_events =
    [Steps (BatchEnd 0 False), Steps (Complete 2 10 [] []), Steps (Complete 65 2 [1, 2] [1]),
     Hooks 0 (demo_kernel (\<lambda>c. False)) one_open, Steps (Complete 0 8 [] [1]), Steps (Complete 65 1 [] [1])]"

definition example_demo :: example_state where
  "example_demo = the (example_run example_cfg ''127.0.0.1'' 9000 example_events (demo_boot, []))"

lemma example_demo_reachable: "example_reachable example_cfg ''127.0.0.1'' 9000 demo_base example_demo"
proof -
  have "example_booted demo_base (demo_boot, [])"
    by (auto simp: example_booted_def booted_def demo_boot_def demo_base_def)
  then have s: "example_reachable example_cfg ''127.0.0.1'' 9000 demo_base (demo_boot, [])" by (rule reachable.reach_start)
  have "example_run example_cfg ''127.0.0.1'' 9000 example_events (demo_boot, []) \<noteq> None" by code_simp
  then have "example_run example_cfg ''127.0.0.1'' 9000 example_events (demo_boot, []) = Some example_demo"
    by (auto simp: example_demo_def)
  with s show ?thesis by (rule example_run_reachable)
qed

lemma example_transparent_witness:
  "\<exists>cs f. calls_of (snd example_demo) 1 = [cs] \<and> dialled ''127.0.0.1'' 9000 f cs \<and>
    to_up (streams_of (log (fst example_demo)) 1) = [1] \<and> prefix [1] (from_client (streams_of (log (fst example_demo)) 1))"
proof -
  let ?g = "streams_of (log (fst example_demo)) 1" and ?m = "map_of (conns (wk (fst example_demo))) 1"
  let ?srv = "\<lparr>cfg = example_cfg, hook = echo_hook (demo_kernel (\<lambda>c. False)) ''127.0.0.1'' 9000, cnt = zero_counters, stop = False\<rparr>"
  have n: "New 4 (example_config example_defaults) (Some (echo_hook (demo_kernel (\<lambda>c. False)) ''127.0.0.1'' 9000)) = Inr ?srv"
    by (simp add: example_new example_cfg_def example_defaults_def)
  have m: "?m \<noteq> None" "\<not> closing (the ?m)" "splitHostPort (ef_upstream example_defaults) = Some (''127.0.0.1'', 9000)"
    and u: "to_up ?g = [1]" by code_simp+
  have r: "example_reachable (cfg ?srv) ''127.0.0.1'' 9000 demo_base example_demo"
    unfolding server.select_convs by (rule example_demo_reachable)
  have s: "?m = Some (the ?m)" using m(1) by (rule option.collapse [symmetric])
  have "transparent ''127.0.0.1'' 9000 (calls_of (snd example_demo) 1) (the ?m) ?g"
    by (rule example_transparent [OF _ n m(3) r s m(2), THEN conjunct2, THEN conjunct2, THEN conjunct2]) simp
  with u show ?thesis unfolding transparent_def by auto
qed

end
