(* ===== verification/Command_Flags.thy ===== *)
theory Command_Flags
  imports Gate_Worker Local_Ips Serve_Loops Bulk_Run
begin

text \<open>
  The commands of the gate from their flags on: the default of every flag, the configuration made of them, and
  how far \<open>main\<close> gets. The parsing of the command line itself is left out, and the parameters of the random
  delay (\<open>dialp50\<close>, \<open>dialsigma\<close>, \<open>dialcap\<close>), which are floating point. Durations are nanoseconds.
\<close>

definition millisecond :: int where "millisecond = 1000000"
definition microsecond :: int where "microsecond = 1000"

section \<open>The relay on io_uring\<close>

record uring_flags =
  u_addr :: string
  u_port :: int
  u_sinkIP :: string
  u_sinkPort :: int
  u_reqLen :: int
  u_replyLen :: int
  u_authCPU :: int
  u_ring :: nat
  u_hookWorkers :: int
  u_realistic :: bool
  u_statsFile :: string
  u_duplex :: bool
  u_splice :: bool
  u_bufSize :: int
  u_maxConns :: int
  u_acceptBatch :: int
  u_workers :: int
  u_startCore :: int
  u_cores :: string
  u_ports :: int
  u_sinkPorts :: int
  u_sinkIPs :: string
  u_fpMark :: int

definition uring_defaults :: uring_flags where
  "uring_defaults =
    \<lparr>u_addr = ''0.0.0.0'', u_port = 9000, u_sinkIP = ''127.0.0.1'', u_sinkPort = 9100, u_reqLen = int DefaultReqLen,
     u_replyLen = int DefaultReplyLen, u_authCPU = 5 * microsecond, u_ring = 4096, u_hookWorkers = 256,
     u_realistic = False, u_statsFile = [], u_duplex = False, u_splice = False, u_bufSize = 16384, u_maxConns = 50000,
     u_acceptBatch = 64, u_workers = 1, u_startCore = - 1, u_cores = [], u_ports = 1, u_sinkPorts = 1, u_sinkIPs = [],
     u_fpMark = 0\<rparr>"

text \<open>\<open>relayCfg\<close>, in the two records its readers use.\<close>

definition uring_cfg :: "uring_flags \<Rightarrow> relayCfg" where
  "uring_cfg fl =
    \<lparr>cfg_addr = u_addr fl, cfg_port = u_port fl, reqLen = u_reqLen fl, replyLen = u_replyLen fl, duplex = u_duplex fl,
     splice = u_splice fl, bufSize = u_bufSize fl, maxConns = u_maxConns fl, acceptBatch = u_acceptBatch fl\<rparr>"

definition uring_hook :: "uring_flags \<Rightarrow> hook_flags" where
  "uring_hook fl =
    \<lparr>f_authCPU = u_authCPU fl, f_sinkIP = u_sinkIP fl, f_sinkPort = u_sinkPort fl, f_sinkPorts = u_sinkPorts fl,
     f_sinkIPs = u_sinkIPs fl, f_fpMark = u_fpMark fl\<rparr>"

definition uring_start ::
  "kernel \<Rightarrow> uring_flags \<Rightarrow> log \<Rightarrow> (fatal + (nat \<times> int \<times> listener list) list) \<times> log" where
  "uring_start k fl lg =
    relay_main k (uring_cfg fl) (u_cores fl) (u_startCore fl) (u_workers fl) (u_ports fl) lg"

section \<open>The baseline\<close>

record np_flags =
  n_addr :: string
  n_sink :: string
  n_reqLen :: int
  n_authCPU :: int
  n_realistic :: bool
  n_statsFile :: string
  n_ports :: int

definition np_defaults :: np_flags where
  "np_defaults =
    \<lparr>n_addr = ''127.0.0.1:9000'', n_sink = ''127.0.0.1:9100'', n_reqLen = int DefaultReqLen, n_authCPU = 5 * microsecond,
     n_realistic = False, n_statsFile = [], n_ports = 1\<rparr>"

definition np_start :: "(string \<Rightarrow> bool) \<Rightarrow> np_flags \<Rightarrow> np_fatal + string list" where
  "np_start listens fl = np_main listens (n_addr fl) (n_ports fl)"

text \<open>By default both builds do the same work per connection, on the same port, towards the same upstream.\<close>

lemma defaults_comparable:
  "n_reqLen np_defaults = reqLen (uring_cfg uring_defaults)"
  "n_authCPU np_defaults = f_authCPU (uring_hook uring_defaults)"
  "n_realistic np_defaults = u_realistic uring_defaults"
  "n_sink np_defaults = join_host_port (f_sinkIP (uring_hook uring_defaults)) (Itoa (f_sinkPort (uring_hook uring_defaults)))"
  "split_host_port (n_addr np_defaults) = Some (''127.0.0.1'', Itoa (cfg_port (uring_cfg uring_defaults)))"
  by code_simp+

section \<open>The front ends of the storm\<close>

record loadgen_flags =
  g_relay :: string
  g_reqLen :: int
  g_replyLen :: int
  g_inflight :: int
  g_duration :: int
  g_warmup :: int
  g_junkPct :: int
  g_srcSpec :: string
  g_junkViaNet :: bool

definition loadgen_defaults :: loadgen_flags where
  "loadgen_defaults =
    \<lparr>g_relay = ''127.0.0.1:9000'', g_reqLen = int DefaultReqLen, g_replyLen = int DefaultReplyLen, g_inflight = 512,
     g_duration = 10 * second, g_warmup = 2 * second, g_junkPct = 0, g_srcSpec = [], g_junkViaNet = False\<rparr>"

text \<open>The configuration \<open>loadgen\<close> runs, or the error it ends with.\<close>

definition loadgen_config :: "(string \<Rightarrow> storm_error + string list) \<Rightarrow> loadgen_flags \<Rightarrow> storm_error + run_config" where
  "loadgen_config resolve_srcs fl =
    (case resolve_srcs (g_srcSpec fl) of
       Inl err \<Rightarrow> Inl err
     | Inr srcIPs \<Rightarrow>
         Inr \<lparr>rc_Relay = g_relay fl, rc_ReqLen = g_reqLen fl, rc_ReplyLen = g_replyLen fl, rc_InFlight = g_inflight fl,
           rc_Warmup = g_warmup fl, rc_Duration = g_duration fl, rc_JunkPct = g_junkPct fl,
           rc_JunkViaNet = g_junkViaNet fl, rc_SrcIPs = srcIPs\<rparr>)"

record loadgend_flags =
  d_control :: string
  d_sink :: string
  d_relay :: string
  d_reqLen :: int
  d_replyLen :: int
  d_srcSpec :: string
  d_junkPct :: int

definition loadgend_defaults :: loadgend_flags where
  "loadgend_defaults =
    \<lparr>d_control = ''0.0.0.0:9200'', d_sink = ''0.0.0.0:9100'', d_relay = [], d_reqLen = int DefaultReqLen,
     d_replyLen = int DefaultReplyLen, d_srcSpec = ''auto'', d_junkPct = 0\<rparr>"

text \<open>What the daemon serves with, and the address of the sink it hosts, if any.\<close>

definition loadgend_start ::
  "(string \<Rightarrow> storm_error + string list) \<Rightarrow> loadgend_flags \<Rightarrow> storm_error + (daemon_flags \<times> string option)" where
  "loadgend_start resolve_srcs fl =
    (case resolve_srcs (d_srcSpec fl) of
       Inl err \<Rightarrow> Inl err
     | Inr srcIPs \<Rightarrow>
         Inr (\<lparr>fl_relay = d_relay fl, fl_reqLen = d_reqLen fl, fl_replyLen = d_replyLen fl, fl_srcIPs = srcIPs,
               fl_junkPct = d_junkPct fl\<rparr>,
              if d_sink fl \<noteq> [] then Some (d_sink fl) else None))"

text \<open>
  The request that asks the daemon for what \<open>loadgen\<close> would run; \<open>show_dur\<close> prints a duration.
\<close>

definition query_for :: "(int \<Rightarrow> string) \<Rightarrow> loadgen_flags \<Rightarrow> query" where
  "query_for show_dur fl =
    [''relay'' \<mapsto> [g_relay fl], ''reqlen'' \<mapsto> [Itoa (g_reqLen fl)], ''replylen'' \<mapsto> [Itoa (g_replyLen fl)],
     ''inflight'' \<mapsto> [Itoa (g_inflight fl)], ''warmup'' \<mapsto> [show_dur (g_warmup fl)],
     ''duration'' \<mapsto> [show_dur (g_duration fl)], ''junkpct'' \<mapsto> [Itoa (g_junkPct fl)],
     ''srcips'' \<mapsto> [g_srcSpec fl], ''junknet'' \<mapsto> [if g_junkViaNet fl then ''1'' else ''0'']]"

text \<open>
  Driving a storm through the daemon is driving it directly: whatever the defaults of the daemon, that request
  runs the configuration \<open>loadgen\<close> runs, or fails for the same reason.
\<close>

lemma Itoa_not_Nil: "Itoa i \<noteq> []"
  by (simp add: Itoa_def dec_str_not_Nil)

lemma front_ends_agree:
  assumes "\<forall>x\<in>{g_reqLen fl, g_replyLen fl, g_inflight fl}. 0 \<le> x \<and> x < 2 ^ 63" and "0 \<le> g_junkPct fl" "g_junkPct fl \<le> 100"
    and "g_relay fl \<noteq> []" and "g_srcSpec fl \<noteq> []" and "\<And>d. dur (show_dur d) = Some d" and "\<And>d. show_dur d \<noteq> []"
  shows "run_request dur resolve_srcs dfl (query_for show_dur fl) =
    (case loadgen_config resolve_srcs fl of Inl err \<Rightarrow> Inl (BadSrcIPs err) | Inr rc \<Rightarrow> Inr rc)"
proof -
  have i: "qint (query_for show_dur fl) ''reqlen'' a = g_reqLen fl" "qint (query_for show_dur fl) ''replylen'' b = g_replyLen fl"
    "qint (query_for show_dur fl) ''inflight'' x = g_inflight fl" "qint (query_for show_dur fl) ''junkpct'' y = g_junkPct fl" for a b x y
    using assms(1-3) by (simp_all add: qint_def qstr_def query_for_def Itoa_not_Nil Atoi_Itoa)
  have d: "qdur dur (query_for show_dur fl) ''warmup'' a = g_warmup fl" "qdur dur (query_for show_dur fl) ''duration'' a = g_duration fl" for a
    using assms(6,7) by (simp_all add: qdur_def qstr_def query_for_def)
  have s: "qstr (query_for show_dur fl) ''relay'' a = g_relay fl" "qstr (query_for show_dur fl) ''srcips'' a = g_srcSpec fl"
    "qstr (query_for show_dur fl) ''junknet'' a = (if g_junkViaNet fl then ''1'' else ''0'')" for a
    using assms(4,5) by (simp_all add: qstr_def query_for_def)
  show ?thesis
    using assms(2-5) by (simp add: run_request_def loadgen_config_def i d s Let_def split: sum.splits)
qed

text \<open>Without that check: a percentage no request may ask for is run by \<open>loadgen\<close>.\<close>

lemma loadgen_unchecked:
  "loadgen_config (\<lambda>s. Inr []) (loadgen_defaults\<lparr>g_junkPct := 150\<rparr>) \<noteq> Inl err \<and>
   run_request dur (\<lambda>s. Inr []) dfl (query_for show_dur (loadgen_defaults\<lparr>g_junkPct := 150\<rparr>)) = Inl BadJunkPct"
proof -
  have "Atoi (Itoa 150) = Some 150" "Itoa 150 \<noteq> []" by code_simp+
  then show ?thesis
    by (simp add: run_request_def loadgen_config_def loadgen_defaults_def query_for_def qstr_def qint_def Let_def)
qed

section \<open>The sink and the generators\<close>

record sink_flags =
  k_addr :: string
  k_reqLen :: int
  k_replyLen :: int
  k_echo :: bool
  k_statsFile :: string
  k_window :: int
  k_ports :: int

definition sink_defaults :: sink_flags where
  "sink_defaults =
    \<lparr>k_addr = ''127.0.0.1:9100'', k_reqLen = int DefaultReqLen, k_replyLen = int DefaultReplyLen, k_echo = False,
     k_statsFile = [], k_window = 512, k_ports = 1\<rparr>"

definition sink_start :: "(int \<Rightarrow> bool) \<Rightarrow> sink_flags \<Rightarrow> sink_fatal + sink_mode" where
  "sink_start free_port fl = sink_main free_port (k_addr fl) (k_ports fl) (k_window fl) (k_echo fl)"

record bulk_flags =
  b_relay :: string
  b_conns :: int
  b_chunk :: int
  b_duration :: int
  b_warmup :: int

definition bulk_defaults :: bulk_flags where
  "bulk_defaults =
    \<lparr>b_relay = ''127.0.0.1:9000'', b_conns = 64, b_chunk = 262144, b_duration = 10 * second, b_warmup = 2 * second\<rparr>"

text \<open>The chunk size and the goroutines; \<open>make\<close> panics on a negative length.\<close>

definition bulk_launch :: "bulk_flags \<Rightarrow> (nat \<times> bulk_sys) option" where
  "bulk_launch fl = (if b_chunk fl < 0 then None else Some (nat (b_chunk fl), bulk_boot (nat (b_conns fl))))"

text \<open>The printed result but for the rates.\<close>

record bulk_report =
  br_Relay :: string
  br_Conns :: int
  br_Chunk :: int
  br_Bytes :: u64
  br_AuditFail :: u64
  br_Errors :: u64

definition bulk_result :: "bulk_flags \<Rightarrow> bulk_sys \<Rightarrow> bulk_report" where
  "bulk_result fl S =
    \<lparr>br_Relay = b_relay fl, br_Conns = b_conns fl, br_Chunk = b_chunk fl, br_Bytes = verified_b S,
     br_AuditFail = auditFail_b S, br_Errors = errs_b S\<rparr>"

record hold_flags =
  h_relay :: string
  h_n :: int
  h_reqLen :: int
  h_ramp :: int
  h_hold :: int
  h_keepalive :: int
  h_kbytes :: int

definition hold_defaults :: hold_flags where
  "hold_defaults =
    \<lparr>h_relay = ''127.0.0.1:21000'', h_n = 100000, h_reqLen = int DefaultReqLen, h_ramp = 12 * second,
     h_hold = 25 * second, h_keepalive = 2 * second, h_kbytes = 16\<rparr>"

definition stagger :: "hold_flags \<Rightarrow> int" where
  "stagger fl = (if h_n fl > 0 then h_ramp fl div h_n fl else 0)"

text \<open>When the dial of connection \<open>i\<close> starts, and when all of them end, from the start on.\<close>

definition dial_at :: "hold_flags \<Rightarrow> nat \<Rightarrow> int" where
  "dial_at fl i = int i * stagger fl"

definition hold_deadline :: "hold_flags \<Rightarrow> int" where
  "hold_deadline fl = h_ramp fl + h_hold fl"

text \<open>The ramp spreads the dials over its length: in order, and all within it.\<close>

lemma ramp_within:
  assumes "0 \<le> h_ramp fl" and "i \<le> j" and "int j < h_n fl" and "0 \<le> h_hold fl"
  shows "0 \<le> dial_at fl i \<and> dial_at fl i \<le> dial_at fl j \<and> dial_at fl j \<le> h_ramp fl \<and> h_ramp fl \<le> hold_deadline fl"
proof -
  have n: "0 < h_n fl" using assms(3) by linarith
  then have s: "0 \<le> stagger fl" using assms(1) by (simp add: stagger_def pos_imp_zdiv_nonneg_iff)
  have "int j * stagger fl \<le> h_n fl * stagger fl" using s assms(3) by (intro mult_right_mono) simp_all
  also have "\<dots> \<le> h_ramp fl" using n by (simp add: stagger_def mult.commute [of "h_n fl"] minus_mod_eq_div_mult [symmetric])
  finally have "int j * stagger fl \<le> h_ramp fl" .
  moreover have "int i * stagger fl \<le> int j * stagger fl" using s assms(2) by (intro mult_right_mono) simp_all
  ultimately show ?thesis using s assms(4) by (simp add: dial_at_def hold_deadline_def)
qed

end
