(* ===== verification/Spec2Isabelle.thy ===== *)
theory Spec2Isabelle
  imports Engine_Session Engine_Ends Bridge_Concurrency Uring_Properties Uring_Wire Server_Properties Gate_Properties Storm_Properties
    Relay_Refinement Command_Properties Serve_Properties Bulk_Properties Worker_Life
    Local_Ips Gate_Worker Echo_Relay Command_Flags
begin

text \<open>
  Verification of flash-relay: a TCP relay engine for Linux in pure Go on a hand-written io_uring binding,
  with the benchmark gate built around it.

  The program. An embedding process calls \<open>New\<close> with a configuration and a hook and then \<open>Run\<close>
  (\<open>flashrelay/flashrelay.go\<close>), which opens one listener per worker and starts the workers. Each worker
  (\<open>flashrelay/worker.go\<close>) owns a ring, an eventfd and a table of connections and runs one loop: submit,
  handle the completions, top the accepts up. For an accepted client it reads the first bytes and queues a job;
  a hook goroutine decides (reject, adopt an upstream descriptor, or ask for more bytes) and hands the decision
  back through the wake-up bridge; the worker then relays both directions until both have ended. Sockets are
  opened by \<open>internal/rawsock\<close>, the ring is \<open>internal/uring\<close>. The gate (\<open>research/gate\<close>) measures
  such a relay (\<open>cmd/relay-uring\<close>) against one on the standard netpoller (\<open>cmd/relay-netpoll\<close>): load
  generators storm the relay, which dials the audit or echo server, and every attempt is audited by pattern.

  Theories, each with the code it models.

  \<^item> \<open>Prelude\<close>: names of machine integers, slices, the interface \<open>conn_table\<close> of a Go map, reachable states and
    the locale \<open>inductive_invariant\<close>. \<open>Machines\<close>: runs, the locale \<open>ranked\<close> (a draining system comes to
    rest), accept loops with shared counters and their locales \<open>conn_handler\<close>, \<open>counted_handler\<close>.
    \<open>Pipes\<close>: the FIFO as an abstract specification, also one that may give up what it holds, and the locales
    \<open>byte_pipe\<close> and \<open>lossy_pipe\<close> of their implementations.
  \<^item> \<open>Engine_Api\<close> (\<open>flashrelay.go\<close>): \<open>Decision\<close>, \<open>Config\<close> and \<open>defaults\<close>, \<open>New\<close>, \<open>Stop\<close>, \<open>Stat\<close>.
  \<^item> \<open>Bridge\<close> and \<open>Bridge_Concurrency\<close> (\<open>bridge\<close> in \<open>worker.go\<close>): push and drain, as one operation and as the atomic
    steps of concurrent goroutines (critical section, swap, write; re-arm, clear, drain).
  \<^item> \<open>Worker\<close> (\<open>runWorker\<close>): one definition per completion handler and closure. A connection is a record
    with the fields of the struct \<open>conn\<close>, the worker one with the local variables of \<open>runWorker\<close>; \<open>None\<close> is a
    panic. The submission ring is a list here; \<open>Uring\<close> refines it. \<open>Engine_System\<close> adds the environment: the
    kernel completes any outstanding entry in any order, a hook run ends with any decision, a batch ends at any
    point. The log of completions determines the byte streams of every connection.
    \<open>Engine_Phases\<close> to \<open>Engine_Reach\<close>: the life of a connection as phases, the invariant that every connection is in one,
    and its preservation, handler by handler. \<open>Engine_Ledger\<close>, \<open>Engine_Accounting\<close>: the conserved quantities
    (open descriptors, live connections, terminal counters) as one locale, interpreted three times.
    \<open>Engine_Demo\<close>: concrete runs. \<open>Engine_Properties\<close>: what all this shows of the engine; \<open>Engine_Ends\<close>: the step that counts a
    connection as completed, and what happens after \<open>Stop\<close>. \<open>Engine_Session\<close>: an abstract session (a decision, then two FIFO queues), which the log of every connection is a run of.
  \<^item> \<open>Uring\<close> (\<open>internal/uring/uring.go\<close>): the wire format of entries, the two rings with 32-bit indices in memory
    shared with the kernel, submission, \<open>New\<close> and \<open>Close\<close>; \<open>Uring_Properties\<close>. \<open>Uring_Wire\<close>: the bytes of an entry in the
    shared memory, and the operation the kernel reads from them.
  \<^item> \<open>Go_Net\<close>, \<open>Host_Forms\<close>, \<open>Ip_Print\<close>: the functions of the standard library that addresses go through (decimal
    numbers, host and port, IP addresses read and printed); \<open>Rawsock\<close> (\<open>internal/rawsock\<close>): listeners and dials as sequences of system calls, any
    of which may fail; \<open>Server_Run\<close>: \<open>Server.Run\<close>, pinning, peer addresses, fingerprint profiles; \<open>Server_Properties\<close>.
    \<open>Worker_Life\<close>: what surrounds the loop of \<open>runWorker\<close>, its eventfd, hook goroutines and ring, and what
    the kernel completes after it has returned.
  \<^item> \<open>Gate_Relay\<close> (\<open>cmd/relay-uring/main.go\<close>): the handlers of the benchmark relay in its three modes. Buffers
    have addresses in a memory, since recycled structures share them over time and the kernel may still hold
    them. \<open>Gate_System\<close>: its environment, as for the engine. \<open>Gate_Invariant\<close> to \<open>Gate_Reach\<close>: the invariant without
    \<open>-duplex\<close>; \<open>Gate_Duplex\<close> to \<open>Gate_Duplex_Reach\<close>: that with \<open>-duplex\<close>; \<open>Gate_Accepts\<close>: what holds in every mode.
    \<open>Gate_Demo\<close>, \<open>Gate_Relay_Properties\<close>, \<open>Gate_Duplex_Properties\<close>: runs and properties. \<open>Relay_Refinement\<close>: both modes
    implement two FIFOs per connection.
  \<^item> \<open>Gate_Proto\<close>, \<open>Gate_Hook\<close>, \<open>Gate_Storm\<close> (\<open>internal/proto\<close>, \<open>hook\<close>, \<open>storm\<close>): patterns and audit; upstream targets;
    one attempt of the storm. \<open>Storm_Run\<close>: a whole storm, its workers as concurrent goroutines under a main one.
    \<open>Local_Ips\<close>: the source addresses a storm dials from, out of the host's interfaces.
    \<open>Gate_Worker\<close>: a whole worker of \<open>relay-uring\<close>, its set-up, bridge and dialling goroutines around the handlers.
    \<open>Gate_Properties\<close>, \<open>Storm_Properties\<close>.
  \<^item> \<open>Load_Commands\<close>, \<open>Relay_Commands\<close> (\<open>cmd/*\<close>, \<open>examples/echo-relay\<close>): the commands; \<open>Command_Flags\<close>: their flags,
    defaults and what their \<open>main\<close> makes of them; \<open>Echo_Relay\<close>: the example's hook under the engine, end to end.
    \<open>Serve_Loops\<close>: the audit and echo servers of \<open>internal/sinksrv\<close>, the accept loops of the baseline, the statistics file; \<open>Bulk_Run\<close>: the bulk and hold
    generators as concurrent goroutines. \<open>Command_Properties\<close>, \<open>Serve_Properties\<close>, \<open>Bulk_Properties\<close>.

  What the properties show. No handler of either relay panics, whatever the kernel and the hooks answer within
  their contract; the engine relays in each direction a prefix of what came in, and the benchmark relay implements
  FIFOs, but for the initial request with \<open>-duplex\<close>; while the engine serves, every descriptor has one owner and none leaks,
  and \<open>worker_leaves\<close> says what is left when a worker returns; counters partition the connections; the limit on connections
  holds; no connection, no job and no hook result is left without something that will take or wake it; a drain ends. The
  rings are FIFO queues across the wrap of their indices, and the kernel reads from an entry the operation asked for. The
  audits of the gate catch what their theorem says and no more: wrong requests at the upstream, wrong replies at the
  client, not a relay that makes the reply up. The ledgers of storm, servers and generators balance however their
  goroutines interleave, and the storm ends. Several theorems of kind \<open>error\<close> show instead what the code gets wrong.

  Modelling decisions. Machine integers have their width wherever they can wrap (ring indices, counters, user
  data, pattern offsets); Go's \<open>int\<close> is an integer. A panic and a \<open>log.Fatal\<close> are values (\<open>None\<close>, \<open>Inl\<close>). Atomic
  counters make the update of a counter one step. Loops that wait for the kernel have fuel (\<open>post_ring\<close>, \<open>enter_loop\<close>);
  \<open>post_succeeds\<close> shows how much is enough. Accept loops and workers run forever: they are transition systems, and
  what is claimed holds in every reachable state.

  What is assumed. The kernel answers as documented (\<open>completion_ok\<close>, \<open>gcompletion_ok\<close>): a receive stores at most
  the room it was given, a send takes at most what it was given, new descriptors are new. \<open>config_ok\<close>: the configuration came out of \<open>defaults\<close>
  with sizes in range. Properties of the benchmark relay that say so are about \<open>relay_mode\<close>: without \<open>-splice\<close> and with
  positive lengths, with or without \<open>-duplex\<close>. Nothing is assumed of how much of a send the kernel takes: with
  \<open>-duplex\<close> the code does not continue a partial send of the initial request, so that the way up is a FIFO that gives
  up what it holds at that point (\<open>lossy_run\<close>), and a FIFO for connections whose request was taken whole
  (\<open>request_taken\<close>). With \<open>-splice\<close> only limits and accounting are claimed, since \<open>gate_splice_crosstalk\<close> refutes the
  separation of connections. What the kernel reads from an entry (\<open>kernel_sees\<close>) is that of the documented interface.

  Not modelled: log messages and tickers; the parsing of command lines (the flags and their
  defaults are modelled, the values given are arguments); HTTP and JSON around the storm; floating-point figures (rates,
  percentiles, the time an attempt took, which is an input, \<open>hook.Lognormal\<close>, whose samples are arguments); name resolution (an argument); \<open>mmap\<close> and the memory order of the
  shared rings (loads and stores of indices are atomic in the model); the eBPF programs in C and the shell and
  Python scripts of \<open>fingerprint\<close> and \<open>research/gate/harness\<close>, which are not Go.
\<close>

end
